(* ===== verification/Prelude.thy ===== *)
theory Prelude
  imports Main "HOL-Library.Word" "HOL-Library.List_Lexorder" "HOL-Library.Monad_Syntax"
begin

unbundle bit_operations_syntax

text \<open>
  Shared vocabulary of the development: the machine types, checked array access, the
  state-and-error monad in which the stateful code is written, the array-shifting loops that
  both libraries use, and generic lemmas on lists and words.

  Conventions. A C++ \<open>int\<close> is an \<open>int\<close> (no arithmetic of the modelled code can leave the
  32-bit range: all values are slots, counts and route indices below \<open>2 ^ 17\<close>); a
  \<open>std::uintN_t\<close> is an \<open>N word\<close>; a \<open>ByteView\<close> is the list of the bytes it views.
  A computation returns an \<open>option\<close>: \<open>None\<close> stands for a run that does not return or
  that reads or writes outside an array (undefined behaviour of the source); \<open>Some\<close> carries
  the status-or-value result, \<open>Inl\<close> for the error status and \<open>Inr\<close> for the value.
\<close>

type_synonym byte = "8 word"
type_synonym bytes = "byte list"
type_synonym u16 = "16 word"
type_synonym u32 = "32 word"
type_synonym u64 = "64 word"
type_synonym key = bytes
type_synonym pos = u64

named_theorems arr_simps "checked array access and array loops"
named_theorems op_simps "unfolding of the state-and-error monad"

section \<open>Checked array access\<close>

text \<open>\<open>a[i]\<close> with an \<open>int\<close> index on a \<open>std::array\<close> or \<open>std::vector\<close>.\<close>

definition at :: "'a list \<Rightarrow> int \<Rightarrow> 'a option" where
  "at xs i = (if 0 \<le> i \<and> i < int (length xs) then Some (xs ! nat i) else None)"

definition put_at :: "'a list \<Rightarrow> int \<Rightarrow> 'a \<Rightarrow> 'a list option" where
  "put_at xs i v = (if 0 \<le> i \<and> i < int (length xs) then Some (xs[nat i := v]) else None)"

lemma at_int [arr_simps]: "i < length xs \<Longrightarrow> at xs (int i) = Some (xs ! i)"
  by (simp add: at_def)

lemma at_zero [arr_simps]: "xs \<noteq> [] \<Longrightarrow> at xs 0 = Some (hd xs)"
  by (cases xs) (simp_all add: at_def)

lemma at_Some_iff: "at xs i = Some x \<longleftrightarrow> 0 \<le> i \<and> i < int (length xs) \<and> x = xs ! nat i"
  by (auto simp: at_def)

lemma put_at_int [arr_simps]: "i < length xs \<Longrightarrow> put_at xs (int i) v = Some (xs[i := v])"
  by (simp add: put_at_def)

lemma put_at_length: "put_at xs i v = Some ys \<Longrightarrow> length ys = length xs"
  by (auto simp: put_at_def split: if_splits)

text \<open>
  The two loops that open and close a slot of an array, with the bounds the source gives:
  \<^verbatim>\<open>for (int i = hi; i > lo; --i) a[i] = a[i - 1];\<close> and
  \<^verbatim>\<open>for (int i = lo; i < hi; ++i) a[i] = a[i + 1];\<close>
\<close>

function shift_up :: "'a list \<Rightarrow> int \<Rightarrow> int \<Rightarrow> 'a list option" where
  "shift_up xs lo i =
     (if i > lo
      then do { x \<leftarrow> at xs (i - 1); ys \<leftarrow> put_at xs i x; shift_up ys lo (i - 1) }
      else Some xs)"
  by pat_completeness auto
termination
  by (relation "measure (\<lambda>(xs, lo, i). nat (i - lo))") auto

function shift_down :: "'a list \<Rightarrow> int \<Rightarrow> int \<Rightarrow> 'a list option" where
  "shift_down xs i hi =
     (if i < hi
      then do { x \<leftarrow> at xs (i + 1); ys \<leftarrow> put_at xs i x; shift_down ys (i + 1) hi }
      else Some xs)"
  by pat_completeness auto
termination
  by (relation "measure (\<lambda>(xs, i, hi). nat (hi - i))") auto

declare shift_up.simps [simp del] shift_down.simps [simp del]

lemma shift_up_spec:
  "lo + k < length xs \<Longrightarrow>
   shift_up xs (int lo) (int lo + int k) =
     Some (take (Suc lo) xs @ take k (drop lo xs) @ drop (Suc (lo + k)) xs)"
proof (induction k arbitrary: xs)
  case 0
  then show ?case
    by (subst shift_up.simps) (simp add: id_take_nth_drop[symmetric])
next
  case (Suc k)
  let ?ys = "xs[Suc (lo + k) := xs ! (lo + k)]"
  have at: "at xs (int lo + int (Suc k) - 1) = Some (xs ! (lo + k))"
    using Suc.prems by (simp add: at_def nat_add_distrib)
  have idx: "int lo + int (Suc k) = int (Suc (lo + k))"
    by simp
  have put: "put_at xs (int lo + int (Suc k)) (xs ! (lo + k)) = Some ?ys"
    unfolding idx using Suc.prems by (intro put_at_int) simp
  have "shift_up xs (int lo) (int lo + int (Suc k)) = shift_up ?ys (int lo) (int lo + int k)"
    using at put by (subst shift_up.simps) simp
  also have "\<dots> = Some (take (Suc lo) ?ys @ take k (drop lo ?ys) @ drop (Suc (lo + k)) ?ys)"
    using Suc.prems by (intro Suc.IH) simp
  also have "take (Suc lo) ?ys @ take k (drop lo ?ys) @ drop (Suc (lo + k)) ?ys =
      take (Suc lo) xs @ take (Suc k) (drop lo xs) @ drop (Suc (lo + Suc k)) xs"
  proof -
    have d: "drop (Suc (lo + k)) ?ys = xs ! (lo + k) # drop (Suc (Suc (lo + k))) xs"
      using Suc.prems by (simp add: drop_update_swap Cons_nth_drop_Suc[symmetric])
    have "take k (drop lo ?ys) = take k (drop lo xs)"
      by (simp add: drop_update_swap)
    moreover have "take (Suc k) (drop lo xs) = take k (drop lo xs) @ [xs ! (lo + k)]"
      using Suc.prems by (simp add: take_Suc_conv_app_nth)
    ultimately show ?thesis
      using d by simp
  qed
  finally show ?case .
qed

lemma shift_down_spec:
  "lo + k < length xs \<Longrightarrow>
   shift_down xs (int lo) (int lo + int k) =
     Some (take lo xs @ take k (drop (Suc lo) xs) @ drop (lo + k) xs)"
proof (induction k arbitrary: xs lo)
  case 0
  then show ?case
    by (subst shift_down.simps) simp
next
  case (Suc k)
  let ?ys = "xs[lo := xs ! Suc lo]"
  have at: "at xs (int lo + 1) = Some (xs ! Suc lo)"
    using Suc.prems by (simp add: at_def nat_add_distrib)
  have put: "put_at xs (int lo) (xs ! Suc lo) = Some ?ys"
    using Suc.prems by (simp add: put_at_int)
  have "shift_down xs (int lo) (int lo + int (Suc k)) =
      shift_down ?ys (int (Suc lo)) (int (Suc lo) + int k)"
    using at put by (subst shift_down.simps) (simp add: algebra_simps)
  also have "\<dots> = Some (take (Suc lo) ?ys @ take k (drop (Suc (Suc lo)) ?ys) @ drop (Suc lo + k) ?ys)"
    using Suc.prems by (intro Suc.IH) simp
  also have "take (Suc lo) ?ys @ take k (drop (Suc (Suc lo)) ?ys) @ drop (Suc lo + k) ?ys =
      take lo xs @ take (Suc k) (drop (Suc lo) xs) @ drop (lo + Suc k) xs"
  proof -
    have "take (Suc lo) ?ys = take lo xs @ [xs ! Suc lo]"
      using Suc.prems by (simp add: take_Suc_conv_app_nth)
    moreover have "take (Suc k) (drop (Suc lo) xs) = xs ! Suc lo # take k (drop (Suc (Suc lo)) xs)"
      using Suc.prems by (simp add: Cons_nth_drop_Suc[symmetric])
    ultimately show ?thesis
      by simp
  qed
  finally show ?case .
qed

section \<open>The state-and-error monad\<close>

text \<open>
  A function that works on a mutable state returns the state it leaves behind together with
  its status or value, also when it fails: the source mutates in place and does not roll back.
\<close>

type_synonym ('s, 'e, 'a) op = "'s \<Rightarrow> (('e + 'a) \<times> 's) option"

definition ret :: "'a \<Rightarrow> ('s, 'e, 'a) op" where
  "ret a = (\<lambda>s. Some (Inr a, s))"

definition err :: "'e \<Rightarrow> ('s, 'e, 'a) op" where
  "err e = (\<lambda>s. Some (Inl e, s))"

text \<open>\<open>bindM\<close> is the source's \<^verbatim>\<open>auto r = m; if (!r.ok()) return r.status(); ...\<close>\<close>

definition bindM :: "('s, 'e, 'a) op \<Rightarrow> ('a \<Rightarrow> ('s, 'e, 'b) op) \<Rightarrow> ('s, 'e, 'b) op" where
  "bindM m f = (\<lambda>s. Option.bind (m s) (\<lambda>(r, s'). case r of Inl e \<Rightarrow> Some (Inl e, s') | Inr a \<Rightarrow> f a s'))"

text \<open>A pure result, a pure checked access, a read of the state.\<close>

definition res :: "('e + 'a) \<Rightarrow> ('s, 'e, 'a) op" where
  "res r = (\<lambda>s. Some (r, s))"

definition chk :: "'a option \<Rightarrow> ('s, 'e, 'a) op" where
  "chk x = (\<lambda>s. map_option (\<lambda>a. (Inr a, s)) x)"

definition chkres :: "('e + 'a) option \<Rightarrow> ('s, 'e, 'a) op" where
  "chkres x = (\<lambda>s. map_option (\<lambda>r. (r, s)) x)"

lemma ret_apply [op_simps]: "ret a s = Some (Inr a, s)"
  by (simp add: ret_def)

lemma err_apply [op_simps]: "err e s = Some (Inl e, s)"
  by (simp add: err_def)

lemma res_apply [op_simps]: "res r s = Some (r, s)"
  by (simp add: res_def)

lemma chk_Some [op_simps]: "chk (Some a) s = Some (Inr a, s)"
  by (simp add: chk_def)

lemma chkres_Some [op_simps]: "chkres (Some r) s = Some (r, s)"
  by (simp add: chkres_def)

lemma bindM_Inr [op_simps]: "m s = Some (Inr a, s') \<Longrightarrow> bindM m f s = f a s'"
  by (simp add: bindM_def)

lemma bindM_Inl [op_simps]: "m s = Some (Inl e, s') \<Longrightarrow> bindM m f s = Some (Inl e, s')"
  by (simp add: bindM_def)

lemma bindM_None: "m s = None \<Longrightarrow> bindM m f s = None"
  by (simp add: bindM_def)

text \<open>Sequencing is monotone, so that loops over it are least fixed points.\<close>

lemma bindM_mono [partial_function_mono]:
  fixes C :: "('x \<Rightarrow> 'y option) \<Rightarrow> 'c \<Rightarrow> ('a, 'b, 'd) op"
  assumes mf: "\<And>s. monotone (fun_ord option_ord) option_ord (\<lambda>f. B f s)"
    and mg: "\<And>y s. monotone (fun_ord option_ord) option_ord (\<lambda>f. C f y s)"
  shows "monotone (fun_ord option_ord) option_ord (\<lambda>f. bindM (B f) (C f) s)"
  unfolding bindM_def
proof (rule bind_mono)
  show "monotone (fun_ord option_ord) option_ord (\<lambda>f. B f s)"
    by (rule mf)
next
  fix y :: "('b + 'c) \<times> 'a"
  show "monotone (fun_ord option_ord) option_ord
      (\<lambda>f. case y of (r, s') \<Rightarrow> case r of Inl e \<Rightarrow> Some (Inl e, s') | Inr a \<Rightarrow> C f a s')"
    by (cases y; cases "fst y") (auto intro: mg monotoneI simp: option.leq_refl)
qed

text \<open>Monotonicity of branches that return operations.\<close>

lemma if_op_mono [partial_function_mono]:
  assumes "monotone ord ordb (\<lambda>f. A f s)" and "monotone ord ordb (\<lambda>f. B f s)"
  shows "monotone ord ordb (\<lambda>f. (if c then A f else B f) s)"
  using assms by (cases c) simp_all

lemma let_op_mono [partial_function_mono]:
  assumes "\<And>x. monotone ord ordb (\<lambda>f. b f x s)"
  shows "monotone ord ordb (\<lambda>f. Let t (b f) s)"
  using assms by (simp add: Let_def)

section \<open>Checked slices\<close>

text \<open>
  The elements from \<open>lo\<close> up to \<open>hi\<close>: a \<^verbatim>\<open>Span\<close> over a part of an array, or the
  result of a loop that copies that part.
\<close>

definition slice :: "'a list \<Rightarrow> int \<Rightarrow> int \<Rightarrow> 'a list option" where
  "slice xs lo hi =
     (if 0 \<le> lo \<and> lo \<le> hi \<and> hi \<le> int (length xs)
      then Some (take (nat (hi - lo)) (drop (nat lo) xs)) else None)"

lemma slice_nat [arr_simps]:
  "i \<le> j \<Longrightarrow> j \<le> length xs \<Longrightarrow> slice xs (int i) (int j) = Some (take (j - i) (drop i xs))"
  by (simp add: slice_def nat_diff_distrib)

lemma slice_prefix [arr_simps]: "j \<le> length xs \<Longrightarrow> slice xs 0 (int j) = Some (take j xs)"
  using slice_nat [of 0 j xs] by simp

lemma slice_suffix: "i \<le> length xs \<Longrightarrow> slice xs (int i) (int (length xs)) = Some (drop i xs)"
  using slice_nat [of i "length xs" xs] by simp

text \<open>A zero-initialised buffer of \<open>n\<close> elements.\<close>

definition zeros :: "int \<Rightarrow> 'a::zero list option" where
  "zeros n = (if n < 0 then None else Some (replicate (nat n) 0))"

lemma zeros_nat [arr_simps]: "zeros (int n) = Some (replicate n 0)"
  by (simp add: zeros_def)

section \<open>Lists\<close>

lemma take_drop_nth_split: "i < length xs \<Longrightarrow> xs = take i xs @ xs ! i # drop (Suc i) xs"
  by (rule id_take_nth_drop)

lemma list_update_mid: "length xs = n \<Longrightarrow> (xs @ y # zs)[n := v] = xs @ v # zs"
  by (simp add: list_update_append)

section \<open>Words\<close>

lemma unat_less_exp: "unat (w :: 'a::len word) < 2 ^ LENGTH('a)"
  by (rule unsigned_less)

lemma u8_less: "unat (w :: byte) < 256"
  using unat_less_exp [of w] by simp

lemma u16_less: "unat (w :: u16) < 65536"
  using unat_less_exp [of w] by simp

lemma u32_less: "unat (w :: u32) < 2 ^ 32"
  using unat_less_exp [of w] by simp

lemma u64_less: "unat (w :: u64) < 2 ^ 64"
  using unat_less_exp [of w] by simp

lemma unat_ucast_up [simp]: "unat (ucast (d :: u16) :: u32) = unat d"
proof -
  have "unat d < 2 ^ 32"
    using u16_less [of d] by simp
  then show ?thesis
    by (simp add: unsigned_ucast_eq take_bit_nat_eq_self)
qed

lemma ucast_down_up [simp]: "ucast (ucast (d :: u16) :: u32) = d"
  by (rule bit_eqI) (auto simp: bit_ucast_iff)

lemma u32_to_u16_eqI: "unat (x :: u32) = unat (d :: u16) \<Longrightarrow> ucast x = d"
proof -
  assume "unat x = unat d"
  then have "x = ucast d"
    by (intro word_unat_eq_iff [THEN iffD2]) simp
  then show ?thesis
    by simp
qed

end
