(* ===== verification/Diff.thy ===== *)
theory Diff
  imports Prelude
begin

text \<open>
  \<^verbatim>\<open>minpatricia/position.h\<close>, \<^verbatim>\<open>status.h\<close>, \<^verbatim>\<open>diff.h\<close> and \<^verbatim>\<open>GetDiffBit\<close> of \<^verbatim>\<open>node_page.h\<close>:
  limits, status codes, key comparison and the first differing bit of two keys.

  Every byte of a key has nine diff slots: slot 0 says whether the key has that byte at all,
  slots 1 to 8 are its bits, the most significant first. The main result is that
  \<^verbatim>\<open>CompareAndDiffBit\<close> returns the lexicographic order together with the first slot in which
  the keys differ, and that the smaller key has a 0 there. The locale \<open>key_bits\<close> states that
  law as the interface on which the trie theory is built.
\<close>

section \<open>position.h and status.h\<close>

definition kNodeSize :: nat where "kNodeSize = 4096"

definition kMaxNodeReps :: int where "kMaxNodeReps = 339"

definition kChildTag :: u64 where "kChildTag = push_bit 63 1"

definition kMaxDiff :: nat where "kMaxDiff = 65535"

definition kMaxKeySize :: nat where "kMaxKeySize = kMaxDiff div 9"

text \<open>The error codes; \<^verbatim>\<open>kOk\<close> is the \<open>Inr\<close> side of a result.\<close>

datatype mp_status =
    kEqualKeys | kKeyTooLarge | kUnsortedKeys | kMissingKey | kPositionTag
  | kPositionMismatch | kDuplicateKey | kCorruptLayout | kNilRecordStore | kNilNodeStore

lemma kMaxKeySize_eq [simp]: "kMaxKeySize = 7281"
  by (simp add: kMaxKeySize_def kMaxDiff_def)

section \<open>diff.h\<close>

record compare_diff =
  cd_compare :: int
  cd_diff :: u16

definition CheckKeySize :: "key \<Rightarrow> mp_status + unit" where
  "CheckKeySize key = (if length key > kMaxKeySize then Inl kKeyTooLarge else Inr ())"

text \<open>
  \<^verbatim>\<open>std::memcmp\<close> of the C standard library on the first \<open>n\<close> bytes: the sign of the first
  difference, bytes compared as unsigned.
\<close>

fun memcmp :: "bytes \<Rightarrow> bytes \<Rightarrow> nat \<Rightarrow> int" where
  "memcmp (x # xs) (y # ys) (Suc n) = (if x < y then -1 else if x > y then 1 else memcmp xs ys n)"
| "memcmp _ _ _ = 0"

text \<open>\<open>pa\<close> and \<open>pb\<close> are the addresses of the two views (\<^verbatim>\<open>a.data()\<close>, \<^verbatim>\<open>b.data()\<close>).\<close>

definition CompareKeysAt :: "nat \<Rightarrow> bytes \<Rightarrow> nat \<Rightarrow> bytes \<Rightarrow> int" where
  "CompareKeysAt pa a pb b =
     (if pa = pb then (if length a < length b then -1 else if length a > length b then 1 else 0)
      else
        let n = (if length a < length b then length a else length b);
            cmp = (if n \<noteq> 0 then memcmp a b n else 0)
        in if n \<noteq> 0 \<and> cmp < 0 then -1
           else if n \<noteq> 0 \<and> cmp > 0 then 1
           else if length a < length b then -1
           else if length a > length b then 1
           else 0)"

text \<open>Views of different buffers, the case in which the bytes are compared.\<close>

definition CompareKeys :: "bytes \<Rightarrow> bytes \<Rightarrow> int" where
  "CompareKeys a b = CompareKeysAt 0 a 1 b"

partial_function (option) clz_loop :: "u32 \<Rightarrow> u32 \<Rightarrow> u32 \<Rightarrow> u32 option" where
  "clz_loop value msk leading =
     (if value AND msk = 0 then clz_loop value (drop_bit 1 msk) (leading + 1)
      else Some leading)"

definition CountLeadingZeroBits8 :: "u32 \<Rightarrow> u32 option" where
  "CountLeadingZeroBits8 value = clz_loop value 0x80 0"

function common_len :: "bytes \<Rightarrow> bytes \<Rightarrow> nat \<Rightarrow> nat \<Rightarrow> nat" where
  "common_len a b n i = (if i < n \<and> a ! i = b ! i then common_len a b n (i + 1) else i)"
  by pat_completeness auto
termination
  by (relation "measure (\<lambda>(a, b, n, i). n - i)") auto

declare common_len.simps [simp del]

definition CompareAndDiffBit :: "bytes \<Rightarrow> bytes \<Rightarrow> (mp_status + compare_diff) option" where
  "CompareAndDiffBit a b =
     (case CheckKeySize a of Inl e \<Rightarrow> Some (Inl e) | Inr _ \<Rightarrow>
      case CheckKeySize b of Inl e \<Rightarrow> Some (Inl e) | Inr _ \<Rightarrow>
      let n = (if length a < length b then length a else length b);
          i = common_len a b n 0
      in if i = n then
           (if length a = length b then Some (Inl kEqualKeys)
            else let diff = of_nat (i * 9) :: u16 in
              if length a < length b then Some (Inr \<lparr>cd_compare = -1, cd_diff = diff\<rparr>)
              else Some (Inr \<lparr>cd_compare = 1, cd_diff = diff\<rparr>))
         else
           let ax = a ! i; bx = b ! i; x = ucast (ax XOR bx) :: u32 in
           do { leading \<leftarrow> CountLeadingZeroBits8 x;
                let diff = (of_nat (i * 9 + unat leading + 1) :: u16);
                Some (Inr (if ax < bx then \<lparr>cd_compare = -1, cd_diff = diff\<rparr>
                           else \<lparr>cd_compare = 1, cd_diff = diff\<rparr>)) })"

definition FindDiffBit :: "bytes \<Rightarrow> bytes \<Rightarrow> (mp_status + u16) option" where
  "FindDiffBit a b =
     map_option (\<lambda>r. case r of Inl e \<Rightarrow> Inl e | Inr d \<Rightarrow> Inr (cd_diff d)) (CompareAndDiffBit a b)"

text \<open>\<^verbatim>\<open>GetDiffBit\<close> (\<^verbatim>\<open>node_page.h\<close>).\<close>

definition GetDiffBit :: "bytes \<Rightarrow> u16 \<Rightarrow> byte" where
  "GetDiffBit key diff =
     (let byte_idx = unat diff div 9; bit_idx = unat diff mod 9 in
      if bit_idx = 0 then (if byte_idx < length key then 1 else 0)
      else if byte_idx \<ge> length key then 0
      else drop_bit (8 - bit_idx) (key ! byte_idx) AND 1)"

section \<open>The bit view of a key\<close>

definition key_ok :: "key \<Rightarrow> bool" where
  "key_ok k \<longleftrightarrow> length k \<le> kMaxKeySize"

definition key_bit :: "key \<Rightarrow> u16 \<Rightarrow> bool" where
  "key_bit k d \<longleftrightarrow> GetDiffBit k d \<noteq> 0"

lemma CheckKeySize_ok [simp]: "CheckKeySize k = Inr u \<longleftrightarrow> key_ok k"
  by (auto simp: CheckKeySize_def key_ok_def)

lemma CheckKeySize_key_ok: "key_ok k \<Longrightarrow> CheckKeySize k = Inr ()"
  by simp

lemma CheckKeySize_too_large: "\<not> key_ok k \<Longrightarrow> CheckKeySize k = Inl kKeyTooLarge"
  by (auto simp: CheckKeySize_def key_ok_def)

lemma GetDiffBit_range: "GetDiffBit k d = (if key_bit k d then 1 else 0)"
  by (auto simp: key_bit_def GetDiffBit_def Let_def and_one_eq)

lemma key_bit_iff:
  "key_bit k d \<longleftrightarrow> unat d div 9 < length k \<and>
     (unat d mod 9 = 0 \<or> bit (k ! (unat d div 9)) (8 - unat d mod 9))"
  by (auto simp: key_bit_def GetDiffBit_def Let_def and_one_eq bit_iff_odd_drop_bit odd_iff_mod_2_eq_one)

section \<open>Words\<close>

lemma word_less_at_top_bit:
  fixes x y :: "'a::len word"
  assumes up: "\<And>j. j > n \<Longrightarrow> bit x j = bit y j" and ne: "bit x n \<noteq> bit y n"
  shows "x < y \<longleftrightarrow> \<not> bit x n"
proof -
  have *: "u < v" if "\<And>j. j > n \<Longrightarrow> bit u j = bit v j" "\<not> bit u n" "bit v n" for u v :: "'a word"
  proof -
    have eq: "drop_bit (Suc n) u = drop_bit (Suc n) v"
      by (rule bit_eqI) (use that(1) in \<open>simp add: bit_drop_bit_eq\<close>)
    have half: "unat (drop_bit n w) = 2 * unat (drop_bit (Suc n) w) + of_bool (bit w n)" for w :: "'a word"
    proof -
      have "unat (drop_bit n w) = unat w div 2 ^ n"
        by (subst unat_drop_bit_eq) (simp add: drop_bit_eq_div)
      moreover have "unat (drop_bit (Suc n) w) = unat w div 2 ^ n div 2"
        by (subst unat_drop_bit_eq) (simp add: drop_bit_eq_div div_mult2_eq [symmetric] mult.commute)
      moreover have "bit w n = odd (unat w div 2 ^ n)"
        by (simp add: bit_iff_odd [of "unat w", symmetric] bit_unsigned_iff)
      ultimately show ?thesis
        by (simp add: odd_iff_mod_2_eq_one[symmetric] of_bool_def)
    qed
    have "unat (drop_bit n u) < unat (drop_bit n v)"
      using half[of u] half[of v] eq that by simp
    then have "unat u div 2 ^ n < unat v div 2 ^ n"
      by (simp only: unat_drop_bit_eq) (simp add: drop_bit_eq_div)
    then have "unat u < unat v"
      by (meson div_le_mono leD leI)
    then show "u < v"
      by (simp add: word_less_nat_alt)
  qed
  show ?thesis
  proof (cases "bit x n")
    case True
    then have "y < x"
      using * [of y x] up ne by simp
    with True show ?thesis
      by auto
  next
    case False
    then show ?thesis
      using * [of x y] up ne by simp
  qed
qed

section \<open>The first differing bit\<close>

lemma clz_loop_top:
  "bit v t \<Longrightarrow> (\<And>i. t < i \<Longrightarrow> i \<le> t + k \<Longrightarrow> \<not> bit v i) \<Longrightarrow> t + k < 32 \<Longrightarrow>
   clz_loop v (2 ^ (t + k)) l = Some (l + of_nat k)"
proof (induction k arbitrary: l)
  case 0
  then show ?case
    by (subst clz_loop.simps) (simp add: and_exp_eq_0_iff_not_bit)
next
  case (Suc k)
  have half: "drop_bit 1 (2 ^ (t + Suc k) :: u32) = 2 ^ (t + k)"
    by (rule bit_eqI)
      (use Suc.prems(3) in \<open>auto simp: bit_drop_bit_eq bit_exp_iff simp del: power_Suc\<close>)
  have "\<not> bit v (t + Suc k)"
    using Suc.prems(2) by simp
  then have "clz_loop v (2 ^ (t + Suc k)) l = clz_loop v (2 ^ (t + k)) (l + 1)"
    by (subst clz_loop.simps) (simp only: and_exp_eq_0_iff_not_bit half if_True not_False_eq_True)
  also have "\<dots> = Some (l + 1 + of_nat k)"
    by (rule Suc.IH) (use Suc.prems in auto)
  finally show ?case
    by (simp add: algebra_simps)
qed

text \<open>The loop ends on every non-zero byte, at the position of the highest set bit.\<close>

lemma CountLeadingZeroBits8_xor:
  fixes x y :: byte
  assumes "x \<noteq> y"
  obtains t where "t < 8" "bit x t \<noteq> bit y t" "\<And>j. j > t \<Longrightarrow> bit x j = bit y j"
    "CountLeadingZeroBits8 (ucast (x XOR y)) = Some (of_nat (7 - t))"
proof -
  let ?D = "{j. bit x j \<noteq> bit y j}"
  have sub: "?D \<subseteq> {..<8}"
    using bit_imp_le_length [of x] bit_imp_le_length [of y] by auto
  then have fin: "finite ?D"
    by (rule finite_subset) simp
  have ne: "?D \<noteq> {}"
    using assms by (auto simp: bit_eq_iff)
  define t where "t = Max ?D"
  have t: "t \<in> ?D" "\<And>j. j \<in> ?D \<Longrightarrow> j \<le> t"
    using Max_in [OF fin ne] Max_ge [OF fin] by (auto simp: t_def)
  have lt: "t < 8"
    using t(1) sub by auto
  have top: "bit x j = bit y j" if "j > t" for j
    using t(2) [of j] that by auto
  have "clz_loop (ucast (x XOR y)) (2 ^ (t + (7 - t))) 0 = Some (0 + of_nat (7 - t))"
    by (rule clz_loop_top) (use t(1) lt top in \<open>auto simp: bit_ucast_iff bit_xor_iff\<close>)
  then have "CountLeadingZeroBits8 (ucast (x XOR y)) = Some (of_nat (7 - t))"
    using lt by (simp add: CountLeadingZeroBits8_def)
  with lt t(1) top show ?thesis
    using that by blast
qed

lemma common_len_spec:
  "i \<le> n \<Longrightarrow> i \<le> common_len a b n i \<and> common_len a b n i \<le> n \<and>
    (\<forall>j. i \<le> j \<and> j < common_len a b n i \<longrightarrow> a ! j = b ! j) \<and>
    (common_len a b n i < n \<longrightarrow> a ! common_len a b n i \<noteq> b ! common_len a b n i)"
proof (induction a b n i rule: common_len.induct)
  case (1 a b n i)
  show ?case
  proof (cases "i < n \<and> a ! i = b ! i")
    case True
    with 1 show ?thesis
      by (auto simp: common_len.simps [of a b n i])
        (metis Suc_leI le_neq_implies_less)+
  next
    case False
    with 1 show ?thesis
      by (auto simp: common_len.simps [of a b n i])
  qed
qed

text \<open>Lexicographic order through the first difference.\<close>

lemma list_less_at:
  fixes a b :: "'a::linorder list"
  assumes "i < length a" "i < length b" "take i a = take i b" "a ! i \<noteq> b ! i"
  shows "a < b \<longleftrightarrow> a ! i < b ! i"
proof -
  have *: "u < v" if "i < length u" "i < length v" "take i u = take i v" "u ! i < v ! i" for u v :: "'a list"
  proof -
    have "u = take i u @ u ! i # drop (Suc i) u" "v = take i u @ v ! i # drop (Suc i) v"
      using that id_take_nth_drop by metis+
    then show ?thesis
      using that(4) unfolding list_less_def lexord_def by blast
  qed
  show ?thesis
    using * [of a b] * [of b a] assms by (auto dest: order.strict_trans) (metis less_asym neqE)
qed

lemma list_less_prefix:
  fixes a b :: "'a::linorder list"
  assumes "length a < length b" "take (length a) b = a"
  shows "a < b"
proof -
  have "b = a @ drop (length a) b" "drop (length a) b \<noteq> []"
    using assms append_take_drop_id [of "length a" b] by auto
  then show ?thesis
    unfolding list_less_def by (metis lexord_append_rightI neq_Nil_conv)
qed

section \<open>Correctness of the comparison functions\<close>

lemma memcmp_eq: "take n a = take n b \<Longrightarrow> memcmp a b n = 0"
  by (induction a b n rule: memcmp.induct) auto

lemma memcmp_neq:
  "n \<le> length a \<Longrightarrow> n \<le> length b \<Longrightarrow> take n a \<noteq> take n b \<Longrightarrow>
   memcmp a b n = (if take n a < take n b then -1 else 1)"
proof (induction a b n rule: memcmp.induct)
  case (1 x xs y ys n)
  then show ?case
    by (cases x y rule: linorder_cases) auto
qed simp_all

lemma CompareKeys_spec:
  "CompareKeys a b = (if a < b then -1 else if a = b then 0 else 1)"
proof -
  let ?n = "min (length a) (length b)"
  have split: "a = take ?n a @ drop ?n a" "b = take ?n b @ drop ?n b"
    by simp_all
  have len: "length (take ?n a) = length (take ?n b)"
    by simp
  show ?thesis
  proof (cases "take ?n a = take ?n b")
    case True
    then have "length a < length b \<Longrightarrow> a < b" "length b < length a \<Longrightarrow> b < a"
      by (auto intro!: list_less_prefix simp: min_def split: if_splits)
    moreover have "length a = length b \<Longrightarrow> a = b"
      using True by simp
    moreover have "memcmp a b ?n = 0"
      using True by (rule memcmp_eq)
    ultimately show ?thesis
      by (auto simp: CompareKeys_def CompareKeysAt_def Let_def min_def split: if_splits)
  next
    case False
    then obtain i where i: "i < ?n" "take i a = take i b" "a ! i \<noteq> b ! i"
    proof -
      let ?i = "LEAST i. i < ?n \<and> a ! i \<noteq> b ! i"
      have "\<exists>i. i < ?n \<and> a ! i \<noteq> b ! i"
      proof (rule ccontr)
        assume "\<not> (\<exists>i. i < ?n \<and> a ! i \<noteq> b ! i)"
        then have "take ?n a = take ?n b"
          by (intro nth_equalityI) auto
        with False show False
          by blast
      qed
      then have "?i < ?n \<and> a ! ?i \<noteq> b ! ?i"
        by (rule LeastI_ex)
      moreover have "take ?i a = take ?i b"
        using not_less_Least calculation by (intro nth_take_lemma) fastforce+
      ultimately show ?thesis
        using that by blast
    qed
    have lt: "a < b \<longleftrightarrow> a ! i < b ! i"
      using i by (intro list_less_at) auto
    moreover have "take ?n a < take ?n b \<longleftrightarrow> take ?n a ! i < take ?n b ! i"
      using i by (intro list_less_at) (auto simp: min_def)
    ultimately have "memcmp a b ?n = (if a < b then -1 else 1)"
      using False i(1) by (subst memcmp_neq) auto
    moreover have "?n \<noteq> 0"
      using i(1) by linarith
    moreover have "a \<noteq> b"
      using False by auto
    ultimately show ?thesis
      by (auto simp: CompareKeys_def CompareKeysAt_def Let_def min_def split: if_splits)
  qed
qed

lemma CompareKeys_eq_0 [simp]: "CompareKeys a b = 0 \<longleftrightarrow> a = b"
  by (auto simp: CompareKeys_spec)

lemma CompareKeys_neg [simp]: "CompareKeys a b < 0 \<longleftrightarrow> a < b"
  by (auto simp: CompareKeys_spec)

lemma CompareKeys_pos [simp]: "0 < CompareKeys a b \<longleftrightarrow> b < a"
  by (auto simp: CompareKeys_spec)

text \<open>
  The shortcut for two views of one buffer: they start at the same address, so one is a
  prefix of the other, and comparing the sizes is enough.
\<close>

lemma CompareKeysAt_same_buffer:
  assumes "a = take (length a) m" "b = take (length b) m"
  shows "CompareKeysAt p a p b = CompareKeys a b"
proof -
  have "length a < length b \<Longrightarrow> a < b"
    using assms by (intro list_less_prefix) (auto, metis min.absorb1 less_imp_le take_take)
  moreover have "length b < length a \<Longrightarrow> b < a"
    using assms by (intro list_less_prefix) (auto, metis min.absorb1 less_imp_le take_take)
  moreover have "length a = length b \<Longrightarrow> a = b"
    using assms by metis
  ultimately show ?thesis
    by (auto simp: CompareKeys_spec CompareKeysAt_def)
qed

text \<open>The slot \<open>9 * i + r\<close> of a key, for byte indices within the size limit.\<close>

lemma unat_slot: "i < kMaxKeySize \<Longrightarrow> r < 9 \<Longrightarrow> unat (of_nat (i * 9 + r) :: u16) = i * 9 + r"
  unfolding unat_of_nat by simp

lemma slot_less_cases:
  assumes "i < kMaxKeySize" "r < 9" "e < (of_nat (i * 9 + r) :: u16)"
  shows "unat e div 9 < i \<or> unat e div 9 = i \<and> unat e mod 9 < r"
proof -
  have lt: "unat e < i * 9 + r"
    using assms(3) unfolding word_less_nat_alt unat_slot [OF assms(1,2)] .
  show ?thesis
  proof (cases "unat e div 9 < i")
    case False
    with lt assms(2) have "unat e div 9 = i"
      using div_mult_mod_eq [of "unat e" 9] by linarith
    with lt show ?thesis
      using div_mult_mod_eq [of "unat e" 9] by linarith
  qed simp
qed

lemma key_bit_same_byte:
  assumes "unat e div 9 < i" "i \<le> length a" "i \<le> length b" "\<forall>j<i. a ! j = b ! j"
  shows "key_bit a e = key_bit b e"
  using assms by (auto simp: key_bit_iff)

definition diff_at :: "key \<Rightarrow> key \<Rightarrow> u16 \<Rightarrow> bool" where
  "diff_at a b d \<longleftrightarrow> key_bit a d \<noteq> key_bit b d \<and> (\<forall>e<d. key_bit a e = key_bit b e)"

lemma diff_at_prefix:
  assumes "key_ok b" "length a < length b" "\<forall>j<length a. a ! j = b ! j"
  shows "diff_at a b (of_nat (length a * 9)) \<and> key_bit b (of_nat (length a * 9))"
proof -
  have i: "length a < kMaxKeySize"
    using assms(1,2) by (simp add: key_ok_def)
  have u: "unat (of_nat (length a * 9) :: u16) = length a * 9"
    using unat_slot [OF i, of 0] by simp
  have "key_bit a e = key_bit b e" if "e < of_nat (length a * 9)" for e
  proof -
    have "unat e div 9 < length a"
      using slot_less_cases [OF i, of 0 e] that by simp
    then show ?thesis
      using assms by (intro key_bit_same_byte) auto
  qed
  then show ?thesis
    using assms(2) u by (simp add: diff_at_def key_bit_iff)
qed

lemma diff_at_byte:
  assumes ok: "key_ok a" and i: "i < length a" "i < length b" and same: "\<forall>j<i. a ! j = b ! j"
    and t: "t < 8" "bit (a ! i) t \<noteq> bit (b ! i) t" "\<And>j. j > t \<Longrightarrow> bit (a ! i) j = bit (b ! i) j"
  defines "d \<equiv> of_nat (i * 9 + (7 - t) + 1) :: u16"
  shows "diff_at a b d \<and> (key_bit b d \<longleftrightarrow> a ! i < b ! i)"
proof -
  have im: "i < kMaxKeySize"
    using ok i(1) by (simp add: key_ok_def)
  have r: "8 - t < 9" and d: "d = of_nat (i * 9 + (8 - t))"
    using t(1) by (simp_all add: d_def)
  have u: "unat d = i * 9 + (8 - t)"
    unfolding d by (rule unat_slot [OF im r])
  have dm: "unat d div 9 = i" "unat d mod 9 = 8 - t"
    using mod_mult_self3 [of i 9 "8 - t"] t(1) unfolding u by simp_all
  have bits: "key_bit k d \<longleftrightarrow> bit (k ! i) t" if "i < length k" for k
    using that t(1) by (simp add: key_bit_iff dm)
  have "key_bit a e = key_bit b e" if "e < d" for e
    using slot_less_cases [OF im r that [unfolded d]]
  proof (elim disjE conjE)
    assume "unat e div 9 < i"
    then show ?thesis
      using i same by (intro key_bit_same_byte) auto
  next
    assume e: "unat e div 9 = i" "unat e mod 9 < 8 - t"
    then have "unat e mod 9 \<noteq> 0 \<Longrightarrow> t < 8 - unat e mod 9"
      by linarith
    then show ?thesis
      using e(1) i t(3) [of "8 - unat e mod 9"] by (auto simp: key_bit_iff)
  qed
  moreover have "a ! i < b ! i \<longleftrightarrow> bit (b ! i) t"
    using word_less_at_top_bit [of t "a ! i" "b ! i"] t by auto
  ultimately show ?thesis
    using bits i t(2) by (auto simp: diff_at_def)
qed

theorem CompareAndDiffBit_spec:
  assumes "key_ok a" "key_ok b" "a \<noteq> b"
  shows "\<exists>d. CompareAndDiffBit a b = Some (Inr \<lparr>cd_compare = (if a < b then -1 else 1), cd_diff = d\<rparr>) \<and>
    diff_at a b d \<and> (key_bit b d \<longleftrightarrow> a < b)"
proof -
  define n where "n = (if length a < length b then length a else length b)"
  define i where "i = common_len a b n 0"
  have i: "i \<le> n" "\<forall>j<i. a ! j = b ! j" "i < n \<Longrightarrow> a ! i \<noteq> b ! i"
    using common_len_spec [of 0 n a b] by (auto simp: i_def)
  have unf: "CompareAndDiffBit a b =
      (if i = n then if length a = length b then Some (Inl kEqualKeys)
         else Some (Inr \<lparr>cd_compare = (if length a < length b then -1 else 1), cd_diff = of_nat (i * 9)\<rparr>)
       else Option.bind (CountLeadingZeroBits8 (ucast (a ! i XOR b ! i)))
         (\<lambda>l. Some (Inr \<lparr>cd_compare = (if a ! i < b ! i then -1 else 1),
            cd_diff = of_nat (i * 9 + unat l + 1)\<rparr>)))"
    unfolding CompareAndDiffBit_def CheckKeySize_key_ok [OF assms(1)] CheckKeySize_key_ok [OF assms(2)]
      Let_def sum.case n_def [symmetric] i_def [symmetric]
    by (auto intro!: bind_option_cong)
  show ?thesis
  proof (cases "i = n")
    case True
    consider "length a < length b" | "length b < length a" | "length a = length b"
      by linarith
    then show ?thesis
    proof cases
      case 1
      then have "take (length a) b = a"
        using i(2) True by (intro nth_equalityI) (auto simp: n_def)
      then have "a < b"
        using 1 by (intro list_less_prefix)
      with 1 True show ?thesis
        using diff_at_prefix [of b a] assms(2) i(2) unfolding unf by (auto simp: n_def)
    next
      case 2
      then have "take (length b) a = b"
        using i(2) True by (intro nth_equalityI) (auto simp: n_def)
      then have "b < a"
        using 2 by (intro list_less_prefix)
      with 2 True show ?thesis
        using diff_at_prefix [of a b] assms(1) i(2) unfolding unf by (auto simp: n_def diff_at_def)
    next
      case 3
      then have "a = b"
        using i(2) True by (intro nth_equalityI) (auto simp: n_def)
      with assms(3) show ?thesis
        by simp
    qed
  next
    case False
    then have lt: "i < length a" "i < length b" and ne: "a ! i \<noteq> b ! i"
      using i by (auto simp: n_def split: if_splits)
    obtain t where t: "t < 8" "bit (a ! i) t \<noteq> bit (b ! i) t" "\<And>j. j > t \<Longrightarrow> bit (a ! i) j = bit (b ! i) j"
      "CountLeadingZeroBits8 (ucast (a ! i XOR b ! i)) = Some (of_nat (7 - t))"
      using CountLeadingZeroBits8_xor [OF ne] by blast
    have l: "unat (of_nat (7 - t) :: u32) = 7 - t"
      by (simp add: unat_of_nat take_bit_eq_mod)
    have "CompareAndDiffBit a b = Some (Inr \<lparr>cd_compare = (if a ! i < b ! i then -1 else 1),
        cd_diff = of_nat (i * 9 + (7 - t) + 1)\<rparr>)"
      using False unfolding unf t(4) Option.bind.simps l by (simp only: if_False)
    moreover have "a < b \<longleftrightarrow> a ! i < b ! i"
      using lt ne i(2) by (intro list_less_at nth_take_lemma) auto
    ultimately show ?thesis
      using diff_at_byte [OF assms(1) lt i(2) t(1,2,3)] by auto
  qed
qed

lemma CompareAndDiffBit_equal: "key_ok a \<Longrightarrow> CompareAndDiffBit a a = Some (Inl kEqualKeys)"
  using common_len_spec [of 0 "length a" a a] by (auto simp: CompareAndDiffBit_def CheckKeySize_key_ok Let_def)

lemma CompareAndDiffBit_too_large:
  "\<not> key_ok a \<or> \<not> key_ok b \<Longrightarrow> CompareAndDiffBit a b = Some (Inl kKeyTooLarge)"
  by (cases "key_ok a") (auto simp: CompareAndDiffBit_def CheckKeySize_key_ok CheckKeySize_too_large)

section \<open>The law of the bit view\<close>

text \<open>
  What the trie needs of keys: two valid keys in ascending order have a first slot in which
  they differ, with a 0 in the smaller one. \<open>fd\<close> names that slot.
\<close>

definition first_diff :: "('k \<Rightarrow> 'd::linorder \<Rightarrow> bool) \<Rightarrow> 'k \<Rightarrow> 'k \<Rightarrow> 'd \<Rightarrow> bool" where
  "first_diff kb a b d \<longleftrightarrow> kb a d \<noteq> kb b d \<and> (\<forall>e<d. kb a e = kb b e)"

lemma first_diff_sym: "first_diff kb a b d \<longleftrightarrow> first_diff kb b a d"
  by (auto simp: first_diff_def)

lemma first_diff_unique: "first_diff kb a b d \<Longrightarrow> first_diff kb a b e \<Longrightarrow> d = e"
  unfolding first_diff_def by (metis neqE)

locale key_bits =
  fixes valid :: "'k::linorder \<Rightarrow> bool"
    and kb :: "'k \<Rightarrow> 'd::linorder \<Rightarrow> bool"
  assumes first_diff_less: "valid a \<Longrightarrow> valid b \<Longrightarrow> a < b \<Longrightarrow> \<exists>d. first_diff kb a b d \<and> kb b d"
begin

lemma first_diff_ex: "valid a \<Longrightarrow> valid b \<Longrightarrow> a \<noteq> b \<Longrightarrow> \<exists>d. first_diff kb a b d"
  using first_diff_less [of a b] first_diff_less [of b a] first_diff_sym [of kb b a]
  by (cases a b rule: linorder_cases) auto

text \<open>The bit at the first difference decides the order.\<close>

lemma less_iff_bit:
  assumes "valid a" "valid b" "first_diff kb a b d"
  shows "a < b \<longleftrightarrow> kb b d"
proof -
  have "a \<noteq> b"
    using assms(3) by (auto simp: first_diff_def)
  then consider "a < b" | "b < a"
    by (meson neqE)
  then show ?thesis
  proof cases
    case 1
    then show ?thesis
      using first_diff_less [of a b] assms first_diff_unique [OF assms(3)] by blast
  next
    case 2
    then obtain e where "first_diff kb b a e" "kb a e"
      using first_diff_less [of b a] assms by blast
    then have "e = d"
      using first_diff_unique [OF assms(3)] first_diff_sym [of kb b a e] by blast
    with \<open>kb a e\<close> assms(3) have "\<not> kb b d"
      by (simp add: first_diff_def)
    with 2 show ?thesis
      by auto
  qed
qed

text \<open>A common bit string below \<open>d\<close> and a 0 against a 1 at \<open>d\<close> order two keys.\<close>

lemma less_if_bit:
  assumes "valid a" "valid b" "\<forall>e<d. kb a e = kb b e" "\<not> kb a d" "kb b d"
  shows "a < b"
  using less_iff_bit [of a b d] assms by (simp add: first_diff_def)

end

lemma diff_at_first_diff: "diff_at a b d = first_diff key_bit a b d"
  by (simp add: diff_at_def first_diff_def)

interpretation kb: key_bits key_ok key_bit
proof
  fix a b :: key
  assume "key_ok a" "key_ok b" "a < b"
  then show "\<exists>d. first_diff key_bit a b d \<and> key_bit b d"
    using CompareAndDiffBit_spec [of a b] by (auto simp: diff_at_first_diff)
qed

text \<open>The computed difference in terms of the law.\<close>

lemma CompareAndDiffBit_first_diff:
  assumes "key_ok a" "key_ok b" "a \<noteq> b"
  obtains d where "first_diff key_bit a b d"
    "CompareAndDiffBit a b = Some (Inr \<lparr>cd_compare = (if a < b then -1 else 1), cd_diff = d\<rparr>)"
    "FindDiffBit a b = Some (Inr d)"
  using CompareAndDiffBit_spec [OF assms] that by (auto simp: diff_at_first_diff FindDiffBit_def)

end
