(* ===== verification/Route.thy ===== *)
theory Route
  imports Diff
begin

text \<open>
  The packed slot types of \<^verbatim>\<open>node_page.h\<close>: \<^verbatim>\<open>class Rep\<close> (a record position, or a child
  node id under the tag bit) and \<^verbatim>\<open>class Route\<close> (byte index, bit operation and left count in
  one 32-bit word). The lemmas are the packing round trips, the agreement of the packed bit
  test with \<^verbatim>\<open>GetDiffBit\<close>, and the effect of the in-place count updates.
\<close>

section \<open>Rep\<close>

type_synonym rep = u64

definition MakeRecord :: "pos \<Rightarrow> mp_status + rep" where
  "MakeRecord p = (if p AND kChildTag \<noteq> 0 then Inl kPositionTag else Inr p)"

definition MakeChild :: "u64 \<Rightarrow> mp_status + rep" where
  "MakeChild i = (if i AND kChildTag \<noteq> 0 then Inl kPositionTag else Inr (kChildTag OR i))"

definition is_child :: "rep \<Rightarrow> bool" where
  "is_child r \<longleftrightarrow> r AND kChildTag \<noteq> 0"

definition position :: "rep \<Rightarrow> pos" where
  "position r = r AND NOT kChildTag"

definition child_id :: "rep \<Rightarrow> u64" where
  "child_id r = r AND NOT kChildTag"

definition rep_clear :: "rep \<Rightarrow> rep" where
  "rep_clear r = 0"

text \<open>A position or node id without the tag bit.\<close>

definition untagged :: "u64 \<Rightarrow> bool" where
  "untagged x \<longleftrightarrow> \<not> bit x 63"

lemma kChildTag_exp: "kChildTag = 2 ^ 63"
  by (simp add: kChildTag_def)

lemma kChildTag_bit [simp]: "bit kChildTag n \<longleftrightarrow> n = 63"
  by (simp only: kChildTag_exp bit_exp_iff possible_bit_word) auto

lemma and_kChildTag: "x AND kChildTag = 0 \<longleftrightarrow> untagged x"
  by (simp only: kChildTag_exp and_exp_eq_0_iff_not_bit untagged_def)

lemma MakeRecord_untagged: "MakeRecord p = (if untagged p then Inr p else Inl kPositionTag)"
  by (simp add: MakeRecord_def and_kChildTag)

lemma MakeChild_untagged: "MakeChild i = (if untagged i then Inr (kChildTag OR i) else Inl kPositionTag)"
  by (simp add: MakeChild_def and_kChildTag)

lemma is_child_record [simp]: "untagged p \<Longrightarrow> \<not> is_child p"
  by (simp add: is_child_def and_kChildTag)

lemma is_child_child [simp]: "is_child (kChildTag OR i)"
  by (simp only: is_child_def and_kChildTag untagged_def bit_or_iff kChildTag_bit) simp

lemma position_record [simp]: "untagged p \<Longrightarrow> position p = p"
  unfolding position_def bit_eq_iff by (auto simp: untagged_def bit_and_iff bit_not_iff)

lemma child_id_child [simp]: "untagged i \<Longrightarrow> child_id (kChildTag OR i) = i"
  unfolding child_id_def bit_eq_iff by (auto simp: untagged_def bit_and_iff bit_or_iff bit_not_iff)

lemma untagged_iff: "untagged x \<longleftrightarrow> unat x < 2 ^ 63"
proof -
  have "bit x 63 \<longleftrightarrow> odd (unat x div 2 ^ 63)"
    by (simp only: bit_iff_odd [of "unat x", symmetric] bit_unsigned_iff possible_bit_def) simp
  moreover have "unat x < 2 ^ 64"
    using u64_less [of x] by simp
  ultimately show ?thesis
    unfolding untagged_def by (cases "unat x < 2 ^ 63") (auto simp: div_if)
qed

section \<open>Route\<close>

type_synonym route = u32

definition kByteMask :: u32 where "kByteMask = push_bit 13 1 - 1"
definition kBitOpOffset :: nat where "kBitOpOffset = 13"
definition kBitOpMask :: u32 where "kBitOpMask = 0xF"
definition kTermBitOp :: u32 where "kTermBitOp = 8"
definition kLeftCountOffset :: nat where "kLeftCountOffset = 17"

definition Route_Make :: "u16 \<Rightarrow> u16 \<Rightarrow> route" where
  "Route_Make diff left_count =
     (let d = ucast diff :: u32; byte_idx = d div 9; bit_idx = d mod 9;
          bit_op = (if bit_idx \<noteq> 0 then 8 - bit_idx else kTermBitOp)
      in byte_idx OR push_bit kBitOpOffset bit_op OR push_bit kLeftCountOffset (ucast left_count))"

definition route_diff :: "route \<Rightarrow> u16" where
  "route_diff bits =
     (let byte_idx = bits AND kByteMask; bit_op = drop_bit kBitOpOffset bits AND kBitOpMask in
      if bit_op = kTermBitOp then ucast (byte_idx * 9) else ucast (byte_idx * 9 + 8 - bit_op))"

definition left_count :: "route \<Rightarrow> u16" where
  "left_count bits = ucast (drop_bit kLeftCountOffset bits)"

definition inc_left_count :: "route \<Rightarrow> route" where
  "inc_left_count bits = bits + push_bit kLeftCountOffset 1"

definition dec_left_count :: "route \<Rightarrow> route" where
  "dec_left_count bits = bits - push_bit kLeftCountOffset 1"

definition route_bit :: "route \<Rightarrow> bytes \<Rightarrow> byte" where
  "route_bit bits key =
     (let byte_idx = unat (bits AND kByteMask) in
      if byte_idx \<ge> length key then 0
      else let byte = key ! byte_idx;
               bit_op = ucast (drop_bit kBitOpOffset bits AND kBitOpMask) :: byte
           in drop_bit 3 bit_op OR (drop_bit (unat (bit_op AND 7)) byte AND 1))"

subsection \<open>The fields of a packed route\<close>

lemma or_fields:
  fixes a b c :: u32
  assumes "unat a < 2 ^ 13" "unat b < 2 ^ 4" "unat c < 2 ^ 15"
  shows "unat (a OR push_bit 13 b OR push_bit 17 c) = unat a + 2 ^ 13 * unat b + 2 ^ 17 * unat c"
    and "(a OR push_bit 13 b OR push_bit 17 c) AND kByteMask = a"
    and "drop_bit 13 (a OR push_bit 13 b OR push_bit 17 c) AND kBitOpMask = b"
    and "drop_bit 17 (a OR push_bit 13 b OR push_bit 17 c) = c"
proof -
  have small: "n < m" if "unat w < 2 ^ m" "bit w n" for w :: u32 and m n
  proof (rule ccontr)
    assume "\<not> n < m"
    then have "unat w < 2 ^ n"
      using that(1) by (meson less_le_trans power_increasing one_le_numeral not_less)
    then have "\<not> bit (unat w) n"
      by (simp add: bit_iff_odd)
    with that(2) show False
      by (simp add: bit_unsigned_iff)
  qed
  note s = small [OF assms(1)] small [OF assms(2)] small [OF assms(3)]
  have m13: "kByteMask = mask 13" and m4: "kBitOpMask = mask 4"
    by (simp_all add: kByteMask_def kBitOpMask_def mask_eq_exp_minus_1)
  show "(a OR push_bit 13 b OR push_bit 17 c) AND kByteMask = a"
    unfolding m13 by (rule bit_eqI)
      (auto simp: bit_and_iff bit_or_iff bit_push_bit_iff bit_mask_iff dest: s)
  show "drop_bit 13 (a OR push_bit 13 b OR push_bit 17 c) AND kBitOpMask = b"
    unfolding m4
    by (rule bit_eqI)
      (auto simp: bit_and_iff bit_or_iff bit_push_bit_iff bit_mask_iff bit_drop_bit_eq dest: s)
  show "drop_bit 17 (a OR push_bit 13 b OR push_bit 17 c) = c"
    by (rule bit_eqI)
      (auto simp: bit_and_iff bit_or_iff bit_push_bit_iff bit_mask_iff bit_drop_bit_eq dest: s)
  have "a AND (push_bit 13 b OR push_bit 17 c) = 0" "push_bit 13 b AND push_bit 17 c = 0"
    by (rule bit_eqI; auto simp: bit_and_iff bit_or_iff bit_push_bit_iff dest!: s)+
  then have "a OR push_bit 13 b OR push_bit 17 c = a + (push_bit 13 b + push_bit 17 c)"
    by (metis disjunctive_add_eq_or)
  moreover have "unat (push_bit 13 b) = 2 ^ 13 * unat b" "unat (push_bit 17 c) = 2 ^ 17 * unat c"
    using assms by (simp_all add: push_bit_eq_mult unat_word_ariths mult.commute)
  ultimately show "unat (a OR push_bit 13 b OR push_bit 17 c) = unat a + 2 ^ 13 * unat b + 2 ^ 17 * unat c"
    using assms by (simp add: unat_word_ariths)
qed

lemma make_fields:
  fixes d :: u16
  defines "b \<equiv> ucast d div 9 :: u32" and "r \<equiv> ucast d mod 9 :: u32"
  shows "unat b = unat d div 9" "unat r = unat d mod 9" "unat b < 2 ^ 13" "unat r < 9"
    "unat (if r \<noteq> 0 then 8 - r else kTermBitOp) = (if unat d mod 9 = 0 then 8 else 8 - unat d mod 9)"
proof -
  have u: "unat (ucast d :: u32) = unat d"
    by simp
  have d: "unat d < 65536"
    using u16_less [of d] by simp
  show b: "unat b = unat d div 9"
    by (simp add: b_def unat_div u)
  show "unat b < 2 ^ 13"
    using d by (simp add: b)
  show r: "unat r = unat d mod 9"
    by (simp add: r_def unat_mod u)
  show "unat r < 9"
    by (simp add: r)
  then have "r \<le> 8"
    by (simp add: word_le_nat_alt)
  then have "unat (8 - r) = 8 - unat d mod 9"
    by (simp add: unat_sub r)
  moreover have "r = 0 \<longleftrightarrow> unat d mod 9 = 0"
    by (simp add: r [symmetric] unat_eq_0)
  ultimately show "unat (if r \<noteq> 0 then 8 - r else kTermBitOp) = (if unat d mod 9 = 0 then 8 else 8 - unat d mod 9)"
    by (simp add: kTermBitOp_def)
qed

lemma Route_Make_fields:
  assumes "unat lc < 2 ^ 15"
  shows "unat (Route_Make d lc) =
      unat d div 9 + 2 ^ 13 * (if unat d mod 9 = 0 then 8 else 8 - unat d mod 9) + 2 ^ 17 * unat lc"
    and "unat (Route_Make d lc AND kByteMask) = unat d div 9"
    and "unat (drop_bit 13 (Route_Make d lc) AND kBitOpMask) = (if unat d mod 9 = 0 then 8 else 8 - unat d mod 9)"
    and "drop_bit 17 (Route_Make d lc) = ucast lc"
proof -
  define b r where "b = (ucast d div 9 :: u32)" and "r = (ucast d mod 9 :: u32)"
  define bop where "bop = (if r \<noteq> 0 then 8 - r else kTermBitOp)"
  note mf = make_fields [of d, folded b_def r_def, folded bop_def]
  have mk: "Route_Make d lc = b OR push_bit 13 bop OR push_bit 17 (ucast lc)"
    by (simp only: Route_Make_def Let_def b_def r_def bop_def kBitOpOffset_def kLeftCountOffset_def)
  have lc: "unat (ucast lc :: u32) = unat lc"
    by simp
  have "unat bop < 2 ^ 4"
    unfolding mf(5) by (simp split: if_splits) linarith
  then show "unat (Route_Make d lc) =
      unat d div 9 + 2 ^ 13 * (if unat d mod 9 = 0 then 8 else 8 - unat d mod 9) + 2 ^ 17 * unat lc"
    "unat (Route_Make d lc AND kByteMask) = unat d div 9"
    "unat (drop_bit 13 (Route_Make d lc) AND kBitOpMask) = (if unat d mod 9 = 0 then 8 else 8 - unat d mod 9)"
    "drop_bit 17 (Route_Make d lc) = ucast lc"
    using or_fields [of b bop "ucast lc"] mf(1,3,5) assms lc unfolding mk by simp_all
qed

theorem left_count_Make [simp]: "unat lc < 2 ^ 15 \<Longrightarrow> left_count (Route_Make d lc) = lc"
  by (simp add: left_count_def kLeftCountOffset_def Route_Make_fields(4))

theorem route_diff_Make [simp]:
  assumes "unat lc < 2 ^ 15"
  shows "route_diff (Route_Make d lc) = d"
proof -
  define b o' where "b = Route_Make d lc AND kByteMask" and "o' = drop_bit 13 (Route_Make d lc) AND kBitOpMask"
  have b: "unat b = unat d div 9" and o': "unat o' = (if unat d mod 9 = 0 then 8 else 8 - unat d mod 9)"
    using Route_Make_fields [OF assms, of d] by (simp_all add: b_def o'_def)
  have dv: "9 * (unat d div 9) + unat d mod 9 = unat d" and dlt: "unat d < 65536"
    using u16_less [of d] by simp_all
  have b9: "unat (b * 9) = 9 * (unat d div 9)"
    using dv dlt by (simp add: unat_word_ariths b)
  have "unat (b * 9 + 8 - o') = unat d" if "unat d mod 9 \<noteq> 0"
  proof -
    have o1: "unat o' = 8 - unat d mod 9"
      using o' that by simp
    have "unat (b * 9 + 8) = 9 * (unat d div 9) + 8"
      using dv dlt by (simp add: unat_word_ariths b)
    moreover have "o' \<le> b * 9 + 8"
      using o1 calculation by (simp add: word_le_nat_alt)
    ultimately show ?thesis
      using dv o1 mod_less_divisor [of 9 "unat d"] by (simp add: unat_sub)
  qed
  moreover have "unat (b * 9) = unat d" if "unat d mod 9 = 0"
    using dv that b9 by simp
  moreover have "o' = kTermBitOp \<longleftrightarrow> unat d mod 9 = 0"
  proof -
    have "o' = kTermBitOp \<longleftrightarrow> unat o' = 8"
      by (simp add: kTermBitOp_def word_unat_eq_iff)
    then show ?thesis
      unfolding o' by auto
  qed
  ultimately have "unat (if o' = kTermBitOp then b * 9 else b * 9 + 8 - o') = unat d"
    by auto
  then have "ucast (if o' = kTermBitOp then b * 9 else b * 9 + 8 - o') = d"
    by (rule u32_to_u16_eqI)
  then show ?thesis
    by (simp add: route_diff_def Let_def b_def [symmetric] o'_def [symmetric] kBitOpOffset_def if_distrib)
qed

text \<open>The packed test and the unpacked one read the same bit.\<close>

theorem route_bit_Make:
  assumes "unat lc < 2 ^ 15"
  shows "route_bit (Route_Make d lc) key = GetDiffBit key d"
proof -
  define bo where "bo = drop_bit 13 (Route_Make d lc) AND kBitOpMask"
  have bo: "unat bo = (if unat d mod 9 = 0 then 8 else 8 - unat d mod 9)"
    using Route_Make_fields(3) [OF assms, of d] by (simp add: bo_def)
  have bx: "unat (Route_Make d lc AND kByteMask) = unat d div 9"
    using Route_Make_fields(2) [OF assms, of d] .
  have "route_bit (Route_Make d lc) key = GetDiffBit key d" if "unat d mod 9 = 0"
  proof -
    have "bo = 8"
      using bo that by (simp add: word_unat_eq_iff)
    moreover have "1 OR (x AND 1) = (1 :: byte)" for x
      by (rule bit_eqI) (auto simp: bit_or_iff bit_and_iff bit_1_iff)
    ultimately show ?thesis
      using that by (auto simp: route_bit_def GetDiffBit_def Let_def bx kBitOpOffset_def bo_def [symmetric])
  qed
  moreover have "route_bit (Route_Make d lc) key = GetDiffBit key d" if nz: "unat d mod 9 \<noteq> 0"
  proof -
    have u: "unat bo = 8 - unat d mod 9"
      using bo nz by simp
    then have "unat bo < 8"
      using nz by linarith
    then have "unat bo \<in> {0,1,2,3,4,5,6,7}"
      by auto
    then have "bo \<in> {0,1,2,3,4,5,6,7}"
      by (auto simp: word_unat_eq_iff)
    then have "drop_bit 3 (ucast bo :: byte) = 0" "unat ((ucast bo :: byte) AND 7) = unat bo"
      by auto
    then show ?thesis
      using nz u by (auto simp: route_bit_def GetDiffBit_def Let_def bx kBitOpOffset_def bo_def [symmetric])
  qed
  ultimately show ?thesis
    by blast
qed

lemma route_bit_key_bit:
  "unat lc < 2 ^ 15 \<Longrightarrow> route_bit (Route_Make d lc) key = 0 \<longleftrightarrow> \<not> key_bit key d"
  by (simp add: route_bit_Make key_bit_def)

text \<open>The in-place updates of the count field: no carry leaves it below \<open>2 ^ 15\<close>.\<close>

lemma inc_left_count_Make:
  assumes "unat lc + 1 < 2 ^ 15"
  shows "inc_left_count (Route_Make d lc) = Route_Make d (lc + 1)"
proof -
  have lc1: "unat (lc + 1) = unat lc + 1"
    using assms by (simp add: unat_word_ariths)
  have "unat d div 9 < 2 ^ 13"
    using u16_less [of d] by simp
  moreover define op where "op = (if unat d mod 9 = 0 then 8 else 8 - unat d mod 9)"
  moreover have "op \<le> 8"
    by (simp add: op_def)
  ultimately have "unat (Route_Make d lc + 2 ^ 17) = unat (Route_Make d (lc + 1))"
    using assms Route_Make_fields(1) [of lc d, folded op_def] Route_Make_fields(1) [of "lc + 1" d, folded op_def]
    by (simp add: unat_word_ariths lc1)
  then show ?thesis
    by (simp add: inc_left_count_def kLeftCountOffset_def word_unat_eq_iff)
qed

lemma dec_left_count_Make:
  assumes "0 < unat lc" "unat lc < 2 ^ 15"
  shows "dec_left_count (Route_Make d lc) = Route_Make d (lc - 1)"
proof -
  have "unat (lc - 1) + 1 = unat lc"
    using assms by (simp add: unat_sub word_le_nat_alt)
  then have "Route_Make d lc = inc_left_count (Route_Make d (lc - 1))"
    using assms inc_left_count_Make [of "lc - 1" d] by simp
  then show ?thesis
    by (simp add: dec_left_count_def inc_left_count_def)
qed

text \<open>Routes with a count given as a number, the form in which the page proofs use them.\<close>

definition mk_route :: "u16 \<Rightarrow> nat \<Rightarrow> route" where
  "mk_route d n = Route_Make d (of_nat n)"

lemma unat_of_nat_u16: "n < 2 ^ 15 \<Longrightarrow> unat (of_nat n :: u16) = n"
  by (simp add: unat_of_nat)

lemma mk_route_simps [simp]:
  assumes "n < 2 ^ 15"
  shows "uint (left_count (mk_route d n)) = int n" "route_diff (mk_route d n) = d"
    "route_bit (mk_route d n) key = 0 \<longleftrightarrow> \<not> key_bit key d"
proof -
  have u: "unat (of_nat n :: u16) = n"
    by (rule unat_of_nat_u16 [OF assms])
  show "route_diff (mk_route d n) = d"
    "route_bit (mk_route d n) key = 0 \<longleftrightarrow> \<not> key_bit key d"
    using assms u by (simp_all add: mk_route_def route_bit_key_bit)
  have "uint (left_count (mk_route d n)) = uint (of_nat n :: u16)"
    using assms u by (simp add: mk_route_def)
  also have "\<dots> = int (unat (of_nat n :: u16))"
    by simp
  finally show "uint (left_count (mk_route d n)) = int n"
    by (simp only: u)
qed

lemma inc_mk_route: "Suc n < 2 ^ 15 \<Longrightarrow> inc_left_count (mk_route d n) = mk_route d (Suc n)"
  using inc_left_count_Make [of "of_nat n" d] unat_of_nat_u16 [of n] by (simp add: mk_route_def add.commute)

lemma dec_mk_route: "0 < n \<Longrightarrow> n < 2 ^ 15 \<Longrightarrow> dec_left_count (mk_route d n) = mk_route d (n - 1)"
  using dec_left_count_Make [of "of_nat n" d] unat_of_nat_u16 [of n] by (simp add: mk_route_def of_nat_diff)

end
