(* ===== verification/RouteTree.thy ===== *)
theory RouteTree
  imports Route
begin

text \<open>
  The abstract reading of a route table. A node page with \<open>n\<close> slots stores the \<open>n - 1\<close>
  routes of a binary trie over its slots in preorder, each with the number of slots to its
  left. \<open>rtree\<close> is that trie; \<open>routes_of\<close> is what the page stores, \<open>diffs\<close> its
  differences from left to right, \<open>tslot\<close>, \<open>tins\<close> and \<open>tdel\<close> the reference versions of
  lookup, insertion and deletion on which the page operations are specified.
\<close>

datatype 'a rtree = Lf 'a | Nd "'a rtree" u16 "'a rtree"

primrec nl :: "'a rtree \<Rightarrow> nat" where
  "nl (Lf x) = 1"
| "nl (Nd l d r) = nl l + nl r"

primrec leaves :: "'a rtree \<Rightarrow> 'a list" where
  "leaves (Lf x) = [x]"
| "leaves (Nd l d r) = leaves l @ leaves r"

primrec diffs :: "'a rtree \<Rightarrow> u16 list" where
  "diffs (Lf x) = []"
| "diffs (Nd l d r) = diffs l @ d # diffs r"

primrec routes_of :: "'a rtree \<Rightarrow> route list" where
  "routes_of (Lf x) = []"
| "routes_of (Nd l d r) = mk_route d (nl l) # routes_of l @ routes_of r"

text \<open>The slot reached by following the bits of a key.\<close>

primrec tslot :: "'a rtree \<Rightarrow> key \<Rightarrow> nat" where
  "tslot (Lf x) k = 0"
| "tslot (Nd l d r) k = (if key_bit k d then nl l + tslot r k else tslot l k)"

text \<open>
  Insertion of a slot whose key first differs from the subtree at \<open>d\<close>: above the first
  route on the key's path with a larger difference.
\<close>

definition graft :: "'a rtree \<Rightarrow> key \<Rightarrow> u16 \<Rightarrow> 'a \<Rightarrow> 'a rtree" where
  "graft t k d y = (if key_bit k d then Nd t d (Lf y) else Nd (Lf y) d t)"

primrec tins :: "'a rtree \<Rightarrow> key \<Rightarrow> u16 \<Rightarrow> 'a \<Rightarrow> 'a rtree" where
  "tins (Lf x) k d y = graft (Lf x) k d y"
| "tins (Nd l e r) k d y =
     (if d < e then graft (Nd l e r) k d y
      else if key_bit k e then Nd l e (tins r k d y) else Nd (tins l k d y) e r)"

text \<open>The slot it takes.\<close>

primrec ins_slot :: "'a rtree \<Rightarrow> key \<Rightarrow> u16 \<Rightarrow> nat" where
  "ins_slot (Lf x) k d = (if key_bit k d then 1 else 0)"
| "ins_slot (Nd l e r) k d =
     (if d < e then (if key_bit k d then nl l + nl r else 0)
      else if key_bit k e then nl l + ins_slot r k d else ins_slot l k d)"

text \<open>Is there a route on the key's path with a difference larger than \<open>d\<close>?\<close>

primrec above_path :: "'a rtree \<Rightarrow> key \<Rightarrow> u16 \<Rightarrow> bool" where
  "above_path (Lf x) k d = False"
| "above_path (Nd l e r) k d =
     (d < e \<or> (if key_bit k e then above_path r k d else above_path l k d))"

text \<open>Deletion of a slot: its sibling takes the place of their parent.\<close>

fun tdel :: "'a rtree \<Rightarrow> nat \<Rightarrow> 'a rtree" where
  "tdel (Lf x) i = Lf x"
| "tdel (Nd l d r) i =
     (if i < nl l then (if nl l = 1 then r else Nd (tdel l i) d r)
      else (if nl r = 1 then l else Nd l d (tdel r (i - nl l))))"

section \<open>Sizes\<close>

lemma nl_pos: "0 < nl t"
  by (induction t) auto

lemma nl_ge_1: "Suc 0 \<le> nl t"
  using nl_pos [of t] by linarith

lemma length_leaves [simp]: "length (leaves t) = nl t"
  by (induction t) auto

lemma leaves_not_Nil [simp]: "leaves t \<noteq> []"
  by (metis length_leaves length_greater_0_conv nl_pos)

lemma length_diffs [simp]: "length (diffs t) = nl t - 1"
proof (induction t)
  case (Nd l d r)
  then show ?case
    using nl_pos [of l] nl_pos [of r] by simp
qed simp

lemma length_routes_of [simp]: "length (routes_of t) = nl t - 1"
proof (induction t)
  case (Nd l d r)
  then show ?case
    using nl_pos [of l] nl_pos [of r] by simp
qed simp

lemma nl_eq_1_iff: "nl t = 1 \<longleftrightarrow> (\<exists>x. t = Lf x)"
proof (cases t)
  case (Nd l d r)
  then show ?thesis
    using nl_pos [of l] nl_pos [of r] by auto
qed simp

lemma nl_1_tables:
  assumes "nl t = Suc 0"
  shows "diffs t = []" "routes_of t = []"
  using assms by (metis diff_self_eq_0 length_0_conv length_diffs One_nat_def)
    (metis assms diff_self_eq_0 length_0_conv length_routes_of One_nat_def)

lemma tslot_less: "tslot t k < nl t"
  by (induction t) auto

lemma ins_slot_le: "ins_slot t k d \<le> nl t"
  by (induction t) auto

lemma nl_graft [simp]: "nl (graft t k d y) = Suc (nl t)"
  by (simp add: graft_def)

lemma nl_tins [simp]: "nl (tins t k d y) = Suc (nl t)"
  by (induction t) auto

lemma nl_tdel: "2 \<le> nl t \<Longrightarrow> i < nl t \<Longrightarrow> nl (tdel t i) = nl t - 1"
proof (induction t arbitrary: i)
  case (Nd l d r)
  show ?case
  proof (cases "i < nl l")
    case True
    with Nd.IH(1) [of i] nl_pos [of l] show ?thesis
      by (cases "nl l = 1") auto
  next
    case False
    with Nd.IH(2) [of "i - nl l"] Nd.prems nl_pos [of r] show ?thesis
      by (cases "nl r = 1") auto
  qed
qed simp

section \<open>Leaves of the reference operations\<close>

lemma leaves_graft:
  "leaves (graft t k d y) = (if key_bit k d then leaves t @ [y] else y # leaves t)"
  by (simp add: graft_def)

lemma leaves_tins:
  "leaves (tins t k d y) = take (ins_slot t k d) (leaves t) @ y # drop (ins_slot t k d) (leaves t)"
proof (induction t)
  case (Nd l e r)
  then show ?case
    using ins_slot_le [of l k d] by (auto simp: leaves_graft)
qed (simp add: leaves_graft)

lemma leaves_tdel:
  "2 \<le> nl t \<Longrightarrow> i < nl t \<Longrightarrow> leaves (tdel t i) = take i (leaves t) @ drop (Suc i) (leaves t)"
proof (induction t arbitrary: i)
  case (Nd l d r)
  show ?case
  proof (cases "i < nl l")
    case True
    with Nd.IH(1) [of i] nl_pos [of l] show ?thesis
      by (cases "nl l = 1") auto
  next
    case False
    with Nd.prems have "i - nl l < nl r"
      by simp
    with False Nd.IH(2) [of "i - nl l"] nl_pos [of r] show ?thesis
      by (cases "nl r = 1") (auto simp: Suc_diff_le)
  qed
qed simp

end
