(* ===== verification/Cartesian.thy ===== *)
theory Cartesian
  imports RouteTree "HOL-Library.Tree"
begin

text \<open>
  \<^verbatim>\<open>Index::BuildCartesian\<close> and \<^verbatim>\<open>Index::WritePreorderRoutes\<close> (\<^verbatim>\<open>index.h\<close>): from the
  differences of neighbouring slots to the route table. \<^verbatim>\<open>BuildCartesian\<close> builds the
  Cartesian tree of the sequence (smallest difference at the root) with a stack, as two arrays
  of child indices; \<^verbatim>\<open>WritePreorderRoutes\<close> walks it with a second stack. The results: for
  every sequence the two together write the route table of a heap-ordered trie with exactly
  these differences, and if the differences are those of a given trie whose routes grow
  downwards, they write the table of that trie.
\<close>

record route_frame =
  rf_node :: int
  rf_leaf_l :: int
  rf_leaf_r :: int

record cartesian =
  ct_left :: "int list"
  ct_right :: "int list"
  ct_root :: int

section \<open>The code\<close>

text \<open>The inner \<^verbatim>\<open>while\<close> of \<^verbatim>\<open>BuildCartesian\<close>; the head of the list is the top of the stack.\<close>

fun cart_pop :: "u16 list \<Rightarrow> nat \<Rightarrow> int list \<Rightarrow> int \<Rightarrow> int list \<times> int" where
  "cart_pop ds i [] lst = ([], lst)"
| "cart_pop ds i (t # ts) lst =
     (if ds ! i \<le> ds ! nat t then cart_pop ds i ts t else (t # ts, lst))"

definition cart_step :: "u16 list \<Rightarrow> nat \<Rightarrow> int list \<times> int list \<times> int list \<Rightarrow> int list \<times> int list \<times> int list" where
  "cart_step ds i = (\<lambda>(L, R, st).
     let (st', lst) = cart_pop ds i st (-1);
         L' = (if lst \<noteq> -1 then L[i := lst] else L);
         R' = (case st' of [] \<Rightarrow> R | t # _ \<Rightarrow> R[nat t := int i])
     in (L', R', int i # st'))"

definition BuildCartesian :: "u16 list \<Rightarrow> cartesian option" where
  "BuildCartesian ds =
     (let n = length ds;
          (L, R, st) = fold (cart_step ds) [0..<n] (replicate n (-1), replicate n (-1), [])
      in if st = [] then None
         else Some \<lparr>ct_left = L, ct_right = R, ct_root = last st\<rparr>)"

definition push_frame :: "int \<Rightarrow> int \<Rightarrow> int \<Rightarrow> route_frame list \<Rightarrow> route_frame list" where
  "push_frame c l r fs =
     (if c \<noteq> -1 then \<lparr>rf_node = c, rf_leaf_l = l, rf_leaf_r = r\<rparr> # fs else fs)"

partial_function (option) write_loop ::
  "route list \<Rightarrow> int \<Rightarrow> u16 list \<Rightarrow> int list \<Rightarrow> int list \<Rightarrow> route_frame list \<Rightarrow> route list option" where
  "write_loop out out_idx ds L R stack =
     (case stack of [] \<Rightarrow> Some out
      | frame # fs \<Rightarrow>
        let i = rf_node frame in
        do { d \<leftarrow> at ds i;
             out' \<leftarrow> put_at out out_idx (Route_Make d (word_of_int (i - rf_leaf_l frame + 1)));
             right \<leftarrow> at R i;
             left \<leftarrow> at L i;
             write_loop out' (out_idx + 1) ds L R
               (push_frame left (rf_leaf_l frame) (i + 1)
                 (push_frame right (i + 1) (rf_leaf_r frame) fs)) })"

definition WritePreorderRoutes ::
  "route list \<Rightarrow> u16 list \<Rightarrow> int list \<Rightarrow> int list \<Rightarrow> int \<Rightarrow> int \<Rightarrow> route list option" where
  "WritePreorderRoutes out ds L R root sz =
     write_loop out 0 ds L R [\<lparr>rf_node = root, rf_leaf_l = 0, rf_leaf_r = sz\<rparr>]"

section \<open>What the child arrays represent\<close>

text \<open>
  The pointer \<open>c\<close> leads to a tree that spans the indices from \<open>lo\<close> up to \<open>hi\<close>.
\<close>

inductive arr :: "int list \<Rightarrow> int list \<Rightarrow> int \<Rightarrow> nat \<Rightarrow> nat \<Rightarrow> nat tree \<Rightarrow> bool" for L R where
  arr_leaf: "arr L R (-1) lo lo Leaf"
| arr_node: "lo \<le> m \<Longrightarrow> m < hi \<Longrightarrow> arr L R (L ! m) lo m l \<Longrightarrow> arr L R (R ! m) (Suc m) hi r \<Longrightarrow>
    arr L R (int m) lo hi (Node l m r)"

inductive_cases arr_LeafE: "arr L R c lo hi Leaf"
inductive_cases arr_NodeE: "arr L R c lo hi (Node l m r)"

primrec hp :: "u16 list \<Rightarrow> nat tree \<Rightarrow> bool" where
  "hp ds Leaf = True"
| "hp ds (Node l m r) =
     ((\<forall>x\<in>set_tree l. ds ! m \<le> ds ! x) \<and> (\<forall>x\<in>set_tree r. ds ! m < ds ! x) \<and> hp ds l \<and> hp ds r)"

lemma arr_le: "arr L R c lo hi t \<Longrightarrow> lo \<le> hi"
  by (induction rule: arr.induct) auto

lemma upt_split3: "lo \<le> m \<Longrightarrow> m < hi \<Longrightarrow> [lo..<hi] = [lo..<m] @ m # [Suc m..<hi]"
  by (metis less_imp_le_nat upt_add_eq_append le_add_diff_inverse upt_conv_Cons)

lemma arr_inorder: "arr L R c lo hi t \<Longrightarrow> inorder t = [lo..<hi]"
proof (induction rule: arr.induct)
  case (arr_node lo m hi l r)
  then show ?case
    using upt_split3 [of lo m hi] by simp
qed simp

lemma arr_set: "arr L R c lo hi t \<Longrightarrow> set_tree t = {lo..<hi}"
  by (metis arr_inorder set_inorder set_upt)

lemma arr_frame:
  "arr L R c lo hi t \<Longrightarrow> (\<And>j. lo \<le> j \<Longrightarrow> j < hi \<Longrightarrow> L' ! j = L ! j \<and> R' ! j = R ! j) \<Longrightarrow>
   arr L' R' c lo hi t"
proof (induction rule: arr.induct)
  case (arr_node lo m hi l r)
  have "arr L' R' (L' ! m) lo m l"
    using arr_node by (metis less_trans)
  moreover have "arr L' R' (R' ! m) (Suc m) hi r"
    using arr_node by (metis Suc_leD le_trans)
  ultimately show ?case
    using arr_node.hyps by (intro arr.arr_node)
qed (rule arr.arr_leaf)

section \<open>The stack of BuildCartesian\<close>

primrec base :: "int list \<Rightarrow> nat" where
  "base [] = 0"
| "base (m # ms) = Suc (nat m)"

text \<open>
  The entries of the stack are the nodes on the right spine, bottom first smallest; \<open>c\<close> is
  what the right child of the top points to, and everything right of an entry is larger.
\<close>

primrec chain :: "u16 list \<Rightarrow> int list \<Rightarrow> int list \<Rightarrow> nat \<Rightarrow> int list \<Rightarrow> int \<Rightarrow> bool" where
  "chain ds L R hi [] c = True"
| "chain ds L R hi (m # ms) c =
     (\<exists>k l. m = int k \<and> base ms \<le> k \<and> k < hi \<and> R ! k = c \<and> arr L R (L ! k) (base ms) k l \<and> hp ds l \<and>
        (\<forall>x\<in>{base ms..<k}. ds ! k \<le> ds ! x) \<and> (\<forall>x\<in>{Suc k..<hi}. ds ! k < ds ! x) \<and>
        chain ds L R hi ms m)"

lemma chain_node:
  assumes "chain ds L R hi (m # ms) c" "arr L R c (Suc (nat m)) hi t" "hp ds t"
  shows "\<exists>t'. arr L R m (base ms) hi t' \<and> hp ds t'"
proof -
  obtain k l where k: "m = int k" "base ms \<le> k" "k < hi" "R ! k = c" "arr L R (L ! k) (base ms) k l" "hp ds l"
    "\<forall>x\<in>{base ms..<k}. ds ! k \<le> ds ! x" "\<forall>x\<in>{Suc k..<hi}. ds ! k < ds ! x"
    using assms(1) by auto
  then have "arr L R m (base ms) hi (Node l k t)"
    using assms(2) by (auto intro: arr.arr_node)
  moreover have "hp ds (Node l k t)"
    using k assms arr_set [OF k(5)] arr_set [OF assms(2)] by simp
  ultimately show ?thesis
    by blast
qed

lemma cart_pop_inv:
  assumes "chain ds L R i st lst" "arr L R lst (base st) i t" "hp ds t"
    "\<forall>x\<in>{base st..<i}. ds ! i \<le> ds ! x" "cart_pop ds i st lst = (st', lst')"
  shows "\<exists>t'. chain ds L R i st' lst' \<and> arr L R lst' (base st') i t' \<and> hp ds t' \<and>
    (\<forall>x\<in>{base st'..<i}. ds ! i \<le> ds ! x) \<and> (\<forall>m ms. st' = m # ms \<longrightarrow> ds ! nat m < ds ! i)"
  using assms
proof (induction st arbitrary: lst t)
  case Nil
  then show ?case
    by auto
next
  case (Cons m ms)
  show ?case
  proof (cases "ds ! i \<le> ds ! nat m")
    case True
    obtain t' where t': "arr L R m (base ms) i t'" "hp ds t'"
      using chain_node [OF Cons.prems(1)] Cons.prems(2,3) by auto
    obtain k where k: "m = int k" "\<forall>x\<in>{base ms..<k}. ds ! k \<le> ds ! x" "chain ds L R i ms m"
      using Cons.prems(1) by auto
    have "\<forall>x\<in>{base ms..<i}. ds ! i \<le> ds ! x"
    proof
      fix x assume "x \<in> {base ms..<i}"
      then show "ds ! i \<le> ds ! x"
        using k(1,2) True Cons.prems(4) by (cases x k rule: linorder_cases) (force intro: order_trans)+
    qed
    moreover have "cart_pop ds i ms m = (st', lst')"
      using Cons.prems(5) True by simp
    ultimately show ?thesis
      using Cons.IH [OF k(3) t'] by blast
  next
    case False
    then show ?thesis
      using Cons.prems by auto
  qed
qed

text \<open>Extending the spanned range by one larger element, under changes above the stack.\<close>

lemma chain_extend:
  assumes "chain ds L R hi st c" "\<And>j. j < base st \<Longrightarrow> L' ! j = L ! j \<and> R' ! j = R ! j"
    "\<forall>m ms. st = m # ms \<longrightarrow> ds ! nat m < ds ! hi"
  shows "chain ds L' R' (Suc hi) st c"
  using assms
proof (induction st arbitrary: c)
  case (Cons m ms)
  obtain k l where k: "m = int k" "base ms \<le> k" "k < hi" "R ! k = c" "arr L R (L ! k) (base ms) k l" "hp ds l"
    "\<forall>x\<in>{base ms..<k}. ds ! k \<le> ds ! x" "\<forall>x\<in>{Suc k..<hi}. ds ! k < ds ! x" "chain ds L R hi ms m"
    using Cons.prems(1) by auto
  have lt: "ds ! k < ds ! hi"
    using Cons.prems(3) k(1) by simp
  have "ds ! nat m' < ds ! hi" if "ms = m' # ms'" for m' ms'
    using k(2,3,9) that by (auto intro!: less_trans [OF _ lt])
  then have "chain ds L' R' (Suc hi) ms m"
    using k Cons.prems(2) by (intro Cons.IH) auto
  moreover have "arr L' R' (L' ! k) (base ms) k l"
    using arr_frame [OF k(5)] Cons.prems(2) k(1) by auto
  moreover have "\<forall>x\<in>{Suc k..<Suc hi}. ds ! k < ds ! x"
    using k(8) lt by (auto simp: less_Suc_eq)
  ultimately show ?case
    using k Cons.prems(2) by auto
qed simp

definition cart_inv :: "u16 list \<Rightarrow> nat \<Rightarrow> int list \<times> int list \<times> int list \<Rightarrow> bool" where
  "cart_inv ds i = (\<lambda>(L, R, st). length L = length ds \<and> length R = length ds \<and>
     (\<forall>j. i \<le> j \<and> j < length ds \<longrightarrow> L ! j = -1 \<and> R ! j = -1) \<and>
     chain ds L R i st (-1) \<and> base st = i \<and> (st = [] \<longrightarrow> i = 0))"

lemma cart_step_inv:
  assumes inv: "cart_inv ds i (L, R, st)" and i: "i < length ds"
  shows "cart_inv ds (Suc i) (cart_step ds i (L, R, st))"
proof -
  obtain st' lst where pop: "cart_pop ds i st (-1) = (st', lst)"
    by (cases "cart_pop ds i st (-1)")
  define L' R' where "L' = (if lst \<noteq> -1 then L[i := lst] else L)"
    and "R' = (case st' of [] \<Rightarrow> R | t # _ \<Rightarrow> R[nat t := int i])"
  have step: "cart_step ds i (L, R, st) = (L', R', int i # st')"
    by (simp add: cart_step_def pop L'_def R'_def Let_def)
  have I: "length L = length ds" "length R = length ds"
    "\<And>j. i \<le> j \<Longrightarrow> j < length ds \<Longrightarrow> L ! j = -1 \<and> R ! j = -1"
    "chain ds L R i st (-1)" "base st = i"
    using inv by (auto simp: cart_inv_def)
  have "arr L R (-1) (base st) i Leaf"
    by (simp add: I(5) arr.arr_leaf)
  from cart_pop_inv [OF I(4) this _ _ pop] I(5)
  obtain t where t: "chain ds L R i st' lst" "arr L R lst (base st') i t" "hp ds t"
    "\<forall>x\<in>{base st'..<i}. ds ! i \<le> ds ! x" "\<forall>m ms. st' = m # ms \<longrightarrow> ds ! nat m < ds ! i"
    by auto
  have bi: "base st' \<le> i"
    using arr_le [OF t(2)] .
  have Li: "L' ! i = lst"
    using I(1,3) i by (auto simp: L'_def)
  have Lj: "L' ! j = L ! j" if "j \<noteq> i" for j
    using that by (simp add: L'_def)
  have Rj: "R' ! j = R ! j" if "Suc j \<noteq> base st'" for j
    using that by (cases st') (auto simp: R'_def)
  have arr': "arr L' R' lst (base st') i t"
    using t(2) by (rule arr_frame) (use Lj Rj in auto)
  have low: "chain ds L' R' (Suc i) st' (int i)"
  proof (cases st')
    case (Cons m ms)
    obtain k l where k: "m = int k" "base ms \<le> k" "k < i" "arr L R (L ! k) (base ms) k l" "hp ds l"
      "\<forall>x\<in>{base ms..<k}. ds ! k \<le> ds ! x" "\<forall>x\<in>{Suc k..<i}. ds ! k < ds ! x" "chain ds L R i ms m"
      using t(1) Cons by auto
    have lt: "ds ! k < ds ! i"
      using t(5) Cons k(1) by simp
    have "ds ! nat m' < ds ! i" if "ms = m' # ms'" for m' ms'
      using k(2,3,8) that by (auto intro!: less_trans [OF _ lt])
    then have "chain ds L' R' (Suc i) ms m"
      using k Cons Lj Rj by (intro chain_extend [OF k(8)]) auto
    moreover have "arr L' R' (L ! k) (base ms) k l"
      using k Cons Lj Rj by (intro arr_frame [OF k(4)]) auto
    moreover have "L' ! k = L ! k"
      using k(3) Lj by simp
    moreover have "R' ! k = int i"
      using Cons k(1,3) i I(2) by (simp add: R'_def)
    moreover have "\<forall>x\<in>{Suc k..<Suc i}. ds ! k < ds ! x"
      using k(7) lt by (auto simp: less_Suc_eq)
    ultimately show ?thesis
      using Cons k by auto
  qed simp
  have "R' ! i = -1"
    using Rj [of i] bi I(3) i by simp
  then have "chain ds L' R' (Suc i) (int i # st') (-1)"
    using bi arr' t(3,4) low Li by auto
  moreover have "\<forall>j. Suc i \<le> j \<and> j < length ds \<longrightarrow> L' ! j = -1 \<and> R' ! j = -1"
    using I(3) Lj Rj bi by auto
  moreover have "length L' = length ds" "length R' = length ds"
    using I by (auto simp: L'_def R'_def split: list.splits)
  ultimately show ?thesis
    by (simp add: cart_inv_def step)
qed

lemma cart_fold_inv:
  "n \<le> length ds \<Longrightarrow>
   cart_inv ds n (fold (cart_step ds) [0..<n] (replicate (length ds) (-1), replicate (length ds) (-1), []))"
proof (induction n)
  case 0
  then show ?case
    by (simp add: cart_inv_def)
next
  case (Suc n)
  obtain L R st where f: "fold (cart_step ds) [0..<n]
      (replicate (length ds) (-1), replicate (length ds) (-1), []) = (L, R, st)"
    by (cases "fold (cart_step ds) [0..<n] (replicate (length ds) (-1), replicate (length ds) (-1), [])")
  then have "cart_inv ds n (L, R, st)"
    using Suc by simp
  then show ?case
    using cart_step_inv [of ds n L R st] Suc.prems f by simp
qed

lemma chain_last:
  "chain ds L R hi st c \<Longrightarrow> arr L R c (base st) hi t \<Longrightarrow> hp ds t \<Longrightarrow> st \<noteq> [] \<Longrightarrow>
   \<exists>t'. arr L R (last st) 0 hi t' \<and> hp ds t'"
proof (induction st arbitrary: c t)
  case (Cons m ms)
  obtain t' where t': "arr L R m (base ms) hi t'" "hp ds t'"
    using chain_node [OF Cons.prems(1)] Cons.prems(2,3) by auto
  show ?case
  proof (cases "ms = []")
    case True
    then show ?thesis
      using t' by auto
  next
    case False
    moreover have "chain ds L R hi ms m"
      using Cons.prems(1) by auto
    ultimately show ?thesis
      using Cons.IH t' by simp
  qed
qed simp

theorem BuildCartesian_heap:
  assumes "ds \<noteq> []"
  obtains ct t where "BuildCartesian ds = Some ct" "arr (ct_left ct) (ct_right ct) (ct_root ct) 0 (length ds) t"
    "hp ds t" "ct_root ct \<noteq> -1"
proof -
  obtain L R st where f: "fold (cart_step ds) [0..<length ds]
      (replicate (length ds) (-1), replicate (length ds) (-1), []) = (L, R, st)"
    by (cases "fold (cart_step ds) [0..<length ds] (replicate (length ds) (-1), replicate (length ds) (-1), [])")
  then have inv: "cart_inv ds (length ds) (L, R, st)"
    using cart_fold_inv [of "length ds" ds] by simp
  have "arr L R (-1) (base st) (length ds) Leaf"
    using inv by (auto simp: cart_inv_def intro: arr.arr_leaf)
  moreover have "chain ds L R (length ds) st (-1)" and ne: "st \<noteq> []"
    using inv assms by (auto simp: cart_inv_def)
  ultimately obtain t where t: "arr L R (last st) 0 (length ds) t" "hp ds t"
    using chain_last [of ds L R "length ds" st "-1" Leaf] by auto
  have "last st \<noteq> -1"
    using t(1) assms by (auto elim: arr.cases)
  then show ?thesis
    using that [of "\<lparr>ct_left = L, ct_right = R, ct_root = last st\<rparr>" t] t ne f
    by (simp add: BuildCartesian_def Let_def)
qed

section \<open>The preorder walk\<close>

primrec iroutes :: "u16 list \<Rightarrow> nat \<Rightarrow> nat tree \<Rightarrow> route list" where
  "iroutes ds lo Leaf = []"
| "iroutes ds lo (Node l m r) = mk_route (ds ! m) (m - lo + 1) # iroutes ds lo l @ iroutes ds (Suc m) r"

lemma length_iroutes: "arr L R c lo hi t \<Longrightarrow> length (iroutes ds lo' t) = hi - lo"
  by (induction arbitrary: lo' rule: arr.induct) auto

lemma put_at_mid: "put_at (xs @ y # zs) (int (length xs)) v = Some (xs @ v # zs)"
  by (simp add: put_at_def)

lemma write_loop_arr:
  assumes "arr L R c lo hi t" "length mid = hi - lo" "hi \<le> length ds" "length L = length ds" "length R = length ds"
  shows "write_loop (pre @ mid @ post) (int (length pre)) ds L R (push_frame c (int lo) r fs) =
    write_loop (pre @ iroutes ds lo t @ post) (int (length pre) + int (hi - lo)) ds L R fs"
  using assms
proof (induction arbitrary: pre mid post r fs rule: arr.induct)
  case (arr_leaf lo)
  then show ?case
    by (simp add: push_frame_def)
next
  case (arr_node lo m hi l rt)
  let ?rte = "mk_route (ds ! m) (m - lo + 1)"
  let ?pre1 = "pre @ [?rte]"
  obtain a mid' where mid: "mid = a # mid'"
    using arr_node.hyps arr_node.prems(1) by (cases mid) auto
  define ml mr where "ml = take (m - lo) mid'" and "mr = drop (m - lo) mid'"
  have len: "length mid' = (m - lo) + (hi - Suc m)"
    using arr_node.hyps arr_node.prems(1) mid by simp
  then have mids: "mid' = ml @ mr" "length ml = m - lo" "length mr = hi - Suc m"
    by (simp_all add: ml_def mr_def)
  have m: "m < length ds"
    using arr_node.hyps(2) arr_node.prems(2) by simp
  have rte: "Route_Make (ds ! m) (1 + (of_nat m - of_nat lo)) = ?rte"
    using arr_node.hyps(1) by (simp add: mk_route_def of_nat_diff add.commute)
  have "write_loop (pre @ mid @ post) (int (length pre)) ds L R (push_frame (int m) (int lo) r fs) =
      write_loop (?pre1 @ ml @ mr @ post) (int (length ?pre1)) ds L R
        (push_frame (L ! m) (int lo) (int m + 1) (push_frame (R ! m) (int (Suc m)) r fs))"
    using m arr_node.prems(3,4)
    by (subst write_loop.simps)
      (simp add: push_frame_def [of "int m"] at_int put_at_mid mid mids(1) rte Let_def add.commute)
  also have "\<dots> = write_loop (?pre1 @ iroutes ds lo l @ mr @ post) (int (length ?pre1) + int (m - lo)) ds L R
        (push_frame (R ! m) (int (Suc m)) r fs)"
    using arr_node.prems m mids by (intro arr_node.IH(1)) auto
  also have "\<dots> = write_loop ((?pre1 @ iroutes ds lo l) @ mr @ post) (int (length (?pre1 @ iroutes ds lo l))) ds L R
        (push_frame (R ! m) (int (Suc m)) r fs)"
    using length_iroutes [OF arr_node.hyps(3)] by (simp add: add.assoc)
  also have "\<dots> = write_loop ((?pre1 @ iroutes ds lo l) @ iroutes ds (Suc m) rt @ post)
        (int (length (?pre1 @ iroutes ds lo l)) + int (hi - Suc m)) ds L R fs"
    using arr_node.prems m mids by (intro arr_node.IH(2)) auto
  also have "int (length (?pre1 @ iroutes ds lo l)) + int (hi - Suc m) = int (length pre) + int (hi - lo)"
    using arr_node.hyps(1,2) length_iroutes [OF arr_node.hyps(3)] by simp
  finally show ?case
    by simp
qed

lemma WritePreorderRoutes_arr:
  assumes "arr L R c 0 (length ds) t" "length out = length ds" "length L = length ds" "length R = length ds" "c \<noteq> -1"
  shows "WritePreorderRoutes out ds L R c sz = Some (iroutes ds 0 t)"
proof -
  have "write_loop ([] @ out @ []) (int (length ([] :: route list))) ds L R (push_frame c (int 0) sz []) =
      write_loop ([] @ iroutes ds 0 t @ []) (int (length ([] :: route list)) + int (length ds - 0)) ds L R []"
    using assms by (intro write_loop_arr) auto
  then show ?thesis
    using assms(5) by (simp add: WritePreorderRoutes_def push_frame_def write_loop.simps [of _ _ _ _ _ "[]"])
qed

section \<open>From index trees to tries\<close>

text \<open>Routes grow downwards: the heap order of a trie.\<close>

primrec hord :: "'a rtree \<Rightarrow> bool" where
  "hord (Lf x) = True"
| "hord (Nd l d r) = ((\<forall>e\<in>set (diffs l) \<union> set (diffs r). d < e) \<and> hord l \<and> hord r)"

text \<open>The index tree of a trie whose differences start at index \<open>lo\<close>.\<close>

primrec ix :: "nat \<Rightarrow> 'a rtree \<Rightarrow> nat tree" where
  "ix lo (Lf x) = Leaf"
| "ix lo (Nd l d r) = Node (ix lo l) (lo + nl l - 1) (ix (lo + nl l) r)"

lemma iroutes_ix:
  "(\<And>j. j < nl T - 1 \<Longrightarrow> ds ! (lo + j) = diffs T ! j) \<Longrightarrow> iroutes ds lo (ix lo T) = routes_of T"
proof (induction T arbitrary: lo)
  case (Nd l d r)
  have p: "0 < nl l" "0 < nl r"
    by (rule nl_pos)+
  have "ds ! (lo + nl l - 1) = d"
    using Nd.prems [of "nl l - 1"] p by (simp add: nth_append)
  moreover have "iroutes ds lo (ix lo l) = routes_of l"
  proof (rule Nd.IH(1))
    fix j assume "j < nl l - 1"
    then show "ds ! (lo + j) = diffs l ! j"
      using Nd.prems [of j] by (simp add: nth_append)
  qed
  moreover have "iroutes ds (lo + nl l) (ix (lo + nl l) r) = routes_of r"
  proof (rule Nd.IH(2))
    fix j assume "j < nl r - 1"
    then show "ds ! (lo + nl l + j) = diffs r ! j"
      using Nd.prems [of "nl l + j"] p by (auto simp: nth_append add.assoc Suc_diff_le)
  qed
  ultimately show ?case
    using p by (simp add: Suc_diff_le)
qed simp

text \<open>A heap-ordered index tree over the differences of a downward-growing trie is its index tree.\<close>

lemma inorder_Node_upt:
  assumes "inorder a @ m # inorder b = [lo..<hi]"
  shows "lo \<le> m \<and> m < hi \<and> inorder a = [lo..<m] \<and> inorder b = [Suc m..<hi]"
proof -
  let ?i = "length (inorder a)"
  have len: "?i < hi - lo"
    using arg_cong [OF assms, of length] by simp
  have "m = [lo..<hi] ! ?i"
    by (simp only: assms [symmetric] nth_append_length)
  then have m: "m = lo + ?i"
    using len by simp
  have "inorder a = take ?i [lo..<hi]" "inorder b = drop (Suc ?i) [lo..<hi]"
    by (simp_all add: assms [symmetric])
  then show ?thesis
    using len m by (simp add: take_upt drop_upt)
qed

lemma hp_unique:
  "hord T \<Longrightarrow> inorder t = [lo..<hi] \<Longrightarrow> hi = lo + nl T - 1 \<Longrightarrow>
   (\<And>j. j < nl T - 1 \<Longrightarrow> ds ! (lo + j) = diffs T ! j) \<Longrightarrow> hp ds t \<Longrightarrow> t = ix lo T"
proof (induction T arbitrary: lo hi t)
  case (Lf x)
  then show ?case
    by (cases t) auto
next
  case (Nd l d r)
  have pos: "0 < nl l" "0 < nl r"
    by (rule nl_pos)+
  let ?p = "lo + nl l - 1"
  have dsl: "ds ! (lo + j) = diffs l ! j" if "j < nl l - 1" for j
    using Nd.prems(4) [of j] that by (simp add: nth_append)
  have dsr: "ds ! (lo + nl l + j) = diffs r ! j" if "j < nl r - 1" for j
    using Nd.prems(4) [of "nl l + j"] that pos by (auto simp: nth_append add.assoc Suc_diff_le)
  have dsp: "ds ! ?p = d"
    using Nd.prems(4) [of "nl l - 1"] pos by (simp add: nth_append)
  have "t \<noteq> Leaf"
    using arg_cong [OF Nd.prems(2), of length] Nd.prems(3) pos by (auto)
  then obtain a m b where t: "t = Node a m b"
    by (cases t) auto
  have mr: "lo \<le> m" "m < hi" "inorder a = [lo..<m]" "inorder b = [Suc m..<hi]"
    using inorder_Node_upt [of a m b lo hi] Nd.prems(2) t by auto
  have "m = ?p"
  proof (rule ccontr)
    assume ne: "m \<noteq> ?p"
    have "?p \<in> set_tree a \<or> ?p \<in> set_tree b"
      using mr ne pos Nd.prems(3) by (auto simp flip: set_inorder)
    then have "ds ! m \<le> d"
      using Nd.prems(5) t dsp by fastforce
    moreover have "d < ds ! m"
    proof (cases "m < ?p")
      case True
      then have "ds ! m = diffs l ! (m - lo)" "m - lo < nl l - 1"
        using dsl [of "m - lo"] mr(1) by auto
      then show ?thesis
        using Nd.prems(1) nth_mem [of "m - lo" "diffs l"] by auto
    next
      case False
      then have "ds ! m = diffs r ! (m - (lo + nl l))" "m - (lo + nl l) < nl r - 1"
        using dsr [of "m - (lo + nl l)"] ne mr(2) Nd.prems(3) by auto
      then show ?thesis
        using Nd.prems(1) nth_mem [of "m - (lo + nl l)" "diffs r"] by auto
    qed
    ultimately show False
      by simp
  qed
  moreover have "a = ix lo l"
    using Nd.prems t mr calculation dsl by (intro Nd.IH(1) [of a lo m]) auto
  moreover have "b = ix (lo + nl l) r"
    using Nd.prems t mr calculation dsr pos by (intro Nd.IH(2) [of b "lo + nl l" hi]) auto
  ultimately show ?case
    by (simp add: t)
qed

text \<open>A trie with given differences for every index tree, so the walk always writes a table.\<close>

primrec of_ix :: "u16 list \<Rightarrow> nat tree \<Rightarrow> unit rtree" where
  "of_ix ds Leaf = Lf ()"
| "of_ix ds (Node l m r) = Nd (of_ix ds l) (ds ! m) (of_ix ds r)"

primrec weak_hord :: "'a rtree \<Rightarrow> bool" where
  "weak_hord (Lf x) = True"
| "weak_hord (Nd l d r) =
     ((\<forall>e\<in>set (diffs l). d \<le> e) \<and> (\<forall>e\<in>set (diffs r). d < e) \<and> weak_hord l \<and> weak_hord r)"

lemma of_ix_arr:
  assumes "arr L R c lo hi t" "hi \<le> length ds"
  shows "nl (of_ix ds t) = Suc (hi - lo)" "diffs (of_ix ds t) = map ((!) ds) [lo..<hi]"
    "iroutes ds lo t = routes_of (of_ix ds t)"
proof -
  have "nl (of_ix ds t) = Suc (hi - lo) \<and> diffs (of_ix ds t) = map ((!) ds) [lo..<hi] \<and>
      iroutes ds lo t = routes_of (of_ix ds t)"
    using assms
  proof (induction rule: arr.induct)
    case (arr_node lo m hi l r)
    then show ?case
      using upt_split3 [of lo m hi] by auto
  qed simp
  then show "nl (of_ix ds t) = Suc (hi - lo)" "diffs (of_ix ds t) = map ((!) ds) [lo..<hi]"
    "iroutes ds lo t = routes_of (of_ix ds t)"
    by simp_all
qed

lemma of_ix_hord: "arr L R c lo hi t \<Longrightarrow> hi \<le> length ds \<Longrightarrow> hp ds t \<Longrightarrow> weak_hord (of_ix ds t)"
proof (induction rule: arr.induct)
  case (arr_node lo m hi l r)
  then show ?case
    using of_ix_arr(2) [OF arr_node.hyps(3), of ds] of_ix_arr(2) [OF arr_node.hyps(4), of ds]
      arr_set [OF arr_node.hyps(3)] arr_set [OF arr_node.hyps(4)] by auto
qed simp

section \<open>The two passes together\<close>

text \<open>The route part of \<^verbatim>\<open>RebuildRoutesWithDiffs\<close>: the two passes on an output span of the right size.\<close>

definition build_routes :: "route list \<Rightarrow> u16 list \<Rightarrow> int \<Rightarrow> route list option" where
  "build_routes out ds sz =
     do { ct \<leftarrow> BuildCartesian ds; WritePreorderRoutes out ds (ct_left ct) (ct_right ct) (ct_root ct) sz }"

lemma fold_cart_length:
  "length L = n \<Longrightarrow> length R = n \<Longrightarrow> fold (cart_step ds) xs (L, R, st) = (L', R', st') \<Longrightarrow>
   length L' = n \<and> length R' = n"
proof (induction xs arbitrary: L R st)
  case (Cons x xs)
  obtain L1 R1 st1 where s: "cart_step ds x (L, R, st) = (L1, R1, st1)"
    by (cases "cart_step ds x (L, R, st)")
  then have "length L1 = n" "length R1 = n"
    using Cons.prems by (auto simp: cart_step_def Let_def split: prod.splits list.splits if_splits)
  then show ?case
    using Cons.IH [of L1 R1 st1] Cons.prems(3) s by simp
qed simp

lemma BuildCartesian_length:
  "BuildCartesian ds = Some ct \<Longrightarrow> length (ct_left ct) = length ds \<and> length (ct_right ct) = length ds"
  by (auto simp: BuildCartesian_def Let_def split: prod.splits if_splits dest!: fold_cart_length [rotated 2])

lemma build_routes_ix:
  assumes "ds \<noteq> []" "length out = length ds"
  obtains L R c t where "arr L R c 0 (length ds) t" "hp ds t" "build_routes out ds sz = Some (iroutes ds 0 t)"
proof -
  obtain ct t where ct: "BuildCartesian ds = Some ct"
    "arr (ct_left ct) (ct_right ct) (ct_root ct) 0 (length ds) t" "hp ds t" "ct_root ct \<noteq> -1"
    using BuildCartesian_heap [OF assms(1)] .
  then have "build_routes out ds sz = Some (iroutes ds 0 t)"
    using BuildCartesian_length [OF ct(1)] assms(2) by (simp add: build_routes_def WritePreorderRoutes_arr)
  with ct show ?thesis
    using that by blast
qed

theorem build_routes_total:
  assumes "ds \<noteq> []" "length out = length ds"
  shows "\<exists>T :: unit rtree. build_routes out ds sz = Some (routes_of T) \<and> diffs T = ds \<and> weak_hord T"
proof -
  obtain L R c t where t: "arr L R c 0 (length ds) t" "hp ds t"
    "build_routes out ds sz = Some (iroutes ds 0 t)"
    using build_routes_ix [OF assms] .
  then have "build_routes out ds sz = Some (routes_of (of_ix ds t))" "diffs (of_ix ds t) = ds"
    "weak_hord (of_ix ds t)"
    using of_ix_arr [OF t(1)] of_ix_hord [OF t(1)] by (simp_all add: map_nth)
  then show ?thesis
    by blast
qed

theorem build_routes_trie:
  assumes "hord T" "2 \<le> nl T" "length out = nl T - 1"
  shows "build_routes out (diffs T) sz = Some (routes_of T)"
proof -
  have "diffs T \<noteq> []" "length out = length (diffs T)"
    using assms(2,3) length_diffs [of T] by (auto simp del: length_diffs)
  then obtain L R c t where t: "arr L R c 0 (length (diffs T)) t" "hp (diffs T) t"
    "build_routes out (diffs T) sz = Some (iroutes (diffs T) 0 t)"
    using build_routes_ix by metis
  moreover have "t = ix 0 T"
    using assms arr_inorder [OF t(1)] t(2) by (intro hp_unique [of T t 0 "nl T - 1" "diffs T"]) auto
  ultimately show ?thesis
    using iroutes_ix [of T "diffs T" 0] by simp
qed

end
