(* ===== verification/Patricia.thy ===== *)
theory Patricia
  imports Cartesian
begin

text \<open>
  The ordered Patricia trie, independent of pages: a trie whose leaves are keys, whose every
  inner node separates its two sides at their first differing slot. The laws of key order
  come from the locale \<open>key_bits\<close> (theory \<open>Diff\<close>) through its interpretation \<open>kb\<close>.
  Such a trie is heap-ordered and sorted, lookup by bits finds every key it holds, and the
  reference insertion and deletion preserve it.
\<close>

primrec pat :: "key rtree \<Rightarrow> bool" where
  "pat (Lf k) = key_ok k"
| "pat (Nd l d r) =
     (pat l \<and> pat r \<and>
      (\<forall>a \<in> set (leaves l). \<forall>b \<in> set (leaves r). first_diff key_bit a b d \<and> \<not> key_bit a d))"

section \<open>Tries under a renaming of the leaves\<close>

lemma rtree_map [simp]:
  "nl (map_rtree f T) = nl T" "leaves (map_rtree f T) = map f (leaves T)"
  "diffs (map_rtree f T) = diffs T" "tslot (map_rtree f T) k = tslot T k"
  "ins_slot (map_rtree f T) k d = ins_slot T k d" "above_path (map_rtree f T) k d = above_path T k d"
  "hord (map_rtree f T) = hord T"
  by (induction T) auto

lemma map_rtree_tins: "map_rtree f (tins T k d y) = tins (map_rtree f T) k d (f y)"
  by (induction T) (auto simp: graft_def)

lemma map_rtree_tdel: "map_rtree f (tdel T i) = tdel (map_rtree f T) i"
  by (induction T i rule: tdel.induct) auto

lemma map_rtree_cong_leaves: "(\<And>x. x \<in> set (leaves T) \<Longrightarrow> f x = g x) \<Longrightarrow> map_rtree f T = map_rtree g T"
  by (induction T) auto

lemma set_leaves_tins: "set (leaves (tins T k d y)) = insert y (set (leaves T))"
  by (induction T) (auto simp: leaves_graft)

lemma set_leaves_tdel: "set (leaves (tdel T i)) \<subseteq> set (leaves T)"
  by (induction T i rule: tdel.induct) (auto split: if_splits)

lemma tslot_leaf: "leaves T ! tslot T k \<in> set (leaves T)"
  using tslot_less [of T k] by simp

lemma leaf_Nd:
  "leaves (Nd l e r) ! tslot (Nd l e r) k =
    (if key_bit k e then leaves r ! tslot r k else leaves l ! tslot l k)"
  using tslot_less [of l k] by (simp add: nth_append)

text \<open>Replacing a leaf.\<close>

primrec tset :: "'a rtree \<Rightarrow> nat \<Rightarrow> 'a \<Rightarrow> 'a rtree" where
  "tset (Lf x) n y = Lf y"
| "tset (Nd l d r) n y = (if n < nl l then Nd (tset l n y) d r else Nd l d (tset r (n - nl l) y))"

lemma tset_simps [simp]: "nl (tset T n y) = nl T" "routes_of (tset T n y) = routes_of T"
  by (induction T arbitrary: n) auto

lemma leaves_tset: "n < nl T \<Longrightarrow> leaves (tset T n y) = (leaves T)[n := y]"
  by (induction T arbitrary: n) (auto simp: list_update_append)

lemma map_rtree_tset: "map_rtree f (tset T n y) = tset (map_rtree f T) n (f y)"
  by (induction T arbitrary: n) auto

lemma tset_same: "n < nl T \<Longrightarrow> tset T n (leaves T ! n) = T"
  by (induction T arbitrary: n) (auto simp: nth_append)

section \<open>Heap order and key order\<close>

lemma pat_key_ok: "pat T \<Longrightarrow> k \<in> set (leaves T) \<Longrightarrow> key_ok k"
  by (induction T) auto

lemma pat_diff_witness:
  "pat T \<Longrightarrow> e \<in> set (diffs T) \<Longrightarrow> \<exists>a \<in> set (leaves T). \<exists>b \<in> set (leaves T). first_diff key_bit a b e"
proof (induction T)
  case (Nd l d r)
  obtain a b where "a \<in> set (leaves l)" "b \<in> set (leaves r)"
    using leaves_not_Nil [of l] leaves_not_Nil [of r] by (meson last_in_set)
  then show ?case
    using Nd by fastforce
qed simp

lemma pat_hord: "pat T \<Longrightarrow> hord T"
proof (induction T)
  case (Nd l d r)
  obtain a0 b0 where ab: "a0 \<in> set (leaves l)" "b0 \<in> set (leaves r)"
    using leaves_not_Nil [of l] leaves_not_Nil [of r] by (meson last_in_set)
  have "d < e" if e: "e \<in> set (diffs l)" for e
  proof (rule ccontr)
    assume "\<not> d < e"
    obtain a a' where a: "a \<in> set (leaves l)" "a' \<in> set (leaves l)" "first_diff key_bit a a' e"
      using pat_diff_witness [OF _ e] Nd.prems by auto
    then have "first_diff key_bit a b0 d" "first_diff key_bit a' b0 d" "\<not> key_bit a d" "\<not> key_bit a' d"
      using Nd.prems ab by auto
    with a(3) \<open>\<not> d < e\<close> show False
      by (cases "e = d") (auto simp: first_diff_def)
  qed
  moreover have "d < e" if e: "e \<in> set (diffs r)" for e
  proof (rule ccontr)
    assume "\<not> d < e"
    obtain b b' where b: "b \<in> set (leaves r)" "b' \<in> set (leaves r)" "first_diff key_bit b b' e"
      using pat_diff_witness [OF _ e] Nd.prems by auto
    then have "first_diff key_bit a0 b d" "first_diff key_bit a0 b' d"
      using Nd.prems ab by auto
    with b(3) \<open>\<not> d < e\<close> show False
      by (cases "e = d") (auto simp: first_diff_def)
  qed
  ultimately show ?case
    using Nd by auto
qed simp

text \<open>Below all of its differences, the keys of a trie have the same bits.\<close>

lemma pat_agree:
  "pat T \<Longrightarrow> a \<in> set (leaves T) \<Longrightarrow> b \<in> set (leaves T) \<Longrightarrow> (\<And>d. d \<in> set (diffs T) \<Longrightarrow> e < d) \<Longrightarrow>
   key_bit a e = key_bit b e"
proof (induction T)
  case (Nd l d r)
  have "e < d"
    by (rule Nd.prems(4)) simp
  then have cross: "key_bit x e = key_bit y e" if "x \<in> set (leaves l)" "y \<in> set (leaves r)" for x y
    using that Nd.prems(1) by (auto simp: first_diff_def)
  show ?case
    using Nd.prems(2,3) Nd.IH Nd.prems(1,4) cross by (auto 4 3)
qed simp

theorem pat_sorted: "pat T \<Longrightarrow> sorted_wrt (<) (leaves T)"
proof (induction T)
  case (Nd l d r)
  have "a < b" if "a \<in> set (leaves l)" "b \<in> set (leaves r)" for a b
    using that Nd.prems pat_key_ok kb.less_if_bit [of a b d] by (fastforce simp: first_diff_def)
  with Nd show ?case
    by (auto simp: sorted_wrt_append)
qed simp

lemma pat_distinct: "pat T \<Longrightarrow> distinct (leaves T)"
  using pat_sorted strict_sorted_iff by blast

section \<open>Lookup\<close>

theorem pat_lookup: "pat T \<Longrightarrow> k \<in> set (leaves T) \<Longrightarrow> leaves T ! tslot T k = k"
proof (induction T)
  case (Nd l d r)
  have "key_bit k d" if "k \<in> set (leaves r)"
  proof -
    obtain a where "a \<in> set (leaves l)"
      using leaves_not_Nil [of l] by (meson last_in_set)
    then show ?thesis
      using that Nd.prems(1) by (auto simp: first_diff_def)
  qed
  moreover have "\<not> key_bit k d" if "k \<in> set (leaves l)"
  proof -
    obtain b where "b \<in> set (leaves r)"
      using leaves_not_Nil [of r] by (meson last_in_set)
    then show ?thesis
      using that Nd.prems(1) by auto
  qed
  moreover have "k \<in> set (leaves l) \<or> k \<in> set (leaves r)"
    using Nd.prems(2) by simp
  ultimately show ?case
    unfolding leaf_Nd using Nd.IH Nd.prems(1) by auto
qed simp

lemma pat_lookup_iff: "pat T \<Longrightarrow> k \<in> set (leaves T) \<longleftrightarrow> leaves T ! tslot T k = k"
  using pat_lookup tslot_leaf by metis

section \<open>Insertion\<close>

text \<open>
  \<open>k\<close> differs from the leaf that its bits lead to first at \<open>d\<close>; then it differs there
  from every key of a subtrie whose routes are all larger.
\<close>

lemma pat_graft:
  assumes "pat T" "key_ok k" "first_diff key_bit k (leaves T ! tslot T k) d"
    "\<And>e. e \<in> set (diffs T) \<Longrightarrow> d < e"
  shows "pat (graft T k d k)"
proof -
  have "first_diff key_bit k a d" if a: "a \<in> set (leaves T)" for a
  proof -
    have "key_bit a e = key_bit (leaves T ! tslot T k) e" if "e \<le> d" for e
      using pat_agree [OF assms(1) a tslot_leaf] assms(4) that by (meson le_less_trans)
    then show ?thesis
      using assms(3) by (auto simp: first_diff_def)
  qed
  then show ?thesis
    using assms(1,2) first_diff_sym [of key_bit k]
    by (auto simp: graft_def) (auto simp: first_diff_def)
qed

text \<open>On the path of the key no route has the difference \<open>d\<close> itself.\<close>

lemma path_diff_neq:
  assumes "pat (Nd l e r)" "first_diff key_bit k (leaves (Nd l e r) ! tslot (Nd l e r) k) d"
  shows "d \<noteq> e"
proof
  assume "d = e"
  obtain a b where "a \<in> set (leaves l)" "b \<in> set (leaves r)"
    using leaves_not_Nil [of l] leaves_not_Nil [of r] by (meson last_in_set)
  then have "\<not> key_bit x e" if "x \<in> set (leaves l)" for x
    using that assms(1) by auto
  moreover have "key_bit x e" if "x \<in> set (leaves r)" for x
    using that assms(1) \<open>a \<in> set (leaves l)\<close> by (auto simp: first_diff_def)
  ultimately show False
    using assms(2) \<open>d = e\<close> tslot_leaf [of l k] tslot_leaf [of r k]
    unfolding leaf_Nd by (auto simp: first_diff_def split: if_splits)
qed

theorem pat_tins:
  assumes "pat T" "key_ok k" "first_diff key_bit k (leaves T ! tslot T k) d"
  shows "pat (tins T k d k)"
  using assms
proof (induction T)
  case (Lf x)
  then show ?case
    using pat_graft [of "Lf x" k d] by simp
next
  case (Nd l e r)
  show ?case
  proof (cases "d < e")
    case True
    have "d < e'" if "e' \<in> set (diffs (Nd l e r))" for e'
      using that True pat_hord [OF Nd.prems(1)] by (auto intro: less_trans)
    then have "pat (graft (Nd l e r) k d k)"
      by (intro pat_graft Nd.prems)
    then show ?thesis
      using True by simp
  next
    case False
    with path_diff_neq [OF Nd.prems(1,3)] have ed: "e < d"
      by simp
    have bits: "key_bit k e' = key_bit k0 e'" if "e' \<le> e" "k0 = leaves (Nd l e r) ! tslot (Nd l e r) k" for e' k0
      using Nd.prems(3) that ed by (auto simp: first_diff_def)
    show ?thesis
    proof (cases "key_bit k e")
      case True
      then have k0: "leaves (Nd l e r) ! tslot (Nd l e r) k = leaves r ! tslot r k"
        unfolding leaf_Nd by simp
      have "first_diff key_bit a k e" if "a \<in> set (leaves l)" for a
      proof -
        have "first_diff key_bit a (leaves r ! tslot r k) e"
          using Nd.prems(1) that tslot_leaf [of r k] by auto
        then show ?thesis
          using bits [OF _ k0 [symmetric]] by (auto simp: first_diff_def)
      qed
      then show ?thesis
        using Nd.IH(2) Nd.prems(1,2) Nd.prems(3) [unfolded k0] True False by (auto simp: set_leaves_tins)
    next
      case nb: False
      then have k0: "leaves (Nd l e r) ! tslot (Nd l e r) k = leaves l ! tslot l k"
        unfolding leaf_Nd by simp
      have "first_diff key_bit k b e" if "b \<in> set (leaves r)" for b
      proof -
        have "first_diff key_bit (leaves l ! tslot l k) b e"
          using Nd.prems(1) that tslot_leaf [of l k] by auto
        then show ?thesis
          using bits [OF _ k0 [symmetric]] by (auto simp: first_diff_def)
      qed
      then show ?thesis
        using Nd.IH(1) Nd.prems(1,2) Nd.prems(3) [unfolded k0] nb False by (auto simp: set_leaves_tins)
    qed
  qed
qed

section \<open>Deletion\<close>

theorem pat_tdel: "pat T \<Longrightarrow> pat (tdel T i)"
proof (induction T i rule: tdel.induct)
  case (2 l d r i)
  then show ?case
    using set_leaves_tdel [of l i] set_leaves_tdel [of r "i - nl l"] by (auto split: if_splits)
qed simp

section \<open>Neighbouring keys\<close>

text \<open>
  \<open>adj xs ds\<close>: the \<open>xs\<close> are the smallest and largest keys of successive parts, and
  neighbouring parts differ first at the \<open>ds\<close>, in order.
\<close>

fun adj :: "(key \<times> key) list \<Rightarrow> u16 list \<Rightarrow> bool" where
  "adj [x] [] = True"
| "adj (x # y # xs) (d # ds) =
     (snd x < fst y \<and> first_diff key_bit (snd x) (fst y) d \<and> adj (y # xs) ds)"
| "adj _ _ = False"

lemma adj_append:
  "adj xs ds \<Longrightarrow> adj ys es \<Longrightarrow> snd (last xs) < fst (hd ys) \<Longrightarrow>
   first_diff key_bit (snd (last xs)) (fst (hd ys)) d \<Longrightarrow> adj (xs @ ys) (ds @ d # es)"
proof (induction xs ds rule: adj.induct)
  case (1 x)
  then show ?case
    by (cases ys) auto
qed auto

lemma pat_min_max:
  assumes "pat (Nd l d r)"
  shows "last (leaves l) < hd (leaves r)" "first_diff key_bit (last (leaves l)) (hd (leaves r)) d"
proof -
  have in_lr: "last (leaves l) \<in> set (leaves l)" "hd (leaves r) \<in> set (leaves r)"
    by simp_all
  then show "first_diff key_bit (last (leaves l)) (hd (leaves r)) d"
    using assms by simp
  show "last (leaves l) < hd (leaves r)"
    using in_lr pat_sorted [OF assms] by (simp add: sorted_wrt_append)
qed

end
