(* ===== verification/NodePage.thy ===== *)
theory NodePage
  imports Cartesian
begin

text \<open>
  \<^verbatim>\<open>struct NodePage\<close> (\<^verbatim>\<open>node_page.h\<close>): a fixed-size page with up to 339 slots and a table
  of packed routes, and its page-local operations. Each loop over the route table is modelled
  as written, with array accesses checked; the lemmas relate it to the trie that the table
  stores (theory \<open>RouteTree\<close>): lookup follows the bits of the key, \<^verbatim>\<open>RouteDiffs\<close> recovers
  the differences, and the incremental \<^verbatim>\<open>InsertRoute\<close> and \<^verbatim>\<open>DeleteRoute\<close> leave exactly the
  table of the trie with the slot inserted or deleted.
\<close>

record node_page =
  np_size :: u16
  np_first :: pos
  np_last :: pos
  np_routes :: "route list"
  np_reps :: "rep list"

definition new_page :: node_page where
  "new_page = \<lparr>np_size = 0, np_first = 0, np_last = 0,
     np_routes = replicate 338 0, np_reps = replicate 339 0\<rparr>"

text \<open>\<^verbatim>\<open>static_cast<int>(size)\<close>\<close>

abbreviation page_size :: "node_page \<Rightarrow> int" where
  "page_size p \<equiv> uint (np_size p)"

abbreviation lcount :: "route \<Rightarrow> int" where
  "lcount r \<equiv> uint (left_count r)"

section \<open>The code\<close>

definition AlignUp :: "int \<Rightarrow> int \<Rightarrow> int" where
  "AlignUp v a = (v + a - 1) AND NOT (a - 1)"

definition LayoutBytes :: "int \<Rightarrow> int" where
  "LayoutBytes rep_count =
     (if rep_count \<le> 0 then 24 else AlignUp (24 + (rep_count - 1) * 4) 8 + rep_count * 8)"

partial_function (option) lookup_loop :: "route list \<Rightarrow> bytes \<Rightarrow> int \<Rightarrow> int \<Rightarrow> int \<Rightarrow> int option" where
  "lookup_loop rts key route_idx leaf_base leaf_count =
     (if leaf_count > 1
      then do {
        route \<leftarrow> at rts route_idx;
        if route_bit route key = 0
        then lookup_loop rts key (route_idx + 1) leaf_base (lcount route)
        else lookup_loop rts key (route_idx + lcount route) (leaf_base + lcount route)
               (leaf_count - lcount route) }
      else Some leaf_base)"

definition LookupRouteOnly :: "node_page \<Rightarrow> bytes \<Rightarrow> (int \<times> bool) option" where
  "LookupRouteOnly p key =
     (if page_size p = 0 then Some (0, False)
      else map_option (\<lambda>leaf. (leaf, True)) (lookup_loop (np_routes p) key 0 0 (page_size p)))"

definition Lookup :: "node_page \<Rightarrow> bytes \<Rightarrow> (int \<times> bool) option" where
  "Lookup p key = LookupRouteOnly p key"

text \<open>\<^verbatim>\<open>RouteDiffs\<close>: the buffer it fills is the value; a failed call leaves no value.\<close>

partial_function (option) route_diffs_loop ::
  "route list \<Rightarrow> int \<Rightarrow> u16 list \<Rightarrow> route_frame list \<Rightarrow> (mp_status + u16 list) option" where
  "route_diffs_loop rts page_sz out stack =
     (if stack = [] then Some (Inr out)
      else
        let frame = hd stack; fs = tl stack in
        if rf_node frame < 0 \<or> rf_node frame \<ge> page_sz - 1 then Some (Inl kCorruptLayout)
        else do {
          route \<leftarrow> at rts (rf_node frame);
          diff_idx \<leftarrow> Some (rf_leaf_l frame + lcount route - 1);
          if lcount route \<le> 0 \<or> diff_idx < rf_leaf_l frame \<or> diff_idx \<ge> rf_leaf_r frame - 1
          then Some (Inl kCorruptLayout)
          else do {
            out' \<leftarrow> put_at out diff_idx (route_diff route);
            right_idx \<leftarrow> Some (rf_node frame + lcount route);
            route_diffs_loop rts page_sz out'
              ((if rf_leaf_l frame < diff_idx
                then [\<lparr>rf_node = rf_node frame + 1, rf_leaf_l = rf_leaf_l frame, rf_leaf_r = diff_idx + 1\<rparr>]
                else []) @
               (if diff_idx + 1 < rf_leaf_r frame - 1
                then [\<lparr>rf_node = right_idx, rf_leaf_l = diff_idx + 1, rf_leaf_r = rf_leaf_r frame\<rparr>]
                else []) @ fs) } })"

definition RouteDiffs :: "node_page \<Rightarrow> u16 list \<Rightarrow> (mp_status + u16 list) option" where
  "RouteDiffs p out =
     (if int (length out) \<noteq> page_size p - 1 then Some (Inl kCorruptLayout)
      else if page_size p \<le> 1 then Some (Inr out)
      else route_diffs_loop (np_routes p) (page_size p) out
             [\<lparr>rf_node = 0, rf_leaf_l = 0, rf_leaf_r = page_size p\<rparr>])"

partial_function (option) slot_above_loop ::
  "route list \<Rightarrow> int \<Rightarrow> bytes \<Rightarrow> u16 \<Rightarrow> int \<Rightarrow> int \<Rightarrow> int \<Rightarrow> int \<Rightarrow> (mp_status + int \<times> bool) option" where
  "slot_above_loop rts page_sz key diff want_leaf route_idx leaf_base leaf_count =
     (if leaf_count > 1
      then if route_idx < 0 \<or> route_idx \<ge> page_sz - 1 then Some (Inl kCorruptLayout)
        else do {
          route \<leftarrow> at rts route_idx;
          if lcount route \<le> 0 \<or> lcount route \<ge> leaf_count then Some (Inl kCorruptLayout)
          else if diff < route_diff route
          then (if GetDiffBit key diff = 0 then Some (Inr (leaf_base, True))
                else Some (Inr (leaf_base + leaf_count, True)))
          else if route_bit route key = 0
          then slot_above_loop rts page_sz key diff want_leaf (route_idx + 1) leaf_base (lcount route)
          else slot_above_loop rts page_sz key diff want_leaf (route_idx + lcount route)
                 (leaf_base + lcount route) (leaf_count - lcount route) }
      else if leaf_base \<noteq> want_leaf then Some (Inl kCorruptLayout)
      else Some (Inr (0, False)))"

definition InsertSlotAbovePath :: "node_page \<Rightarrow> bytes \<Rightarrow> u16 \<Rightarrow> int \<Rightarrow> (mp_status + int \<times> bool) option" where
  "InsertSlotAbovePath p key diff want_leaf =
     (if page_size p = 0 then Some (Inr (0, False))
      else if want_leaf < 0 \<or> want_leaf \<ge> page_size p then Some (Inl kCorruptLayout)
      else slot_above_loop (np_routes p) (page_size p) key diff want_leaf 0 0 (page_size p))"

text \<open>\<^verbatim>\<open>routes[ancestor].inc_left_count()\<close> and \<^verbatim>\<open>dec_left_count()\<close> for each collected ancestor.\<close>

fun update_all :: "(route \<Rightarrow> route) \<Rightarrow> int list \<Rightarrow> route list \<Rightarrow> route list option" where
  "update_all f [] rts = Some rts"
| "update_all f (a # as) rts =
     do { r \<leftarrow> at rts a; rts' \<leftarrow> put_at rts a (f r); update_all f as rts' }"

definition InsertRouteAt :: "node_page \<Rightarrow> int \<Rightarrow> u16 \<Rightarrow> u16 \<Rightarrow> int list \<Rightarrow> node_page option" where
  "InsertRouteAt p route_idx diff left_cnt left_ancestors =
     do { rts1 \<leftarrow> shift_up (np_routes p) route_idx (page_size p - 1);
          rts2 \<leftarrow> put_at rts1 route_idx (Route_Make diff left_cnt);
          rts3 \<leftarrow> update_all inc_left_count left_ancestors rts2;
          Some (p\<lparr>np_routes := rts3\<rparr>) }"

text \<open>
  The search loop of \<^verbatim>\<open>InsertRoute\<close>: where to put the route, its left count, and the
  ancestors entered to the left. (The source keeps the ancestors as \<^verbatim>\<open>uint16_t\<close>; each was
  just tested to be below the page size.)
\<close>

partial_function (option) insert_route_loop ::
  "route list \<Rightarrow> int \<Rightarrow> int \<Rightarrow> bytes \<Rightarrow> u16 \<Rightarrow> int list \<Rightarrow> int \<Rightarrow> int \<Rightarrow> int \<Rightarrow>
   (mp_status + int \<times> u16 \<times> int list) option" where
  "insert_route_loop rts page_sz slot key diff ancs route_idx leaf_base leaf_count =
     (if leaf_count > 1
      then if route_idx < 0 \<or> route_idx \<ge> page_sz - 1 then Some (Inl kCorruptLayout)
        else do {
          route \<leftarrow> at rts route_idx;
          if lcount route \<le> 0 \<or> lcount route \<ge> leaf_count then Some (Inl kCorruptLayout)
          else if diff < route_diff route
          then (let (new_left_count, expected_slot) =
                  (if GetDiffBit key diff \<noteq> 0 then (word_of_int leaf_count, leaf_base + leaf_count)
                   else (1, leaf_base))
                in if slot \<noteq> expected_slot then Some (Inl kCorruptLayout)
                   else Some (Inr (route_idx, new_left_count, ancs)))
          else if route_bit route key = 0
          then insert_route_loop rts page_sz slot key diff (ancs @ [route_idx]) (route_idx + 1) leaf_base (lcount route)
          else insert_route_loop rts page_sz slot key diff ancs (route_idx + lcount route)
                 (leaf_base + lcount route) (leaf_count - lcount route) }
      else
        let expected_slot = (if GetDiffBit key diff \<noteq> 0 then leaf_base + 1 else leaf_base) in
        if slot \<noteq> expected_slot then Some (Inl kCorruptLayout)
        else Some (Inr (route_idx, 1, ancs)))"

definition InsertRoute :: "node_page \<Rightarrow> int \<Rightarrow> bytes \<Rightarrow> u16 \<Rightarrow> (mp_status + node_page) option" where
  "InsertRoute p slot key diff =
     (if page_size p \<le> 0 \<or> page_size p \<ge> kMaxNodeReps then Some (Inl kCorruptLayout)
      else do {
        r \<leftarrow> insert_route_loop (np_routes p) (page_size p) slot key diff [] 0 0 (page_size p);
        case r of Inl e \<Rightarrow> Some (Inl e)
        | Inr (route_idx, left_cnt, ancs) \<Rightarrow>
            map_option Inr (InsertRouteAt p route_idx diff left_cnt ancs) })"

definition DeleteRouteAt :: "node_page \<Rightarrow> int \<Rightarrow> int list \<Rightarrow> node_page option" where
  "DeleteRouteAt p route_idx left_ancestors =
     do { rts1 \<leftarrow> shift_down (np_routes p) route_idx (page_size p - 2);
          rts2 \<leftarrow> put_at rts1 (page_size p - 2) 0;
          rts3 \<leftarrow> update_all dec_left_count left_ancestors rts2;
          Some (p\<lparr>np_routes := rts3\<rparr>) }"

partial_function (option) delete_route_loop ::
  "route list \<Rightarrow> int \<Rightarrow> int \<Rightarrow> int list \<Rightarrow> int \<Rightarrow> int \<Rightarrow> int \<Rightarrow> int \<Rightarrow> (mp_status + int \<times> int list) option" where
  "delete_route_loop rts page_sz slot ancs parent_route_idx route_idx leaf_base leaf_count =
     (if leaf_count > 1
      then if route_idx < 0 \<or> route_idx \<ge> page_sz - 1 then Some (Inl kCorruptLayout)
        else do {
          route \<leftarrow> at rts route_idx;
          if lcount route \<le> 0 \<or> lcount route \<ge> leaf_count then Some (Inl kCorruptLayout)
          else if slot < leaf_base + lcount route
          then delete_route_loop rts page_sz slot
                 (if lcount route > 1 then ancs @ [route_idx] else ancs)
                 route_idx (route_idx + 1) leaf_base (lcount route)
          else delete_route_loop rts page_sz slot ancs route_idx (route_idx + lcount route)
                 (leaf_base + lcount route) (leaf_count - lcount route) }
      else if leaf_base \<noteq> slot \<or> parent_route_idx < 0 then Some (Inl kCorruptLayout)
      else Some (Inr (parent_route_idx, ancs)))"

definition DeleteRoute :: "node_page \<Rightarrow> int \<Rightarrow> (mp_status + node_page) option" where
  "DeleteRoute p slot =
     (if page_size p \<le> 1 \<or> slot < 0 \<or> slot \<ge> page_size p then Some (Inl kCorruptLayout)
      else do {
        r \<leftarrow> delete_route_loop (np_routes p) (page_size p) slot [] (-1) 0 0 (page_size p);
        case r of Inl e \<Rightarrow> Some (Inl e)
        | Inr (route_idx, ancs) \<Rightarrow> map_option Inr (DeleteRouteAt p route_idx ancs) })"

partial_function (option) direct_pair_loop :: "route list \<Rightarrow> int \<Rightarrow> route_frame list \<Rightarrow> bool option" where
  "direct_pair_loop rts diff_idx stack =
     (if stack = [] then Some False
      else
        let frame = hd stack; fs = tl stack in
        do {
          route \<leftarrow> at rts (rf_node frame);
          current_diff \<leftarrow> Some (rf_leaf_l frame + lcount route - 1);
          if current_diff = diff_idx
          then Some (rf_leaf_l frame = diff_idx \<and> rf_leaf_r frame = diff_idx + 2)
          else do {
            right_idx \<leftarrow> Some (rf_node frame + lcount route);
            direct_pair_loop rts diff_idx
              ((if rf_leaf_l frame < current_diff
                then [\<lparr>rf_node = rf_node frame + 1, rf_leaf_l = rf_leaf_l frame, rf_leaf_r = current_diff + 1\<rparr>]
                else []) @
               (if current_diff + 1 < rf_leaf_r frame - 1
                then [\<lparr>rf_node = right_idx, rf_leaf_l = current_diff + 1, rf_leaf_r = rf_leaf_r frame\<rparr>]
                else []) @ fs) } })"

definition IsDirectRoutePair :: "node_page \<Rightarrow> int \<Rightarrow> bool option" where
  "IsDirectRoutePair p diff_idx =
     (if diff_idx < 0 \<or> diff_idx \<ge> page_size p - 1 then Some False
      else direct_pair_loop (np_routes p) diff_idx
             [\<lparr>rf_node = 0, rf_leaf_l = 0, rf_leaf_r = page_size p\<rparr>])"

section \<open>What a page represents\<close>

text \<open>
  The page \<open>p\<close> stores the trie \<open>T\<close> over its slots. (An empty page, \<open>np_size p = 0\<close>,
  stores none.)
\<close>

definition page_rep :: "node_page \<Rightarrow> rep rtree \<Rightarrow> bool" where
  "page_rep p T \<longleftrightarrow>
     length (np_routes p) = 338 \<and> length (np_reps p) = 339 \<and> nl T \<le> 339 \<and>
     page_size p = int (nl T) \<and>
     take (nl T - 1) (np_routes p) = routes_of T \<and> take (nl T) (np_reps p) = leaves T"

lemma at_mid [arr_simps]: "at (pre @ x # post) (int (length pre)) = Some x"
  by (simp add: at_def nth_append)

lemma page_rep_routes: "page_rep p T \<Longrightarrow> \<exists>post. np_routes p = routes_of T @ post"
  unfolding page_rep_def by (metis append_take_drop_id)

lemma page_rep_size: "page_rep p T \<Longrightarrow> page_size p = int (nl T) \<and> nl T \<le> 339"
  by (simp add: page_rep_def)

subsection \<open>Lookup\<close>

lemma lookup_loop_tree:
  assumes "nl T < 2 ^ 15"
  shows "lookup_loop (pre @ routes_of T @ post) key (int (length pre)) lb (int (nl T)) =
    Some (lb + int (tslot T key))"
  using assms
proof (induction T arbitrary: pre post lb)
  case (Lf x)
  show ?case
    by (subst lookup_loop.simps) simp
next
  case (Nd l d r)
  let ?m = "mk_route d (nl l)"
  have l: "lookup_loop ((pre @ [?m]) @ routes_of l @ (routes_of r @ post)) key (int (length (pre @ [?m]))) lb (int (nl l))
      = Some (lb + int (tslot l key))"
    using Nd.prems by (intro Nd.IH) simp
  have r: "lookup_loop ((pre @ ?m # routes_of l) @ routes_of r @ post) key (int (length (pre @ ?m # routes_of l)))
      (lb + int (nl l)) (int (nl r)) = Some (lb + int (nl l) + int (tslot r key))"
    using Nd.prems by (intro Nd.IH) simp
  have len: "int (length (pre @ ?m # routes_of l)) = int (length pre) + int (nl l)"
    using nl_pos [of l] by simp
  have "1 < int (nl l) + int (nl r)"
    using nl_pos [of l] nl_pos [of r] by linarith
  then show ?case
    using l r Nd.prems unfolding len
    by (subst lookup_loop.simps) (simp add: at_mid algebra_simps)
qed

lemma LookupRouteOnly_rep:
  assumes "page_rep p T"
  shows "LookupRouteOnly p key = Some (int (tslot T key), True)"
proof -
  obtain post where "np_routes p = routes_of T @ post"
    using page_rep_routes [OF assms] by blast
  moreover have "page_size p = int (nl T)" "nl T < 2 ^ 15"
    using page_rep_size [OF assms] by auto
  ultimately show ?thesis
    using lookup_loop_tree [of T "[]" post key 0] nl_pos [of T]
    by (simp add: LookupRouteOnly_def)
qed

subsection \<open>RouteDiffs\<close>

lemma put_at_append: "length xs = n \<Longrightarrow> put_at (xs @ y # zs) (int n) v = Some (xs @ v # zs)"
  by (auto simp: put_at_def list_update_append)

lemma route_diffs_loop_tree:
  assumes "nl T < 2 ^ 15" "2 \<le> nl T" "length pre + (nl T - 1) \<le> psz"
    and "length mid = nl T - 1" "length before = a"
  shows "route_diffs_loop (pre @ routes_of T @ post) (int psz + 1) (before @ mid @ after)
      (\<lparr>rf_node = int (length pre), rf_leaf_l = int a, rf_leaf_r = int a + int (nl T)\<rparr> # fs) =
    route_diffs_loop (pre @ routes_of T @ post) (int psz + 1) (before @ diffs T @ after) fs"
  using assms
proof (induction T arbitrary: pre post before mid after a fs)
  case (Nd l d r)
  let ?m = "mk_route d (nl l)"
  let ?rts = "pre @ routes_of (Nd l d r) @ post"
  have pos: "0 < nl l" "0 < nl r"
    by (rule nl_pos)+
  let ?m1 = "take (nl l - 1) mid" and ?m2 = "drop (nl l) mid"
  have "nl l - 1 < length mid" "Suc (nl l - 1) = nl l"
    using pos Nd.prems(4) by simp_all
  then have mid: "mid = ?m1 @ mid ! (nl l - 1) # ?m2"
    by (metis id_take_nth_drop)
  have lens: "length ?m1 = nl l - 1" "length ?m2 = nl r - 1"
    using Nd.prems(4) pos by simp_all
  define fl where "fl = \<lparr>rf_node = int (length pre) + 1, rf_leaf_l = int a, rf_leaf_r = int a + int (nl l)\<rparr>"
  define fr where "fr = \<lparr>rf_node = int (length pre) + int (nl l), rf_leaf_l = int a + int (nl l),
    rf_leaf_r = int a + (int (nl l) + int (nl r))\<rparr>"
  have step: "route_diffs_loop ?rts (int psz + 1) (before @ mid @ after)
      (\<lparr>rf_node = int (length pre), rf_leaf_l = int a, rf_leaf_r = int a + int (nl (Nd l d r))\<rparr> # fs) =
    route_diffs_loop ?rts (int psz + 1) (before @ (?m1 @ d # ?m2) @ after)
      ((if 2 \<le> nl l then [fl] else []) @ (if 2 \<le> nl r then [fr] else []) @ fs)"
  proof -
    have at: "at ?rts (int (length pre)) = Some ?m"
      using at_mid [of pre ?m "routes_of l @ routes_of r @ post"] by simp
    have "put_at ((before @ ?m1) @ mid ! (nl l - 1) # ?m2 @ after) (int (a + (nl l - 1))) d =
        Some ((before @ ?m1) @ d # ?m2 @ after)"
      using lens Nd.prems(5) by (intro put_at_append) simp
    moreover have "(before @ ?m1) @ mid ! (nl l - 1) # ?m2 @ after = before @ mid @ after"
      using arg_cong [OF mid, of "\<lambda>x. before @ x @ after"] by simp
    moreover have "int (a + (nl l - 1)) = int a + int (nl l) - 1"
      using pos by linarith
    ultimately have put: "put_at (before @ mid @ after) (int a + int (nl l) - 1) d =
        Some (before @ ?m1 @ d # ?m2 @ after)"
      by (simp only: append_assoc)
    have guards: "\<not> int psz + 1 - 1 \<le> int (length pre)" "\<not> int (nl l) \<le> 0"
      "\<not> int a + int (nl l) - 1 < int a" "\<not> int a + (int (nl l) + int (nl r)) - 1 \<le> int a + int (nl l) - 1"
      "int a < int a + int (nl l) - 1 \<longleftrightarrow> 2 \<le> nl l"
      "int a + int (nl l) - 1 + 1 < int a + (int (nl l) + int (nl r)) - 1 \<longleftrightarrow> 2 \<le> nl r"
      using pos Nd.prems(3) by auto
    have lt: "\<not> psz \<le> length pre" "nl l \<noteq> 0" "nl r \<noteq> 0"
      using pos Nd.prems(3) by simp_all
    have small: "nl l < 2 ^ 15"
      using Nd.prems(1) by simp
    show ?thesis
      by (subst route_diffs_loop.simps)
        (simp add: at put guards mk_route_simps [OF small] Let_def fl_def fr_def pos lt del: routes_of.simps)
  qed
  have L: "route_diffs_loop ?rts (int psz + 1) (before @ (?m1 @ d # ?m2) @ after)
      ((if 2 \<le> nl l then [fl] else []) @ gs) =
    route_diffs_loop ?rts (int psz + 1) (before @ (diffs l @ d # ?m2) @ after) gs" for gs
  proof (cases "2 \<le> nl l")
    case True
    have "route_diffs_loop ((pre @ [?m]) @ routes_of l @ (routes_of r @ post)) (int psz + 1) (before @ ?m1 @ (d # ?m2 @ after))
        (\<lparr>rf_node = int (length (pre @ [?m])), rf_leaf_l = int a, rf_leaf_r = int a + int (nl l)\<rparr> # gs) =
      route_diffs_loop ((pre @ [?m]) @ routes_of l @ (routes_of r @ post)) (int psz + 1) (before @ diffs l @ (d # ?m2 @ after)) gs"
      using Nd.prems lens True pos by (intro Nd.IH) simp_all
    with True show ?thesis
      by (simp add: fl_def add.commute)
  next
    case False
    with pos have "nl l = 1"
      by simp
    then show ?thesis
      by (simp add: nl_1_tables)
  qed
  have R: "route_diffs_loop ?rts (int psz + 1) (before @ (diffs l @ d # ?m2) @ after)
      ((if 2 \<le> nl r then [fr] else []) @ gs) =
    route_diffs_loop ?rts (int psz + 1) (before @ (diffs l @ d # diffs r) @ after) gs" for gs
  proof (cases "2 \<le> nl r")
    case True
    have "route_diffs_loop ((pre @ ?m # routes_of l) @ routes_of r @ post) (int psz + 1) ((before @ diffs l @ [d]) @ ?m2 @ after)
        (\<lparr>rf_node = int (length (pre @ ?m # routes_of l)), rf_leaf_l = int (a + nl l),
          rf_leaf_r = int (a + nl l) + int (nl r)\<rparr> # gs) =
      route_diffs_loop ((pre @ ?m # routes_of l) @ routes_of r @ post) (int psz + 1) ((before @ diffs l @ [d]) @ diffs r @ after) gs"
      using Nd.prems lens True pos by (intro Nd.IH) simp_all
    moreover have "int (length (pre @ ?m # routes_of l)) = int (length pre) + int (nl l)"
      using pos by simp
    ultimately show ?thesis
      using True by (simp add: fr_def add.assoc)
  next
    case False
    with pos have "nl r = 1"
      by simp
    then have "diffs r = []"
      by (simp add: nl_1_tables)
    moreover have "?m2 = []"
      using lens \<open>nl r = 1\<close> by simp
    ultimately show ?thesis
      using False by simp
  qed
  show ?case
    unfolding step by (simp only: L R diffs.simps)
qed simp

lemma RouteDiffs_rep:
  assumes "page_rep p T" "length out = nl T - 1"
  shows "RouteDiffs p out = Some (Inr (diffs T))"
proof (cases "nl T = 1")
  case True
  then have "diffs T = []"
    by (simp add: nl_1_tables)
  then show ?thesis
    using True assms page_rep_size [OF assms(1)] by (auto simp: RouteDiffs_def)
next
  case False
  obtain post where post: "np_routes p = routes_of T @ post"
    using page_rep_routes [OF assms(1)] by blast
  have sz: "page_size p = int (nl T)" "nl T < 2 ^ 15" "2 \<le> nl T"
    using page_rep_size [OF assms(1)] False nl_pos [of T] by auto
  have "int (nl T - 1) + 1 = int (nl T)"
    using sz by simp
  then have "RouteDiffs p out = route_diffs_loop (routes_of T @ post) (int (nl T)) (diffs T) []"
    using route_diffs_loop_tree [of T "[]" "nl T - 1" out "[]" 0 post "[]" "[]"] sz assms(2) post
    by (simp add: RouteDiffs_def)
  then show ?thesis
    by (subst (asm) route_diffs_loop.simps) simp
qed

subsection \<open>InsertSlotAbovePath\<close>

lemma slot_above_loop_tree:
  assumes "nl T < 2 ^ 15" "length pre + (nl T - 1) \<le> psz"
  shows "slot_above_loop (pre @ routes_of T @ post) (int psz + 1) key d want (int (length pre)) lb (int (nl T)) =
    Some (if above_path T key d then Inr (lb + int (ins_slot T key d), True)
          else if want = lb + int (tslot T key) then Inr (0, False) else Inl kCorruptLayout)"
  using assms
proof (induction T arbitrary: pre post lb)
  case (Lf x)
  show ?case
    by (subst slot_above_loop.simps) auto
next
  case (Nd l e r)
  let ?m = "mk_route e (nl l)"
  have pos: "0 < nl l" "0 < nl r"
    by (rule nl_pos)+
  have l: "slot_above_loop ((pre @ [?m]) @ routes_of l @ (routes_of r @ post)) (int psz + 1) key d want
      (int (length (pre @ [?m]))) lb (int (nl l)) =
    Some (if above_path l key d then Inr (lb + int (ins_slot l key d), True)
          else if want = lb + int (tslot l key) then Inr (0, False) else Inl kCorruptLayout)"
    using Nd.prems pos by (intro Nd.IH) simp_all
  have r: "slot_above_loop ((pre @ ?m # routes_of l) @ routes_of r @ post) (int psz + 1) key d want
      (int (length (pre @ ?m # routes_of l))) (lb + int (nl l)) (int (nl r)) =
    Some (if above_path r key d then Inr (lb + int (nl l) + int (ins_slot r key d), True)
          else if want = lb + int (nl l) + int (tslot r key) then Inr (0, False) else Inl kCorruptLayout)"
    using Nd.prems pos by (intro Nd.IH) simp_all
  have len: "int (length (pre @ ?m # routes_of l)) = int (length pre) + int (nl l)"
    using pos by simp
  have at: "at (pre @ routes_of (Nd l e r) @ post) (int (length pre)) = Some ?m"
    using at_mid [of pre ?m "routes_of l @ routes_of r @ post"] by simp
  have guards: "1 < int (nl l) + int (nl r)" "\<not> psz \<le> length pre" "nl l \<noteq> 0" "nl r \<noteq> 0"
    using pos Nd.prems(2) by simp_all
  have bit: "GetDiffBit key d = 0 \<longleftrightarrow> \<not> key_bit key d"
    by (simp add: key_bit_def)
  have small: "nl l < 2 ^ 15"
    using Nd.prems(1) by simp
  let ?rts = "pre @ routes_of (Nd l e r) @ post"
  have step: "slot_above_loop ?rts (int psz + 1) key d want (int (length pre)) lb (int (nl (Nd l e r))) =
    (if d < e then Some (Inr (if key_bit key d then lb + int (nl l + nl r) else lb, True))
     else if key_bit key e
     then slot_above_loop ?rts (int psz + 1) key d want (int (length pre) + int (nl l)) (lb + int (nl l)) (int (nl r))
     else slot_above_loop ?rts (int psz + 1) key d want (int (length pre) + 1) lb (int (nl l)))"
    by (subst slot_above_loop.simps)
      (simp add: at guards bit mk_route_simps [OF small] del: routes_of.simps)
  have "slot_above_loop ?rts (int psz + 1) key d want (int (length pre) + 1) lb (int (nl l)) =
    Some (if above_path l key d then Inr (lb + int (ins_slot l key d), True)
          else if want = lb + int (tslot l key) then Inr (0, False) else Inl kCorruptLayout)"
    using l by (simp add: add.commute)
  moreover have "slot_above_loop ?rts (int psz + 1) key d want (int (length pre) + int (nl l)) (lb + int (nl l)) (int (nl r)) =
    Some (if above_path r key d then Inr (lb + int (nl l) + int (ins_slot r key d), True)
          else if want = lb + int (nl l) + int (tslot r key) then Inr (0, False) else Inl kCorruptLayout)"
    using r unfolding len by simp
  ultimately show ?case
    unfolding step by (auto simp: add.assoc)
qed

lemma InsertSlotAbovePath_rep:
  assumes "page_rep p T" "want = int (tslot T key)"
  shows "InsertSlotAbovePath p key d want =
    Some (Inr (if above_path T key d then (int (ins_slot T key d), True) else (0, False)))"
proof -
  obtain post where "np_routes p = routes_of T @ post"
    using page_rep_routes [OF assms(1)] by blast
  moreover have "page_size p = int (nl T)" "nl T < 2 ^ 15"
    using page_rep_size [OF assms(1)] by auto
  moreover have "int (nl T - 1) + 1 = int (nl T)"
    using nl_pos [of T] by simp
  ultimately show ?thesis
    using slot_above_loop_tree [of T "[]" "nl T - 1" post key d want 0] nl_pos [of T] assms(2) tslot_less [of T key]
    by (simp add: InsertSlotAbovePath_def)
qed

subsection \<open>InsertRoute\<close>

text \<open>What each of the route loops knows at an inner node of the trie.\<close>

lemma route_step:
  assumes "nl (Nd l e r) < 2 ^ 15" "length pre + (nl (Nd l e r) - 1) \<le> psz"
  shows "at (pre @ routes_of (Nd l e r) @ post) (int (length pre)) = Some (mk_route e (nl l))"
    "1 < int (nl l) + int (nl r)" "\<not> psz \<le> length pre" "nl l \<noteq> 0" "nl r \<noteq> 0"
    "lcount (mk_route e (nl l)) = int (nl l)" "route_diff (mk_route e (nl l)) = e"
    "route_bit (mk_route e (nl l)) key = 0 \<longleftrightarrow> \<not> key_bit key e"
    "GetDiffBit key d = 0 \<longleftrightarrow> \<not> key_bit key d"
proof -
  have pos: "0 < nl l" "0 < nl r"
    by (rule nl_pos)+
  show "at (pre @ routes_of (Nd l e r) @ post) (int (length pre)) = Some (mk_route e (nl l))"
    using at_mid [of pre "mk_route e (nl l)" "routes_of l @ routes_of r @ post"] by simp
  show "1 < int (nl l) + int (nl r)" "\<not> psz \<le> length pre" "nl l \<noteq> 0" "nl r \<noteq> 0"
    using pos assms(2) by simp_all
  have "nl l < 2 ^ 15"
    using assms(1) by simp
  then show "lcount (mk_route e (nl l)) = int (nl l)" "route_diff (mk_route e (nl l)) = e"
    "route_bit (mk_route e (nl l)) key = 0 \<longleftrightarrow> \<not> key_bit key e"
    by simp_all
  show "GetDiffBit key d = 0 \<longleftrightarrow> \<not> key_bit key d"
    by (simp add: key_bit_def)
qed

text \<open>Splitting the table at the two subtries, and where the right one starts.\<close>

lemma routes_of_left: "pre @ routes_of (Nd l e r) @ post = (pre @ [mk_route e (nl l)]) @ routes_of l @ (routes_of r @ post)"
  by simp

lemma routes_of_right: "pre @ routes_of (Nd l e r) @ post = (pre @ mk_route e (nl l) # routes_of l) @ routes_of r @ post"
  by simp

lemma right_start: "int (length (pre @ x # routes_of l)) = int (length pre) + int (nl l)"
  using nl_pos [of l] by simp

text \<open>
  The insertion point in the table: offset of the new route, its left count, offsets of the
  ancestors entered to the left.
\<close>

primrec ins_point :: "'a rtree \<Rightarrow> key \<Rightarrow> u16 \<Rightarrow> nat \<times> nat \<times> nat list" where
  "ins_point (Lf x) k d = (0, 1, [])"
| "ins_point (Nd l e r) k d =
     (if d < e then (0, if key_bit k d then nl l + nl r else 1, [])
      else if key_bit k e
      then (case ins_point r k d of (i, c, as) \<Rightarrow> (nl l + i, c, map ((+) (nl l)) as))
      else (case ins_point l k d of (i, c, as) \<Rightarrow> (Suc i, c, 0 # map Suc as)))"

text \<open>The loop result for an insertion point that lies at \<open>o'\<close> in the table.\<close>

definition ins_res :: "int \<Rightarrow> int list \<Rightarrow> nat \<times> nat \<times> nat list \<Rightarrow> mp_status + int \<times> u16 \<times> int list" where
  "ins_res o' ancs ip = (case ip of (i, c, as) \<Rightarrow>
     Inr (o' + int i, of_nat c, ancs @ map (\<lambda>a. o' + int a) as))"

lemma insert_route_loop_tree:
  assumes "nl T < 2 ^ 15" "length pre + (nl T - 1) \<le> psz"
  shows "insert_route_loop (pre @ routes_of T @ post) (int psz + 1) slot key d ancs (int (length pre)) lb (int (nl T)) =
    Some (if slot = lb + int (ins_slot T key d) then ins_res (int (length pre)) ancs (ins_point T key d)
          else Inl kCorruptLayout)"
  using assms
proof (induction T arbitrary: pre post lb ancs)
  case (Lf x)
  show ?case
    by (subst insert_route_loop.simps) (auto simp: ins_res_def key_bit_def)
next
  case (Nd l e r)
  have pos: "0 < nl l" "0 < nl r"
    by (rule nl_pos)+
  let ?rts = "pre @ routes_of (Nd l e r) @ post"
  have step: "insert_route_loop ?rts (int psz + 1) slot key d ancs (int (length pre)) lb (int (nl (Nd l e r))) =
    (if d < e
     then Some (if slot = (if key_bit key d then lb + int (nl l + nl r) else lb)
       then Inr (int (length pre), of_nat (if key_bit key d then nl l + nl r else 1), ancs)
       else Inl kCorruptLayout)
     else if key_bit key e
     then insert_route_loop ?rts (int psz + 1) slot key d ancs (int (length pre) + int (nl l)) (lb + int (nl l)) (int (nl r))
     else insert_route_loop ?rts (int psz + 1) slot key d (ancs @ [int (length pre)]) (int (length pre) + 1) lb (int (nl l)))"
    by (subst insert_route_loop.simps)
      (simp add: route_step [OF Nd.prems] del: routes_of.simps)
  have l: "insert_route_loop ?rts (int psz + 1) slot key d (ancs @ [int (length pre)]) (int (length pre) + 1) lb (int (nl l)) =
    Some (if slot = lb + int (ins_slot l key d)
          then ins_res (int (length pre) + 1) (ancs @ [int (length pre)]) (ins_point l key d) else Inl kCorruptLayout)"
    using Nd.IH(1) [where pre = "pre @ [mk_route e (nl l)]" and ancs = "ancs @ [int (length pre)]" and post = "routes_of r @ post" and lb = lb] Nd.prems pos
    unfolding routes_of_left by (simp add: add.commute)
  have r: "insert_route_loop ?rts (int psz + 1) slot key d ancs (int (length pre) + int (nl l)) (lb + int (nl l)) (int (nl r)) =
    Some (if slot = lb + int (nl l) + int (ins_slot r key d)
          then ins_res (int (length pre) + int (nl l)) ancs (ins_point r key d) else Inl kCorruptLayout)"
    using Nd.IH(2) [where pre = "pre @ mk_route e (nl l) # routes_of l" and ancs = ancs and post = post and lb = "lb + int (nl l)"] Nd.prems pos
    unfolding right_start routes_of_right by simp
  show ?case
    unfolding step l r
    by (simp add: ins_res_def comp_def add.assoc split: prod.splits)
qed

text \<open>Updating the ancestors.\<close>

definition upd :: "(route \<Rightarrow> route) \<Rightarrow> nat list \<Rightarrow> route list \<Rightarrow> route list" where
  "upd f as rts = fold (\<lambda>a xs. xs[a := f (xs ! a)]) as rts"

lemma upd_simps [simp]: "upd f [] xs = xs" "upd f (a # as) xs = upd f as (xs[a := f (xs ! a)])"
  by (simp_all add: upd_def)

lemma length_upd [simp]: "length (upd f as xs) = length xs"
  by (induction as arbitrary: xs) simp_all

lemma upd_Suc [simp]: "upd f (map Suc as) (x # xs) = x # upd f as xs"
  by (induction as arbitrary: xs) simp_all

lemma upd_plus: "length pre = n \<Longrightarrow> upd f (map ((+) n) as) (pre @ xs) = pre @ upd f as xs"
  by (induction as arbitrary: xs) (auto simp: nth_append list_update_append)

lemma upd_append: "\<forall>a \<in> set as. a < length xs \<Longrightarrow> upd f as (xs @ ys) = upd f as xs @ ys"
  by (induction as arbitrary: xs) (auto simp: nth_append list_update_append)

lemma update_all_upd: "\<forall>a \<in> set as. a < length xs \<Longrightarrow> update_all f (map int as) xs = Some (upd f as xs)"
  by (induction as arbitrary: xs) (auto simp: at_int put_at_int)

lemma ins_point_bounds: "ins_point T k d = (i, c, as) \<Longrightarrow> i < nl T \<and> c \<le> nl T \<and> (\<forall>a \<in> set as. a < i)"
proof (induction T arbitrary: i c as)
  case (Nd l e r)
  then show ?case
    using nl_pos [of l] nl_pos [of r] by (fastforce split: if_splits prod.splits)
qed auto

lemma routes_of_ins_point:
  assumes "nl T < 2 ^ 14" "ins_point T k d = (i, c, as)"
  shows "upd inc_left_count as (take i (routes_of T) @ mk_route d c # drop i (routes_of T)) = routes_of (tins T k d y)"
  using assms
proof (induction T arbitrary: i c as)
  case (Lf x)
  then show ?case
    by (auto simp: graft_def)
next
  case (Nd l e r)
  let ?n = "length (mk_route e (nl l) # routes_of l)"
  have n: "?n = nl l"
    using nl_pos [of l] by simp
  consider (graft) "d < e" | (right) "\<not> d < e" "key_bit k e" | (left) "\<not> d < e" "\<not> key_bit k e"
    by blast
  then show ?case
  proof cases
    case graft
    with Nd.prems show ?thesis
      by (auto simp: graft_def)
  next
    case right
    obtain i' c' as' where ip: "ins_point r k d = (i', c', as')"
      using prod_cases3 by blast
    with right Nd.prems have "i = nl l + i'" "c = c'" "as = map ((+) (nl l)) as'"
      by auto
    moreover have "take (nl l + i') (routes_of (Nd l e r)) = (mk_route e (nl l) # routes_of l) @ take i' (routes_of r)"
      "drop (nl l + i') (routes_of (Nd l e r)) = drop i' (routes_of r)"
      using n by (simp_all add: take_Cons' drop_Cons' nl_pos)
    ultimately show ?thesis
      using right upd_plus [OF n, of inc_left_count as'] Nd.IH(2) [OF _ ip] Nd.prems(1) by simp
  next
    case left
    obtain i' c' as' where ip: "ins_point l k d = (i', c', as')"
      using prod_cases3 by blast
    note b = ins_point_bounds [OF ip]
    with left Nd.prems ip have eq: "i = Suc i'" "c = c'" "as = 0 # map Suc as'"
      by auto
    have "i' \<le> length (routes_of l)"
      using b by auto
    moreover have "upd inc_left_count as' ((take i' (routes_of l) @ mk_route d c' # drop i' (routes_of l)) @ routes_of r)
        = routes_of (tins l k d y) @ routes_of r"
      using Nd.IH(1) [OF _ ip] Nd.prems(1) b calculation by (subst upd_append) auto
    moreover have "inc_left_count (mk_route e (nl l)) = mk_route e (Suc (nl l))"
      using Nd.prems(1) by (intro inc_mk_route) simp
    ultimately show ?thesis
      using left eq by simp
  qed
qed

lemma shift_up_put:
  assumes "length xs = n" "ys \<noteq> []" "i \<le> n"
  shows "shift_up (xs @ ys) (int i) (int n) = Some (take (Suc i) (xs @ ys) @ drop i xs @ tl ys)"
proof -
  have "shift_up (xs @ ys) (int i) (int i + int (n - i)) =
      Some (take (Suc i) (xs @ ys) @ take (n - i) (drop i (xs @ ys)) @ drop (Suc (i + (n - i))) (xs @ ys))"
    using assms by (intro shift_up_spec) simp
  moreover have "drop (Suc n) (xs @ ys) = tl ys"
    using assms by (simp add: drop_Suc)
  ultimately show ?thesis
    using assms by (simp add: of_nat_diff)
qed

lemma InsertRouteAt_rep:
  assumes "np_routes p = routes_of T @ post" "post \<noteq> []" "page_size p = int (nl T)"
    and "ins_point T key d = (i, c, as)" "nl T < 2 ^ 14"
  shows "InsertRouteAt p (int i) d (of_nat c) (map int as) =
    Some (p\<lparr>np_routes := routes_of (tins T key d y) @ tl post\<rparr>)"
proof -
  note b = ins_point_bounds [OF assms(4)]
  have sh: "shift_up (routes_of T @ post) (int i) (int (nl T - 1)) =
      Some (take (Suc i) (routes_of T @ post) @ drop i (routes_of T) @ tl post)"
    using b assms(2) by (intro shift_up_put) auto
  have "int (nl T) - 1 = int (nl T - 1)"
    using nl_pos [of T] by simp
  note sh = sh [folded this]
  have i: "i < length (routes_of T @ post)" "i \<le> nl T - 1"
    using b assms(2) by (auto simp: Suc_le_eq intro: trans_less_add1) (cases post; simp)
  have t: "take (Suc i) (routes_of T @ post) = take i (routes_of T) @ [(routes_of T @ post) ! i]"
    using i take_Suc_conv_app_nth [OF i(1)] by simp
  have put: "put_at (take (Suc i) (routes_of T @ post) @ drop i (routes_of T) @ tl post) (int i) (Route_Make d (of_nat c))
      = Some ((take i (routes_of T) @ mk_route d c # drop i (routes_of T)) @ tl post)"
    using i unfolding t mk_route_def by (simp add: put_at_append)
  have up: "update_all inc_left_count (map int as) ((take i (routes_of T) @ mk_route d c # drop i (routes_of T)) @ tl post)
      = Some (routes_of (tins T key d y) @ tl post)"
    using b i routes_of_ins_point [OF assms(5,4), of y]
    by (subst update_all_upd) (auto simp: upd_append)
  show ?thesis
    using sh put up assms by (simp add: InsertRouteAt_def)
qed

text \<open>
  \<^verbatim>\<open>InsertRoute\<close> expects the page whose size still counts the old slots, and leaves the
  table of the trie with the new slot.
\<close>

lemma InsertRoute_rep:
  assumes "page_rep p T" "nl T < 339" "slot = int (ins_slot T key d)"
  shows "\<exists>rts. InsertRoute p slot key d = Some (Inr (p\<lparr>np_routes := rts\<rparr>)) \<and> length rts = 338 \<and>
    take (nl T) rts = routes_of (tins T key d y)"
proof -
  obtain post where post: "np_routes p = routes_of T @ post"
    using page_rep_routes [OF assms(1)] by blast
  have sz: "page_size p = int (nl T)" "nl T < 2 ^ 15" "length (np_routes p) = 338"
    using assms(1) page_rep_size [OF assms(1)] by (auto simp: page_rep_def)
  obtain i c as where ip: "ins_point T key d = (i, c, as)"
    using prod_cases3 by blast
  have len: "length post = 339 - nl T"
    using sz(3) post nl_pos [of T] assms(2) by simp
  then have ne: "post \<noteq> []"
    using assms(2) by auto
  have "int (nl T - 1) + 1 = int (nl T)"
    using nl_pos [of T] by simp
  then have "insert_route_loop (np_routes p) (page_size p) slot key d [] 0 0 (page_size p) =
      Some (Inr (int i, of_nat c, map int as))"
    using insert_route_loop_tree [of T "[]" "nl T - 1" post slot key d "[]" 0] sz post ip assms(3)
    by (simp add: ins_res_def)
  then have "InsertRoute p slot key d = Some (Inr (p\<lparr>np_routes := routes_of (tins T key d y) @ tl post\<rparr>))"
    using InsertRouteAt_rep [OF post ne sz(1) ip, of y] assms(2) sz nl_pos [of T]
    by (simp add: InsertRoute_def kMaxNodeReps_def)
  moreover have "length (routes_of (tins T key d y) @ tl post) = 338"
    using len assms(2) by simp
  moreover have "take (nl T) (routes_of (tins T key d y) @ tl post) = routes_of (tins T key d y)"
    by simp
  ultimately show ?thesis
    by blast
qed

subsection \<open>DeleteRoute\<close>

fun del_point :: "'a rtree \<Rightarrow> nat \<Rightarrow> nat \<times> nat list" where
  "del_point (Lf x) j = (0, [])"
| "del_point (Nd l d r) j =
     (if j < nl l
      then (if nl l = 1 then (0, []) else case del_point l j of (i, as) \<Rightarrow> (Suc i, 0 # map Suc as))
      else (if nl r = 1 then (0, [])
            else case del_point r (j - nl l) of (i, as) \<Rightarrow> (nl l + i, map ((+) (nl l)) as)))"

definition del_res :: "int \<Rightarrow> int list \<Rightarrow> nat \<times> nat list \<Rightarrow> mp_status + int \<times> int list" where
  "del_res o' ancs dp = (case dp of (i, as) \<Rightarrow> Inr (o' + int i, ancs @ map (\<lambda>a. o' + int a) as))"

lemma delete_route_loop_leaf:
  "delete_route_loop rts psz slot ancs prt ri lb 1 =
     Some (if lb \<noteq> slot \<or> prt < 0 then Inl kCorruptLayout else Inr (prt, ancs))"
  by (subst delete_route_loop.simps) simp

lemma delete_route_loop_tree:
  assumes "nl T < 2 ^ 15" "length pre + (nl T - 1) \<le> psz" "2 \<le> nl T" "j < nl T"
  shows "delete_route_loop (pre @ routes_of T @ post) (int psz + 1) (lb + int j) ancs prt (int (length pre)) lb (int (nl T)) =
    Some (del_res (int (length pre)) ancs (del_point T j))"
  using assms
proof (induction T arbitrary: pre post lb ancs prt j)
  case (Nd l e r)
  have pos: "0 < nl l" "0 < nl r"
    by (rule nl_pos)+
  let ?rts = "pre @ routes_of (Nd l e r) @ post"
  note st = route_step [OF Nd.prems(1,2)]
  have step: "delete_route_loop ?rts (int psz + 1) (lb + int j) ancs prt (int (length pre)) lb (int (nl (Nd l e r))) =
    (if j < nl l
     then delete_route_loop ?rts (int psz + 1) (lb + int j) (if 2 \<le> nl l then ancs @ [int (length pre)] else ancs)
       (int (length pre)) (int (length pre) + 1) lb (int (nl l))
     else delete_route_loop ?rts (int psz + 1) (lb + int j) ancs
       (int (length pre)) (int (length pre) + int (nl l)) (lb + int (nl l)) (int (nl r)))"
    by (subst delete_route_loop.simps) (simp add: st Suc_le_eq numeral_2_eq_2 del: routes_of.simps)
  have L: "delete_route_loop ?rts (int psz + 1) (lb + int j) (ancs @ [int (length pre)])
      (int (length pre)) (int (length pre) + 1) lb (int (nl l)) =
    Some (del_res (int (length pre) + 1) (ancs @ [int (length pre)]) (del_point l j))" if "j < nl l" "2 \<le> nl l"
    using Nd.IH(1) [where pre = "pre @ [mk_route e (nl l)]" and post = "routes_of r @ post" and j = j] Nd.prems(1,2) that pos
    unfolding routes_of_left by (simp add: add.commute)
  have R: "delete_route_loop ?rts (int psz + 1) (lb + int j) ancs
      (int (length pre)) (int (length pre) + int (nl l)) (lb + int (nl l)) (int (nl r)) =
    Some (del_res (int (length pre) + int (nl l)) ancs (del_point r (j - nl l)))" if "\<not> j < nl l" "2 \<le> nl r"
    using Nd.IH(2) [where pre = "pre @ mk_route e (nl l) # routes_of l" and post = post and j = "j - nl l"
        and lb = "lb + int (nl l)"] Nd.prems(1,2,4) that pos
    unfolding right_start routes_of_right by (simp add: of_nat_diff)
  consider (l1) "j < nl l" "nl l = 1" | (l) "j < nl l" "2 \<le> nl l" | (r1) "\<not> j < nl l" "nl r = 1" | (r) "\<not> j < nl l" "2 \<le> nl r"
    using pos by linarith
  then show ?case
  proof cases
    case l1
    then show ?thesis
      unfolding step by (simp add: delete_route_loop_leaf del_res_def)
  next
    case l
    then show ?thesis
      unfolding step
      by (simp add: L del_res_def comp_def add.assoc del: routes_of.simps split: prod.splits)
  next
    case r1
    with Nd.prems(4) have "j = nl l"
      by simp
    with r1 show ?thesis
      unfolding step by (simp add: delete_route_loop_leaf del_res_def)
  next
    case r
    then show ?thesis
      unfolding step
      by (simp add: R del_res_def comp_def add.assoc del: routes_of.simps split: prod.splits)
  qed
qed simp

lemma del_point_bounds:
  "2 \<le> nl T \<Longrightarrow> j < nl T \<Longrightarrow> del_point T j = (i, as) \<Longrightarrow> i < nl T - 1 \<and> (\<forall>a \<in> set as. a < i)"
proof (induction T arbitrary: i as j)
  case (Nd l e r)
  have pos: "0 < nl l" "0 < nl r"
    by (rule nl_pos)+
  consider (trivial) "i = 0" "as = []"
    | (left) i' as' where "j < nl l" "2 \<le> nl l" "del_point l j = (i', as')" "i = Suc i'" "as = 0 # map Suc as'"
    | (right) i' as' where "\<not> j < nl l" "2 \<le> nl r" "del_point r (j - nl l) = (i', as')" "i = nl l + i'" "as = map ((+) (nl l)) as'"
    using Nd.prems(3) pos by (fastforce split: if_splits prod.splits)
  then show ?case
  proof cases
    case left
    with Nd.IH(1) [OF left(2,1,3)] pos show ?thesis
      by auto
  next
    case right
    then have "j - nl l < nl r"
      using Nd.prems(2) by simp
    from Nd.IH(2) [OF right(2) this right(3)] right pos show ?thesis
      by auto
  qed (use pos in auto)
qed simp

lemma routes_of_del_point:
  assumes "nl T < 2 ^ 15" "2 \<le> nl T" "j < nl T" "del_point T j = (i, as)"
  shows "upd dec_left_count as (take i (routes_of T) @ drop (Suc i) (routes_of T)) = routes_of (tdel T j)"
  using assms
proof (induction T arbitrary: i as j)
  case (Nd l e r)
  let ?n = "length (mk_route e (nl l) # routes_of l)"
  have pos: "0 < nl l" "0 < nl r"
    by (rule nl_pos)+
  have n: "?n = nl l"
    using pos by simp
  consider (l1) "j < nl l" "nl l = 1" | (l) "j < nl l" "2 \<le> nl l" | (r1) "\<not> j < nl l" "nl r = 1" | (r) "\<not> j < nl l" "2 \<le> nl r"
    using pos by linarith
  then show ?case
  proof cases
    case l1
    with Nd.prems show ?thesis
      by (auto simp: nl_1_tables)
  next
    case r1
    with Nd.prems show ?thesis
      by (auto simp: nl_1_tables)
  next
    case l
    obtain i' as' where dp: "del_point l j = (i', as')"
      by fastforce
    note b = del_point_bounds [OF l(2,1) dp]
    have eq: "i = Suc i'" "as = 0 # map Suc as'"
      using l Nd.prems dp by auto
    have "nl (tdel l j) = nl l - 1"
      using l by (intro nl_tdel)
    moreover have "dec_left_count (mk_route e (nl l)) = mk_route e (nl l - 1)"
      using Nd.prems(1) pos by (intro dec_mk_route) simp_all
    moreover have "upd dec_left_count as' ((take i' (routes_of l) @ drop (Suc i') (routes_of l)) @ routes_of r)
        = routes_of (tdel l j) @ routes_of r"
      using Nd.IH(1) [OF _ l(2,1) dp] Nd.prems(1) b by (subst upd_append) auto
    ultimately show ?thesis
      using l eq b by simp
  next
    case r
    obtain i' as' where dp: "del_point r (j - nl l) = (i', as')"
      by fastforce
    have eq: "i = nl l + i'" "as = map ((+) (nl l)) as'"
      using r Nd.prems dp by auto
    have shift: "nl l + i' - (nl l - Suc 0) = Suc i'"
      using pos by simp
    have "take (nl l + i') (routes_of (Nd l e r)) = (mk_route e (nl l) # routes_of l) @ take i' (routes_of r)"
      "drop (Suc (nl l + i')) (routes_of (Nd l e r)) = drop (Suc i') (routes_of r)"
      using n shift by (simp_all add: take_Cons' drop_Cons' pos)
    then show ?thesis
      using r eq upd_plus [OF n, of dec_left_count as'] Nd.IH(2) [OF _ r(2) _ dp] Nd.prems(1,3) by simp
  qed
qed simp

lemma DeleteRoute_rep:
  assumes "page_rep p T" "2 \<le> nl T" "j < nl T"
  shows "\<exists>rts. DeleteRoute p (int j) = Some (Inr (p\<lparr>np_routes := rts\<rparr>)) \<and> length rts = 338 \<and>
    take (nl T - 2) rts = routes_of (tdel T j)"
proof -
  obtain post where post: "np_routes p = routes_of T @ post"
    using page_rep_routes [OF assms(1)] by blast
  have sz: "page_size p = int (nl T)" "nl T < 2 ^ 15" "length (np_routes p) = 338" "nl T \<le> 339"
    using assms(1) page_rep_size [OF assms(1)] by (auto simp: page_rep_def)
  obtain i as where dp: "del_point T j = (i, as)"
    by fastforce
  note b = del_point_bounds [OF assms(2,3) dp]
  have eq1: "int (nl T - 1) + 1 = int (nl T)" "int (nl T) - 2 = int (nl T - 2)"
    using assms(2) by simp_all
  have loop: "delete_route_loop (np_routes p) (page_size p) (int j) [] (-1) 0 0 (page_size p) =
      Some (Inr (int i, map int as))"
    using delete_route_loop_tree [of T "[]" "nl T - 1" j post 0 "[]" "-1"] sz post dp assms(2,3) eq1
    by (simp add: del_res_def)
  let ?R = "take i (routes_of T) @ drop (Suc i) (routes_of T)"
  have i: "i < nl T - 1"
    using b by blast
  then have lenR: "length ?R = nl T - 2"
    by simp
  have lenT: "length (routes_of T) = Suc (nl T - 2)"
    using assms(2) by simp
  have "i \<le> nl T - 2"
    using i by simp
  then have ii: "i + (nl T - 2 - i) = nl T - 2" "i \<le> nl T - 2"
    by linarith+
  have "shift_down (routes_of T @ post) (int i) (int i + int (nl T - 2 - i)) =
      Some (take i (routes_of T @ post) @ take (nl T - 2 - i) (drop (Suc i) (routes_of T @ post)) @
        drop (i + (nl T - 2 - i)) (routes_of T @ post))"
    using lenT by (intro shift_down_spec) (simp only: ii(1), simp)
  moreover have "take i (routes_of T @ post) @ take (nl T - 2 - i) (drop (Suc i) (routes_of T @ post)) = ?R"
    using b lenT by simp
  moreover have "drop (nl T - 2) (routes_of T @ post) = (routes_of T ! (nl T - 2)) # post"
    using Cons_nth_drop_Suc [of "nl T - 2" "routes_of T"] lenT by simp
  moreover have "int i + int (nl T - 2 - i) = int (nl T - 2)"
    using ii by simp
  ultimately have sh: "shift_down (routes_of T @ post) (int i) (int (nl T - 2)) =
      Some (?R @ (routes_of T ! (nl T - 2)) # post)"
    using ii by (simp only: append_assoc [symmetric])
  have put: "put_at (?R @ (routes_of T ! (nl T - 2)) # post) (int (nl T - 2)) 0 = Some (?R @ 0 # post)"
    by (rule put_at_append [OF lenR])
  have up: "update_all dec_left_count (map int as) (?R @ 0 # post) = Some (routes_of (tdel T j) @ 0 # post)"
  proof -
    have small: "\<forall>a \<in> set as. a < length ?R"
      using b ii(2) unfolding lenR by (meson less_le_trans)
    then have "\<forall>a \<in> set as. a < length (?R @ 0 # post)"
      by (metis length_append trans_less_add1)
    then have "update_all dec_left_count (map int as) (?R @ 0 # post) = Some (upd dec_left_count as (?R @ 0 # post))"
      by (rule update_all_upd)
    also have "upd dec_left_count as (?R @ 0 # post) = upd dec_left_count as ?R @ 0 # post"
      by (rule upd_append [OF small])
    also have "upd dec_left_count as ?R = routes_of (tdel T j)"
      by (rule routes_of_del_point [OF sz(2) assms(2,3) dp])
    finally show ?thesis .
  qed
  have at: "DeleteRouteAt p (int i) (map int as) = Some (p\<lparr>np_routes := routes_of (tdel T j) @ 0 # post\<rparr>)"
    unfolding DeleteRouteAt_def post sz(1) eq1(2) by (simp only: sh put up Option.bind.simps)
  have guard: "\<not> (page_size p \<le> 1 \<or> int j < 0 \<or> page_size p \<le> int j)"
    using assms(2,3) sz(1) by simp
  have "DeleteRoute p (int j) = Some (Inr (p\<lparr>np_routes := routes_of (tdel T j) @ 0 # post\<rparr>))"
    unfolding DeleteRoute_def loop
    by (simp only: guard if_False Option.bind.simps sum.case prod.case at option.map)
  moreover have "length (routes_of (tdel T j) @ 0 # post) = 338"
    using sz(3) post assms(2) nl_tdel [OF assms(2,3)] by simp
  moreover have "take (nl T - 2) (routes_of (tdel T j) @ 0 # post) = routes_of (tdel T j)"
    using nl_tdel [OF assms(2,3)] by simp
  ultimately show ?thesis
    by blast
qed

subsection \<open>IsDirectRoutePair\<close>

primrec direct_pair :: "'a rtree \<Rightarrow> nat \<Rightarrow> bool" where
  "direct_pair (Lf x) j = False"
| "direct_pair (Nd l d r) j =
     (if j < nl l - 1 then direct_pair l j
      else if j = nl l - 1 then nl l = 1 \<and> nl r = 1
      else direct_pair r (j - nl l))"

lemma direct_pair_loop_tree:
  assumes "nl T < 2 ^ 15" "length pre + (nl T - 1) \<le> psz" "2 \<le> nl T"
  shows "direct_pair_loop (pre @ routes_of T @ post) (int j)
      (\<lparr>rf_node = int (length pre), rf_leaf_l = int a, rf_leaf_r = int a + int (nl T)\<rparr> # fs) =
    (if a \<le> j \<and> j < a + (nl T - 1) then Some (direct_pair T (j - a))
     else direct_pair_loop (pre @ routes_of T @ post) (int j) fs)"
  using assms
proof (induction T arbitrary: pre post a fs)
  case (Nd l d r)
  have pos: "0 < nl l" "0 < nl r"
    by (rule nl_pos)+
  let ?rts = "pre @ routes_of (Nd l d r) @ post"
  define fl where "fl = \<lparr>rf_node = int (length pre) + 1, rf_leaf_l = int a, rf_leaf_r = int a + int (nl l)\<rparr>"
  define fr where "fr = \<lparr>rf_node = int (length pre) + int (nl l), rf_leaf_l = int a + int (nl l),
    rf_leaf_r = int a + (int (nl l) + int (nl r))\<rparr>"
  have arith: "int a + int (nl l) - 1 = int j \<longleftrightarrow> j = a + (nl l - 1)"
    "int a = int j \<and> int a + (int (nl l) + int (nl r)) = int j + 2 \<longleftrightarrow> a = j \<and> nl l + nl r = 2"
    "int (nl l) + int (nl r) = 2 \<longleftrightarrow> nl l + nl r = 2"
    "int a < int a + int (nl l) - 1 \<longleftrightarrow> 2 \<le> nl l"
    "int a + int (nl l) - 1 + 1 < int a + (int (nl l) + int (nl r)) - 1 \<longleftrightarrow> 2 \<le> nl r"
    using pos by auto
  have step: "direct_pair_loop ?rts (int j)
      (\<lparr>rf_node = int (length pre), rf_leaf_l = int a, rf_leaf_r = int a + int (nl (Nd l d r))\<rparr> # fs) =
    (if j = a + (nl l - 1) then Some (a = j \<and> nl l + nl r = 2)
     else direct_pair_loop ?rts (int j)
      ((if 2 \<le> nl l then [fl] else []) @ (if 2 \<le> nl r then [fr] else []) @ fs))"
    by (subst direct_pair_loop.simps)
      (simp add: route_step [OF Nd.prems(1,2)] arith fl_def fr_def del: routes_of.simps)
  have L: "direct_pair_loop ?rts (int j) ((if 2 \<le> nl l then [fl] else []) @ gs) =
    (if a \<le> j \<and> j < a + (nl l - 1) then Some (direct_pair l (j - a)) else direct_pair_loop ?rts (int j) gs)" for gs
  proof (cases "2 \<le> nl l")
    case True
    then show ?thesis
      using Nd.IH(1) [where pre = "pre @ [mk_route d (nl l)]" and post = "routes_of r @ post" and a = a and fs = gs] Nd.prems(1,2) pos
      unfolding routes_of_left
      by (simp add: fl_def add.commute)
  next
    case False
    with pos have "nl l = 1"
      by simp
    then show ?thesis
      by auto
  qed
  have R: "direct_pair_loop ?rts (int j) ((if 2 \<le> nl r then [fr] else []) @ gs) =
    (if a + nl l \<le> j \<and> j < a + nl l + (nl r - 1) then Some (direct_pair r (j - (a + nl l))) else direct_pair_loop ?rts (int j) gs)" for gs
  proof (cases "2 \<le> nl r")
    case True
    then show ?thesis
      using Nd.IH(2) [where pre = "pre @ mk_route d (nl l) # routes_of l" and post = post and a = "a + nl l" and fs = gs] Nd.prems(1,2) pos
      unfolding routes_of_right right_start
      by (simp add: fr_def add.assoc)
  next
    case False
    with pos have "nl r = 1"
      by simp
    then show ?thesis
      by auto
  qed
  show ?case
  proof -
    consider "j < a" | "a \<le> j" "j < a + (nl l - 1)" | "j = a + (nl l - 1)"
      | "a + nl l \<le> j" "j < a + nl l + (nl r - 1)" | "a + nl l + (nl r - 1) \<le> j"
      using pos by linarith
    then show ?thesis
      unfolding step L R using pos by cases (auto simp: diff_diff_left)
  qed
qed simp

lemma IsDirectRoutePair_rep:
  assumes "page_rep p T"
  shows "IsDirectRoutePair p (int j) = Some (j < nl T - 1 \<and> direct_pair T j)"
proof -
  obtain post where "np_routes p = routes_of T @ post"
    using page_rep_routes [OF assms] by blast
  moreover have "page_size p = int (nl T)" "nl T < 2 ^ 15"
    using page_rep_size [OF assms] by auto
  ultimately show ?thesis
    using direct_pair_loop_tree [of T "[]" "nl T - 1" post j 0 "[]"] nl_pos [of T]
    by (auto simp: IsDirectRoutePair_def)
qed

section \<open>Layout\<close>

lemma AlignUp_8: "0 \<le> v \<Longrightarrow> AlignUp v 8 = (v + 7) div 8 * 8"
proof -
  have "NOT (7 :: int) = NOT (mask 3)"
    by (simp add: mask_eq_exp_minus_1)
  then have "AlignUp v 8 = (v + 7) AND NOT (mask 3)"
    by (simp add: AlignUp_def add.commute)
  also have "\<dots> = push_bit 3 (drop_bit 3 (v + 7))"
    by (rule bit_eqI) (auto simp: bit_simps)
  finally show ?thesis
    by (simp add: push_bit_eq_mult drop_bit_eq_div)
qed

lemma LayoutBytes_eq:
  "0 < n \<Longrightarrow> LayoutBytes n = (20 + 4 * n + 7) div 8 * 8 + 8 * n"
  by (simp add: LayoutBytes_def AlignUp_8 algebra_simps)

end
