(* ===== verification/NodeStore.thy ===== *)
theory NodeStore
  imports NodePage
begin

text \<open>
  \<^verbatim>\<open>class HeapNodeStore\<close> (\<^verbatim>\<open>node_store.h\<close>): pages by id, with a free list. A
  \<^verbatim>\<open>NodePage*\<close> is modelled by the id of its page: the store keeps every page in an allocation
  of its own, so the pointer is valid as long as the page is live.

  The locale \<open>node_store\<close> is the interface that the index uses (\<^verbatim>\<open>IsNodeStoreLike\<close>), with
  the laws it relies on, all in terms of the map from ids to pages.
\<close>

section \<open>The code\<close>

record heap_node_store =
  hn_nodes :: "node_page option list"
  hn_free :: "u64 list"
  hn_live :: int

definition HeapNodeStore :: heap_node_store where
  "HeapNodeStore = \<lparr>hn_nodes = [Some new_page], hn_free = [], hn_live = 1\<rparr>"

definition Root :: "heap_node_store \<Rightarrow> u64" where
  "Root s = 0"

definition Get :: "heap_node_store \<Rightarrow> u64 \<Rightarrow> mp_status + u64" where
  "Get s i =
     (if unat i \<ge> length (hn_nodes s) \<or> hn_nodes s ! unat i = None
      then Inl kCorruptLayout else Inr i)"

definition Alloc :: "(heap_node_store, mp_status, u64) op" where
  "Alloc s =
     (if hn_free s \<noteq> []
      then do {
        let i = last (hn_free s);
        nodes \<leftarrow> put_at (hn_nodes s) (uint i) (Some new_page);
        Some (Inr i, s\<lparr>hn_nodes := nodes, hn_free := butlast (hn_free s), hn_live := hn_live s + 1\<rparr>) }
      else
        let i = of_nat (length (hn_nodes s)) in
        if i AND kChildTag \<noteq> 0 then Some (Inl kPositionTag, s)
        else Some (Inr i, s\<lparr>hn_nodes := hn_nodes s @ [Some new_page], hn_live := hn_live s + 1\<rparr>))"

definition Free :: "u64 \<Rightarrow> (heap_node_store, mp_status, unit) op" where
  "Free i s =
     (if i = Root s \<or> unat i \<ge> length (hn_nodes s) \<or> hn_nodes s ! unat i = None
      then Some (Inl kCorruptLayout, s)
      else Some (Inr (), s\<lparr>hn_nodes := (hn_nodes s)[unat i := None], hn_free := hn_free s @ [i],
                          hn_live := hn_live s - 1\<rparr>))"

definition LiveNodes :: "heap_node_store \<Rightarrow> int" where
  "LiveNodes s = hn_live s"

text \<open>Reading and writing through a \<^verbatim>\<open>NodePage*\<close>.\<close>

definition page_of :: "heap_node_store \<Rightarrow> u64 \<Rightarrow> node_page option" where
  "page_of s i = (if unat i < length (hn_nodes s) then hn_nodes s ! unat i else None)"

definition deref :: "u64 \<Rightarrow> (heap_node_store, mp_status, node_page) op" where
  "deref i = (\<lambda>s. map_option (\<lambda>p. (Inr p, s)) (page_of s i))"

definition store_page :: "u64 \<Rightarrow> node_page \<Rightarrow> (heap_node_store, mp_status, unit) op" where
  "store_page i p = (\<lambda>s. map_option (\<lambda>_. (Inr (), s\<lparr>hn_nodes := (hn_nodes s)[unat i := Some p]\<rparr>)) (page_of s i))"

section \<open>Invariant\<close>

definition store_ok :: "heap_node_store \<Rightarrow> bool" where
  "store_ok s \<longleftrightarrow>
     length (hn_nodes s) \<le> 2 ^ 63 \<and> page_of s 0 \<noteq> None \<and> distinct (hn_free s) \<and>
     (\<forall>i \<in> set (hn_free s). unat i < length (hn_nodes s) \<and> page_of s i = None) \<and>
     hn_live s = int (card {i. page_of s i \<noteq> None})"

text \<open>There is a free page or an id for a new one.\<close>

definition has_room :: "heap_node_store \<Rightarrow> bool" where
  "has_room s \<longleftrightarrow> hn_free s \<noteq> [] \<or> length (hn_nodes s) < 2 ^ 63"

lemma page_of_Some: "page_of s i = Some p \<Longrightarrow> unat i < length (hn_nodes s) \<and> hn_nodes s ! unat i = Some p"
  by (auto simp: page_of_def split: if_splits)

lemma Get_page_of: "Get s i = (if page_of s i = None then Inl kCorruptLayout else Inr i)"
  by (auto simp: Get_def page_of_def)

lemma deref_page_of: "page_of s i = Some p \<Longrightarrow> deref i s = Some (Inr p, s)"
  by (simp add: deref_def)

definition upd_page :: "u64 \<Rightarrow> node_page \<Rightarrow> heap_node_store \<Rightarrow> heap_node_store" where
  "upd_page i p s = s\<lparr>hn_nodes := (hn_nodes s)[unat i := Some p]\<rparr>"

lemma store_page_eq: "page_of s i = Some q \<Longrightarrow> store_page i p s = Some (Inr (), upd_page i p s)"
  by (simp add: store_page_def upd_page_def)

lemma page_of_update:
  assumes "hn_nodes s' = (hn_nodes s)[unat i := x]" "unat i < length (hn_nodes s)"
  shows "page_of s' = (page_of s)(i := x)"
proof
  fix j
  show "page_of s' j = ((page_of s)(i := x)) j"
    using assms by (cases "j = i") (simp_all add: page_of_def nth_list_update word_unat_eq_iff)
qed

lemma page_of_upd_page: "page_of s i = Some q \<Longrightarrow> page_of (upd_page i p s) = (page_of s)(i \<mapsto> p)"
  by (rule page_of_update) (simp_all add: upd_page_def page_of_Some)

lemma store_ok_upd_page:
  assumes "store_ok s" "page_of s i = Some q"
  shows "store_ok (upd_page i p s)" "has_room (upd_page i p s) = has_room s"
proof -
  have pg: "page_of (upd_page i p s) = (page_of s)(i \<mapsto> p)"
    by (rule page_of_upd_page [OF assms(2)])
  have "{j. page_of (upd_page i p s) j \<noteq> None} = {j. page_of s j \<noteq> None}"
    using assms(2) unfolding pg by auto
  moreover have "hn_free (upd_page i p s) = hn_free s" "hn_live (upd_page i p s) = hn_live s"
    "length (hn_nodes (upd_page i p s)) = length (hn_nodes s)"
    by (simp_all add: upd_page_def)
  moreover have "i \<notin> set (hn_free s)"
    using assms by (auto simp: store_ok_def)
  ultimately show "store_ok (upd_page i p s)"
    using assms(1) unfolding store_ok_def by (auto simp: pg)
  show "has_room (upd_page i p s) = has_room s"
    by (simp add: has_room_def upd_page_def)
qed

lemma card_page_new:
  assumes "page_of s i = None" "page_of s' = (page_of s)(i \<mapsto> p)"
  shows "card {j. page_of s' j \<noteq> None} = Suc (card {j. page_of s j \<noteq> None})"
proof -
  have "{j. page_of s' j \<noteq> None} = insert i {j. page_of s j \<noteq> None}"
    unfolding assms(2) by auto
  then show ?thesis
    using assms(1) by simp
qed

lemma Alloc_reuse:
  assumes "store_ok s" "hn_free s \<noteq> []"
  shows "\<exists>i s'. Alloc s = Some (Inr i, s') \<and> store_ok s' \<and> page_of s i = None \<and> untagged i \<and> i \<noteq> 0 \<and>
    page_of s' = (page_of s)(i \<mapsto> new_page)"
proof -
  let ?i = "last (hn_free s)"
  define s' where "s' = s\<lparr>hn_nodes := (hn_nodes s)[unat ?i := Some new_page], hn_free := butlast (hn_free s), hn_live := hn_live s + 1\<rparr>"
  have f: "hn_nodes s' = (hn_nodes s)[unat ?i := Some new_page]" "hn_free s' = butlast (hn_free s)" "hn_live s' = hn_live s + 1"
    by (simp_all add: s'_def)
  have "?i \<in> set (hn_free s)"
    using assms(2) by simp
  then have lt: "unat ?i < length (hn_nodes s)" and pg: "page_of s ?i = None"
    using assms(1) by (auto simp: store_ok_def)
  have nz: "?i \<noteq> 0"
    using pg assms(1) by (metis store_ok_def)
  have "distinct (butlast (hn_free s) @ [?i])"
    using assms by (simp add: store_ok_def)
  then have d: "distinct (butlast (hn_free s))" "?i \<notin> set (butlast (hn_free s))"
    by simp_all
  have pg': "page_of s' = (page_of s)(?i \<mapsto> new_page)"
    by (rule page_of_update [OF f(1) lt])
  have "put_at (hn_nodes s) (uint ?i) (Some new_page) = Some ((hn_nodes s)[unat ?i := Some new_page])"
    using put_at_int [OF lt, of "Some new_page"] by simp
  then have "Alloc s = Some (Inr ?i, s')"
    using assms(2) by (simp add: Alloc_def Let_def s'_def)
  moreover have "untagged ?i"
    using lt assms(1) by (simp add: untagged_iff store_ok_def)
  moreover have "unat j < length (hn_nodes s) \<and> page_of s' j = None" if "j \<in> set (butlast (hn_free s))" for j
  proof -
    have "j \<noteq> ?i" "j \<in> set (hn_free s)"
      using that d(2) in_set_butlastD by fastforce+
    then show ?thesis
      using assms(1) unfolding pg' store_ok_def by auto
  qed
  then have "store_ok s'"
    using assms(1) d(1) nz card_page_new [OF pg pg'] by (auto simp: store_ok_def pg' f)
  ultimately show ?thesis
    using pg pg' nz by blast
qed

lemma Alloc_grow:
  assumes "store_ok s" "hn_free s = []" "length (hn_nodes s) < 2 ^ 63"
  shows "\<exists>i s'. Alloc s = Some (Inr i, s') \<and> store_ok s' \<and> page_of s i = None \<and> untagged i \<and> i \<noteq> 0 \<and>
    page_of s' = (page_of s)(i \<mapsto> new_page)"
proof -
  let ?i = "of_nat (length (hn_nodes s)) :: u64"
  define s' where "s' = s\<lparr>hn_nodes := hn_nodes s @ [Some new_page], hn_live := hn_live s + 1\<rparr>"
  have f: "hn_nodes s' = hn_nodes s @ [Some new_page]" "hn_free s' = hn_free s" "hn_live s' = hn_live s + 1"
    by (simp_all add: s'_def)
  have u: "unat ?i = length (hn_nodes s)"
    using assms(3) by (simp add: unat_of_nat)
  then have un: "untagged ?i"
    using assms(3) by (simp add: untagged_iff)
  have pg: "page_of s ?i = None"
    by (simp add: page_of_def u)
  then have nz: "?i \<noteq> 0"
    using assms(1) by (metis store_ok_def)
  have pg': "page_of s' = (page_of s)(?i \<mapsto> new_page)"
  proof
    fix j
    show "page_of s' j = ((page_of s)(?i \<mapsto> new_page)) j"
    proof (cases "j = ?i")
      case False
      then have "unat j \<noteq> length (hn_nodes s)"
        using u by (metis word_unat_eq_iff)
      with False show ?thesis
        by (auto simp: page_of_def nth_append f)
    qed (simp add: page_of_def u f)
  qed
  have "Alloc s = Some (Inr ?i, s')"
    using assms(2) un by (simp add: Alloc_def Let_def and_kChildTag s'_def)
  moreover have "store_ok s'"
    using assms nz card_page_new [OF pg pg'] by (auto simp: store_ok_def pg' f)
  ultimately show ?thesis
    using pg pg' un nz by blast
qed

lemma Alloc_spec:
  assumes "store_ok s" "has_room s"
  shows "\<exists>i s'. Alloc s = Some (Inr i, s') \<and> store_ok s' \<and> page_of s i = None \<and> untagged i \<and> i \<noteq> 0 \<and>
    page_of s' = (page_of s)(i \<mapsto> new_page)"
  using assms Alloc_reuse Alloc_grow by (cases "hn_free s = []") (auto simp: has_room_def)

lemma Alloc_full: "store_ok s \<Longrightarrow> \<not> has_room s \<Longrightarrow> Alloc s = Some (Inl kPositionTag, s)"
  by (auto simp: Alloc_def Let_def has_room_def store_ok_def and_kChildTag untagged_iff unat_of_nat)

lemma Free_spec:
  assumes "store_ok s" "page_of s i = Some p" "i \<noteq> 0"
  shows "\<exists>s'. Free i s = Some (Inr (), s') \<and> store_ok s' \<and> has_room s' \<and> page_of s' = (page_of s)(i := None)"
proof -
  define s' where "s' = s\<lparr>hn_nodes := (hn_nodes s)[unat i := None], hn_free := hn_free s @ [i], hn_live := hn_live s - 1\<rparr>"
  have f: "hn_nodes s' = (hn_nodes s)[unat i := None]" "hn_free s' = hn_free s @ [i]" "hn_live s' = hn_live s - 1"
    by (simp_all add: s'_def)
  have lt: "unat i < length (hn_nodes s)" and sm: "hn_nodes s ! unat i = Some p"
    using page_of_Some [OF assms(2)] by auto
  have pg': "page_of s' = (page_of s)(i := None)"
    by (rule page_of_update [OF f(1) lt])
  have "i \<notin> set (hn_free s)"
    using assms by (auto simp: store_ok_def)
  moreover have "{j. page_of s j \<noteq> None} = insert i {j. page_of s' j \<noteq> None}"
    using assms(2) unfolding pg' by auto
  then have "card {j. page_of s j \<noteq> None} = Suc (card {j. page_of s' j \<noteq> None})"
    by (simp add: pg')
  ultimately have "store_ok s'"
    using assms(1,3) lt by (auto simp: store_ok_def pg' f)
  moreover have "Free i s = Some (Inr (), s')"
    using lt sm assms(3) by (simp add: Free_def Root_def s'_def)
  moreover have "has_room s'"
    by (simp add: has_room_def f)
  ultimately show ?thesis
    using pg' by blast
qed

lemma HeapNodeStore_ok: "store_ok HeapNodeStore" "has_room HeapNodeStore"
  "page_of HeapNodeStore = [0 \<mapsto> new_page]"
proof -
  show eq: "page_of HeapNodeStore = [0 \<mapsto> new_page]"
    by (auto simp: page_of_def HeapNodeStore_def unat_eq_0)
  have "{j. page_of HeapNodeStore j \<noteq> None} = {0}"
    unfolding eq by auto
  moreover have "hn_free HeapNodeStore = []" "hn_live HeapNodeStore = 1" "length (hn_nodes HeapNodeStore) = 1"
    by (simp_all add: HeapNodeStore_def)
  ultimately show "store_ok HeapNodeStore"
    by (simp add: store_ok_def eq)
  show "has_room HeapNodeStore"
    by (simp add: has_room_def HeapNodeStore_def)
qed

section \<open>The interface\<close>

text \<open>
  What the index relies on: pages form a map, writing a live page changes that page only, a
  new page has an id without the tag bit that was not in use, and freeing forgets one page.
\<close>

locale node_store =
  fixes pages :: "'s \<Rightarrow> u64 \<rightharpoonup> node_page"
    and get :: "'s \<Rightarrow> u64 \<Rightarrow> mp_status + u64"
    and wr :: "u64 \<Rightarrow> node_page \<Rightarrow> ('s, mp_status, unit) op"
    and new :: "('s, mp_status, u64) op"
    and free :: "u64 \<Rightarrow> ('s, mp_status, unit) op"
    and ok :: "'s \<Rightarrow> bool"
    and room :: "'s \<Rightarrow> bool"
    and root :: u64
  assumes get_live: "get s i = (if pages s i = None then Inl kCorruptLayout else Inr i)"
    and wr_live: "ok s \<Longrightarrow> pages s i = Some q \<Longrightarrow>
      \<exists>s'. wr i p s = Some (Inr (), s') \<and> ok s' \<and> room s' = room s \<and> pages s' = (pages s)(i \<mapsto> p)"
    and new_page: "ok s \<Longrightarrow> room s \<Longrightarrow>
      \<exists>i s'. new s = Some (Inr i, s') \<and> ok s' \<and> pages s i = None \<and> untagged i \<and> i \<noteq> root \<and>
        pages s' = (pages s)(i \<mapsto> new_page)"
    and free_live: "ok s \<Longrightarrow> pages s i = Some p \<Longrightarrow> i \<noteq> root \<Longrightarrow>
      \<exists>s'. free i s = Some (Inr (), s') \<and> ok s' \<and> room s' \<and> pages s' = (pages s)(i := None)"
begin

text \<open>Allocating and freeing again restores the pages.\<close>

lemma new_free:
  assumes "ok s" "room s"
  shows "\<exists>i s1 s2. new s = Some (Inr i, s1) \<and> free i s1 = Some (Inr (), s2) \<and> ok s2 \<and> pages s2 = pages s"
proof -
  obtain i s1 where 1: "new s = Some (Inr i, s1)" "ok s1" "pages s i = None" "i \<noteq> root"
    "pages s1 = (pages s)(i \<mapsto> new_page)"
    using new_page [OF assms] by blast
  then obtain s2 where "free i s1 = Some (Inr (), s2)" "ok s2" "pages s2 = (pages s1)(i := None)"
    using free_live [of s1 i new_page] by auto
  with 1 show ?thesis
    by (intro exI [of _ i] exI [of _ s1] exI [of _ s2]) auto
qed

text \<open>A write to one page is seen there and nowhere else.\<close>

lemma read_after_write:
  assumes "ok s" "pages s i = Some q"
  shows "\<exists>s'. wr i p s = Some (Inr (), s') \<and> pages s' i = Some p \<and> (\<forall>j. j \<noteq> i \<longrightarrow> pages s' j = pages s j) \<and>
    get s' = get s"
proof -
  obtain s' where s': "wr i p s = Some (Inr (), s')" "pages s' = (pages s)(i \<mapsto> p)"
    using wr_live [OF assms] by blast
  then have "get s' = get s"
    using assms(2) by (intro ext) (simp add: get_live)
  with s' show ?thesis
    by simp
qed

text \<open>A new page is found under its id, and no id of a live page is handed out again.\<close>

lemma new_is_fresh:
  assumes "ok s" "room s" "pages s j = Some q"
  shows "\<exists>i s'. new s = Some (Inr i, s') \<and> i \<noteq> j \<and> get s' i = Inr i \<and> pages s' j = Some q"
  using new_page [OF assms(1,2)] assms(3) by (fastforce simp: get_live)

end

interpretation hn: node_store page_of Get store_page Alloc Free store_ok has_room 0
proof unfold_locales
  show "Get s i = (if page_of s i = None then Inl kCorruptLayout else Inr i)" for s i
    by (rule Get_page_of)
next
  fix s i q p
  assume "store_ok s" "page_of s i = Some q"
  then show "\<exists>s'. store_page i p s = Some (Inr (), s') \<and> store_ok s' \<and> has_room s' = has_room s \<and>
      page_of s' = (page_of s)(i \<mapsto> p)"
    using store_page_eq store_ok_upd_page page_of_upd_page by blast
qed (use Alloc_spec Free_spec in blast)+

end
