(* ===== verification/IndexCode.thy ===== *)
theory IndexCode
  imports NodeStore
begin

text \<open>
  \<^verbatim>\<open>class Index\<close> (\<^verbatim>\<open>index.h\<close>), first part: records and the building blocks that read and
  rewrite single pages, and the functions that insert. The class template is modelled for the default
  \<^verbatim>\<open>HeapNodeStore\<close>; the \<^verbatim>\<open>RecordStore\<close> argument is the parameter \<open>K\<close>, its
  \<^verbatim>\<open>Key\<close> method. Every operation is a function on the node store; a \<^verbatim>\<open>NodePage*\<close> is the
  id of the page. The member \<^verbatim>\<open>scratch_\<close> only holds buffers that each call fills before
  it reads them, so it is not part of the state.
\<close>

type_synonym 'a iop = "(heap_node_store, mp_status, 'a) op"
type_synonym key_fn = "pos \<Rightarrow> mp_status + key"

record probe_result =
  pb_pos :: pos
  pb_found :: bool

record put_result =
  put_old_pos :: pos
  put_replaced :: bool

record delete_result =
  del_pos :: pos
  del_deleted :: bool

record put_frame =
  pf_id :: u64
  pf_node :: "u64 option"
  pf_leaf :: int

record split_range =
  sr_start :: int
  sr_count :: int

record insert_slot =
  is_target :: int
  is_slot :: int

section \<open>Pages\<close>

definition NodeByID :: "u64 \<Rightarrow> u64 iop" where
  "NodeByID i = (\<lambda>s. Some (Get s i, s))"

definition AllocNode :: "u64 iop" where
  "AllocNode = Alloc"

definition FreeNode :: "u64 \<Rightarrow> unit iop" where
  "FreeNode i = Free i"

text \<open>\<^verbatim>\<open>NodeByID(id)\<close> followed by a read of the page.\<close>

definition node_at :: "u64 \<Rightarrow> node_page iop" where
  "node_at i = bindM (NodeByID i) deref"

definition modify :: "u64 \<Rightarrow> (node_page \<Rightarrow> node_page) \<Rightarrow> unit iop" where
  "modify node f = bindM (deref node) (\<lambda>p. store_page node (f p))"

definition Key :: "key_fn \<Rightarrow> pos \<Rightarrow> mp_status + key" where
  "Key K p =
     (case K p of Inl e \<Rightarrow> Inl e
      | Inr key \<Rightarrow> (case CheckKeySize key of Inl e \<Rightarrow> Inl e | Inr _ \<Rightarrow> Inr key))"

definition MinPos :: "rep \<Rightarrow> pos iop" where
  "MinPos r =
     (if \<not> is_child r then ret (position r)
      else bindM (node_at (child_id r)) (\<lambda>child.
        if np_size child = 0 then err kCorruptLayout else ret (np_first child)))"

definition MaxPos :: "rep \<Rightarrow> pos iop" where
  "MaxPos r =
     (if \<not> is_child r then ret (position r)
      else bindM (node_at (child_id r)) (\<lambda>child.
        if np_size child = 0 then err kCorruptLayout else ret (np_last child)))"

definition ClearRoutes :: "u64 \<Rightarrow> unit iop" where
  "ClearRoutes node = modify node (\<lambda>p. p\<lparr>np_routes := replicate 338 0\<rparr>)"

section \<open>Differences of neighbouring slots\<close>

definition DiffBetweenReps :: "key_fn \<Rightarrow> rep \<Rightarrow> rep \<Rightarrow> u16 iop" where
  "DiffBetweenReps K left_rep right_rep =
     bindM (MaxPos left_rep) (\<lambda>left_pos.
     bindM (MinPos right_rep) (\<lambda>right_pos.
     bindM (res (Key K left_pos)) (\<lambda>left_key.
     bindM (res (Key K right_pos)) (\<lambda>right_key.
     bindM (chk (CompareAndDiffBit left_key right_key)) (\<lambda>diff.
       case diff of
         Inl e \<Rightarrow> err (if e = kEqualKeys then kDuplicateKey else e)
       | Inr d \<Rightarrow> if cd_compare d > 0 then err kUnsortedKeys else ret (cd_diff d))))))"

fun BuildDiffs :: "key_fn \<Rightarrow> rep list \<Rightarrow> u16 list iop" where
  "BuildDiffs K (r1 # r2 # rs) =
     bindM (DiffBetweenReps K r1 r2) (\<lambda>d.
     bindM (BuildDiffs K (r2 # rs)) (\<lambda>ds. ret (d # ds)))"
| "BuildDiffs K _ = ret []"

section \<open>Rebuilding the routes of a page\<close>

text \<open>The routes past the new ones are cleared.\<close>

definition RebuildRoutesWithDiffs :: "u64 \<Rightarrow> u16 list \<Rightarrow> unit iop" where
  "RebuildRoutesWithDiffs node ds =
     bindM (deref node) (\<lambda>p.
     bindM (chk (build_routes (take (length ds) (np_routes p)) ds (page_size p))) (\<lambda>rts.
       store_page node (p\<lparr>np_routes := rts @ replicate (338 - length ds) 0\<rparr>)))"

definition RebuildNode :: "key_fn \<Rightarrow> u64 \<Rightarrow> unit iop" where
  "RebuildNode K node =
     bindM (deref node) (\<lambda>p.
       if page_size p = 0
       then bindM (modify node (\<lambda>p. p\<lparr>np_first := 0, np_last := 0\<rparr>)) (\<lambda>_. ClearRoutes node)
       else
         bindM (chk (at (np_reps p) 0)) (\<lambda>r0.
         bindM (MinPos r0) (\<lambda>first_pos.
         bindM (chk (at (np_reps p) (page_size p - 1))) (\<lambda>rn.
         bindM (MaxPos rn) (\<lambda>last_pos.
         bindM (modify node (\<lambda>p. p\<lparr>np_first := first_pos, np_last := last_pos\<rparr>)) (\<lambda>_.
           if page_size p = 1 then ClearRoutes node
           else
             bindM (chk (slice (np_reps p) 0 (page_size p))) (\<lambda>reps.
             bindM (BuildDiffs K reps) (\<lambda>ds.
               RebuildRoutesWithDiffs node ds))))))))"

definition RebuildNodeWithDiffs :: "u64 \<Rightarrow> u16 list \<Rightarrow> unit iop" where
  "RebuildNodeWithDiffs node ds =
     bindM (deref node) (\<lambda>p.
       if page_size p = 0
       then
         if ds \<noteq> [] then err kCorruptLayout
         else bindM (modify node (\<lambda>p. p\<lparr>np_first := 0, np_last := 0\<rparr>)) (\<lambda>_. ClearRoutes node)
       else if int (length ds) \<noteq> page_size p - 1 then err kCorruptLayout
       else
         bindM (chk (at (np_reps p) 0)) (\<lambda>r0.
         bindM (MinPos r0) (\<lambda>first_pos.
         bindM (chk (at (np_reps p) (page_size p - 1))) (\<lambda>rn.
         bindM (MaxPos rn) (\<lambda>last_pos.
         bindM (modify node (\<lambda>p. p\<lparr>np_first := first_pos, np_last := last_pos\<rparr>)) (\<lambda>_.
           if page_size p = 1 then ClearRoutes node
           else RebuildRoutesWithDiffs node ds))))))"

text \<open>The page is zero-filled, then the slots are copied in.\<close>

definition set_reps :: "u64 \<Rightarrow> rep list \<Rightarrow> unit iop" where
  "set_reps node reps =
     modify node (\<lambda>p. p\<lparr>np_reps := reps @ replicate (339 - length reps) 0,
                       np_size := of_nat (length reps)\<rparr>)"

definition WriteNodeWithDiffs :: "u64 \<Rightarrow> rep list \<Rightarrow> u16 list \<Rightarrow> unit iop" where
  "WriteNodeWithDiffs i reps ds =
     (if int (length reps) > kMaxNodeReps then err kCorruptLayout
      else if reps = [] \<and> ds \<noteq> [] then err kCorruptLayout
      else if reps \<noteq> [] \<and> length ds \<noteq> length reps - 1 then err kCorruptLayout
      else
        bindM (NodeByID i) (\<lambda>node.
        bindM (set_reps node reps) (\<lambda>_.
          RebuildNodeWithDiffs node ds)))"

section \<open>Splitting\<close>

definition AbsInt :: "int \<Rightarrow> int" where
  "AbsInt v = (if v < 0 then - v else v)"

record split_best =
  sb_start :: int
  sb_count :: int
  sb_score :: int
  sb_pref_start :: int
  sb_pref_count :: int

text \<open>The candidate that one frame of the Cartesian tree gives.\<close>

definition split_step :: "int \<Rightarrow> int \<Rightarrow> int \<Rightarrow> route_frame \<Rightarrow> split_best \<Rightarrow> split_best" where
  "split_step rep_count target min_preferred frame b =
     (let count = rf_leaf_r frame - rf_leaf_l frame in
      if count \<ge> 2 \<and> count \<le> rep_count - 2
      then
        let score = AbsInt (count - target);
            b1 = (if sb_start b = -1 \<or> score < sb_score b
                  then b\<lparr>sb_start := rf_leaf_l frame, sb_count := count, sb_score := score\<rparr> else b)
        in (if count \<ge> min_preferred \<and> count \<le> target \<and> (sb_pref_start b = -1 \<or> count > sb_pref_count b)
            then b1\<lparr>sb_pref_start := rf_leaf_l frame, sb_pref_count := count\<rparr> else b1)
      else b)"

definition edge_step :: "int \<Rightarrow> int \<Rightarrow> route_frame \<Rightarrow> split_best \<Rightarrow> split_best" where
  "edge_step rep_count insert_slot frame b =
     (let count = rf_leaf_r frame - rf_leaf_l frame in
      if count \<ge> 2 \<and> count \<le> rep_count - 2 \<and> (insert_slot < rf_leaf_l frame \<or> insert_slot \<ge> rf_leaf_r frame)
         \<and> (sb_start b = -1 \<or> count > sb_count b)
      then b\<lparr>sb_start := rf_leaf_l frame, sb_count := count\<rparr>
      else b)"

text \<open>The traversal of the Cartesian tree that both choices share.\<close>

partial_function (option) frames_loop ::
  "(route_frame \<Rightarrow> split_best \<Rightarrow> split_best) \<Rightarrow> int list \<Rightarrow> int list \<Rightarrow> split_best \<Rightarrow> route_frame list \<Rightarrow> split_best option" where
  "frames_loop step L R b stack =
     (case stack of [] \<Rightarrow> Some b
      | frame # fs \<Rightarrow>
        let i = rf_node frame in
        do { right \<leftarrow> at R i;
             left \<leftarrow> at L i;
             frames_loop step L R (step frame b)
               (push_frame left (rf_leaf_l frame) (i + 1)
                 (push_frame right (i + 1) (rf_leaf_r frame) fs)) })"

definition ChooseEdgeSplitRange :: "u16 list \<Rightarrow> int \<Rightarrow> int \<Rightarrow> (mp_status + split_range) option" where
  "ChooseEdgeSplitRange ds rep_count insert_slot =
     do { ct \<leftarrow> BuildCartesian ds;
          b \<leftarrow> frames_loop (edge_step rep_count insert_slot) (ct_left ct) (ct_right ct)
                 \<lparr>sb_start = -1, sb_count = 0, sb_score = 0, sb_pref_start = -1, sb_pref_count = 0\<rparr>
                 [\<lparr>rf_node = ct_root ct, rf_leaf_l = 0, rf_leaf_r = rep_count\<rparr>];
          Some (if sb_start b = -1 then Inl kMissingKey
                else Inr \<lparr>sr_start = sb_start b, sr_count = sb_count b\<rparr>) }"

text \<open>The choice by score, once the differences are known.\<close>

definition choose_split :: "u16 list \<Rightarrow> int \<Rightarrow> split_range option" where
  "choose_split ds rep_count =
     do { ct \<leftarrow> BuildCartesian ds;
          b \<leftarrow> frames_loop (split_step rep_count (rep_count div 2) ((rep_count * 1 + 3 - 1) div 3))
                 (ct_left ct) (ct_right ct)
                 \<lparr>sb_start = -1, sb_count = 0, sb_score = rep_count, sb_pref_start = -1, sb_pref_count = 0\<rparr>
                 [\<lparr>rf_node = ct_root ct, rf_leaf_l = 0, rf_leaf_r = rep_count\<rparr>];
          Some (if sb_start b = -1
                then \<lparr>sr_start = (rep_count - rep_count div 2) div 2, sr_count = rep_count div 2\<rparr>
                else if sb_pref_start b \<noteq> -1
                then \<lparr>sr_start = sb_pref_start b, sr_count = sb_pref_count b\<rparr>
                else \<lparr>sr_start = sb_start b, sr_count = sb_count b\<rparr>) }"

definition ChooseSplitRange :: "key_fn \<Rightarrow> rep list \<Rightarrow> int \<Rightarrow> split_range iop" where
  "ChooseSplitRange K reps insert_slot =
     (if length reps < 4 then err kCorruptLayout
      else
        bindM (BuildDiffs K reps) (\<lambda>ds.
        bindM (if insert_slot = 0 \<or> insert_slot = int (length reps) - 1
               then chk (ChooseEdgeSplitRange ds (int (length reps)) insert_slot)
               else ret (Inl kMissingKey)) (\<lambda>edge.
          case edge of
            Inr r \<Rightarrow> ret r
          | Inl _ \<Rightarrow> chk (choose_split ds (int (length reps))))))"

definition RemapInsertSlotAfterSplit :: "int \<Rightarrow> int \<Rightarrow> int \<Rightarrow> int \<Rightarrow> int" where
  "RemapInsertSlotAfterSplit slot start fin count =
     (if slot < 0 then slot
      else if slot < start then slot
      else if slot < fin then start
      else slot - count + 1)"

text \<open>\<^verbatim>\<open>WriteNode\<close> for slots that fit in a page.\<close>

definition write_small :: "key_fn \<Rightarrow> u64 \<Rightarrow> rep list \<Rightarrow> unit iop" where
  "write_small K i reps =
     bindM (NodeByID i) (\<lambda>node. bindM (set_reps node reps) (\<lambda>_. RebuildNode K node))"

text \<open>
  \<^verbatim>\<open>SplitAndWriteNodeAt\<close>; its two calls of \<^verbatim>\<open>WriteNode\<close> are written out, since that
  function calls back when the slots do not fit.
\<close>

partial_function (option) SplitAndWriteNodeAt ::
  "key_fn \<Rightarrow> u64 \<Rightarrow> rep list \<Rightarrow> int \<Rightarrow> heap_node_store \<Rightarrow> ((mp_status + unit) \<times> heap_node_store) option" where
  "SplitAndWriteNodeAt K i reps insert_slot s =
     (if int (length reps) > kMaxNodeReps
      then
        bindM (ChooseSplitRange K reps insert_slot) (\<lambda>range.
        bindM AllocNode (\<lambda>child.
        bindM (chk (slice reps (sr_start range) (sr_start range + sr_count range))) (\<lambda>child_reps.
        bindM (if int (length child_reps) > kMaxNodeReps
               then SplitAndWriteNodeAt K child child_reps (-1)
               else write_small K child child_reps) (\<lambda>_.
        bindM (deref child) (\<lambda>child_page.
          if np_size child_page = 0 then err kCorruptLayout
          else
            bindM (res (MakeChild child)) (\<lambda>child_rep.
            bindM (chk (slice reps 0 (sr_start range))) (\<lambda>before.
            bindM (chk (slice reps (sr_start range + sr_count range) (int (length reps)))) (\<lambda>after.
              SplitAndWriteNodeAt K i (before @ [child_rep] @ after)
                (RemapInsertSlotAfterSplit insert_slot (sr_start range)
                   (sr_start range + sr_count range) (sr_count range)))))))))) s
      else write_small K i reps s)"

definition SplitAndWriteNode :: "key_fn \<Rightarrow> u64 \<Rightarrow> rep list \<Rightarrow> unit iop" where
  "SplitAndWriteNode K i reps = SplitAndWriteNodeAt K i reps (-1)"

definition WriteNode :: "key_fn \<Rightarrow> u64 \<Rightarrow> rep list \<Rightarrow> unit iop" where
  "WriteNode K i reps =
     (if int (length reps) > kMaxNodeReps then SplitAndWriteNode K i reps else write_small K i reps)"

end
