(* ===== verification/PageTree.thy ===== *)
theory PageTree
  imports Patricia IndexCode
begin

text \<open>
  What the pages of an index represent. A \<open>ctree\<close> is the whole Patricia trie with the page
  boundaries marked: \<open>Sub i t\<close> is the subtrie \<open>t\<close> kept in page \<open>i\<close>. \<open>flat\<close> forgets
  the boundaries, \<open>ptop\<close> is the part of a subtrie that lies in one page, with the page's
  slots as leaves. \<open>holds g i t\<close> says that the pages \<open>g\<close> store \<open>t\<close> in page \<open>i\<close> and
  the pages below it, each with its slots, its route table and its bounds.
\<close>

datatype ctree = Rec pos | Sub u64 ctree | Br ctree u16 ctree

primrec flat :: "ctree \<Rightarrow> pos rtree" where
  "flat (Rec p) = Lf p"
| "flat (Sub i t) = flat t"
| "flat (Br l d r) = Nd (flat l) d (flat r)"

primrec ptop :: "ctree \<Rightarrow> rep rtree" where
  "ptop (Rec p) = Lf p"
| "ptop (Sub i t) = Lf (kChildTag OR i)"
| "ptop (Br l d r) = Nd (ptop l) d (ptop r)"

primrec slots :: "ctree \<Rightarrow> ctree list" where
  "slots (Rec p) = [Rec p]"
| "slots (Sub i t) = [Sub i t]"
| "slots (Br l d r) = slots l @ slots r"

text \<open>The pages below a subtrie, and the smallest and largest record.\<close>

primrec pages :: "ctree \<Rightarrow> (u64 \<times> ctree) list" where
  "pages (Rec p) = []"
| "pages (Sub i t) = (i, t) # pages t"
| "pages (Br l d r) = pages l @ pages r"

definition pids :: "ctree \<Rightarrow> u64 list" where
  "pids t = map fst (pages t)"

definition minp :: "ctree \<Rightarrow> pos" where
  "minp t = hd (leaves (flat t))"

definition maxp :: "ctree \<Rightarrow> pos" where
  "maxp t = last (leaves (flat t))"

definition slot_rep :: "ctree \<Rightarrow> rep" where
  "slot_rep c = (case c of Rec p \<Rightarrow> p | Sub i t \<Rightarrow> kChildTag OR i | Br l d r \<Rightarrow> 0)"

text \<open>Positions and ids without the tag bit, and pages that fit.\<close>

primrec ct_ok :: "ctree \<Rightarrow> bool" where
  "ct_ok (Rec p) = untagged p"
| "ct_ok (Sub i t) = (untagged i \<and> nl (ptop t) \<le> 339 \<and> ct_ok t)"
| "ct_ok (Br l d r) = (ct_ok l \<and> ct_ok r)"

section \<open>Slots\<close>

lemma slot_rep_simps [simp]: "slot_rep (Rec p) = p" "slot_rep (Sub i t) = kChildTag OR i"
  by (simp_all add: slot_rep_def)

lemma pids_simps [simp]:
  "pids (Rec p) = []" "pids (Sub i t) = i # pids t" "pids (Br l d r) = pids l @ pids r"
  by (simp_all add: pids_def)

lemma minp_simps [simp]:
  "minp (Rec p) = p" "minp (Sub i t) = minp t" "minp (Br l d r) = minp l"
  by (simp_all add: minp_def)

lemma maxp_simps [simp]:
  "maxp (Rec p) = p" "maxp (Sub i t) = maxp t" "maxp (Br l d r) = maxp r"
  by (simp_all add: maxp_def)

lemma leaves_ptop: "leaves (ptop t) = map slot_rep (slots t)"
  by (induction t) auto

lemma nl_ptop: "nl (ptop t) = length (slots t)"
  by (simp flip: length_leaves add: leaves_ptop)

lemma slots_not_Nil [simp]: "slots t \<noteq> []"
  by (induction t) auto

lemma slot_cases: "c \<in> set (slots t) \<Longrightarrow> (\<exists>p. c = Rec p) \<or> (\<exists>i v. c = Sub i v)"
  by (induction t) auto

lemma leaves_flat: "leaves (flat t) = concat (map (\<lambda>c. leaves (flat c)) (slots t))"
  by (induction t) auto

lemma pages_slots: "pages t = concat (map pages (slots t))"
  by (induction t) auto

lemma pids_slots: "pids t = concat (map pids (slots t))"
  by (induction t) auto

lemma minp_slots: "minp t = minp (hd (slots t))"
  by (induction t) auto

lemma maxp_slots: "maxp t = maxp (last (slots t))"
  by (induction t) auto

lemma ct_ok_slots: "ct_ok t \<longleftrightarrow> (\<forall>c \<in> set (slots t). ct_ok c)"
  by (induction t) auto

lemma minp_in: "minp t \<in> set (leaves (flat t))"
  by (simp add: minp_def)

lemma maxp_in: "maxp t \<in> set (leaves (flat t))"
  by (simp add: maxp_def)

lemma slot_leaves_subset: "c \<in> set (slots t) \<Longrightarrow> set (leaves (flat c)) \<subseteq> set (leaves (flat t))"
  by (subst leaves_flat [of t]) auto

lemma ct_ok_leaves: "ct_ok t \<Longrightarrow> p \<in> set (leaves (flat t)) \<Longrightarrow> untagged p"
  by (induction t) auto

section \<open>Replacing a slot\<close>

primrec set_slot :: "ctree \<Rightarrow> nat \<Rightarrow> ctree \<Rightarrow> ctree" where
  "set_slot (Rec p) n c = c"
| "set_slot (Sub i t) n c = c"
| "set_slot (Br l d r) n c =
     (if n < nl (ptop l) then Br (set_slot l n c) d r else Br l d (set_slot r (n - nl (ptop l)) c))"

lemma slots_set_slot:
  "n < length (slots t) \<Longrightarrow> slots (set_slot t n c) = take n (slots t) @ slots c @ drop (Suc n) (slots t)"
  by (induction t arbitrary: n) (auto simp: nl_ptop Suc_diff_le)

lemma diffs_set_slot:
  "n < length (slots t) \<Longrightarrow>
   diffs (ptop (set_slot t n c)) = take n (diffs (ptop t)) @ diffs (ptop c) @ drop n (diffs (ptop t))"
proof (induction t arbitrary: n)
  case (Br l d r)
  have pos: "0 < length (slots l)" "0 < length (slots r)"
    by simp_all
  show ?case
  proof (cases "n < length (slots l)")
    case True
    then have "n \<le> length (diffs (ptop l))"
      by (simp add: nl_ptop)
    with True Br.IH(1) [OF True] show ?thesis
      by (simp add: nl_ptop)
  next
    case False
    then have "Suc (length (diffs (ptop l))) \<le> n"
      using pos by (simp add: nl_ptop)
    with False Br.IH(2) [of "n - length (slots l)"] Br.prems pos show ?thesis
      by (auto simp: nl_ptop take_Cons' drop_Cons' Suc_diff_le)
  qed
qed auto

lemma set_slot_same: "n < length (slots t) \<Longrightarrow> set_slot t n (slots t ! n) = t"
  by (induction t arbitrary: n) (auto simp: nl_ptop nth_append)

text \<open>The slot on the path of a key; how the flat trie changes with it.\<close>

lemma flat_tslot_slot:
  "leaves (flat t) ! tslot (flat t) k =
    leaves (flat (slots t ! tslot (ptop t) k)) ! tslot (flat (slots t ! tslot (ptop t) k)) k"
proof (induction t)
  case (Br l d r)
  then show ?case
    using tslot_less [of "flat l" k] tslot_less [of "ptop l" k] by (auto simp: nth_append nl_ptop)
qed auto

lemma flat_set_slot_tins:
  assumes "\<not> above_path (ptop t) k d"
    and "flat c = tins (flat (slots t ! tslot (ptop t) k)) k d y"
  shows "flat (set_slot t (tslot (ptop t) k) c) = tins (flat t) k d y"
  using assms
proof (induction t)
  case (Br l e r)
  then show ?case
    using tslot_less [of "ptop l" k] by (auto simp: nth_append nl_ptop)
qed auto

lemma flat_set_slot_tset:
  "flat c = tset (flat (slots t ! tslot (ptop t) k)) (tslot (flat (slots t ! tslot (ptop t) k)) k) y \<Longrightarrow>
   flat (set_slot t (tslot (ptop t) k) c) = tset (flat t) (tslot (flat t) k) y"
proof (induction t)
  case (Br l e r)
  then show ?case
    using tslot_less [of "ptop l" k] tslot_less [of "flat l" k] by (auto simp: nth_append nl_ptop)
qed auto

lemma ptop_set_slot_rec: "n < length (slots t) \<Longrightarrow> slots t ! n = Rec p \<Longrightarrow> ptop (set_slot t n (Rec q)) = tset (ptop t) n q"
  by (induction t arbitrary: n) (auto simp: nl_ptop nth_append split: if_splits)

lemma minp_set_slot_rec: "n < length (slots t) \<Longrightarrow> minp (set_slot t n (Rec q)) = (if n = 0 then q else minp t)"
  by (simp add: minp_slots [of "set_slot t n (Rec q)"] minp_slots [of t] slots_set_slot hd_append)

lemma maxp_set_slot_rec:
  "n < length (slots t) \<Longrightarrow> maxp (set_slot t n (Rec q)) = (if Suc n = length (slots t) then q else maxp t)"
  by (simp add: maxp_slots [of "set_slot t n (Rec q)"] maxp_slots [of t] slots_set_slot last_append last_drop)

text \<open>The number of records before a slot.\<close>

definition off :: "ctree \<Rightarrow> nat \<Rightarrow> nat" where
  "off t n = sum_list (map (\<lambda>c. nl (flat c)) (take n (slots t)))"

lemma nl_flat: "nl (flat t) = sum_list (map (\<lambda>c. nl (flat c)) (slots t))"
  by (induction t) auto

lemma off_Br:
  "off (Br l d r) n = (if n < length (slots l) then off l n else nl (flat l) + off r (n - length (slots l)))"
  by (simp add: off_def nl_flat [of l])

lemma off_less: "n < length (slots t) \<Longrightarrow> m < nl (flat (slots t ! n)) \<Longrightarrow> off t n + m < nl (flat t)"
proof (induction t arbitrary: n)
  case (Br l d r)
  show ?case
  proof (cases "n < length (slots l)")
    case True
    with Br show ?thesis
      by (fastforce simp: off_Br nth_append)
  next
    case False
    with Br.IH(2) [of "n - length (slots l)"] Br.prems show ?thesis
      by (simp add: off_Br nth_append)
  qed
qed (auto simp: off_def)

lemma tslot_off: "tslot (flat t) k = off t (tslot (ptop t) k) + tslot (flat (slots t ! tslot (ptop t) k)) k"
proof (induction t)
  case (Br l d r)
  then show ?case
    using tslot_less [of "ptop l" k] by (auto simp: off_Br nth_append nl_ptop)
qed (auto simp: off_def)

lemma flat_set_slot_tdel:
  assumes "n < length (slots t)" "m < nl (flat (slots t ! n))" "2 \<le> nl (flat (slots t ! n))"
    and "flat c = tdel (flat (slots t ! n)) m"
  shows "flat (set_slot t n c) = tdel (flat t) (off t n + m)"
  using assms
proof (induction t arbitrary: n)
  case (Br l d r)
  show ?case
  proof (cases "n < length (slots l)")
    case True
    with Br.prems have 1: "off l n + m < nl (flat l)" "slots (Br l d r) ! n = slots l ! n"
      using off_less [of n l m] by (simp_all add: nth_append)
    moreover have "nl (flat l) \<noteq> 1"
    proof
      assume "nl (flat l) = 1"
      moreover have "nl (flat (slots l ! n)) \<le> nl (flat l)"
        using off_less [of n l "nl (flat (slots l ! n)) - 1"] True nl_pos [of "flat (slots l ! n)"] by simp
      ultimately show False
        using Br.prems(3) 1 by simp
    qed
    ultimately show ?thesis
      using True Br.IH(1) [of n] Br.prems by (simp add: off_Br nl_ptop)
  next
    case False
    let ?n = "n - length (slots l)"
    from False Br.prems have n: "?n < length (slots r)" "slots (Br l d r) ! n = slots r ! ?n"
      by (simp_all add: nth_append)
    moreover have "nl (flat r) \<noteq> 1"
    proof
      assume "nl (flat r) = 1"
      moreover have "nl (flat (slots r ! ?n)) \<le> nl (flat r)"
        using off_less [of ?n r "nl (flat (slots r ! ?n)) - 1"] n nl_pos [of "flat (slots r ! ?n)"] by simp
      ultimately show False
        using Br.prems(3) n by simp
    qed
    ultimately show ?thesis
      using False Br.IH(2) [of ?n] Br.prems by (simp add: off_Br nl_ptop)
  qed
qed (auto simp: off_def)

section \<open>Inserting a slot\<close>

definition cgraft :: "ctree \<Rightarrow> key \<Rightarrow> u16 \<Rightarrow> ctree \<Rightarrow> ctree" where
  "cgraft t k d c = (if key_bit k d then Br t d c else Br c d t)"

primrec cins :: "ctree \<Rightarrow> key \<Rightarrow> u16 \<Rightarrow> ctree \<Rightarrow> ctree" where
  "cins (Rec p) k d c = cgraft (Rec p) k d c"
| "cins (Sub i t) k d c = cgraft (Sub i t) k d c"
| "cins (Br l e r) k d c =
     (if d < e then cgraft (Br l e r) k d c
      else if key_bit k e then Br l e (cins r k d c) else Br (cins l k d c) e r)"

lemma top_cins: "ptop c = Lf x \<Longrightarrow> ptop (cins t k d c) = tins (ptop t) k d x"
  by (induction t) (auto simp: cgraft_def graft_def)

lemma flat_cins:
  "above_path (ptop t) k d \<or> (\<exists>p. slots t ! tslot (ptop t) k = Rec p) \<Longrightarrow>
   flat (cins t k d (Rec y)) = tins (flat t) k d y"
proof (induction t)
  case (Br l e r)
  then show ?case
    using tslot_less [of "ptop l" k] by (auto simp: cgraft_def graft_def nth_append nl_ptop)
qed (auto simp: cgraft_def graft_def)

lemma slots_cins:
  "slots (cins t k d (Rec y)) =
    take (ins_slot (ptop t) k d) (slots t) @ Rec y # drop (ins_slot (ptop t) k d) (slots t)"
proof (induction t)
  case (Br l e r)
  then show ?case
    using ins_slot_le [of "ptop l" k d] by (auto simp: cgraft_def nl_ptop)
qed (auto simp: cgraft_def)

lemma pids_cins: "pids (cins t k d (Rec y)) = pids t"
  by (induction t) (auto simp: cgraft_def)

lemma pages_cins: "pages (cins t k d (Rec y)) = pages t"
  by (induction t) (auto simp: cgraft_def)

lemma ct_ok_cins: "ct_ok (cins t k d (Rec y)) \<longleftrightarrow> ct_ok t \<and> untagged y"
  by (induction t) (auto simp: cgraft_def)

section \<open>The representation\<close>

definition len_ok :: "node_page \<Rightarrow> bool" where
  "len_ok p \<longleftrightarrow> length (np_routes p) = 338 \<and> length (np_reps p) = 339"

definition page_ok :: "node_page \<Rightarrow> ctree \<Rightarrow> bool" where
  "page_ok p t \<longleftrightarrow> page_rep p (ptop t) \<and> np_first p = minp t \<and> np_last p = maxp t"

definition holds :: "(u64 \<rightharpoonup> node_page) \<Rightarrow> u64 \<Rightarrow> ctree \<Rightarrow> bool" where
  "holds g i t \<longleftrightarrow>
     ct_ok t \<and> distinct (i # pids t) \<and>
     (\<forall>(j, u) \<in> set ((i, t) # pages t). \<exists>p. g j = Some p \<and> page_ok p u)"

definition ids :: "u64 \<Rightarrow> ctree \<Rightarrow> u64 set" where
  "ids i t = insert i (set (pids t))"

lemma page_ok_len: "page_ok p t \<Longrightarrow> len_ok p"
  by (simp add: page_ok_def page_rep_def len_ok_def)

lemma holds_page: "holds g i t \<Longrightarrow> \<exists>p. g i = Some p \<and> page_ok p t"
  by (auto simp: holds_def)

lemma holds_page_in: "holds g i t \<Longrightarrow> (j, u) \<in> set ((i, t) # pages t) \<Longrightarrow> \<exists>p. g j = Some p \<and> page_ok p u"
  unfolding holds_def by blast

lemma holdsI:
  assumes "ct_ok t" "distinct (i # pids t)"
    and "\<And>j u. (j, u) \<in> set ((i, t) # pages t) \<Longrightarrow> \<exists>p. g j = Some p \<and> page_ok p u"
  shows "holds g i t"
  unfolding holds_def using assms by blast

lemma holds_ct_ok: "holds g i t \<Longrightarrow> ct_ok t"
  by (simp add: holds_def)

lemma pages_slot: "c \<in> set (slots t) \<Longrightarrow> set (pages c) \<subseteq> set (pages t)"
  by (subst pages_slots [of t]) auto

lemma pids_slot: "c \<in> set (slots t) \<Longrightarrow> set (pids c) \<subseteq> set (pids t)"
  by (subst pids_slots [of t]) auto

lemma distinct_pids_slot: "distinct (pids t) \<Longrightarrow> c \<in> set (slots t) \<Longrightarrow> distinct (pids c)"
  by (subst (asm) pids_slots [of t]) (auto simp: distinct_concat_iff)

lemma holds_slot:
  assumes "holds g i t" "Sub j v \<in> set (slots t)"
  shows "holds g j v" "untagged j" "i \<notin> ids j v" "ids j v \<subseteq> ids i t" "j \<noteq> i"
proof -
  have ok: "ct_ok (Sub j v)"
    using assms ct_ok_slots [of t] by (auto simp: holds_def)
  have d: "distinct (pids (Sub j v))"
    using distinct_pids_slot [OF _ assms(2)] assms(1) by (simp add: holds_def)
  have "set (pages (Sub j v)) \<subseteq> set (pages t)"
    by (rule pages_slot [OF assms(2)])
  then have p: "\<exists>p. g k = Some p \<and> page_ok p u" if "(k, u) \<in> set ((j, v) # pages v)" for k u
    using holds_page_in [OF assms(1), of k u] that by auto
  show "untagged j"
    using ok by simp
  show "holds g j v"
    using ok d by (intro holdsI p) simp_all
  have sub: "set (pids (Sub j v)) \<subseteq> set (pids t)"
    by (rule pids_slot [OF assms(2)])
  then show "i \<notin> ids j v" "ids j v \<subseteq> ids i t" "j \<noteq> i"
    using assms(1) by (auto simp: holds_def ids_def)
qed

lemma holds_cong: 
  "holds g i t \<Longrightarrow> (\<And>j. j \<in> ids i t \<Longrightarrow> g' j = g j) \<Longrightarrow> holds g' i t"
proof -
  assume h: "holds g i t" and eq: "\<And>j. j \<in> ids i t \<Longrightarrow> g' j = g j"
  have "g' j = g j" if "(j, u) \<in> set ((i, t) # pages t)" for j u
    using that by (intro eq) (force simp: ids_def pids_def)
  then have "\<exists>p. g' j = Some p \<and> page_ok p u" if "(j, u) \<in> set ((i, t) # pages t)" for j u
    using h that by (fastforce simp: holds_def simp del: set_simps)
  then show ?thesis
    using h unfolding holds_def by blast
qed

text \<open>A page and the pages below it, assembled from the slots.\<close>

lemma holds_intro:
  assumes "g i = Some p" "page_ok p t" "distinct (i # pids t)"
    and "\<And>c. c \<in> set (slots t) \<Longrightarrow> (\<exists>q. c = Rec q \<and> untagged q) \<or> (\<exists>j v. c = Sub j v \<and> untagged j \<and> holds g j v)"
  shows "holds g i t"
proof -
  have small: "nl (ptop v) \<le> 339" if "holds g j v" for j v
    using holds_page [OF that] by (auto simp: page_ok_def page_rep_def)
  have "ct_ok c" if c_in: "c \<in> set (slots t)" for c
  proof -
    consider q where "c = Rec q" "untagged q" | j v where "c = Sub j v" "untagged j" "holds g j v"
      using assms(4) [OF c_in] by blast
    then show ?thesis
      using small holds_ct_ok by cases simp_all
  qed
  then have ok: "ct_ok t"
    using ct_ok_slots [of t] by blast
  have below: "\<exists>p. g j = Some p \<and> page_ok p u" if ju: "(j, u) \<in> set (pages t)" for j u
  proof -
    obtain c where "c \<in> set (slots t)" "(j, u) \<in> set (pages c)"
      using ju by (subst (asm) pages_slots) auto
    moreover obtain k v where "c = Sub k v" "holds g k v"
      using assms(4) [of c] calculation by fastforce
    ultimately show ?thesis
      using holds_page_in [of g k v j u] by simp
  qed
  show ?thesis
  proof (rule holdsI [OF ok assms(3)])
    fix j u
    assume "(j, u) \<in> set ((i, t) # pages t)"
    then consider "j = i" "u = t" | "(j, u) \<in> set (pages t)"
      by auto
    then show "\<exists>p. g j = Some p \<and> page_ok p u"
      using assms(1,2) below by cases auto
  qed
qed

text \<open>
  \<open>repl\<close>: between two stores, the subtrie of page \<open>i\<close> changes from \<open>t\<close> to \<open>t'\<close>, and
  nothing else does; pages that are not used any more are freed, new ones were free.
\<close>

definition repl :: "(u64 \<rightharpoonup> node_page) \<Rightarrow> u64 \<Rightarrow> ctree \<Rightarrow> (u64 \<rightharpoonup> node_page) \<Rightarrow> ctree \<Rightarrow> bool" where
  "repl g i t g' t' \<longleftrightarrow>
     holds g' i t' \<and> (\<forall>j. j \<notin> ids i t \<union> ids i t' \<longrightarrow> g' j = g j) \<and>
     (\<forall>j \<in> ids i t - ids i t'. g' j = None) \<and> (\<forall>j \<in> ids i t' - ids i t. g j = None)"

end
