(* ===== verification/PageOps.thy ===== *)
theory PageOps
  imports PageTree
begin

text \<open>
  What the building blocks of \<^verbatim>\<open>IndexCode\<close> do to the pages: reading a slot's bounds,
  finding the differences of neighbouring slots from the keys, and writing a page with the
  slots and routes of a given subtrie.
\<close>

section \<open>Pages of the store\<close>

lemma NodeByID_live [op_simps]: "page_of s i = Some p \<Longrightarrow> NodeByID i s = Some (Inr i, s)"
  by (simp add: NodeByID_def Get_page_of)

lemma NodeByID_dead: "page_of s i = None \<Longrightarrow> NodeByID i s = Some (Inl kCorruptLayout, s)"
  by (simp add: NodeByID_def Get_page_of)

lemmas deref_live [op_simps] = deref_page_of

lemma node_at_live [op_simps]: "page_of s i = Some p \<Longrightarrow> node_at i s = Some (Inr p, s)"
  by (simp add: node_at_def op_simps)

lemmas store_page_live [op_simps] = store_page_eq

lemma modify_live [op_simps]: "page_of s i = Some p \<Longrightarrow> modify i f s = Some (Inr (), upd_page i (f p) s)"
  by (simp add: modify_def op_simps)

lemma upd_page_same [simp]: "page_of s i = Some q \<Longrightarrow> page_of (upd_page i p s) i = Some p"
  by (simp add: page_of_upd_page)

lemma upd_page_other [simp]: "j \<noteq> i \<Longrightarrow> page_of (upd_page i p s) j = page_of s j"
  by (simp add: page_of_def upd_page_def nth_list_update word_unat_eq_iff)

lemma upd_page_twice [simp]: "upd_page i p (upd_page i q s) = upd_page i p s"
  by (simp add: upd_page_def)

lemma holds_upd_page: "holds (page_of s) j v \<Longrightarrow> i \<notin> ids j v \<Longrightarrow> holds (page_of (upd_page i p s)) j v"
  by (erule holds_cong) (rule upd_page_other, blast)

section \<open>Keys of records\<close>

text \<open>The record store knows the key of every record of a subtrie.\<close>

definition keys_of :: "key_fn \<Rightarrow> (pos \<Rightarrow> key) \<Rightarrow> pos set \<Rightarrow> bool" where
  "keys_of K kf P \<longleftrightarrow> (\<forall>p \<in> P. K p = Inr (kf p) \<and> key_ok (kf p))"

definition ktree :: "(pos \<Rightarrow> key) \<Rightarrow> ctree \<Rightarrow> key rtree" where
  "ktree kf t = map_rtree kf (flat t)"

lemma Key_keys_of: "keys_of K kf P \<Longrightarrow> p \<in> P \<Longrightarrow> Key K p = Inr (kf p)"
  by (simp add: keys_of_def Key_def CheckKeySize_key_ok)

lemma keys_of_subset: "keys_of K kf P \<Longrightarrow> Q \<subseteq> P \<Longrightarrow> keys_of K kf Q"
  by (auto simp: keys_of_def)

lemma ktree_simps [simp]:
  "ktree kf (Rec p) = Lf (kf p)" "ktree kf (Sub i t) = ktree kf t"
  "ktree kf (Br l d r) = Nd (ktree kf l) d (ktree kf r)"
  by (simp_all add: ktree_def)

lemma leaves_ktree [simp]: "leaves (ktree kf t) = map kf (leaves (flat t))"
  by (simp add: ktree_def)

lemma hord_ptop: "hord (flat t) \<Longrightarrow> hord (ptop t)"
proof (induction t)
  case (Br l d r)
  have sub: "set (diffs (ptop u)) \<subseteq> set (diffs (flat u))" for u
    by (induction u) auto
  show ?case
    using Br sub [of l] sub [of r] by auto
qed auto

lemma pat_hord_ptop: "pat (ktree kf t) \<Longrightarrow> hord (ptop t)"
  using pat_hord [of "ktree kf t"] by (simp add: ktree_def hord_ptop)

lemma pat_slot: "pat (ktree kf t) \<Longrightarrow> c \<in> set (slots t) \<Longrightarrow> pat (ktree kf c)"
  by (induction t) auto

lemma slots_adj:
  "pat (ktree kf t) \<Longrightarrow> adj (map (\<lambda>c. (kf (minp c), kf (maxp c))) (slots t)) (diffs (ptop t))"
proof (induction t)
  case (Br l d r)
  have "last (map kf (leaves (flat l))) < hd (map kf (leaves (flat r)))"
    "first_diff key_bit (last (map kf (leaves (flat l)))) (hd (map kf (leaves (flat r)))) d"
    using pat_min_max [of "ktree kf l" d "ktree kf r"] Br.prems by simp_all
  then have "kf (maxp l) < kf (minp r)" "first_diff key_bit (kf (maxp l)) (kf (minp r)) d"
    by (simp_all add: minp_def maxp_def hd_map last_map)
  then have "kf (maxp (last (slots l))) < kf (minp (hd (slots r)))"
    "first_diff key_bit (kf (maxp (last (slots l)))) (kf (minp (hd (slots r)))) d"
    by (simp_all flip: maxp_slots minp_slots)
  then show ?case
    using Br by (auto simp: last_map hd_map intro!: adj_append)
qed auto

section \<open>Bounds of a slot\<close>

text \<open>The slots of a subtrie that the store holds.\<close>

definition slots_held :: "(u64 \<rightharpoonup> node_page) \<Rightarrow> ctree list \<Rightarrow> bool" where
  "slots_held g cs \<longleftrightarrow>
     (\<forall>c \<in> set cs. (\<exists>q. c = Rec q \<and> untagged q) \<or> (\<exists>j v. c = Sub j v \<and> untagged j \<and> holds g j v))"

lemma holds_slots_held: "holds g i t \<Longrightarrow> slots_held g (slots t)"
  unfolding slots_held_def
proof
  fix c
  assume h: "holds g i t" and c: "c \<in> set (slots t)"
  have "ct_ok c"
    using holds_ct_ok [OF h] ct_ok_slots [of t] c by blast
  then show "(\<exists>q. c = Rec q \<and> untagged q) \<or> (\<exists>j v. c = Sub j v \<and> untagged j \<and> holds g j v)"
    using slot_cases [OF c] holds_slot [OF h] c by auto
qed

lemma page_ok_size: "page_ok p t \<Longrightarrow> page_size p = int (nl (ptop t)) \<and> np_size p \<noteq> 0"
  using page_rep_size [of p "ptop t"] nl_pos [of "ptop t"] by (auto simp: page_ok_def)

lemma page_ok_at:
  assumes "page_ok p t" "n < length (slots t)"
  shows "at (np_reps p) (int n) = Some (slot_rep (slots t ! n))"
proof -
  have "n < length (np_reps p)" "take (length (slots t)) (np_reps p) = map slot_rep (slots t)"
    using assms by (auto simp: page_ok_def page_rep_def nl_ptop leaves_ptop)
  then show ?thesis
    using assms(2) by (metis at_int nth_map nth_take)
qed

lemma page_ok_lookup: "page_ok p t \<Longrightarrow> Lookup p k = Some (int (tslot (ptop t) k), True)"
  unfolding Lookup_def page_ok_def by (intro LookupRouteOnly_rep) (elim conjE)

lemma MinPos_slot [op_simps]:
  assumes "slots_held (page_of s) cs" "c \<in> set cs"
  shows "MinPos (slot_rep c) s = Some (Inr (minp c), s)"
proof -
  consider q where "c = Rec q" "untagged q" | j v where "c = Sub j v" "untagged j" "holds (page_of s) j v"
    using assms unfolding slots_held_def by blast
  then show ?thesis
  proof cases
    case 2
    then obtain p where p: "page_of s j = Some p" "page_ok p v"
      using holds_page by blast
    then have "np_first p = minp v"
      by (simp add: page_ok_def)
    then show ?thesis
      using 2 p page_ok_size [OF p(2)] by (simp add: MinPos_def op_simps)
  qed (simp add: MinPos_def op_simps)
qed

lemma MaxPos_slot [op_simps]:
  assumes "slots_held (page_of s) cs" "c \<in> set cs"
  shows "MaxPos (slot_rep c) s = Some (Inr (maxp c), s)"
proof -
  consider q where "c = Rec q" "untagged q" | j v where "c = Sub j v" "untagged j" "holds (page_of s) j v"
    using assms unfolding slots_held_def by blast
  then show ?thesis
  proof cases
    case 2
    then obtain p where p: "page_of s j = Some p" "page_ok p v"
      using holds_page by blast
    then have "np_last p = maxp v"
      by (simp add: page_ok_def)
    then show ?thesis
      using 2 p page_ok_size [OF p(2)] by (simp add: MaxPos_def op_simps)
  qed (simp add: MaxPos_def op_simps)
qed

section \<open>Differences from the keys\<close>

lemma DiffBetweenReps_slots:
  assumes "slots_held (page_of s) cs" "c \<in> set cs" "c' \<in> set cs"
    and "keys_of K kf {maxp c, minp c'}"
    and "kf (maxp c) < kf (minp c')" "first_diff key_bit (kf (maxp c)) (kf (minp c')) d"
  shows "DiffBetweenReps K (slot_rep c) (slot_rep c') s = Some (Inr d, s)"
proof -
  have ok: "key_ok (kf (maxp c))" "key_ok (kf (minp c'))" and ne: "kf (maxp c) \<noteq> kf (minp c')"
    using assms(4,5) by (auto simp: keys_of_def)
  obtain e where e: "CompareAndDiffBit (kf (maxp c)) (kf (minp c')) = Some (Inr \<lparr>cd_compare = -1, cd_diff = e\<rparr>)"
    "diff_at (kf (maxp c)) (kf (minp c')) e"
    using CompareAndDiffBit_spec [OF ok ne] assms(5) by auto
  moreover have "e = d"
    using e(2) assms(6) first_diff_unique by (fastforce simp: diff_at_first_diff)
  ultimately show ?thesis
    using Key_keys_of [OF assms(4), of "maxp c"] Key_keys_of [OF assms(4), of "minp c'"]
    by (simp add: DiffBetweenReps_def op_simps MaxPos_slot [OF assms(1,2)] MinPos_slot [OF assms(1,3)])
qed

lemma BuildDiffs_adj:
  assumes "slots_held (page_of s) cs"
    and "keys_of K kf (minp ` set cs \<union> maxp ` set cs)"
    and "adj (map (\<lambda>c. (kf (minp c), kf (maxp c))) cs) ds"
  shows "BuildDiffs K (map slot_rep cs) s = Some (Inr ds, s)"
  using assms
proof (induction cs arbitrary: ds)
  case (Cons c cs)
  show ?case
  proof (cases cs)
    case Nil
    with Cons.prems(3) have "ds = []"
      by (cases ds) auto
    with Nil show ?thesis
      by (simp add: op_simps)
  next
    case (Cons c' cs')
    obtain d ds' where ds: "ds = d # ds'"
      using Cons.prems(3) Cons by (cases ds) auto
    have "DiffBetweenReps K (slot_rep c) (slot_rep c') s = Some (Inr d, s)"
      using Cons.prems Cons ds
      by (intro DiffBetweenReps_slots [of s "c # cs" c c' K kf]) (auto intro: keys_of_subset)
    moreover have "BuildDiffs K (map slot_rep cs) s = Some (Inr ds', s)"
      using Cons.prems Cons ds
      by (intro Cons.IH) (auto simp: slots_held_def intro: keys_of_subset)
    ultimately show ?thesis
      using Cons ds by (simp add: op_simps)
  qed
qed simp

lemma minp_maxp_subset: "minp ` set (slots t) \<union> maxp ` set (slots t) \<subseteq> set (leaves (flat t))"
  using slot_leaves_subset [of _ t] minp_in maxp_in by blast

lemma BuildDiffs_tree:
  assumes "slots_held (page_of s) (slots t)" "pat (ktree kf t)" "keys_of K kf (set (leaves (flat t)))"
  shows "BuildDiffs K (map slot_rep (slots t)) s = Some (Inr (diffs (ptop t)), s)"
  using BuildDiffs_adj [OF assms(1) keys_of_subset [OF assms(3) minp_maxp_subset] slots_adj [OF assms(2)]] .

section \<open>Writing a page\<close>

lemma slots_held_upd_page:
  assumes "slots_held (page_of s) (slots u)" "i \<notin> set (pids u)"
  shows "slots_held (page_of (upd_page i p s)) (slots u)"
  unfolding slots_held_def
proof
  fix c
  assume c: "c \<in> set (slots u)"
  then consider q where "c = Rec q" "untagged q" | j v where "c = Sub j v" "untagged j" "holds (page_of s) j v"
    using assms(1) unfolding slots_held_def by blast
  then show "(\<exists>q. c = Rec q \<and> untagged q) \<or>
      (\<exists>j v. c = Sub j v \<and> untagged j \<and> holds (page_of (upd_page i p s)) j v)"
  proof cases
    case 2
    then have "i \<notin> ids j v"
      using assms(2) pids_slot [OF c] by (auto simp: ids_def)
    with 2 show ?thesis
      by (auto intro: holds_upd_page)
  qed simp
qed

lemma RebuildRoutesWithDiffs_spec:
  assumes "page_of s i = Some p" "len_ok p" "page_size p = int (nl T)" "2 \<le> nl T" "nl T \<le> 339"
    and "hord T" "take (nl T) (np_reps p) = leaves T"
  shows "\<exists>p'. RebuildRoutesWithDiffs i (diffs T) s = Some (Inr (), upd_page i p' s) \<and>
    page_rep p' T \<and> np_first p' = np_first p \<and> np_last p' = np_last p"
proof -
  have len: "length (take (length (diffs T)) (np_routes p)) = nl T - 1" "length (diffs T) = nl T - 1"
    using assms(2,5) by (simp_all add: len_ok_def)
  have "build_routes (take (length (diffs T)) (np_routes p)) (diffs T) (page_size p) = Some (routes_of T)"
    by (rule build_routes_trie [OF assms(6,4) len(1)])
  then have "RebuildRoutesWithDiffs i (diffs T) s =
      Some (Inr (), upd_page i (p\<lparr>np_routes := routes_of T @ replicate (338 - length (diffs T)) 0\<rparr>) s)"
    using assms(1) by (simp add: RebuildRoutesWithDiffs_def op_simps)
  moreover have "page_rep (p\<lparr>np_routes := routes_of T @ replicate (338 - length (diffs T)) 0\<rparr>) T"
    using assms(2-7) by (simp add: page_rep_def len_ok_def)
  ultimately show ?thesis
    by (intro exI [of _ "p\<lparr>np_routes := routes_of T @ replicate (338 - length (diffs T)) 0\<rparr>"] conjI) simp_all
qed

text \<open>A page whose slots are in place, but not its bounds and routes.\<close>

definition reps_set :: "node_page \<Rightarrow> ctree \<Rightarrow> bool" where
  "reps_set p u \<longleftrightarrow> len_ok p \<and> page_size p = int (nl (ptop u)) \<and> nl (ptop u) \<le> 339 \<and>
     take (nl (ptop u)) (np_reps p) = map slot_rep (slots u)"

lemma reps_set_ends:
  assumes "reps_set p u"
  shows "at (np_reps p) 0 = Some (slot_rep (hd (slots u)))"
    "at (np_reps p) (page_size p - 1) = Some (slot_rep (last (slots u)))"
proof -
  have len: "length (np_reps p) = 339" "nl (ptop u) \<le> 339" "0 < nl (ptop u)"
    and tk: "take (nl (ptop u)) (np_reps p) = map slot_rep (slots u)"
    using assms nl_pos by (auto simp: reps_set_def len_ok_def)
  have ne: "np_reps p \<noteq> []"
    using len by auto
  have "hd (np_reps p) = hd (take (nl (ptop u)) (np_reps p))"
    using len by simp
  then show "at (np_reps p) 0 = Some (slot_rep (hd (slots u)))"
    unfolding tk using ne by (simp add: at_zero hd_map)
  have lt: "nl (ptop u) - 1 < length (np_reps p)"
    using len by simp
  have "np_reps p ! (nl (ptop u) - 1) = last (take (nl (ptop u)) (np_reps p))"
    using len lt by (subst last_conv_nth) auto
  then have "np_reps p ! (nl (ptop u) - 1) = slot_rep (last (slots u))"
    unfolding tk by (simp add: last_map)
  moreover have "page_size p - 1 = int (nl (ptop u) - 1)"
    using assms len by (simp add: reps_set_def)
  ultimately show "at (np_reps p) (page_size p - 1) = Some (slot_rep (last (slots u)))"
    using at_int [OF lt] by simp
qed

lemma ClearRoutes_spec:
  assumes "page_of s i = Some p" "reps_set p u" "nl (ptop u) = 1"
  shows "\<exists>p'. ClearRoutes i s = Some (Inr (), upd_page i p' s) \<and> page_rep p' (ptop u) \<and>
    np_first p' = np_first p \<and> np_last p' = np_last p"
proof -
  have "page_rep (p\<lparr>np_routes := replicate 338 0\<rparr>) (ptop u)"
    using assms(2,3) by (simp add: page_rep_def reps_set_def len_ok_def leaves_ptop nl_1_tables)
  then show ?thesis
    using assms(1)
    by (intro exI [of _ "p\<lparr>np_routes := replicate 338 0\<rparr>"] conjI) (simp_all add: ClearRoutes_def op_simps)
qed

lemma rebuild_finish:
  assumes "page_of s i = Some p" "reps_set p u" "hord (ptop u)"
    and "f s = (if page_size p = 1 then ClearRoutes i s else RebuildRoutesWithDiffs i (diffs (ptop u)) s)"
    and "np_first p = minp u" "np_last p = maxp u"
  shows "\<exists>p'. f s = Some (Inr (), upd_page i p' s) \<and> page_ok p' u"
proof (cases "nl (ptop u) = 1")
  case True
  then show ?thesis
    using ClearRoutes_spec [OF assms(1,2)] assms by (auto simp: page_ok_def reps_set_def)
next
  case False
  then have "2 \<le> nl (ptop u)"
    using nl_pos [of "ptop u"] by simp
  then show ?thesis
    using RebuildRoutesWithDiffs_spec [of s i p "ptop u"] assms False
    by (auto simp: page_ok_def reps_set_def leaves_ptop)
qed

lemma RebuildNodeWithDiffs_spec:
  assumes "page_of s i = Some p" "reps_set p u" "slots_held (page_of s) (slots u)" "hord (ptop u)"
  shows "\<exists>p'. RebuildNodeWithDiffs i (diffs (ptop u)) s = Some (Inr (), upd_page i p' s) \<and> page_ok p' u"
proof -
  let ?p = "p\<lparr>np_first := minp u, np_last := maxp u\<rparr>"
  let ?s = "upd_page i ?p s"
  have sz: "page_size p \<noteq> 0" "int (length (diffs (ptop u))) = page_size p - 1"
    using assms(2) nl_pos [of "ptop u"] by (auto simp: reps_set_def of_nat_diff Suc_le_eq)
  have mn: "MinPos (slot_rep (hd (slots u))) s = Some (Inr (minp u), s)"
    "MaxPos (slot_rep (last (slots u))) s = Some (Inr (maxp u), s)"
    using MinPos_slot [OF assms(3), of "hd (slots u)"] MaxPos_slot [OF assms(3), of "last (slots u)"]
    by (simp_all add: minp_slots [of u] maxp_slots [of u])
  have "RebuildNodeWithDiffs i (diffs (ptop u)) s =
      (if page_size p = 1 then ClearRoutes i else RebuildRoutesWithDiffs i (diffs (ptop u))) ?s"
    using assms(1) sz by (simp add: RebuildNodeWithDiffs_def op_simps reps_set_ends [OF assms(2)] mn del: length_diffs)
  moreover have "\<exists>p'. (if page_size ?p = 1 then ClearRoutes i else RebuildRoutesWithDiffs i (diffs (ptop u))) ?s =
      Some (Inr (), upd_page i p' ?s) \<and> page_ok p' u"
    using assms(1,2,4) by (intro rebuild_finish) (auto simp: reps_set_def len_ok_def)
  ultimately show ?thesis
    by simp
qed

lemma RebuildNode_spec:
  assumes "page_of s i = Some p" "reps_set p u" "slots_held (page_of s) (slots u)" "i \<notin> set (pids u)"
    and "pat (ktree kf u)" "keys_of K kf (set (leaves (flat u)))"
  shows "\<exists>p'. RebuildNode K i s = Some (Inr (), upd_page i p' s) \<and> page_ok p' u"
proof -
  let ?p = "p\<lparr>np_first := minp u, np_last := maxp u\<rparr>"
  let ?s = "upd_page i ?p s"
  have sz: "page_size p = int (nl (ptop u))" "0 < nl (ptop u)" "nl (ptop u) \<le> length (np_reps p)"
    and tk: "take (nl (ptop u)) (np_reps p) = map slot_rep (slots u)"
    using assms(2) nl_pos by (auto simp: reps_set_def len_ok_def)
  have mn: "MinPos (slot_rep (hd (slots u))) s = Some (Inr (minp u), s)"
    "MaxPos (slot_rep (last (slots u))) s = Some (Inr (maxp u), s)"
    using MinPos_slot [OF assms(3), of "hd (slots u)"] MaxPos_slot [OF assms(3), of "last (slots u)"]
    by (simp_all add: minp_slots [of u] maxp_slots [of u])
  have nz: "page_size p \<noteq> 0"
    using sz by simp
  have sl: "slice (np_reps p) 0 (page_size p) = Some (map slot_rep (slots u))"
    unfolding sz(1) slice_prefix [OF sz(3)] tk ..
  have bd: "BuildDiffs K (map slot_rep (slots u)) ?s = Some (Inr (diffs (ptop u)), ?s)"
    by (rule BuildDiffs_tree [OF slots_held_upd_page [OF assms(3,4)] assms(5,6)])
  have "RebuildNode K i s =
      (if page_size p = 1 then ClearRoutes i else RebuildRoutesWithDiffs i (diffs (ptop u))) ?s"
    using assms(1) nz
    by (simp add: RebuildNode_def op_simps reps_set_ends [OF assms(2)] mn sl bd)
  moreover have "\<exists>p'. (if page_size ?p = 1 then ClearRoutes i else RebuildRoutesWithDiffs i (diffs (ptop u))) ?s =
      Some (Inr (), upd_page i p' ?s) \<and> page_ok p' u"
    using assms(1,2) pat_hord_ptop [OF assms(5)] by (intro rebuild_finish) (auto simp: reps_set_def len_ok_def)
  ultimately show ?thesis
    by simp
qed

lemma set_reps_spec:
  assumes "page_of s i = Some q" "len_ok q" "nl (ptop u) \<le> 339"
  shows "\<exists>p. set_reps i (map slot_rep (slots u)) s = Some (Inr (), upd_page i p s) \<and> reps_set p u"
proof -
  have "uint (of_nat (nl (ptop u)) :: u16) = int (nl (ptop u))"
    using assms(3) by (simp add: unsigned_of_nat take_bit_nat_eq_self)
  then show ?thesis
    using assms
    by (intro exI [of _ "q\<lparr>np_reps := map slot_rep (slots u) @ replicate (339 - length (slots u)) 0,
          np_size := of_nat (length (slots u))\<rparr>"] conjI)
      (simp_all add: set_reps_def op_simps reps_set_def len_ok_def nl_ptop)
qed

lemma WriteNodeWithDiffs_spec:
  assumes "page_of s i = Some q" "len_ok q" "slots_held (page_of s) (slots u)" "i \<notin> set (pids u)"
    and "nl (ptop u) \<le> 339" "hord (ptop u)"
  shows "\<exists>p. WriteNodeWithDiffs i (map slot_rep (slots u)) (diffs (ptop u)) s = Some (Inr (), upd_page i p s) \<and> page_ok p u"
proof -
  obtain p where p: "set_reps i (map slot_rep (slots u)) s = Some (Inr (), upd_page i p s)" "reps_set p u"
    using set_reps_spec [OF assms(1,2,5)] by blast
  obtain p' where p': "RebuildNodeWithDiffs i (diffs (ptop u)) (upd_page i p s) = Some (Inr (), upd_page i p' (upd_page i p s))"
    "page_ok p' u"
    using RebuildNodeWithDiffs_spec [OF upd_page_same [OF assms(1)] p(2) slots_held_upd_page [OF assms(3,4)] assms(6)]
    by blast
  have "length (diffs (ptop u)) = length (slots u) - 1"
    by (simp add: nl_ptop)
  then have "WriteNodeWithDiffs i (map slot_rep (slots u)) (diffs (ptop u)) s = Some (Inr (), upd_page i p' s)"
    using assms(1,5) p(1) p'(1) by (simp add: WriteNodeWithDiffs_def op_simps kMaxNodeReps_def nl_ptop)
  with p'(2) show ?thesis
    by blast
qed

lemma write_small_spec:
  assumes "page_of s i = Some q" "len_ok q" "slots_held (page_of s) (slots u)" "i \<notin> set (pids u)"
    and "nl (ptop u) \<le> 339" "pat (ktree kf u)" "keys_of K kf (set (leaves (flat u)))"
  shows "\<exists>p. write_small K i (map slot_rep (slots u)) s = Some (Inr (), upd_page i p s) \<and> page_ok p u"
proof -
  obtain p where p: "set_reps i (map slot_rep (slots u)) s = Some (Inr (), upd_page i p s)" "reps_set p u"
    using set_reps_spec [OF assms(1,2,5)] by blast
  obtain p' where p': "RebuildNode K i (upd_page i p s) = Some (Inr (), upd_page i p' (upd_page i p s))"
    "page_ok p' u"
    using RebuildNode_spec [OF upd_page_same [OF assms(1)] p(2) slots_held_upd_page [OF assms(3,4)] assms(4,6,7)]
    by blast
  have "write_small K i (map slot_rep (slots u)) s = Some (Inr (), upd_page i p' s)"
    using assms(1) p(1) p'(1) by (simp add: write_small_def op_simps)
  with p'(2) show ?thesis
    by blast
qed

end
