(* ===== verification/Split.thy ===== *)
theory Split
  imports PageOps
begin

text \<open>
  Splitting an overfull page: \<^verbatim>\<open>ChooseSplitRange\<close> always finds a range of slots that is a
  complete subtrie with at least two slots and at most two fewer than the page, and
  \<^verbatim>\<open>SplitAndWriteNodeAt\<close> moves that subtrie to a page of its own.
\<close>

section \<open>The Cartesian tree of a trie\<close>

lemma BuildCartesian_trie:
  assumes "hord T" "2 \<le> nl T"
  obtains ct where "BuildCartesian (diffs T) = Some ct"
    "arr (ct_left ct) (ct_right ct) (ct_root ct) 0 (nl T - 1) (ix 0 T)"
    "length (ct_left ct) = nl T - 1" "length (ct_right ct) = nl T - 1" "ct_root ct \<noteq> -1"
proof -
  have "diffs T \<noteq> []"
    using assms(2) length_diffs [of T] by (auto simp del: length_diffs)
  then obtain ct t where ct: "BuildCartesian (diffs T) = Some ct"
    "arr (ct_left ct) (ct_right ct) (ct_root ct) 0 (length (diffs T)) t" "hp (diffs T) t" "ct_root ct \<noteq> -1"
    using BuildCartesian_heap by blast
  have "t = ix 0 T"
    using assms arr_inorder [OF ct(2)] ct(3) by (intro hp_unique [of T t 0 "nl T - 1" "diffs T"]) auto
  then show ?thesis
    using that [OF ct(1)] ct BuildCartesian_length [OF ct(1)] by simp
qed

lemma ct_root_trie:
  assumes "BuildCartesian (diffs (Nd l d r)) = Some ct" "hord (Nd l d r)"
  shows "ct_root ct = int (nl l - 1)"
proof -
  have "2 \<le> nl (Nd l d r)"
    using nl_pos [of l] nl_pos [of r] by simp
  from BuildCartesian_trie [OF assms(2) this] obtain ct' where
    "BuildCartesian (diffs (Nd l d r)) = Some ct'"
    "arr (ct_left ct') (ct_right ct') (ct_root ct') 0 (nl (Nd l d r) - 1) (ix 0 (Nd l d r))"
    by metis
  then show ?thesis
    using assms(1) by (auto elim: arr.cases)
qed

text \<open>The frames of the traversal, in its order.\<close>

primrec tframes :: "nat \<Rightarrow> 'a rtree \<Rightarrow> route_frame list" where
  "tframes lo (Lf x) = []"
| "tframes lo (Nd l d r) =
     \<lparr>rf_node = int (lo + nl l - 1), rf_leaf_l = int lo, rf_leaf_r = int (lo + nl l + nl r)\<rparr> #
     tframes lo l @ tframes (lo + nl l) r"

lemma frames_loop_arr:
  assumes "arr L R c lo hi (ix lo T)" "hi \<le> length L" "hi \<le> length R"
  shows "frames_loop step L R b (push_frame c (int lo) (int (lo + nl T)) fs) =
    frames_loop step L R (fold step (tframes lo T) b) fs"
  using assms
proof (induction T arbitrary: c lo hi b fs)
  case (Lf x)
  then have "c = -1"
    by (auto elim: arr_LeafE)
  then show ?case
    by (simp add: push_frame_def)
next
  case (Nd l d r)
  define m where "m = lo + nl l - 1"
  have m1: "Suc m = lo + nl l" "int m + 1 = int (lo + nl l)"
    using nl_pos [of l] by (simp_all add: m_def)
  from Nd.prems(1) have c: "c = int m" "m < hi" "arr L R (L ! m) lo m (ix lo l)"
    "arr L R (R ! m) (lo + nl l) hi (ix (lo + nl l) r)"
    using m1(1) by (auto simp: m_def elim!: arr_NodeE)
  let ?f = "\<lparr>rf_node = int m, rf_leaf_l = int lo, rf_leaf_r = int (lo + nl (Nd l d r))\<rparr>"
  have "frames_loop step L R b (push_frame c (int lo) (int (lo + nl (Nd l d r))) fs) =
      frames_loop step L R b (?f # fs)"
    using c(1) by (simp add: push_frame_def)
  also have "\<dots> = frames_loop step L R (step ?f b)
        (push_frame (L ! m) (int lo) (int (lo + nl l))
          (push_frame (R ! m) (int (lo + nl l)) (int (lo + nl l + nl r)) fs))"
    using c(2) Nd.prems(2,3) m1
    by (subst frames_loop.simps) (simp add: at_int Let_def add.assoc)
  also have "\<dots> = frames_loop step L R (fold step (tframes lo l) (step ?f b))
        (push_frame (R ! m) (int (lo + nl l)) (int (lo + nl l + nl r)) fs)"
    using Nd.prems(2,3) c(2) by (intro Nd.IH(1) [OF c(3)]) simp_all
  also have "\<dots> = frames_loop step L R (fold step (tframes (lo + nl l) r) (fold step (tframes lo l) (step ?f b))) fs"
    using Nd.prems(2,3) by (intro Nd.IH(2) [OF c(4)]) simp_all
  finally show ?case
    by (simp add: m_def add.assoc)
qed

lemma frames_loop_trie:
  assumes "hord T" "2 \<le> nl T"
  obtains ct where "BuildCartesian (diffs T) = Some ct"
    "\<And>step b. frames_loop step (ct_left ct) (ct_right ct) b
       [\<lparr>rf_node = ct_root ct, rf_leaf_l = 0, rf_leaf_r = int (nl T)\<rparr>] = Some (fold step (tframes 0 T) b)"
proof -
  obtain ct where ct: "BuildCartesian (diffs T) = Some ct"
    "arr (ct_left ct) (ct_right ct) (ct_root ct) 0 (nl T - 1) (ix 0 T)"
    "length (ct_left ct) = nl T - 1" "length (ct_right ct) = nl T - 1" "ct_root ct \<noteq> -1"
    using BuildCartesian_trie [OF assms] .
  have "frames_loop step (ct_left ct) (ct_right ct) b
      (push_frame (ct_root ct) (int 0) (int (0 + nl T)) []) = Some (fold step (tframes 0 T) b)" for step b
    using frames_loop_arr [OF ct(2), of step b "[]"] ct(3,4)
    by (simp add: frames_loop.simps [of _ _ _ _ "[]"])
  then show ?thesis
    using that [OF ct(1)] ct(5) by (simp add: push_frame_def)
qed

section \<open>Ranges that are subtries\<close>

primrec is_range :: "'a rtree \<Rightarrow> nat \<Rightarrow> nat \<Rightarrow> bool" where
  "is_range (Lf x) a c = (a = 0 \<and> c = 1)"
| "is_range (Nd l d r) a c =
     (if a = 0 \<and> c = nl l + nl r then True
      else if a + c \<le> nl l then is_range l a c
      else nl l \<le> a \<and> is_range r (a - nl l) c)"

lemma is_range_bound: "is_range T a c \<Longrightarrow> 0 < c \<and> a + c \<le> nl T"
proof (induction T arbitrary: a)
  case (Nd l d r)
  show ?case
    using Nd.prems Nd.IH(1) [of a] Nd.IH(2) [of "a - nl l"] nl_pos [of l] by (auto split: if_splits)
qed auto

lemma is_range_self: "is_range T 0 (nl T)"
  by (cases T) auto

lemma tframes_range:
  "f \<in> set (tframes lo T) \<Longrightarrow> \<exists>a c. rf_leaf_l f = int (lo + a) \<and> rf_leaf_r f = int (lo + a + c) \<and> is_range T a c"
proof (induction T arbitrary: lo)
  case (Nd l d r)
  then consider "f = \<lparr>rf_node = int (lo + nl l - 1), rf_leaf_l = int lo, rf_leaf_r = int (lo + nl l + nl r)\<rparr>"
    | "f \<in> set (tframes lo l)" | "f \<in> set (tframes (lo + nl l) r)"
    by auto
  then show ?case
  proof cases
    case 1
    then show ?thesis
      by (intro exI [of _ 0] exI [of _ "nl l + nl r"]) simp
  next
    case 2
    then obtain a c where ac: "rf_leaf_l f = int (lo + a)" "rf_leaf_r f = int (lo + a + c)" "is_range l a c"
      using Nd.IH(1) by blast
    moreover have "is_range (Nd l d r) a c"
      using is_range_bound [OF ac(3)] ac(3) by simp
    ultimately show ?thesis
      by blast
  next
    case 3
    then obtain a c where ac: "rf_leaf_l f = int (lo + nl l + a)" "rf_leaf_r f = int (lo + nl l + a + c)" "is_range r a c"
      using Nd.IH(2) by blast
    then have "is_range (Nd l d r) (nl l + a) c"
      using is_range_bound [OF ac(3)] nl_pos [of l] by simp
    with ac show ?thesis
      by (intro exI [of _ "nl l + a"] exI [of _ c]) (simp add: add.assoc)
  qed
qed simp

text \<open>A trie with four or more slots has a subtrie that leaves at least two slots outside.\<close>

definition frame_count :: "route_frame \<Rightarrow> int" where
  "frame_count f = rf_leaf_r f - rf_leaf_l f"

lemma tframes_root: "2 \<le> nl T \<Longrightarrow> \<exists>f \<in> set (tframes lo T). frame_count f = int (nl T)"
  by (cases T) (auto simp: frame_count_def)

lemma tframes_left: "f \<in> set (tframes lo l) \<Longrightarrow> f \<in> set (tframes lo (Nd l d r))"
  by simp

lemma tframes_right: "f \<in> set (tframes (lo + nl l) r) \<Longrightarrow> f \<in> set (tframes lo (Nd l d r))"
  by simp

lemma tframes_inner:
  assumes "3 \<le> nl u"
  shows "\<exists>f \<in> set (tframes lo u). 2 \<le> frame_count f \<and> frame_count f \<le> int (nl u) - 1"
proof -
  obtain l e r where u: "u = Nd l e r"
    using assms by (cases u) auto
  have pos: "0 < nl l" "0 < nl r"
    by (rule nl_pos)+
  show ?thesis
  proof (cases "2 \<le> nl l")
    case True
    then obtain f where "f \<in> set (tframes lo l)" "frame_count f = int (nl l)"
      using tframes_root by blast
    then show ?thesis
      using True pos unfolding u by (intro bexI [OF _ tframes_left]) simp_all
  next
    case False
    then have "2 \<le> nl r"
      using assms u by simp
    moreover from this obtain f where "f \<in> set (tframes (lo + nl l) r)" "frame_count f = int (nl r)"
      using tframes_root by blast
    ultimately show ?thesis
      using pos unfolding u by (intro bexI [OF _ tframes_right]) simp_all
  qed
qed

lemma tframes_middle:
  assumes "4 \<le> nl T"
  shows "\<exists>f \<in> set (tframes lo T). 2 \<le> frame_count f \<and> frame_count f \<le> int (nl T) - 2"
proof -
  obtain l d r where T: "T = Nd l d r"
    using assms by (cases T) auto
  have pos: "0 < nl l" "0 < nl r"
    by (rule nl_pos)+
  have "2 \<le> nl l \<and> 2 \<le> nl r \<or> nl l = 1 \<and> 3 \<le> nl r \<or> nl r = 1 \<and> 3 \<le> nl l"
    using assms T pos by simp linarith
  then consider "2 \<le> nl l" "2 \<le> nl r" | "nl l = 1" "3 \<le> nl r" | "nl r = 1" "3 \<le> nl l"
    by blast
  then show ?thesis
  proof cases
    case 1
    then obtain f where "f \<in> set (tframes lo l)" "frame_count f = int (nl l)"
      using tframes_root by blast
    with 1 show ?thesis
      unfolding T by (intro bexI [OF _ tframes_left]) simp_all
  next
    case 2
    obtain f where "f \<in> set (tframes (lo + nl l) r)" "2 \<le> frame_count f" "frame_count f \<le> int (nl r) - 1"
      using tframes_inner [OF 2(2)] by blast
    with 2 show ?thesis
      unfolding T by (intro bexI [OF _ tframes_right]) simp_all
  next
    case 3
    obtain f where "f \<in> set (tframes lo l)" "2 \<le> frame_count f" "frame_count f \<le> int (nl l) - 1"
      using tframes_inner [OF 3(2)] by blast
    with 3 show ?thesis
      unfolding T by (intro bexI [OF _ tframes_left]) simp_all
  qed
qed

section \<open>The choice\<close>

text \<open>A candidate: not set, or a range of a frame with a count between the limits.\<close>

definition cand :: "int \<Rightarrow> route_frame set \<Rightarrow> int \<Rightarrow> int \<Rightarrow> bool" where
  "cand n F start count \<longleftrightarrow> start = -1 \<or>
     (\<exists>f \<in> F. start = rf_leaf_l f \<and> count = frame_count f \<and> 2 \<le> count \<and> count \<le> n - 2)"

definition best_inv :: "int \<Rightarrow> route_frame set \<Rightarrow> split_best \<Rightarrow> bool" where
  "best_inv n F b \<longleftrightarrow> cand n F (sb_start b) (sb_count b) \<and> cand n F (sb_pref_start b) (sb_pref_count b)"

lemma split_step_inv: "f \<in> F \<Longrightarrow> best_inv n F b \<Longrightarrow> best_inv n F (split_step n tgt mp f b)"
  by (auto simp: best_inv_def split_step_def Let_def cand_def frame_count_def)

lemma edge_step_inv: "f \<in> F \<Longrightarrow> best_inv n F b \<Longrightarrow> best_inv n F (edge_step n slot f b)"
  by (auto simp: best_inv_def edge_step_def Let_def cand_def frame_count_def)

lemma fold_best_inv:
  "(\<And>f b. f \<in> F \<Longrightarrow> best_inv n F b \<Longrightarrow> best_inv n F (step f b)) \<Longrightarrow> set fs \<subseteq> F \<Longrightarrow> best_inv n F b \<Longrightarrow>
   best_inv n F (fold step fs b)"
  by (induction fs arbitrary: b) auto

text \<open>Once set, the best candidate stays set; a frame between the limits sets it.\<close>

lemma split_step_set:
  "0 \<le> rf_leaf_l f \<Longrightarrow> sb_start b \<noteq> -1 \<or> 2 \<le> frame_count f \<and> frame_count f \<le> n - 2 \<Longrightarrow>
   sb_start (split_step n tgt mp f b) \<noteq> -1"
  by (auto simp: split_step_def Let_def frame_count_def)

lemma fold_split_set:
  "(\<And>f. f \<in> set fs \<Longrightarrow> 0 \<le> rf_leaf_l f) \<Longrightarrow>
   sb_start b \<noteq> -1 \<or> (\<exists>f \<in> set fs. 2 \<le> frame_count f \<and> frame_count f \<le> n - 2) \<Longrightarrow>
   sb_start (fold (split_step n tgt mp) fs b) \<noteq> -1"
proof (induction fs arbitrary: b)
  case (Cons f fs)
  then show ?case
    using split_step_set [of f b n tgt mp] by (auto intro!: Cons.IH)
qed simp

lemma cand_range:
  assumes "cand (int (nl T)) (set (tframes 0 T)) start count" "start \<noteq> -1"
  shows "\<exists>a c. start = int a \<and> count = int c \<and> is_range T a c \<and> 2 \<le> c \<and> c + 2 \<le> nl T"
proof -
  obtain f where f: "f \<in> set (tframes 0 T)" "start = rf_leaf_l f" "count = frame_count f"
    "2 \<le> count" "count \<le> int (nl T) - 2"
    using assms by (auto simp: cand_def)
  obtain a c where "rf_leaf_l f = int (0 + a)" "rf_leaf_r f = int (0 + a + c)" "is_range T a c"
    using tframes_range [OF f(1)] by blast
  with f show ?thesis
    by (intro exI [of _ a] exI [of _ c]) (auto simp: frame_count_def)
qed

lemma best_inv_init: "sb_start b = -1 \<Longrightarrow> sb_pref_start b = -1 \<Longrightarrow> best_inv n F b"
  by (simp add: best_inv_def cand_def)

lemma choose_split_trie:
  assumes "hord T" "4 \<le> nl T"
  shows "\<exists>a c. choose_split (diffs T) (int (nl T)) = Some \<lparr>sr_start = int a, sr_count = int c\<rparr> \<and>
    is_range T a c \<and> 2 \<le> c \<and> c + 2 \<le> nl T"
proof -
  have "2 \<le> nl T"
    using assms(2) by simp
  then obtain ct where ct: "BuildCartesian (diffs T) = Some ct"
    "\<And>step b. frames_loop step (ct_left ct) (ct_right ct) b
       [\<lparr>rf_node = ct_root ct, rf_leaf_l = 0, rf_leaf_r = int (nl T)\<rparr>] = Some (fold step (tframes 0 T) b)"
    using frames_loop_trie [OF assms(1)] by blast
  let ?n = "int (nl T)"
  let ?b0 = "\<lparr>sb_start = -1, sb_count = 0, sb_score = ?n, sb_pref_start = -1, sb_pref_count = 0\<rparr>"
  define b where "b = fold (split_step ?n (?n div 2) ((?n * 1 + 3 - 1) div 3)) (tframes 0 T) ?b0"
  have inv: "best_inv ?n (set (tframes 0 T)) b"
    unfolding b_def by (rule fold_best_inv [OF split_step_inv]) (simp_all add: best_inv_init)
  have nz: "0 \<le> rf_leaf_l f" if "f \<in> set (tframes 0 T)" for f
    using tframes_range [OF that] by auto
  have set: "sb_start b \<noteq> -1"
    unfolding b_def using nz tframes_middle [OF assms(2), of 0] by (intro fold_split_set) auto
  have "choose_split (diffs T) ?n = Some (if sb_pref_start b \<noteq> -1
      then \<lparr>sr_start = sb_pref_start b, sr_count = sb_pref_count b\<rparr>
      else \<lparr>sr_start = sb_start b, sr_count = sb_count b\<rparr>)"
    using set by (simp add: choose_split_def ct b_def)
  moreover have "\<exists>a c. sb_start b = int a \<and> sb_count b = int c \<and> is_range T a c \<and> 2 \<le> c \<and> c + 2 \<le> nl T"
    using inv set unfolding best_inv_def by (intro cand_range) simp_all
  moreover have "\<exists>a c. sb_pref_start b = int a \<and> sb_pref_count b = int c \<and> is_range T a c \<and> 2 \<le> c \<and> c + 2 \<le> nl T"
    if "sb_pref_start b \<noteq> -1"
    using inv that unfolding best_inv_def by (intro cand_range) simp_all
  ultimately show ?thesis
    by (cases "sb_pref_start b = -1") auto
qed

lemma ChooseEdge_trie:
  assumes "hord T" "4 \<le> nl T"
  shows "\<exists>r. ChooseEdgeSplitRange (diffs T) (int (nl T)) slot = Some r \<and>
    (\<forall>sr. r = Inr sr \<longrightarrow> (\<exists>a c. sr = \<lparr>sr_start = int a, sr_count = int c\<rparr> \<and> is_range T a c \<and> 2 \<le> c \<and> c + 2 \<le> nl T))"
proof -
  have "2 \<le> nl T"
    using assms(2) by simp
  then obtain ct where ct: "BuildCartesian (diffs T) = Some ct"
    "\<And>step b. frames_loop step (ct_left ct) (ct_right ct) b
       [\<lparr>rf_node = ct_root ct, rf_leaf_l = 0, rf_leaf_r = int (nl T)\<rparr>] = Some (fold step (tframes 0 T) b)"
    using frames_loop_trie [OF assms(1)] by blast
  let ?n = "int (nl T)"
  let ?b0 = "\<lparr>sb_start = -1, sb_count = 0, sb_score = 0, sb_pref_start = -1, sb_pref_count = 0\<rparr>"
  define b where "b = fold (edge_step ?n slot) (tframes 0 T) ?b0"
  have "best_inv ?n (set (tframes 0 T)) b"
    unfolding b_def by (rule fold_best_inv [OF edge_step_inv]) (simp_all add: best_inv_init)
  then have "\<exists>a c. sb_start b = int a \<and> sb_count b = int c \<and> is_range T a c \<and> 2 \<le> c \<and> c + 2 \<le> nl T"
    if "sb_start b \<noteq> -1"
    using that unfolding best_inv_def by (intro cand_range) simp_all
  moreover have "ChooseEdgeSplitRange (diffs T) ?n slot = Some (if sb_start b = -1 then Inl kMissingKey
      else Inr \<lparr>sr_start = sb_start b, sr_count = sb_count b\<rparr>)"
    by (simp add: ChooseEdgeSplitRange_def ct b_def)
  ultimately show ?thesis
    by auto
qed

lemma ChooseSplitRange_spec:
  assumes "slots_held (page_of s) (slots t)" "pat (ktree kf t)" "keys_of K kf (set (leaves (flat t)))"
    and "4 \<le> nl (ptop t)"
  shows "\<exists>a c. ChooseSplitRange K (map slot_rep (slots t)) slot s =
      Some (Inr \<lparr>sr_start = int a, sr_count = int c\<rparr>, s) \<and>
    is_range (ptop t) a c \<and> 2 \<le> c \<and> c + 2 \<le> nl (ptop t)"
proof -
  have h: "hord (ptop t)"
    by (rule pat_hord_ptop [OF assms(2)])
  obtain r where r: "ChooseEdgeSplitRange (diffs (ptop t)) (int (nl (ptop t))) slot = Some r"
    "\<And>sr. r = Inr sr \<Longrightarrow> \<exists>a c. sr = \<lparr>sr_start = int a, sr_count = int c\<rparr> \<and> is_range (ptop t) a c \<and> 2 \<le> c \<and> c + 2 \<le> nl (ptop t)"
    using ChooseEdge_trie [OF h assms(4), of slot] by blast
  obtain a c where ac: "choose_split (diffs (ptop t)) (int (nl (ptop t))) = Some \<lparr>sr_start = int a, sr_count = int c\<rparr>"
    "is_range (ptop t) a c" "2 \<le> c" "c + 2 \<le> nl (ptop t)"
    using choose_split_trie [OF h assms(4)] by blast
  note bd = BuildDiffs_tree [OF assms(1-3)]
  have len: "length (map slot_rep (slots t)) = nl (ptop t)" "\<not> nl (ptop t) < 4"
    using assms(4) by (simp_all add: nl_ptop)
  show ?thesis
  proof (cases r)
    case (Inl e)
    then show ?thesis
      using ac r(1) len
      by (intro exI [of _ a] exI [of _ c]) (simp add: ChooseSplitRange_def op_simps bd del: length_map)
  next
    case (Inr sr)
    then obtain a' c' where "sr = \<lparr>sr_start = int a', sr_count = int c'\<rparr>" "is_range (ptop t) a' c'" "2 \<le> c'"
      "c' + 2 \<le> nl (ptop t)"
      using r(2) by blast
    then show ?thesis
      using Inr ac r(1) len
      by (cases "slot = 0 \<or> slot = int (nl (ptop t)) - 1")
        (fastforce simp: ChooseSplitRange_def op_simps bd simp del: length_map)+
  qed
qed

section \<open>Moving a subtrie to a page of its own\<close>

primrec sub_at :: "ctree \<Rightarrow> nat \<Rightarrow> nat \<Rightarrow> ctree" where
  "sub_at (Rec p) a c = Rec p"
| "sub_at (Sub i t) a c = Sub i t"
| "sub_at (Br l d r) a c =
     (if a = 0 \<and> c = nl (ptop l) + nl (ptop r) then Br l d r
      else if a + c \<le> nl (ptop l) then sub_at l a c else sub_at r (a - nl (ptop l)) c)"

primrec wrap :: "u64 \<Rightarrow> ctree \<Rightarrow> nat \<Rightarrow> nat \<Rightarrow> ctree" where
  "wrap j (Rec p) a c = Sub j (Rec p)"
| "wrap j (Sub i t) a c = Sub j (Sub i t)"
| "wrap j (Br l d r) a c =
     (if a = 0 \<and> c = nl (ptop l) + nl (ptop r) then Sub j (Br l d r)
      else if a + c \<le> nl (ptop l) then Br (wrap j l a c) d r else Br l d (wrap j r (a - nl (ptop l)) c))"

lemma flat_wrap: "flat (wrap j t a c) = flat t"
  by (induction t arbitrary: a) auto

lemma slots_sub_at: "is_range (ptop t) a c \<Longrightarrow> slots (sub_at t a c) = take c (drop a (slots t))"
proof (induction t arbitrary: a)
  case (Br l d r)
  then show ?case
    by (auto simp: nl_ptop split: if_splits)
qed auto

lemma slots_wrap:
  "is_range (ptop t) a c \<Longrightarrow>
   slots (wrap j t a c) = take a (slots t) @ [Sub j (sub_at t a c)] @ drop (a + c) (slots t)"
proof (induction t arbitrary: a)
  case (Br l d r)
  show ?case
  proof (cases "a = 0 \<and> c = nl (ptop l) + nl (ptop r)")
    case False
    show ?thesis
    proof (cases "a + c \<le> nl (ptop l)")
      case True
      with False Br show ?thesis
        by (auto simp: nl_ptop)
    next
      case c2: False
      with False Br.prems have "length (slots l) \<le> a" "is_range (ptop r) (a - length (slots l)) c"
        by (auto simp: nl_ptop)
      with False c2 Br.IH(2) show ?thesis
        by (auto simp: nl_ptop)
    qed
  qed (simp add: nl_ptop)
qed auto

lemma pat_sub_at: "pat (ktree kf t) \<Longrightarrow> pat (ktree kf (sub_at t a c))"
  by (induction t arbitrary: a) auto

lemma leaves_sub_at: "set (leaves (flat (sub_at t a c))) \<subseteq> set (leaves (flat t))"
  by (induction t arbitrary: a) (auto split: if_splits)

lemma ct_ok_sub_at: "ct_ok t \<Longrightarrow> ct_ok (sub_at t a c)"
  by (induction t arbitrary: a) auto

lemma take_drop_split: "a + c \<le> length xs \<Longrightarrow> xs = take a xs @ take c (drop a xs) @ drop (a + c) xs"
  by (metis append_take_drop_id drop_drop add.commute)

lemma pids_wrap:
  assumes "is_range (ptop t) a c"
  shows "set (pids (wrap j t a c)) = insert j (set (pids t))"
    and "distinct (pids (wrap j t a c)) \<longleftrightarrow> j \<notin> set (pids t) \<and> distinct (pids t)"
proof -
  have ac: "a + c \<le> length (slots t)"
    using is_range_bound [OF assms] by (simp add: nl_ptop)
  let ?f = "\<lambda>cs. concat (map pids cs)"
  have w: "pids (wrap j t a c) = ?f (take a (slots t)) @ (j # ?f (take c (drop a (slots t)))) @ ?f (drop (a + c) (slots t))"
    by (subst pids_slots) (simp add: slots_wrap [OF assms] slots_sub_at [OF assms] pids_slots [of "sub_at t a c"])
  have t: "pids t = ?f (take a (slots t)) @ ?f (take c (drop a (slots t))) @ ?f (drop (a + c) (slots t))"
    by (subst pids_slots, subst take_drop_split [OF ac]) simp
  show "set (pids (wrap j t a c)) = insert j (set (pids t))"
    unfolding w t by auto
  show "distinct (pids (wrap j t a c)) \<longleftrightarrow> j \<notin> set (pids t) \<and> distinct (pids t)"
    unfolding w t by auto
qed

lemma pids_sub_at: "is_range (ptop t) a c \<Longrightarrow> set (pids (sub_at t a c)) \<subseteq> set (pids t)"
  by (subst pids_slots, subst pids_slots [of t])
    (use slots_sub_at in \<open>auto dest!: in_set_takeD in_set_dropD\<close>)

lemma distinct_pids_sub_at:
  assumes "is_range (ptop t) a c" "distinct (pids t)"
  shows "distinct (pids (sub_at t a c))"
proof -
  have "a + c \<le> length (slots t)"
    using is_range_bound [OF assms(1)] by (simp add: nl_ptop)
  then have "pids t = concat (map pids (take a (slots t))) @ pids (sub_at t a c) @ concat (map pids (drop (a + c) (slots t)))"
    by (subst pids_slots, subst take_drop_split [of a c]) (simp_all add: pids_slots [of "sub_at t a c"] slots_sub_at [OF assms(1)])
  with assms(2) show ?thesis
    by (metis distinct_append)
qed

section \<open>SplitAndWriteNodeAt\<close>

lemma slots_held_sub:
  "slots_held g cs \<Longrightarrow> set cs' \<subseteq> set cs \<Longrightarrow> slots_held g cs'"
  by (auto simp: slots_held_def)

lemma page_ok_reps: "page_ok p t \<Longrightarrow> np_size p \<noteq> 0"
  using page_ok_size by blast

text \<open>
  One slot too many: a subtrie moves to a new page, and what is left fits in the page.
\<close>

lemma SplitAndWriteNodeAt_spec:
  assumes "store_ok s" "has_room s" "page_of s i = Some q" "len_ok q"
    and "slots_held (page_of s) (slots u)" "distinct (i # pids u)" "ids i u \<subseteq> dom (page_of s)"
    and "nl (ptop u) = 340" "pat (ktree kf u)" "keys_of K kf (set (leaves (flat u)))"
  shows "\<exists>s' w j. SplitAndWriteNodeAt K i (map slot_rep (slots u)) slot s = Some (Inr (), s') \<and> store_ok s' \<and>
    holds (page_of s') i w \<and> flat w = flat u \<and> page_of s j = None \<and> ids i w = insert j (ids i u) \<and>
    (\<forall>k. k \<noteq> i \<and> k \<noteq> j \<longrightarrow> page_of s' k = page_of s k)"
proof -
  obtain a c where ac: "ChooseSplitRange K (map slot_rep (slots u)) slot s =
      Some (Inr \<lparr>sr_start = int a, sr_count = int c\<rparr>, s)"
    "is_range (ptop u) a c" "2 \<le> c" "c + 2 \<le> nl (ptop u)"
    using ChooseSplitRange_spec [OF assms(5,9,10), of slot] assms(8) by auto
  have acl: "a + c \<le> length (slots u)" "length (slots u) = 340"
    using is_range_bound [OF ac(2)] assms(8) by (simp_all add: nl_ptop)
  obtain j s1 where j: "Alloc s = Some (Inr j, s1)" "store_ok s1" "page_of s j = None" "untagged j"
    "page_of s1 = (page_of s)(j \<mapsto> new_page)"
    using Alloc_spec [OF assms(1,2)] by blast
  have ij: "j \<noteq> i" "j \<notin> set (pids u)"
    using j(3) assms(3,7) by (auto simp: ids_def)
  let ?v = "sub_at u a c"
  let ?w = "wrap j u a c"
  have held1: "slots_held (page_of s1) (slots u)"
    unfolding slots_held_def
  proof
    fix x
    assume x: "x \<in> set (slots u)"
    have "holds (page_of s1) k v" if "x = Sub k v" "holds (page_of s) k v" for k v
    proof (rule holds_cong [OF that(2)])
      fix m
      assume "m \<in> ids k v"
      then have "m \<in> set (pids u)"
        using pids_slot [OF x] that(1) by (auto simp: ids_def)
      then show "page_of s1 m = page_of s m"
        using ij j(5) by auto
    qed
    moreover have "(\<exists>q. x = Rec q \<and> untagged q) \<or> (\<exists>k v. x = Sub k v \<and> untagged k \<and> holds (page_of s) k v)"
      using assms(5) x by (simp add: slots_held_def)
    ultimately show "(\<exists>q. x = Rec q \<and> untagged q) \<or> (\<exists>k v. x = Sub k v \<and> untagged k \<and> holds (page_of s1) k v)"
      by blast
  qed
  have vslots: "slots ?v = take c (drop a (slots u))"
    by (rule slots_sub_at [OF ac(2)])
  have vsub: "set (slots ?v) \<subseteq> set (slots u)"
    unfolding vslots by (meson set_take_subset set_drop_subset order_trans)
  have nlv: "nl (ptop ?v) = c"
    using acl by (simp add: nl_ptop vslots)
  have heldv: "slots_held (page_of s1) (slots ?v)"
    by (rule slots_held_sub [OF held1 vsub])
  have jv: "j \<notin> set (pids ?v)" "set (pids ?v) \<subseteq> set (pids u)"
    using ij pids_sub_at [OF ac(2)] by auto
  have keysv: "keys_of K kf (set (leaves (flat ?v)))"
    by (rule keys_of_subset [OF assms(10) leaves_sub_at])
  obtain pv where pv: "write_small K j (map slot_rep (slots ?v)) s1 = Some (Inr (), upd_page j pv s1)" "page_ok pv ?v"
    using write_small_spec [of s1 j new_page ?v kf K] j(5) heldv jv nlv acl pat_sub_at [OF assms(9)] keysv ac(4) assms(8)
    by (auto simp: len_ok_def new_page_def)
  let ?s2 = "upd_page j pv s1"
  have pg2: "page_of ?s2 = (page_of s)(j \<mapsto> pv)"
    using page_of_upd_page [of s1 j new_page pv] j(5) by simp
  have ok2: "store_ok ?s2"
    by (rule store_ok_upd_page(1) [OF j(2)]) (simp add: j(5))
  have held2: "slots_held (page_of ?s2) (slots u)"
    by (rule slots_held_upd_page [OF held1 ij(2)])
  have hv: "holds (page_of ?s2) j ?v"
  proof (rule holds_intro)
    show "page_of ?s2 j = Some pv" "page_ok pv ?v"
      using pg2 pv(2) by simp_all
    show "distinct (j # pids ?v)"
      using jv distinct_pids_sub_at [OF ac(2)] assms(6) by simp
    show "(\<exists>q. x = Rec q \<and> untagged q) \<or> (\<exists>k v. x = Sub k v \<and> untagged k \<and> holds (page_of ?s2) k v)"
      if "x \<in> set (slots ?v)" for x
      using held2 vsub that unfolding slots_held_def by blast
  qed
  have wslots: "slots ?w = take a (slots u) @ [Sub j ?v] @ drop (a + c) (slots u)"
    by (rule slots_wrap [OF ac(2)])
  have heldw: "slots_held (page_of ?s2) (slots ?w)"
  proof -
    have "x = Sub j ?v \<or> x \<in> set (slots u)" if "x \<in> set (slots ?w)" for x
      using that unfolding wslots by (auto dest: in_set_takeD in_set_dropD)
    then show ?thesis
      using held2 hv j(4) unfolding slots_held_def by blast
  qed
  have nlw: "nl (ptop ?w) \<le> 339"
    using acl ac(3) by (simp add: nl_ptop wslots)
  have iw: "i \<notin> set (pids ?w)"
    using ij assms(6) pids_wrap(1) [OF ac(2)] by auto
  have patw: "pat (ktree kf ?w)" "keys_of K kf (set (leaves (flat ?w)))"
    using assms(9,10) by (simp_all add: ktree_def flat_wrap)
  have pi: "page_of ?s2 i = Some q"
    using pg2 ij assms(3) by simp
  obtain pw where pw: "write_small K i (map slot_rep (slots ?w)) ?s2 = Some (Inr (), upd_page i pw ?s2)" "page_ok pw ?w"
    using write_small_spec [OF pi assms(4) heldw iw nlw patw] by blast
  let ?s3 = "upd_page i pw ?s2"
  have hw: "holds (page_of ?s3) i ?w"
  proof (rule holds_intro)
    show "page_of ?s3 i = Some pw" "page_ok pw ?w"
      using pi pw(2) by simp_all
    show "distinct (i # pids ?w)"
      using iw ij assms(6) pids_wrap(2) [OF ac(2)] by simp
    show "(\<exists>q. x = Rec q \<and> untagged q) \<or> (\<exists>k v. x = Sub k v \<and> untagged k \<and> holds (page_of ?s3) k v)"
      if "x \<in> set (slots ?w)" for x
      using slots_held_upd_page [OF heldw iw] that unfolding slots_held_def by blast
  qed
  let ?reps = "map slot_rep (slots u)"
  have sl: "slice ?reps (int a) (int a + int c) = Some (map slot_rep (slots ?v))"
    "slice ?reps 0 (int a) = Some (map slot_rep (take a (slots u)))"
    "slice ?reps (int a + int c) (int (length ?reps)) = Some (map slot_rep (drop (a + c) (slots u)))"
    using acl slice_nat [of a "a + c" ?reps] slice_prefix [of a ?reps] slice_suffix [of "a + c" ?reps]
    by (simp_all add: vslots take_map drop_map)
  have wreps: "map slot_rep (take a (slots u)) @ [kChildTag OR j] @ map slot_rep (drop (a + c) (slots u)) = map slot_rep (slots ?w)"
    by (simp add: wslots)
  have small: "int (length (map slot_rep (slots ?v))) \<le> kMaxNodeReps"
    "int (length (map slot_rep (slots ?w))) \<le> kMaxNodeReps"
    using nlv nlw acl ac(4) assms(8) by (simp_all add: nl_ptop kMaxNodeReps_def)
  have "SplitAndWriteNodeAt K i ?reps slot s =
      SplitAndWriteNodeAt K i (map slot_rep (slots ?w)) (RemapInsertSlotAfterSplit slot (int a) (int a + int c) (int c)) ?s2"
    using acl ac(1) j(1,4) small(1) sl pv page_ok_reps [OF pv(2)] wreps pg2
    by (subst SplitAndWriteNodeAt.simps)
      (simp add: kMaxNodeReps_def op_simps AllocNode_def MakeChild_untagged del: map_append)
  also have "\<dots> = Some (Inr (), ?s3)"
    using small(2) pw(1) by (subst SplitAndWriteNodeAt.simps) simp
  finally have run: "SplitAndWriteNodeAt K i ?reps slot s = Some (Inr (), ?s3)" .
  have "page_of ?s3 k = page_of s k" if "k \<noteq> i" "k \<noteq> j" for k
    using that pg2 by simp
  moreover have "ids i ?w = insert j (ids i u)"
    using pids_wrap(1) [OF ac(2)] by (auto simp: ids_def)
  moreover have "store_ok ?s3"
    by (rule store_ok_upd_page(1) [OF ok2 pi])
  ultimately show ?thesis
    using run hw j(3) flat_wrap by blast
qed

end
