(* ===== verification/InsertCode.thy ===== *)
theory InsertCode
  imports IndexCode
begin

text \<open>
  \<^verbatim>\<open>class Index\<close> (\<^verbatim>\<open>index.h\<close>), second part: \<^verbatim>\<open>NewIndex\<close>, \<^verbatim>\<open>Probe\<close>, \<^verbatim>\<open>Get\<close>,
  \<^verbatim>\<open>Put\<close> and \<^verbatim>\<open>Retarget\<close> with everything below them: descending with a stack of frames,
  inserting in place, promoting a sibling, splitting a full page, propagating changed bounds.
\<close>

section \<open>Insertion into one page\<close>

definition InsertFullAt :: "key_fn \<Rightarrow> u64 \<Rightarrow> u64 \<Rightarrow> int \<Rightarrow> rep \<Rightarrow> unit iop" where
  "InsertFullAt K i node slot new_rep =
     bindM (deref node) (\<lambda>p.
     bindM (chk (slice (np_reps p) 0 slot)) (\<lambda>before.
     bindM (chk (slice (np_reps p) slot (page_size p))) (\<lambda>after.
       SplitAndWriteNode K i (before @ [new_rep] @ after))))"

text \<open>The new bounds of the page: only a slot at an end changes one.\<close>

definition insert_bounds :: "node_page \<Rightarrow> int \<Rightarrow> rep \<Rightarrow> (pos \<times> pos) iop" where
  "insert_bounds p slot new_rep =
     (if page_size p = 0
      then bindM (MinPos new_rep) (\<lambda>mn. bindM (MaxPos new_rep) (\<lambda>mx. ret (mn, mx)))
      else
        bindM (if slot = 0 then MinPos new_rep else ret (np_first p)) (\<lambda>first_pos.
        bindM (if slot = page_size p then MaxPos new_rep else ret (np_last p)) (\<lambda>last_pos.
          ret (first_pos, last_pos))))"

text \<open>The loop that opens the slot, and the writes after it.\<close>

definition insert_rep :: "node_page \<Rightarrow> int \<Rightarrow> rep \<Rightarrow> pos \<times> pos \<Rightarrow> node_page option" where
  "insert_rep p slot new_rep bounds =
     do { reps1 \<leftarrow> shift_up (np_reps p) slot (page_size p);
          reps2 \<leftarrow> put_at reps1 slot new_rep;
          Some (p\<lparr>np_reps := reps2, np_size := word_of_int (page_size p + 1),
                  np_first := fst bounds, np_last := snd bounds\<rparr>) }"

definition InsertAtIncremental :: "key_fn \<Rightarrow> u64 \<Rightarrow> int \<Rightarrow> rep \<Rightarrow> key \<Rightarrow> u16 \<Rightarrow> unit iop" where
  "InsertAtIncremental K i slot new_rep key diff =
     bindM (NodeByID i) (\<lambda>node.
     bindM (deref node) (\<lambda>p.
       if slot < 0 \<or> slot > page_size p then err kCorruptLayout
       else if page_size p \<ge> kMaxNodeReps then InsertFullAt K i node slot new_rep
       else
         bindM (insert_bounds p slot new_rep) (\<lambda>bounds.
         bindM (if page_size p = 0 then ret p else chkres (InsertRoute p slot key diff)) (\<lambda>p1.
         bindM (chk (insert_rep p1 slot new_rep bounds)) (\<lambda>p2.
           store_page node p2)))))"

section \<open>Bounds on the path\<close>

text \<open>
  The loop of \<^verbatim>\<open>PropagateBoundary\<close>, \<open>i\<close> being the number of frames above \<open>child\<close>.
\<close>

fun propagate_loop :: "put_frame list \<Rightarrow> nat \<Rightarrow> u64 \<Rightarrow> bool \<Rightarrow> bool \<Rightarrow> unit iop" where
  "propagate_loop frames 0 child first_changed last_changed = ret ()"
| "propagate_loop frames (Suc i) child first_changed last_changed =
     bindM (chk (at frames (int i))) (\<lambda>frame.
     bindM (NodeByID (pf_id frame)) (\<lambda>parent.
     bindM (deref parent) (\<lambda>p.
       if pf_leaf frame < 0 \<or> pf_leaf frame \<ge> page_size p then err kCorruptLayout
       else
         bindM (chk (at (np_reps p) (pf_leaf frame))) (\<lambda>child_rep.
         bindM (chk (at frames (int i + 1))) (\<lambda>below.
           if \<not> is_child child_rep \<or> child_id child_rep \<noteq> pf_id below then err kCorruptLayout
           else
             bindM (deref child) (\<lambda>c.
               let p1 = (if first_changed \<and> pf_leaf frame = 0 then p\<lparr>np_first := np_first c\<rparr> else p);
                   p2 = (if last_changed \<and> pf_leaf frame = page_size p - 1 then p1\<lparr>np_last := np_last c\<rparr> else p1)
               in
                 bindM (store_page parent p2) (\<lambda>_.
                   if \<not> np_first p2 \<noteq> np_first p \<and> \<not> np_last p2 \<noteq> np_last p then ret ()
                   else propagate_loop frames i parent (np_first p2 \<noteq> np_first p) (np_last p2 \<noteq> np_last p))))))))"

definition PropagateBoundary :: "put_frame list \<Rightarrow> int \<Rightarrow> pos \<Rightarrow> pos \<Rightarrow> unit iop" where
  "PropagateBoundary frames changed old_first old_last =
     bindM (chk (at frames changed)) (\<lambda>frame.
     bindM (NodeByID (pf_id frame)) (\<lambda>child.
     bindM (deref child) (\<lambda>c.
       let first_changed = np_first c \<noteq> old_first; last_changed = np_last c \<noteq> old_last in
       if \<not> first_changed \<and> \<not> last_changed then ret ()
       else propagate_loop frames (nat changed) child first_changed last_changed)))"

section \<open>Where to insert\<close>

fun slot_from_path :: "put_frame list \<Rightarrow> int \<Rightarrow> key \<Rightarrow> u16 \<Rightarrow> insert_slot option iop" where
  "slot_from_path [] i key diff = ret None"
| "slot_from_path (frame # frames) i key diff =
     bindM (NodeByID (pf_id frame)) (\<lambda>node.
     bindM (deref node) (\<lambda>p.
     bindM (chkres (InsertSlotAbovePath p key diff (pf_leaf frame))) (\<lambda>slot.
       if snd slot then ret (Some \<lparr>is_target = i, is_slot = fst slot\<rparr>)
       else slot_from_path frames (i + 1) key diff)))"

definition InsertSlotFromPath :: "put_frame list \<Rightarrow> key \<Rightarrow> int \<Rightarrow> u16 \<Rightarrow> insert_slot iop" where
  "InsertSlotFromPath frames key cmp diff =
     bindM (slot_from_path frames 0 key diff) (\<lambda>r.
       case r of
         Some slot \<Rightarrow> ret slot
       | None \<Rightarrow>
           bindM (chk (at frames (int (length frames) - 1))) (\<lambda>bottom.
             if cmp < 0
             then ret \<lparr>is_target = int (length frames) - 1, is_slot = pf_leaf bottom\<rparr>
             else ret \<lparr>is_target = int (length frames) - 1, is_slot = pf_leaf bottom + 1\<rparr>))"

fun edge_loop :: "put_frame list \<Rightarrow> int \<Rightarrow> int iop" where
  "edge_loop [] slot = ret slot"
| "edge_loop (frame # frames) slot =
     (if slot = 0
      then (if pf_leaf frame \<noteq> 0 then ret (-1) else edge_loop frames slot)
      else
        bindM (node_at (pf_id frame)) (\<lambda>p.
          if pf_leaf frame \<noteq> page_size p - 1 then ret (-1) else edge_loop frames slot))"

definition PathEdgeInsertSlot :: "put_frame list \<Rightarrow> int \<Rightarrow> int \<Rightarrow> int \<Rightarrow> int iop" where
  "PathEdgeInsertSlot frames target slot old_size =
     (if slot \<noteq> 0 \<and> slot \<noteq> old_size then ret (-1)
      else bindM (chk (slice frames 0 target)) (\<lambda>above. edge_loop above slot))"

section \<open>Promoting a sibling\<close>

text \<open>
  The slots of a full page and one more are split at the root of their Cartesian tree; the
  second half moves to a new page, which becomes the next slot of the parent.
\<close>

definition PromoteSibling :: "key_fn \<Rightarrow> u64 \<Rightarrow> int \<Rightarrow> u64 \<Rightarrow> rep list \<Rightarrow> unit iop" where
  "PromoteSibling K parent_id child_slot child reps =
     (if int (length reps) \<noteq> kMaxNodeReps + 1 then err kCorruptLayout
      else
        bindM (NodeByID parent_id) (\<lambda>parent.
        bindM (deref parent) (\<lambda>p0.
          if child_slot < 0 \<or> child_slot \<ge> page_size p0 \<or> page_size p0 \<ge> kMaxNodeReps then err kCorruptLayout
          else
            bindM (chk (at (np_reps p0) child_slot)) (\<lambda>child_rep.
              if \<not> is_child child_rep \<or> child_id child_rep \<noteq> child then err kCorruptLayout
              else
                bindM (BuildDiffs K reps) (\<lambda>ds.
                bindM (chk (BuildCartesian ds)) (\<lambda>ct.
                bindM (chk (at ds (ct_root ct))) (\<lambda>split_diff.
                bindM AllocNode (\<lambda>sibling.
                bindM (chk (slice reps 0 (ct_root ct + 1))) (\<lambda>reps1.
                bindM (chk (slice ds 0 (ct_root ct))) (\<lambda>ds1.
                bindM (WriteNodeWithDiffs child reps1 ds1) (\<lambda>_.
                bindM (chk (slice reps (ct_root ct + 1) (int (length reps)))) (\<lambda>reps2.
                bindM (chk (slice ds (ct_root ct + 1) (int (length ds)))) (\<lambda>ds2.
                bindM (WriteNodeWithDiffs sibling reps2 ds2) (\<lambda>_.
                bindM (res (MakeChild sibling)) (\<lambda>sibling_rep.
                bindM (deref parent) (\<lambda>p.
                bindM (chk (slice (np_reps p) 0 (child_slot + 1))) (\<lambda>before.
                bindM (chk (slice (np_reps p) (child_slot + 1) (page_size p0))) (\<lambda>after.
                bindM (chk (zeros (page_size p0 - 1))) (\<lambda>buf.
                bindM (chkres (RouteDiffs p buf)) (\<lambda>old_diffs.
                bindM (chk (slice old_diffs 0 child_slot)) (\<lambda>diffs1.
                bindM (chk (slice old_diffs child_slot (page_size p0 - 1))) (\<lambda>diffs2.
                  WriteNodeWithDiffs parent_id (before @ [sibling_rep] @ after)
                    (diffs1 @ [split_diff] @ diffs2)))))))))))))))))))))))"

section \<open>Insertion along a path\<close>

definition InsertAtPath :: "key_fn \<Rightarrow> put_frame list \<Rightarrow> int \<Rightarrow> int \<Rightarrow> rep \<Rightarrow> key \<Rightarrow> u16 \<Rightarrow> unit iop" where
  "InsertAtPath K frames target slot new_rep key diff =
     bindM (chk (at frames target)) (\<lambda>frame.
     bindM (NodeByID (pf_id frame)) (\<lambda>node.
     bindM (deref node) (\<lambda>p.
       if page_size p < kMaxNodeReps
       then
         bindM (InsertAtIncremental K (pf_id frame) slot new_rep key diff) (\<lambda>_.
           PropagateBoundary frames target (np_first p) (np_last p))
       else
         bindM (chk (slice (np_reps p) 0 slot)) (\<lambda>before.
         bindM (chk (slice (np_reps p) slot (page_size p))) (\<lambda>after.
         let reps = before @ [new_rep] @ after;
             split =
               bindM (PathEdgeInsertSlot frames target slot (page_size p)) (\<lambda>edge_slot.
               bindM (SplitAndWriteNodeAt K (pf_id frame) reps edge_slot) (\<lambda>_.
                 PropagateBoundary frames target (np_first p) (np_last p)))
         in
           if target > 0
           then
             bindM (chk (at frames (target - 1))) (\<lambda>parent_frame.
             bindM (NodeByID (pf_id parent_frame)) (\<lambda>parent.
             bindM (deref parent) (\<lambda>pp.
               if page_size pp < kMaxNodeReps
               then
                 bindM (PromoteSibling K (pf_id parent_frame) (pf_leaf parent_frame) (pf_id frame) reps) (\<lambda>_.
                   PropagateBoundary frames (target - 1) (np_first pp) (np_last pp))
               else split)))
           else split)))))"

text \<open>The replacement of a slot whose record has the key.\<close>

definition replace_record :: "put_frame list \<Rightarrow> u64 \<Rightarrow> int \<Rightarrow> rep \<Rightarrow> unit iop" where
  "replace_record frames node leaf new_rep =
     bindM (deref node) (\<lambda>p.
     bindM (if leaf = 0 then MinPos new_rep else ret (np_first p)) (\<lambda>first_pos.
     bindM (if leaf = page_size p - 1 then MaxPos new_rep else ret (np_last p)) (\<lambda>last_pos.
     bindM (chk (put_at (np_reps p) leaf new_rep)) (\<lambda>reps.
     bindM (store_page node (p\<lparr>np_reps := reps, np_first := first_pos, np_last := last_pos\<rparr>)) (\<lambda>_.
       PropagateBoundary frames (int (length frames) - 1) (np_first p) (np_last p))))))"

partial_function (option) insert_loop ::
  "key_fn \<Rightarrow> key \<Rightarrow> rep \<Rightarrow> put_frame list \<Rightarrow> u64 \<Rightarrow> heap_node_store \<Rightarrow>
   ((mp_status + put_result) \<times> heap_node_store) option" where
  "insert_loop K key new_rep frames i s =
     bindM (NodeByID i) (\<lambda>node.
     bindM (deref node) (\<lambda>p.
       if np_size p = 0
       then
         bindM (InsertAtIncremental K i 0 new_rep key 0) (\<lambda>_.
           ret \<lparr>put_old_pos = 0, put_replaced = False\<rparr>)
       else
         bindM (chk (Lookup p key)) (\<lambda>leaf_ok.
           if \<not> snd leaf_ok then err kCorruptLayout
           else
             bindM (chk (at (np_reps p) (fst leaf_ok))) (\<lambda>r.
               if is_child r
               then insert_loop K key new_rep
                      (frames @ [\<lparr>pf_id = i, pf_node = Some node, pf_leaf = fst leaf_ok\<rparr>]) (child_id r)
               else
                 bindM (res (Key K (position r))) (\<lambda>record_key.
                   let cmp = CompareKeys key record_key;
                       frames' = frames @ [\<lparr>pf_id = i, pf_node = Some node, pf_leaf = fst leaf_ok\<rparr>] in
                   if cmp = 0
                   then
                     bindM (replace_record frames' node (fst leaf_ok) new_rep) (\<lambda>_.
                       ret \<lparr>put_old_pos = position r, put_replaced = True\<rparr>)
                   else
                     bindM (chkres (FindDiffBit key record_key)) (\<lambda>diff.
                     bindM (InsertSlotFromPath frames' key cmp diff) (\<lambda>slot.
                     bindM (InsertAtPath K frames' (is_target slot) (is_slot slot) new_rep key diff) (\<lambda>_.
                       ret \<lparr>put_old_pos = 0, put_replaced = False\<rparr>)))))))) s"

section \<open>The index\<close>

record index =
  ix_nodes :: heap_node_store
  ix_root_id :: u64
  ix_count :: int

definition InsertOrReplace :: "key_fn \<Rightarrow> u64 \<Rightarrow> key \<Rightarrow> rep \<Rightarrow> put_result iop" where
  "InsertOrReplace K root key new_rep = insert_loop K key new_rep [] root"

text \<open>An operation on the node store, run on an index.\<close>

definition on_nodes :: "(u64 \<Rightarrow> 'a iop) \<Rightarrow> (index, mp_status, 'a) op" where
  "on_nodes f = (\<lambda>x. map_option (\<lambda>(r, s). (r, x\<lparr>ix_nodes := s\<rparr>)) (f (ix_root_id x) (ix_nodes x)))"

definition add_count :: "int \<Rightarrow> (index, mp_status, unit) op" where
  "add_count n = (\<lambda>x. Some (Inr (), x\<lparr>ix_count := ix_count x + n\<rparr>))"

definition Put :: "key_fn \<Rightarrow> key \<Rightarrow> pos \<Rightarrow> (index, mp_status, put_result) op" where
  "Put K key p =
     bindM (res (CheckKeySize key)) (\<lambda>_.
     bindM (res (MakeRecord p)) (\<lambda>r.
     bindM (on_nodes (\<lambda>root. InsertOrReplace K root key r)) (\<lambda>result.
       if \<not> put_replaced result then bindM (add_count 1) (\<lambda>_. ret result) else ret result)))"

definition Len :: "index \<Rightarrow> int" where
  "Len x = ix_count x"

partial_function (option) probe_loop ::
  "key \<Rightarrow> u64 \<Rightarrow> heap_node_store \<Rightarrow> ((mp_status + probe_result) \<times> heap_node_store) option" where
  "probe_loop key node s =
     bindM (deref node) (\<lambda>p.
     bindM (chk (Lookup p key)) (\<lambda>leaf_ok.
       if \<not> snd leaf_ok then ret \<lparr>pb_pos = 0, pb_found = False\<rparr>
       else
         bindM (chk (at (np_reps p) (fst leaf_ok))) (\<lambda>r.
           if is_child r
           then bindM (NodeByID (child_id r)) (\<lambda>child. probe_loop key child)
           else ret \<lparr>pb_pos = position r, pb_found = True\<rparr>))) s"

definition Probe :: "key \<Rightarrow> (index, mp_status, probe_result) op" where
  "Probe key =
     bindM (res (CheckKeySize key)) (\<lambda>_.
       on_nodes (\<lambda>root. bindM (NodeByID root) (\<lambda>node. probe_loop key node)))"

definition IndexGet :: "key_fn \<Rightarrow> key \<Rightarrow> (index, mp_status, probe_result) op" where
  "IndexGet K key =
     bindM (Probe key) (\<lambda>probe.
       if \<not> pb_found probe then ret probe
       else
         bindM (res (Key K (pb_pos probe))) (\<lambda>record_key.
           if CompareKeys record_key key \<noteq> 0 then ret \<lparr>pb_pos = 0, pb_found = False\<rparr>
           else ret probe))"

section \<open>Retarget\<close>

partial_function (option) retarget_loop ::
  "key \<Rightarrow> pos \<Rightarrow> rep \<Rightarrow> put_frame list \<Rightarrow> u64 \<Rightarrow> heap_node_store \<Rightarrow>
   ((mp_status + unit) \<times> heap_node_store) option" where
  "retarget_loop key old_pos new_rep frames i s =
     bindM (NodeByID i) (\<lambda>node.
     bindM (deref node) (\<lambda>p.
     bindM (chk (Lookup p key)) (\<lambda>leaf_ok.
       if \<not> snd leaf_ok then err kPositionMismatch
       else
         bindM (chk (at (np_reps p) (fst leaf_ok))) (\<lambda>r.
           if is_child r
           then retarget_loop key old_pos new_rep
                  (frames @ [\<lparr>pf_id = i, pf_node = Some node, pf_leaf = fst leaf_ok\<rparr>]) (child_id r)
           else if position r \<noteq> old_pos then err kPositionMismatch
           else
             let frames' = frames @ [\<lparr>pf_id = i, pf_node = Some node, pf_leaf = fst leaf_ok\<rparr>];
                 leaf = fst leaf_ok;
                 first_pos = (if leaf = 0 then position new_rep else np_first p);
                 last_pos = (if leaf = page_size p - 1 then position new_rep else np_last p) in
             bindM (chk (put_at (np_reps p) leaf new_rep)) (\<lambda>reps.
             bindM (store_page node (p\<lparr>np_reps := reps, np_first := first_pos, np_last := last_pos\<rparr>)) (\<lambda>_.
               PropagateBoundary frames' (int (length frames') - 1) (np_first p) (np_last p))))))) s"

definition Retarget :: "key \<Rightarrow> pos \<Rightarrow> pos \<Rightarrow> (index, mp_status, unit) op" where
  "Retarget key old_pos new_pos =
     bindM (res (CheckKeySize key)) (\<lambda>_.
     bindM (res (MakeRecord new_pos)) (\<lambda>r.
       on_nodes (\<lambda>root. retarget_loop key old_pos r [] root)))"

section \<open>Opening an index\<close>

partial_function (option) count_loop ::
  "u64 \<Rightarrow> int \<Rightarrow> int \<Rightarrow> heap_node_store \<Rightarrow> ((mp_status + int) \<times> heap_node_store) option" where
  "count_loop node i n s =
     bindM (deref node) (\<lambda>p.
       if i < page_size p
       then
         bindM (chk (at (np_reps p) i)) (\<lambda>r.
           if \<not> is_child r then count_loop node (i + 1) (n + 1)
           else
             bindM (NodeByID (child_id r)) (\<lambda>child.
             bindM (count_loop child 0 0) (\<lambda>child_count.
               count_loop node (i + 1) (n + child_count))))
       else ret n) s"

definition CountRecords :: "u64 \<Rightarrow> int iop" where
  "CountRecords node = count_loop node 0 0"

definition NewIndex :: "key_fn \<Rightarrow> bool \<Rightarrow> heap_node_store \<Rightarrow> (mp_status + index) option" where
  "NewIndex K init_root nodes =
     map_option (\<lambda>(r, s). case r of Inl e \<Rightarrow> Inl e
                 | Inr n \<Rightarrow> Inr \<lparr>ix_nodes = s, ix_root_id = Root nodes, ix_count = n\<rparr>)
       (bindM (NodeByID (Root nodes)) (\<lambda>root.
        bindM (if init_root then RebuildNode K root else ret ()) (\<lambda>_.
          CountRecords root)) nodes)"

definition NewWithNodes :: "key_fn \<Rightarrow> heap_node_store \<Rightarrow> (mp_status + index) option" where
  "NewWithNodes K nodes = NewIndex K True nodes"

definition OpenWithNodes :: "key_fn \<Rightarrow> heap_node_store \<Rightarrow> (mp_status + index) option" where
  "OpenWithNodes K nodes = NewIndex K False nodes"

end
