(* ===== verification/IndexRead.thy ===== *)
theory IndexRead
  imports PageOps InsertCode
begin

text \<open>
  The invariant of an index and its abstract contents, a map from keys to positions, and the
  correctness of \<^verbatim>\<open>Probe\<close>, \<^verbatim>\<open>Get\<close> and \<^verbatim>\<open>CountRecords\<close>.
\<close>

section \<open>The invariant\<close>

text \<open>The pages of an index: the empty root page, or a trie with no page outside it.\<close>

definition tree_rep :: "(u64 \<rightharpoonup> node_page) \<Rightarrow> u64 \<Rightarrow> ctree option \<Rightarrow> bool" where
  "tree_rep g r T =
     (case T of None \<Rightarrow> (\<exists>p. g = [r \<mapsto> p] \<and> np_size p = 0 \<and> len_ok p)
      | Some t \<Rightarrow> holds g r t \<and> dom g = ids r t)"

definition tree_pos :: "ctree option \<Rightarrow> pos list" where
  "tree_pos T = (case T of None \<Rightarrow> [] | Some t \<Rightarrow> leaves (flat t))"

definition tree_pat :: "(pos \<Rightarrow> key) \<Rightarrow> ctree option \<Rightarrow> bool" where
  "tree_pat kf T = (case T of None \<Rightarrow> True | Some t \<Rightarrow> pat (ktree kf t))"

definition index_inv :: "key_fn \<Rightarrow> (pos \<Rightarrow> key) \<Rightarrow> index \<Rightarrow> ctree option \<Rightarrow> bool" where
  "index_inv K kf x T \<longleftrightarrow>
     store_ok (ix_nodes x) \<and> ix_root_id x = 0 \<and> tree_rep (page_of (ix_nodes x)) 0 T \<and>
     tree_pat kf T \<and> keys_of K kf (set (tree_pos T)) \<and> ix_count x = int (length (tree_pos T))"

text \<open>
  \<open>index_holds K x es\<close>: the index \<open>x\<close> holds the entries \<open>es\<close>, in the order of their
  keys, for a record store with the keys \<open>K\<close>.
\<close>

definition index_holds :: "key_fn \<Rightarrow> index \<Rightarrow> (key \<times> pos) list \<Rightarrow> bool" where
  "index_holds K x es \<longleftrightarrow> (\<exists>kf T. index_inv K kf x T \<and> es = map (\<lambda>p. (kf p, p)) (tree_pos T))"

lemma tree_pat_sorted: "tree_pat kf T \<Longrightarrow> sorted_wrt (<) (map kf (tree_pos T))"
  using pat_sorted by (fastforce simp: tree_pat_def tree_pos_def split: option.splits)

lemma index_holds_sorted:
  assumes "index_holds K x es"
  shows "sorted_wrt (<) (map fst es)" "distinct (map fst es)"
proof -
  obtain kf T where kf: "index_inv K kf x T" "es = map (\<lambda>p. (kf p, p)) (tree_pos T)"
    using assms unfolding index_holds_def by blast
  then have "map fst es = map kf (tree_pos T)"
    by simp
  then show "sorted_wrt (<) (map fst es)"
    using kf(1) tree_pat_sorted unfolding index_inv_def by metis
  then show "distinct (map fst es)"
    using strict_sorted_iff by blast
qed

lemma index_holds_keys:
  assumes "index_holds K x es" "(k, p) \<in> set es"
  shows "K p = Inr k" "key_ok k"
  using assms by (auto simp: index_holds_def index_inv_def keys_of_def)

lemma index_holds_len: "index_holds K x es \<Longrightarrow> Len x = int (length es)"
  by (auto simp: index_holds_def index_inv_def Len_def)

section \<open>One page of a descent\<close>

lemma size_slot: "Sub j v \<in> set (slots t) \<Longrightarrow> size v < size t"
  by (induction t) auto

lemma page_descend:
  assumes "holds (page_of s) i t"
  obtains p n where "page_of s i = Some p" "page_ok p t" "n = tslot (ptop t) k" "n < length (slots t)"
    "Lookup p k = Some (int n, True)" "at (np_reps p) (int n) = Some (slot_rep (slots t ! n))"
    "np_size p \<noteq> 0" "page_size p = int (length (slots t))"
proof -
  obtain p where p: "page_of s i = Some p" "page_ok p t"
    using holds_page [OF assms] by blast
  define n where "n = tslot (ptop t) k"
  have n: "n < length (slots t)"
    using tslot_less [of "ptop t" k] by (simp add: n_def nl_ptop)
  show ?thesis
    using that p n page_ok_at [OF p(2) n] page_ok_lookup [OF p(2), of k] page_ok_size [OF p(2)] n_def by (simp add: nl_ptop)
qed

lemma slot_nth_cases:
  assumes "holds g i t" "n < length (slots t)"
  obtains q where "slots t ! n = Rec q" "untagged q"
  | j v where "slots t ! n = Sub j v" "untagged j" "holds g j v" "Sub j v \<in> set (slots t)"
  using holds_slots_held [OF assms(1)] nth_mem [OF assms(2)] unfolding slots_held_def by metis

section \<open>Probe and Get\<close>

lemma probe_loop_tree:
  "holds (page_of s) i t \<Longrightarrow>
   probe_loop k i s = Some (Inr \<lparr>pb_pos = leaves (flat t) ! tslot (flat t) k, pb_found = True\<rparr>, s)"
proof (induction "size t" arbitrary: i t rule: less_induct)
  case less
  obtain p n where p: "page_of s i = Some p" "page_ok p t" "n = tslot (ptop t) k" "n < length (slots t)"
    "Lookup p k = Some (int n, True)" "at (np_reps p) (int n) = Some (slot_rep (slots t ! n))"
    using page_descend [OF less.prems, of k] by metis
  from less.prems p(4) show ?case
  proof (cases rule: slot_nth_cases)
    case (1 q)
    then show ?thesis
      using p flat_tslot_slot [of t k] by (subst probe_loop.simps) (simp add: op_simps)
  next
    case (2 j v)
    obtain pj where "page_of s j = Some pj"
      using holds_page [OF 2(3)] by blast
    then have "probe_loop k i s = probe_loop k j s"
      using p 2 by (subst probe_loop.simps) (simp add: op_simps)
    then show ?thesis
      using less.hyps [OF size_slot [OF 2(4)] 2(3)] flat_tslot_slot [of t k] 2(1) p(3) by simp
  qed
qed

lemma probe_loop_empty:
  assumes "page_of s i = Some p" "np_size p = 0"
  shows "probe_loop k i s = Some (Inr \<lparr>pb_pos = 0, pb_found = False\<rparr>, s)"
  using assms by (subst probe_loop.simps) (simp add: op_simps Lookup_def LookupRouteOnly_def)

lemma on_nodes_same: "f (ix_root_id x) (ix_nodes x) = Some (r, ix_nodes x) \<Longrightarrow> on_nodes f x = Some (r, x)"
  by (simp add: on_nodes_def)

lemma Probe_tree:
  assumes "index_inv K kf x T" "key_ok k"
  shows "Probe k x = Some (Inr
    (case T of None \<Rightarrow> \<lparr>pb_pos = 0, pb_found = False\<rparr>
     | Some t \<Rightarrow> \<lparr>pb_pos = leaves (flat t) ! tslot (flat t) k, pb_found = True\<rparr>), x)"
proof (cases T)
  case None
  then obtain p where "page_of (ix_nodes x) 0 = Some p" "np_size p = 0"
    using assms(1) by (auto simp: index_inv_def tree_rep_def)
  then show ?thesis
    using assms None
    by (auto simp: Probe_def CheckKeySize_key_ok op_simps index_inv_def probe_loop_empty intro!: on_nodes_same)
next
  case (Some t)
  then have h: "holds (page_of (ix_nodes x)) 0 t"
    using assms(1) by (auto simp: index_inv_def tree_rep_def)
  then obtain p where "page_of (ix_nodes x) 0 = Some p"
    using holds_page by blast
  then show ?thesis
    using assms Some probe_loop_tree [OF h]
    by (auto simp: Probe_def CheckKeySize_key_ok op_simps index_inv_def intro!: on_nodes_same)
qed

lemma Probe_too_large: "\<not> key_ok k \<Longrightarrow> Probe k x = Some (Inl kKeyTooLarge, x)"
  by (simp add: Probe_def CheckKeySize_too_large op_simps)

lemma map_of_kf: "p \<in> set ps \<Longrightarrow> distinct (map kf ps) \<Longrightarrow> map_of (map (\<lambda>p. (kf p, p)) ps) (kf p) = Some p"
  by (rule map_of_is_SomeI) (auto simp: comp_def)

lemma map_of_kf_None: "k \<notin> kf ` set ps \<Longrightarrow> map_of (map (\<lambda>p. (kf p, p)) ps) k = None"
  by (auto simp: map_of_eq_None_iff image_iff)

text \<open>\<^verbatim>\<open>Get\<close> is lookup in the entries.\<close>

lemma IndexGet_holds:
  assumes "index_holds K x es" "key_ok k"
  shows "IndexGet K k x = Some (Inr
    (case map_of es k of None \<Rightarrow> \<lparr>pb_pos = 0, pb_found = False\<rparr> | Some p \<Rightarrow> \<lparr>pb_pos = p, pb_found = True\<rparr>), x)"
proof -
  obtain kf T where kf: "index_inv K kf x T" "es = map (\<lambda>p. (kf p, p)) (tree_pos T)"
    using assms(1) unfolding index_holds_def by blast
  note pr = Probe_tree [OF kf(1) assms(2)]
  show ?thesis
  proof (cases T)
    case None
    then show ?thesis
      using pr kf(2) by (simp add: IndexGet_def op_simps tree_pos_def)
  next
    case (Some t)
    let ?p = "leaves (flat t) ! tslot (flat t) k"
    have p: "?p \<in> set (leaves (flat t))"
      by (rule tslot_leaf)
    have keys: "keys_of K kf (set (leaves (flat t)))" and pat: "pat (ktree kf t)"
      using kf(1) Some by (auto simp: index_inv_def tree_pos_def tree_pat_def)
    have "tslot (ktree kf t) k = tslot (flat t) k"
      by (simp add: ktree_def)
    then have found: "kf ?p = k \<longleftrightarrow> k \<in> kf ` set (leaves (flat t))"
      using pat_lookup_iff [OF pat, of k] tslot_less [of "flat t" k] by simp
    have "IndexGet K k x = Some (Inr (if kf ?p = k then \<lparr>pb_pos = ?p, pb_found = True\<rparr>
        else \<lparr>pb_pos = 0, pb_found = False\<rparr>), x)"
      using pr Some Key_keys_of [OF keys p] by (simp add: IndexGet_def op_simps)
    moreover have "map_of es k = (if kf ?p = k then Some ?p else None)"
    proof (cases "kf ?p = k")
      case True
      have "distinct (map kf (leaves (flat t)))"
        using pat_distinct [OF pat] by simp
      then have "map_of es (kf ?p) = Some ?p"
        using map_of_kf [OF p] kf(2) Some by (simp add: tree_pos_def)
      with True show ?thesis
        by simp
    next
      case False
      then show ?thesis
        using found map_of_kf_None [of k kf "leaves (flat t)"] kf(2) Some by (simp add: tree_pos_def)
    qed
    ultimately show ?thesis
      by simp
  qed
qed

lemma IndexGet_too_large: "\<not> key_ok k \<Longrightarrow> IndexGet K k x = Some (Inl kKeyTooLarge, x)"
  by (simp add: IndexGet_def Probe_too_large op_simps)

section \<open>Counting and opening\<close>

lemma count_loop_tree:
  assumes "holds (page_of s) i t"
  shows "count_loop i 0 0 s = Some (Inr (int (nl (flat t))), s)"
  using assms
proof (induction "size t" arbitrary: i t rule: less_induct)
  case less
  obtain p where p: "page_of s i = Some p" "page_ok p t"
    using holds_page [OF less.prems] by blast
  have sz: "page_size p = int (length (slots t))" and reps: "take (length (slots t)) (np_reps p) = map slot_rep (slots t)"
    "length (slots t) \<le> length (np_reps p)"
    using page_ok_size [OF p(2)] p(2) by (auto simp: nl_ptop page_ok_def page_rep_def leaves_ptop)
  have loop: "count_loop i (int m) c s = Some (Inr (c + int (nl (flat t)) - int (off t m)), s)"
    if "m \<le> length (slots t)" for m c
    using that
  proof (induction "length (slots t) - m" arbitrary: m c)
    case 0
    then have "m = length (slots t)"
      by simp
    then show ?case
      using p sz by (subst count_loop.simps) (simp add: op_simps off_def nl_flat [of t])
  next
    case (Suc d)
    then have m: "m < length (slots t)"
      by simp
    have at: "at (np_reps p) (int m) = Some (slot_rep (slots t ! m))"
      using m reps by (metis at_int nth_map nth_take order_less_le_trans)
    have IH: "count_loop i (int (Suc m)) c' s = Some (Inr (c' + int (nl (flat t)) - int (off t (Suc m))), s)" for c'
      using Suc m by (intro Suc.hyps(1)) simp_all
    have off: "off t (Suc m) = off t m + nl (flat (slots t ! m))"
      using m by (simp add: off_def take_Suc_conv_app_nth)
    from less.prems m show ?case
    proof (cases rule: slot_nth_cases)
      case (1 q)
      then show ?thesis
        using p sz m at IH [of "c + 1"] off by (subst count_loop.simps) (simp add: op_simps add.commute)
    next
      case (2 j v)
      obtain pj where "page_of s j = Some pj"
        using holds_page [OF 2(3)] by blast
      then show ?thesis
        using p sz m at 2 IH [of "c + int (nl (flat v))"] less.hyps [OF size_slot [OF 2(4)] 2(3)] off
        by (subst count_loop.simps) (simp add: op_simps add.commute)
    qed
  qed
  show ?case
    using loop [of 0 0] by (simp add: off_def)
qed

lemma CountRecords_tree: "holds (page_of s) i t \<Longrightarrow> CountRecords i s = Some (Inr (int (nl (flat t))), s)"
  by (simp add: CountRecords_def count_loop_tree)

text \<open>A new index over a new store is empty.\<close>

lemma NewWithNodes_empty:
  "\<exists>x. NewWithNodes K HeapNodeStore = Some (Inr x) \<and> index_holds K x [] \<and> has_room (ix_nodes x)"
proof -
  let ?p = "new_page\<lparr>np_first := 0, np_last := 0\<rparr>"
  let ?q = "?p\<lparr>np_routes := replicate 338 0\<rparr>"
  let ?s = "upd_page 0 ?q HeapNodeStore"
  have pg: "page_of HeapNodeStore 0 = Some new_page"
    by (simp add: HeapNodeStore_ok(3))
  have rebuild: "RebuildNode K 0 HeapNodeStore = Some (Inr (), ?s)"
    using pg by (simp add: RebuildNode_def op_simps ClearRoutes_def new_page_def)
  have pg': "page_of ?s 0 = Some ?q"
    by (rule upd_page_same [OF pg])
  have count: "CountRecords 0 ?s = Some (Inr 0, ?s)"
    unfolding CountRecords_def using pg' by (subst count_loop.simps) (simp add: op_simps new_page_def)
  let ?x = "\<lparr>ix_nodes = ?s, ix_root_id = 0, ix_count = 0\<rparr>"
  have rep: "tree_rep (page_of ?s) 0 None"
    unfolding tree_rep_def page_of_upd_page [OF pg] HeapNodeStore_ok(3) option.case
    by (intro exI [of _ ?q]) (simp add: new_page_def len_ok_def)
  have "NewWithNodes K HeapNodeStore = Some (Inr ?x)"
    using pg rebuild count by (simp add: NewWithNodes_def NewIndex_def op_simps Root_def)
  moreover have "index_inv K (\<lambda>_. []) ?x None"
    using store_ok_upd_page(1) [OF HeapNodeStore_ok(1) pg] rep
    by (simp add: index_inv_def tree_pat_def tree_pos_def keys_of_def)
  then have "index_holds K ?x []"
    unfolding index_holds_def tree_pos_def by (intro exI [of _ "\<lambda>_. []"] exI [of _ None]) simp
  moreover have "has_room ?s"
    using store_ok_upd_page(2) [OF HeapNodeStore_ok(1) pg] HeapNodeStore_ok(2) by simp
  ultimately show ?thesis
    by (intro exI [of _ ?x]) simp
qed

text \<open>Opening over the pages of an index counts its records.\<close>

lemma OpenWithNodes_holds:
  assumes "index_holds K x es"
  shows "OpenWithNodes K (ix_nodes x) = Some (Inr x)"
proof -
  obtain kf T where kf: "index_inv K kf x T" "es = map (\<lambda>p. (kf p, p)) (tree_pos T)"
    using assms(1) unfolding index_holds_def by blast
  have root: "ix_root_id x = 0"
    using kf by (simp add: index_inv_def)
  have "\<exists>p. page_of (ix_nodes x) 0 = Some p \<and> CountRecords 0 (ix_nodes x) = Some (Inr (ix_count x), ix_nodes x)"
  proof (cases T)
    case None
    then obtain p where p: "page_of (ix_nodes x) = [0 \<mapsto> p]" "np_size p = 0" "ix_count x = 0"
      using kf by (auto simp: index_inv_def tree_rep_def tree_pos_def)
    then show ?thesis
      by (auto simp: CountRecords_def count_loop.simps [of 0 0 0] op_simps)
  next
    case (Some t)
    then have "holds (page_of (ix_nodes x)) 0 t" "ix_count x = int (nl (flat t))"
      using kf by (auto simp: index_inv_def tree_rep_def tree_pos_def)
    then show ?thesis
      using CountRecords_tree holds_page by fastforce
  qed
  then show ?thesis
    using root by (auto simp: OpenWithNodes_def NewIndex_def op_simps Root_def)
qed

end
