(* ===== verification/PageInsert.thy ===== *)
theory PageInsert
  imports Split IndexRead
begin

text \<open>
  Insertion into one page (\<^verbatim>\<open>InsertAtIncremental\<close>) and the promotion of a sibling
  (\<^verbatim>\<open>PromoteSibling\<close>), each as a change of the subtrie that the pages hold.
\<close>

section \<open>InsertAtIncremental\<close>

lemma MinPos_record [op_simps]: "untagged q \<Longrightarrow> MinPos q s = Some (Inr q, s)"
  by (simp add: MinPos_def op_simps)

lemma MaxPos_record [op_simps]: "untagged q \<Longrightarrow> MaxPos q s = Some (Inr q, s)"
  by (simp add: MaxPos_def op_simps)

lemma insert_bounds_spec:
  assumes "page_size p = int n" "0 < n" "untagged q" "i \<le> n"
  shows "insert_bounds p (int i) q s =
    Some (Inr (if i = 0 then q else np_first p, if i = n then q else np_last p), s)"
  using assms by (auto simp: insert_bounds_def op_simps)

lemma minp_cins: "minp (cins t k d (Rec q)) = (if ins_slot (ptop t) k d = 0 then q else minp t)"
  by (simp add: minp_slots [of "cins t k d (Rec q)"] minp_slots [of t] slots_cins hd_append)

lemma maxp_cins:
  "maxp (cins t k d (Rec q)) = (if ins_slot (ptop t) k d = nl (ptop t) then q else maxp t)"
  using ins_slot_le [of "ptop t" k d]
  by (simp add: maxp_slots [of "cins t k d (Rec q)"] maxp_slots [of t] slots_cins nl_ptop)

lemma of_nat_u16_size: "n < 65536 \<Longrightarrow> uint (of_nat n :: u16) = int n"
  by (simp add: unsigned_of_nat take_bit_nat_eq_self)

lemma insert_rep_spec:
  assumes "length (np_reps p) = 339" "page_size p = int n" "n < 339" "i \<le> n"
  shows "\<exists>reps. insert_rep p (int i) r b = Some (p\<lparr>np_reps := reps, np_size := of_nat (Suc n),
      np_first := fst b, np_last := snd b\<rparr>) \<and>
    length reps = 339 \<and> take (Suc n) reps = take i (np_reps p) @ r # drop i (take n (np_reps p))"
proof -
  let ?R = "np_reps p"
  have len: "i + (n - i) < length ?R" "i + (n - i) = n"
    using assms by simp_all
  let ?R1 = "take (Suc i) ?R @ take (n - i) (drop i ?R) @ drop (Suc n) ?R"
  have sh: "shift_up ?R (int i) (page_size p) = Some ?R1"
    using shift_up_spec [OF len(1)] assms(2,4) by (simp add: of_nat_diff len(2))
  have i: "i < length ?R1"
    using assms by simp
  have put: "put_at ?R1 (int i) r = Some (?R1[i := r])"
    by (rule put_at_int [OF i])
  have t: "take (Suc i) ?R = take i ?R @ [?R ! i]"
    using assms by (simp add: take_Suc_conv_app_nth)
  have "?R1[i := r] = take i ?R @ r # take (n - i) (drop i ?R) @ drop (Suc n) ?R"
    using assms unfolding t by (simp add: list_update_append)
  moreover have "take (Suc n) (take i ?R @ r # take (n - i) (drop i ?R) @ drop (Suc n) ?R) =
      take i ?R @ r # drop i (take n ?R)"
    using assms by (simp add: Suc_diff_le drop_take)
  moreover have "length (?R1[i := r]) = 339"
    using assms by simp
  moreover have "word_of_int (page_size p + 1) = (of_nat (Suc n) :: u16)"
    using assms(2) by (simp add: add.commute)
  ultimately show ?thesis
    using sh put by (intro exI [of _ "?R1[i := r]"]) (simp add: insert_rep_def)
qed

lemma page_ok_cins:
  assumes "page_ok p u" "nl (ptop u) < 339" "i = ins_slot (ptop u) k d"
  shows "\<exists>p1 p2. InsertRoute p (int i) k d = Some (Inr p1) \<and>
    insert_rep p1 (int i) q (if i = 0 then q else np_first p, if i = nl (ptop u) then q else np_last p) = Some p2 \<and>
    page_ok p2 (cins u k d (Rec q))"
proof -
  have rep: "page_rep p (ptop u)"
    using assms(1) by (simp add: page_ok_def)
  let ?T = "ptop (cins u k d (Rec q))"
  have T: "?T = tins (ptop u) k d q" "nl ?T = Suc (nl (ptop u))"
    using top_cins [of "Rec q" q u k d] by simp_all
  obtain rts where rts: "InsertRoute p (int i) k d = Some (Inr (p\<lparr>np_routes := rts\<rparr>))" "length rts = 338"
    "take (nl (ptop u)) rts = routes_of ?T"
    using InsertRoute_rep [OF rep assms(2), of "int i" k d q] assms(3) T by auto
  have lens: "length (np_reps p) = 339" "page_size p = int (nl (ptop u))" "i \<le> nl (ptop u)"
    "take (nl (ptop u)) (np_reps p) = leaves (ptop u)"
    using rep assms(3) ins_slot_le by (simp_all add: page_rep_def)
  let ?b = "(if i = 0 then q else np_first p, if i = nl (ptop u) then q else np_last p)"
  obtain reps where reps: "insert_rep (p\<lparr>np_routes := rts\<rparr>) (int i) q ?b =
      Some (p\<lparr>np_routes := rts, np_reps := reps, np_size := of_nat (Suc (nl (ptop u))),
              np_first := fst ?b, np_last := snd ?b\<rparr>)"
    "length reps = 339" "take (Suc (nl (ptop u))) reps = take i (np_reps p) @ q # drop i (take (nl (ptop u)) (np_reps p))"
    using insert_rep_spec [of "p\<lparr>np_routes := rts\<rparr>" "nl (ptop u)" i q ?b] lens assms(2) by auto
  have "take i (np_reps p) = take i (leaves (ptop u))"
    using lens by (metis min.absorb1 take_take)
  then have lv: "take (Suc (nl (ptop u))) reps = leaves ?T"
    using reps(3) lens(4) assms(3) by (simp add: T(1) leaves_tins)
  have "uint (of_nat (Suc (nl (ptop u))) :: u16) = int (Suc (nl (ptop u)))"
    using assms(2) by (intro of_nat_u16_size) simp
  then have "page_ok (p\<lparr>np_routes := rts, np_reps := reps, np_size := of_nat (Suc (nl (ptop u))),
              np_first := fst ?b, np_last := snd ?b\<rparr>) (cins u k d (Rec q))"
    using rts reps(2) lv T(2) assms(1,2,3)
    by (simp add: page_ok_def page_rep_def minp_cins maxp_cins)
  then show ?thesis
    using rts(1) reps(1) by blast
qed

lemma InsertAtIncremental_spec:
  assumes "holds (page_of s) j u" "nl (ptop u) < 339" "untagged q" "i = ins_slot (ptop u) k d"
  shows "\<exists>p'. InsertAtIncremental K j (int i) q k d s = Some (Inr (), upd_page j p' s) \<and>
    holds (page_of (upd_page j p' s)) j (cins u k d (Rec q))"
proof -
  obtain p where p: "page_of s j = Some p" "page_ok p u"
    using holds_page [OF assms(1)] by blast
  have i: "i \<le> nl (ptop u)"
    using assms(4) ins_slot_le by simp
  have sz: "page_size p = int (nl (ptop u))" "0 < nl (ptop u)"
    using page_ok_size [OF p(2)] nl_pos by auto
  obtain p1 p2 where p12: "InsertRoute p (int i) k d = Some (Inr p1)"
    "insert_rep p1 (int i) q (if i = 0 then q else np_first p, if i = nl (ptop u) then q else np_last p) = Some p2"
    "page_ok p2 (cins u k d (Rec q))"
    using page_ok_cins [OF p(2) assms(2,4), of q] by blast
  have "InsertAtIncremental K j (int i) q k d s = Some (Inr (), upd_page j p2 s)"
    using p(1) i sz p12(1,2) assms(2) insert_bounds_spec [OF sz assms(3) i]
    by (simp add: InsertAtIncremental_def op_simps kMaxNodeReps_def)
  moreover have "holds (page_of (upd_page j p2 s)) j (cins u k d (Rec q))"
  proof (rule holds_intro)
    show "page_of (upd_page j p2 s) j = Some p2" "page_ok p2 (cins u k d (Rec q))"
      using p(1) p12(3) by simp_all
    show "distinct (j # pids (cins u k d (Rec q)))"
      using assms(1) by (simp add: pids_cins holds_def)
    have "slots_held (page_of (upd_page j p2 s)) (slots u)"
      using assms(1) by (intro slots_held_upd_page holds_slots_held [OF assms(1)]) (simp add: holds_def)
    moreover have "set (slots (cins u k d (Rec q))) \<subseteq> insert (Rec q) (set (slots u))"
      by (auto simp: slots_cins dest: in_set_takeD in_set_dropD)
    ultimately show "(\<exists>q. c = Rec q \<and> untagged q) \<or>
        (\<exists>k v. c = Sub k v \<and> untagged k \<and> holds (page_of (upd_page j p2 s)) k v)"
      if "c \<in> set (slots (cins u k d (Rec q)))" for c
      using that assms(3) unfolding slots_held_def by blast
  qed
  ultimately show ?thesis
    by blast
qed

text \<open>Insertion into the empty root page.\<close>

lemma InsertAtIncremental_empty:
  assumes "page_of s j = Some p" "np_size p = 0" "len_ok p" "untagged q"
  shows "\<exists>p'. InsertAtIncremental K j 0 q k 0 s = Some (Inr (), upd_page j p' s) \<and>
    holds (page_of (upd_page j p' s)) j (Rec q)"
proof -
  have sz: "page_size p = int 0"
    using assms(2) by simp
  have "insert_bounds p 0 q s = Some (Inr (q, q), s)"
    using assms(2,4) by (simp add: insert_bounds_def op_simps)
  moreover obtain reps where reps: "insert_rep p (int 0) q (q, q) = Some (p\<lparr>np_reps := reps, np_size := of_nat (Suc 0),
      np_first := fst (q, q), np_last := snd (q, q)\<rparr>)" "length reps = 339" "take (Suc 0) reps = [q]"
    using insert_rep_spec [of p 0 0 q "(q, q)"] sz assms(3) by (auto simp: len_ok_def)
  ultimately have "InsertAtIncremental K j 0 q k 0 s =
      Some (Inr (), upd_page j (p\<lparr>np_reps := reps, np_size := 1, np_first := q, np_last := q\<rparr>) s)"
    using assms(1,2) by (simp add: InsertAtIncremental_def op_simps kMaxNodeReps_def)
  moreover have "page_ok (p\<lparr>np_reps := reps, np_size := 1, np_first := q, np_last := q\<rparr>) (Rec q)"
    using reps(2,3) assms(3) by (simp add: page_ok_def page_rep_def len_ok_def)
  ultimately show ?thesis
    using assms(1,4)
    by (intro exI [of _ "p\<lparr>np_reps := reps, np_size := 1, np_first := q, np_last := q\<rparr>"] conjI holds_intro) simp_all
qed

section \<open>Replacing one slot of a page\<close>

lemma flat_set_slot_cong: "flat c = flat c' \<Longrightarrow> flat (set_slot t n c) = flat (set_slot t n c')"
  by (induction t arbitrary: n) auto

lemma ptop_set_slot_same:
  "n < length (slots t) \<Longrightarrow> slots t ! n = Sub j v \<Longrightarrow> ptop (set_slot t n (Sub j v')) = ptop t"
  by (induction t arbitrary: n) (auto simp: nl_ptop nth_append split: if_splits)

lemma pids_split:
  assumes "n < length (slots t)"
  shows "pids t = concat (map pids (take n (slots t))) @ pids (slots t ! n) @ concat (map pids (drop (Suc n) (slots t)))"
proof -
  have "map pids (slots t) = map pids (take n (slots t)) @ pids (slots t ! n) # map pids (drop (Suc n) (slots t))"
    using id_take_nth_drop [OF assms] by (metis list.simps(9) map_append)
  then show ?thesis
    by (simp add: pids_slots [of t])
qed

lemma pids_set_slot:
  assumes "n < length (slots t)"
  shows "pids (set_slot t n c) = concat (map pids (take n (slots t))) @ pids c @ concat (map pids (drop (Suc n) (slots t)))"
  using slots_set_slot [OF assms, of c] by (simp add: pids_slots [of "set_slot t n c"] pids_slots [of c])

lemma distinct_replace:
  assumes "distinct (xs @ m @ ys)" "distinct c" "set c \<inter> (set (xs @ m @ ys) - set m) = {}"
  shows "distinct (xs @ c @ ys) \<and> set (xs @ c @ ys) = set (xs @ m @ ys) - set m \<union> set c"
proof -
  have "set xs \<inter> set m = {}" "set ys \<inter> set m = {}" "set xs \<inter> set ys = {}"
    using assms(1) by auto
  moreover from this have "set c \<inter> set xs = {}" "set c \<inter> set ys = {}"
    using assms(3) by auto
  ultimately show ?thesis
    using assms(1,2) by auto
qed

lemma distinct_pids_set_slot:
  assumes "n < length (slots t)" "distinct (pids t)" "distinct (pids c)"
    and "set (pids c) \<inter> (set (pids t) - set (pids (slots t ! n))) = {}"
  shows "distinct (pids (set_slot t n c))"
    and "set (pids (set_slot t n c)) = set (pids t) - set (pids (slots t ! n)) \<union> set (pids c)"
  using distinct_replace [OF assms(2) [unfolded pids_split [OF assms(1)]] assms(3)] assms(4)
  unfolding pids_split [OF assms(1)] pids_set_slot [OF assms(1)] by simp_all

text \<open>The slots of a page but one.\<close>

definition others :: "ctree \<Rightarrow> nat \<Rightarrow> ctree list" where
  "others t n = take n (slots t) @ drop (Suc n) (slots t)"

lemma set_slots_set_slot:
  "n < length (slots t) \<Longrightarrow> set (slots (set_slot t n c)) = set (others t n) \<union> set (slots c)"
  by (auto simp: slots_set_slot others_def)

lemma others_subset: "set (others t n) \<subseteq> set (slots t)"
  by (auto simp: others_def dest: in_set_takeD in_set_dropD)

lemma others_pids:
  assumes "n < length (slots t)" "distinct (pids t)" "x \<in> set (others t n)"
  shows "set (pids x) \<subseteq> set (pids t) - set (pids (slots t ! n))"
proof -
  let ?A = "concat (map pids (take n (slots t)))" and ?B = "concat (map pids (drop (Suc n) (slots t)))"
  have "set (pids x) \<subseteq> set ?A \<union> set ?B"
    using assms(3) by (auto simp: others_def)
  moreover have "set ?A \<inter> set (pids (slots t ! n)) = {}" "set ?B \<inter> set (pids (slots t ! n)) = {}"
    using assms(2) unfolding pids_split [OF assms(1)] by auto
  moreover have "set ?A \<union> set ?B \<subseteq> set (pids t)"
    unfolding pids_split [OF assms(1)] by auto
  ultimately show ?thesis
    by blast
qed

lemma holds_others: "holds g i t \<Longrightarrow> slots_held g (others t n)"
  by (rule slots_held_sub [OF holds_slots_held others_subset])

lemma slots_held_cong:
  assumes "slots_held g cs" "\<And>c k. c \<in> set cs \<Longrightarrow> k \<in> set (pids c) \<Longrightarrow> g' k = g k"
  shows "slots_held g' cs"
  unfolding slots_held_def
proof
  fix c
  assume c: "c \<in> set cs"
  have "holds g' j v" if "c = Sub j v" "holds g j v" for j v
    using that assms(2) [OF c] by (intro holds_cong [OF that(2)]) (auto simp: ids_def)
  moreover have "(\<exists>q. c = Rec q \<and> untagged q) \<or> (\<exists>j v. c = Sub j v \<and> untagged j \<and> holds g j v)"
    using assms(1) c by (simp add: slots_held_def)
  ultimately show "(\<exists>q. c = Rec q \<and> untagged q) \<or> (\<exists>j v. c = Sub j v \<and> untagged j \<and> holds g' j v)"
    by blast
qed

lemma slots_held_agree:
  assumes "slots_held g cs" "\<And>c. c \<in> set cs \<Longrightarrow> set (pids c) \<subseteq> A" "\<And>k. k \<in> A \<Longrightarrow> g' k = g k"
  shows "slots_held g' cs"
  using assms by (intro slots_held_cong [OF assms(1)]) blast

lemma holds_of_slots:
  assumes "g i = Some p" "page_ok p t" "distinct (i # pids t)" "slots_held g (slots t)"
  shows "holds g i t"
  by (rule holds_intro [where g = g and i = i and p = p and t = t])
    (use assms in \<open>simp_all add: slots_held_def\<close>)

lemma slots_held_Un: "slots_held g cs \<Longrightarrow> slots_held g ds \<Longrightarrow> set es \<subseteq> set cs \<union> set ds \<Longrightarrow> slots_held g es"
  by (auto simp: slots_held_def)

lemma holds_set_slot:
  assumes "n < length (slots t)" "g i = Some p" "page_ok p (set_slot t n c)"
    and "slots_held g (others t n)" "slots_held g (slots c)" "distinct (i # pids (set_slot t n c))"
  shows "holds g i (set_slot t n c)"
  using assms(2,3,6) slots_held_Un [OF assms(4,5)] set_slots_set_slot [OF assms(1), of c]
  by (intro holds_of_slots) auto

section \<open>PromoteSibling\<close>

lemma ptop_Br_diffs: "diffs (ptop (Br (Sub i l) e (Sub j r))) = [e]"
  by simp

lemma page_slices:
  assumes "page_ok p t" "n < length (slots t)"
  shows "slice (np_reps p) 0 (int n + 1) = Some (map slot_rep (take (Suc n) (slots t)))"
    "slice (np_reps p) (int n + 1) (page_size p) = Some (map slot_rep (drop (Suc n) (slots t)))"
proof -
  have sz: "page_size p = int (length (slots t))" "length (slots t) \<le> length (np_reps p)"
    and tk: "take (length (slots t)) (np_reps p) = map slot_rep (slots t)"
    using assms(1) by (auto simp: page_ok_def page_rep_def nl_ptop leaves_ptop)
  have "take (Suc n) (np_reps p) = take (Suc n) (map slot_rep (slots t))"
    unfolding tk [symmetric] using assms(2) by simp
  then show "slice (np_reps p) 0 (int n + 1) = Some (map slot_rep (take (Suc n) (slots t)))"
    using slice_prefix [of "Suc n" "np_reps p"] assms(2) sz(2) by (simp add: take_map add.commute)
  have "take (length (slots t) - Suc n) (drop (Suc n) (np_reps p)) = drop (Suc n) (map slot_rep (slots t))"
    unfolding tk [symmetric] by (simp add: drop_take)
  then show "slice (np_reps p) (int n + 1) (page_size p) = Some (map slot_rep (drop (Suc n) (slots t)))"
    using slice_nat [of "Suc n" "length (slots t)" "np_reps p"] assms(2) sz by (simp add: drop_map add.commute)
qed

lemma page_slices_at:
  assumes "page_ok p t" "n \<le> length (slots t)"
  shows "slice (np_reps p) 0 (int n) = Some (map slot_rep (take n (slots t)))"
    "slice (np_reps p) (int n) (page_size p) = Some (map slot_rep (drop n (slots t)))"
proof -
  have sz: "page_size p = int (length (slots t))" "length (slots t) \<le> length (np_reps p)"
    and tk: "take (length (slots t)) (np_reps p) = map slot_rep (slots t)"
    using assms(1) by (auto simp: page_ok_def page_rep_def nl_ptop leaves_ptop)
  have "take n (np_reps p) = take n (map slot_rep (slots t))"
    unfolding tk [symmetric] using assms(2) by simp
  then show "slice (np_reps p) 0 (int n) = Some (map slot_rep (take n (slots t)))"
    using slice_prefix [of n "np_reps p"] assms(2) sz(2) by (simp add: take_map)
  have "take (length (slots t) - n) (drop n (np_reps p)) = drop n (map slot_rep (slots t))"
    unfolding tk [symmetric] by (simp add: drop_take)
  then show "slice (np_reps p) (int n) (page_size p) = Some (map slot_rep (drop n (slots t)))"
    using slice_nat [of n "length (slots t)" "np_reps p"] assms(2) sz by (simp add: drop_map)
qed

lemma pat_set_slot: "pat (ktree kf (set_slot t n c)) \<Longrightarrow> n < length (slots t) \<Longrightarrow> pat (ktree kf c)"
proof (induction t arbitrary: n)
  case (Br t1 d t2)
  show ?case
    using Br.prems Br.IH(1) [of n] Br.IH(2) [of "n - nl (ptop t1)"] by (auto simp: nl_ptop split: if_splits)
qed auto

text \<open>The three writes of a promotion, from the split slots to the parent.\<close>

lemma promote_writes:
  assumes "store_ok s" "has_room s"
    and i: "page_of s i = Some p" "page_ok p t" "n < length (slots t)" "slots t ! n = Sub j v"
    and t: "nl (ptop t) < 339" "distinct (i # pids t)" "ids i t \<subseteq> dom (page_of s)" "slots_held (page_of s) (others t n)"
    and j: "page_of s j = Some q" "len_ok q" "untagged j"
    and u: "slots_held (page_of s) (slots l @ slots r)" "nl (ptop l) \<le> 339" "nl (ptop r) \<le> 339"
      "distinct (pids l @ pids r)" "set (pids l @ pids r) = set (pids v)"
    and pat: "pat (ktree kf (set_slot t n (Br l e r)))"
  shows "\<exists>sib s1 s2 s3 s4. AllocNode s = Some (Inr sib, s1) \<and> untagged sib \<and> page_of s sib = None \<and>
    WriteNodeWithDiffs j (map slot_rep (slots l)) (diffs (ptop l)) s1 = Some (Inr (), s2) \<and>
    WriteNodeWithDiffs sib (map slot_rep (slots r)) (diffs (ptop r)) s2 = Some (Inr (), s3) \<and>
    page_of s3 i = Some p \<and>
    WriteNodeWithDiffs i (map slot_rep (slots (set_slot t n (Br (Sub j l) e (Sub sib r)))))
      (diffs (ptop (set_slot t n (Br (Sub j l) e (Sub sib r))))) s3 = Some (Inr (), s4) \<and>
    store_ok s4 \<and> holds (page_of s4) i (set_slot t n (Br (Sub j l) e (Sub sib r))) \<and>
    (\<forall>k. k \<noteq> i \<and> k \<noteq> j \<and> k \<noteq> sib \<longrightarrow> page_of s4 k = page_of s k)"
proof -
  obtain sib s1 where al: "Alloc s = Some (Inr sib, s1)" "store_ok s1" "page_of s sib = None" "untagged sib"
    "page_of s1 = (page_of s)(sib \<mapsto> new_page)"
    using Alloc_spec [OF assms(1,2)] by blast
  let ?c = "Br (Sub j l) e (Sub sib r)"
  let ?t = "set_slot t n ?c"
  have sj: "Sub j v \<in> set (slots t)"
    using i(3,4) by (metis nth_mem)
  have jv: "set (pids (Sub j v)) \<subseteq> set (pids t)" "distinct (pids (Sub j v))"
    using pids_slot [OF sj] distinct_pids_slot [OF _ sj] t(2) by auto
  have ne: "sib \<noteq> i" "sib \<noteq> j" "sib \<notin> set (pids t)" "i \<noteq> j" "j \<notin> set (pids v)" "i \<notin> set (pids v)"
    using al(3) t(2,3) jv by (auto simp: ids_def)
  have lr: "j \<notin> set (pids l)" "j \<notin> set (pids r)" "sib \<notin> set (pids l)" "sib \<notin> set (pids r)"
    "i \<notin> set (pids l)" "i \<notin> set (pids r)" "set (pids l) \<inter> set (pids r) = {}"
    using u(4,5) ne jv by auto
  have patc: "pat (ktree kf l)" "pat (ktree kf r)" "hord (ptop ?t)"
  proof -
    have eq: "ktree kf ?t = ktree kf (set_slot t n (Br l e r))"
      unfolding ktree_def by (subst flat_set_slot_cong [of _ "Br l e r"]) simp_all
    show "hord (ptop ?t)"
      using pat pat_hord_ptop eq by metis
    have "pat (ktree kf (Br l e r))"
      by (rule pat_set_slot [OF pat i(3)])
    then show "pat (ktree kf l)" "pat (ktree kf r)"
      by simp_all
  qed
  have oth: "set (pids c) \<subseteq> set (pids t) - set (pids (Sub j v))" if "c \<in> set (others t n)" for c
    using others_pids [OF i(3) _ that] t(2) i(4) by simp
  have held1: "slots_held (page_of s1) (slots l)" "slots_held (page_of s1) (slots r)"
    "slots_held (page_of s1) (others t n)"
  proof -
    have eq: "page_of s1 k = page_of s k" if "k \<noteq> sib" for k
      using that al(5) by simp
    show "slots_held (page_of s1) (slots l)"
      by (rule slots_held_agree [where A = "set (pids l)" and g = "page_of s"])
        (rule slots_held_sub [OF u(1)], simp, erule pids_slot, rule eq, use lr in blast)
    show "slots_held (page_of s1) (slots r)"
      by (rule slots_held_agree [where A = "set (pids r)" and g = "page_of s"])
        (rule slots_held_sub [OF u(1)], simp, erule pids_slot, rule eq, use lr in blast)
    show "slots_held (page_of s1) (others t n)"
      by (rule slots_held_agree [OF t(4) oth], assumption, rule eq, use ne in auto)
  qed
  obtain pj where pj: "WriteNodeWithDiffs j (map slot_rep (slots l)) (diffs (ptop l)) s1 = Some (Inr (), upd_page j pj s1)"
    "page_ok pj l"
    using WriteNodeWithDiffs_spec [of s1 j q l] al(5) ne j(1,2) held1(1) lr(1) u(2) pat_hord_ptop [OF patc(1)] by auto
  let ?s2 = "upd_page j pj s1"
  have pg2: "page_of ?s2 k = (if k = j then Some pj else if k = sib then Some new_page else page_of s k)" for k
    using al(5) j(1) ne by (simp add: page_of_upd_page [of s1 j q pj])
  have held2: "slots_held (page_of ?s2) (slots l)" "slots_held (page_of ?s2) (slots r)"
    using slots_held_upd_page held1(1,2) lr(1,2) by blast+
  have held2o: "slots_held (page_of ?s2) (others t n)"
    by (rule slots_held_agree [OF held1(3) oth]) auto
  obtain ps where ps: "WriteNodeWithDiffs sib (map slot_rep (slots r)) (diffs (ptop r)) ?s2 = Some (Inr (), upd_page sib ps ?s2)"
    "page_ok ps r"
    using WriteNodeWithDiffs_spec [of ?s2 sib new_page r] pg2 ne held2(2) lr(4) u(3) pat_hord_ptop [OF patc(2)]
    by (auto simp: len_ok_def new_page_def)
  let ?s3 = "upd_page sib ps ?s2"
  have pg3: "page_of ?s3 k = (if k = sib then Some ps else if k = j then Some pj else page_of s k)" for k
    using pg2 ne by (simp add: page_of_upd_page [of ?s2 sib new_page ps])
  have held3: "slots_held (page_of ?s3) (slots l)" "slots_held (page_of ?s3) (slots r)"
    using slots_held_upd_page held2(1,2) lr(3,4) by blast+
  have held3o: "slots_held (page_of ?s3) (others t n)"
  proof (rule slots_held_agree [OF held2o oth])
    show "page_of ?s3 k = page_of ?s2 k" if "k \<in> set (pids t) - set (pids (Sub j v))" for k
      using that ne pg2 pg3 by (cases "k = sib") auto
  qed
  have heldc: "slots_held (page_of ?s3) (slots ?c)"
  proof -
    have "holds (page_of ?s3) j l" "holds (page_of ?s3) sib r"
      using pg3 ne pj(2) ps(2) lr u(4) held3(1,2) by (auto intro!: holds_of_slots)
    then show ?thesis
      using j(3) al(4) by (simp add: slots_held_def)
  qed
  have dist: "distinct (i # pids ?t)"
  proof -
    have "distinct (pids ?c)"
      using lr u(4) ne by auto
    moreover have "set (pids ?c) \<inter> (set (pids t) - set (pids (slots t ! n))) = {}"
      using u(5) ne i(4) by auto
    ultimately have "distinct (pids ?t)" "set (pids ?t) = set (pids t) - set (pids (slots t ! n)) \<union> set (pids ?c)"
      using distinct_pids_set_slot [OF i(3)] t(2) by auto
    then show ?thesis
      using t(2) ne u(5) lr by auto
  qed
  have nlt: "nl (ptop ?t) \<le> 339"
    using t(1) i(3) by (simp add: nl_ptop slots_set_slot)
  have heldt: "slots_held (page_of ?s3) (slots ?t)"
    by (rule slots_held_Un [OF held3o heldc]) (use set_slots_set_slot [OF i(3)] in auto)
  have pi: "page_of ?s3 i = Some p"
    using pg3 ne i(1) by simp
  obtain p' where p': "WriteNodeWithDiffs i (map slot_rep (slots ?t)) (diffs (ptop ?t)) ?s3 = Some (Inr (), upd_page i p' ?s3)"
    "page_ok p' ?t"
    using WriteNodeWithDiffs_spec [OF pi page_ok_len [OF i(2)] heldt _ nlt patc(3)] dist by auto
  let ?s4 = "upd_page i p' ?s3"
  have "holds (page_of ?s4) i ?t"
    using pi p'(2) dist slots_held_upd_page [OF heldt] by (intro holds_of_slots) auto
  moreover have "page_of s1 j = Some q"
    using al(5) j(1) ne by simp
  then have ok2: "store_ok ?s2"
    by (rule store_ok_upd_page(1) [OF al(2)])
  have "page_of ?s2 sib = Some new_page"
    using pg2 ne by simp
  then have "store_ok ?s3"
    by (rule store_ok_upd_page(1) [OF ok2])
  then have "store_ok ?s4"
    by (rule store_ok_upd_page(1) [OF _ pi])
  moreover have "page_of ?s4 k = page_of s k" if "k \<noteq> i" "k \<noteq> j" "k \<noteq> sib" for k
    using that pg3 by simp
  ultimately show ?thesis
    using al pj(1) ps(1) p'(1) pi unfolding AllocNode_def by blast
qed

lemma holds_dom: "holds g i t \<Longrightarrow> ids i t \<subseteq> dom g"
  by (fastforce simp: holds_def ids_def pids_def)

lemma promote_slices:
  fixes l r :: ctree and e :: u16
  defines "reps \<equiv> map slot_rep (slots l @ slots r)" and "ds \<equiv> diffs (ptop l) @ e # diffs (ptop r)"
  shows "at ds (int (nl (ptop l) - 1)) = Some e"
    "slice reps 0 (int (nl (ptop l) - 1) + 1) = Some (map slot_rep (slots l))"
    "slice reps (int (nl (ptop l) - 1) + 1) (int (length reps)) = Some (map slot_rep (slots r))"
    "slice ds 0 (int (nl (ptop l) - 1)) = Some (diffs (ptop l))"
    "slice ds (int (nl (ptop l) - 1) + 1) (int (length ds)) = Some (diffs (ptop r))"
proof -
  let ?m = "nl (ptop l) - 1"
  have m: "int ?m + 1 = int (length (slots l))" "length (diffs (ptop l)) = ?m" "int ?m + 1 = int (Suc ?m)"
    using nl_pos [of "ptop l"] by (simp_all add: nl_ptop of_nat_diff Suc_le_eq)
  have "at ds (int (length (diffs (ptop l)))) = Some (ds ! length (diffs (ptop l)))"
    by (rule at_int) (simp add: ds_def)
  also have "ds ! length (diffs (ptop l)) = e"
    unfolding ds_def by (rule nth_append_length)
  finally have "at ds (int (length (diffs (ptop l)))) = Some e" .
  then show "at ds (int ?m) = Some e"
    unfolding m(2) .
  show "slice reps 0 (int ?m + 1) = Some (map slot_rep (slots l))"
    unfolding m(1) using slice_prefix [of "length (slots l)" reps] by (simp add: reps_def)
  show "slice reps (int ?m + 1) (int (length reps)) = Some (map slot_rep (slots r))"
    unfolding m(1) using slice_suffix [of "length (slots l)" reps] by (simp add: reps_def)
  show "slice ds 0 (int ?m) = Some (diffs (ptop l))"
    using slice_prefix [of ?m ds] m(2) by (simp add: ds_def)
  show "slice ds (int ?m + 1) (int (length ds)) = Some (diffs (ptop r))"
    unfolding m(3) using slice_suffix [of "Suc ?m" ds] m(2) by (simp add: ds_def)
qed

lemma PromoteSibling_spec:
  assumes "store_ok s" "has_room s" "holds (page_of s) i t" "nl (ptop t) < 339"
    and n: "n < length (slots t)" "slots t ! n = Sub j v"
    and u: "slots_held (page_of s) (slots (Br l e r))" "nl (ptop (Br l e r)) = 340"
      "distinct (pids (Br l e r))" "set (pids (Br l e r)) = set (pids v)"
    and pat: "pat (ktree kf (set_slot t n (Br l e r)))" and keys: "keys_of K kf (set (leaves (flat (Br l e r))))"
  shows "\<exists>sib s'. PromoteSibling K i (int n) j (map slot_rep (slots (Br l e r))) s = Some (Inr (), s') \<and>
    store_ok s' \<and> page_of s sib = None \<and> untagged sib \<and>
    holds (page_of s') i (set_slot t n (Br (Sub j l) e (Sub sib r))) \<and>
    (\<forall>k. k \<noteq> i \<and> k \<noteq> j \<and> k \<noteq> sib \<longrightarrow> page_of s' k = page_of s k)"
proof -
  let ?c = "\<lambda>sib. Br (Sub j l) e (Sub sib r)"
  obtain p where p: "page_of s i = Some p" "page_ok p t"
    using holds_page [OF assms(3)] by blast
  have sj: "Sub j v \<in> set (slots t)"
    using n by (metis nth_mem)
  obtain q where q: "page_of s j = Some q" "page_ok q v"
    using holds_page [OF holds_slot(1) [OF assms(3) sj]] by blast
  have j: "untagged j"
    by (rule holds_slot(2) [OF assms(3) sj])
  have small: "nl (ptop l) \<le> 339" "nl (ptop r) \<le> 339"
    using u(2) nl_pos [of "ptop l"] nl_pos [of "ptop r"] by auto
  obtain sib s1 s2 s3 s4 where w: "AllocNode s = Some (Inr sib, s1)" "untagged sib" "page_of s sib = None"
    "WriteNodeWithDiffs j (map slot_rep (slots l)) (diffs (ptop l)) s1 = Some (Inr (), s2)"
    "WriteNodeWithDiffs sib (map slot_rep (slots r)) (diffs (ptop r)) s2 = Some (Inr (), s3)"
    "page_of s3 i = Some p"
    "WriteNodeWithDiffs i (map slot_rep (slots (set_slot t n (?c sib)))) (diffs (ptop (set_slot t n (?c sib)))) s3 = Some (Inr (), s4)"
    "store_ok s4" "holds (page_of s4) i (set_slot t n (?c sib))"
    "\<forall>k. k \<noteq> i \<and> k \<noteq> j \<and> k \<noteq> sib \<longrightarrow> page_of s4 k = page_of s k"
    using promote_writes [OF assms(1,2) p n assms(4) _ holds_dom [OF assms(3)] holds_others [OF assms(3)]
        q(1) page_ok_len [OF q(2)] j _ small _ _ pat] u assms(3) by (auto simp: holds_def)
  have patc: "pat (ktree kf (Br l e r))"
    by (rule pat_set_slot [OF pat n(1)])
  let ?ds = "diffs (ptop l) @ e # diffs (ptop r)"
  let ?reps = "map slot_rep (slots l @ slots r)"
  have ds: "BuildDiffs K ?reps s = Some (Inr ?ds, s)"
    using BuildDiffs_tree [OF u(1) patc keys] by simp
  have ho: "hord (Nd (ptop l) e (ptop r))"
    using pat_hord_ptop [OF patc] by simp
  have two: "2 \<le> nl (Nd (ptop l) e (ptop r))"
    using u(2) by simp
  obtain ct where ct: "BuildCartesian (diffs (Nd (ptop l) e (ptop r))) = Some ct"
    using BuildCartesian_trie [OF ho two] by metis
  then have ct': "BuildCartesian ?ds = Some ct" and root: "ct_root ct = int (nl (ptop l) - 1)"
    using ct_root_trie [OF ct ho] by simp_all
  note sl = promote_slices [where l = l and r = r]
  have rep: "page_rep p (ptop t)"
    using p(2) by (simp add: page_ok_def)
  have sz: "page_size p = int (nl (ptop t))" "0 < nl (ptop t)" "length (slots t) = nl (ptop t)"
    using page_ok_size [OF p(2)] nl_pos by (auto simp: nl_ptop)
  have atn: "at (np_reps p) (int n) = Some (kChildTag OR j)"
    using page_ok_at [OF p(2) n(1)] n(2) by simp
  have z: "zeros (page_size p - 1) = Some (replicate (nl (ptop t) - 1) 0)"
    using sz(1,2) by (simp add: zeros_def nat_diff_distrib)
  have rd: "RouteDiffs p (replicate (nl (ptop t) - 1) 0) = Some (Inr (diffs (ptop t)))"
    by (rule RouteDiffs_rep [OF rep]) simp
  have dsl: "slice (diffs (ptop t)) 0 (int n) = Some (take n (diffs (ptop t)))"
    "slice (diffs (ptop t)) (int n) (page_size p - 1) = Some (drop n (diffs (ptop t)))"
  proof -
    have le: "n \<le> length (diffs (ptop t))" and ln: "int (length (diffs (ptop t))) = page_size p - 1"
      using n(1) sz by auto
    then show "slice (diffs (ptop t)) 0 (int n) = Some (take n (diffs (ptop t)))"
      "slice (diffs (ptop t)) (int n) (page_size p - 1) = Some (drop n (diffs (ptop t)))"
      using slice_prefix [OF le] slice_suffix [OF le] unfolding ln [symmetric] by simp_all
  qed
  let ?t = "set_slot t n (?c sib)"
  have tr: "map slot_rep (take (Suc n) (slots t)) @ [kChildTag OR sib] @ map slot_rep (drop (Suc n) (slots t)) =
      map slot_rep (slots ?t)"
    using n by (simp add: slots_set_slot take_Suc_conv_app_nth)
  have td: "take n (diffs (ptop t)) @ [e] @ drop n (diffs (ptop t)) = diffs (ptop ?t)"
    using diffs_set_slot [OF n(1), of "?c sib"] by simp
  have c: "(int (length ?reps) \<noteq> kMaxNodeReps + 1) = False"
    "(int n < 0 \<or> int n \<ge> page_size p \<or> page_size p \<ge> kMaxNodeReps) = False"
    "(\<not> is_child (kChildTag OR j) \<or> child_id (kChildTag OR j) \<noteq> j) = False"
    using u(2) n(1) sz(1,3) assms(4) j by (simp_all add: kMaxNodeReps_def flip: nl_ptop)
  have mk: "MakeChild sib = Inr (kChildTag OR sib)"
    using w(2) by (simp add: MakeChild_untagged)
  note sl' = sl(1,4,5) [where e = e, folded root] sl(2,3) [folded root]
  have "PromoteSibling K i (int n) j ?reps s = Some (Inr (), s4)"
    by (simp only: PromoteSibling_def c if_False op_simps NodeByID_live [OF p(1)] deref_live [OF p(1)]
      deref_live [OF w(6)] atn ds ct' sl' w(1,4,5) mk page_slices [OF p(2) n(1)] z rd dsl tr td w(7))
  then show ?thesis
    using w by (intro exI [of _ sib] exI [of _ s4]) simp
qed

end
