(* ===== verification/Paths.thy ===== *)
theory Paths
  imports PageInsert
begin

text \<open>
  The path from the root to a page, bottom up, as the frames of \<^verbatim>\<open>InsertOrReplace\<close> record it,
  and the repair of the bounds along it (\<^verbatim>\<open>PropagateBoundary\<close>).
\<close>

section \<open>Paths\<close>

text \<open>A step of a path: a page, its subtrie and the slot through which the path continues.\<close>

type_synonym step = "u64 \<times> ctree \<times> nat"

definition fr :: "step \<Rightarrow> put_frame" where
  "fr c = (case c of (i, t, n) \<Rightarrow> \<lparr>pf_id = i, pf_node = Some i, pf_leaf = int n\<rparr>)"

text \<open>The root page and its subtrie, when page \<open>j\<close> at the lower end holds \<open>u\<close>.\<close>

fun plug :: "u64 \<Rightarrow> ctree \<Rightarrow> step list \<Rightarrow> u64 \<times> ctree" where
  "plug j u [] = (j, u)"
| "plug j u ((i, t, n) # cs) = plug i (set_slot t n (Sub j u)) cs"

text \<open>
  The pages of a path below which page \<open>j\<close> held \<open>v\<close>: their route tables, slots and bounds
  are those of the old subtries, whatever page \<open>j\<close> holds now.
\<close>

fun path_held :: "(u64 \<rightharpoonup> node_page) \<Rightarrow> u64 set \<Rightarrow> u64 \<Rightarrow> ctree \<Rightarrow> step list \<Rightarrow> bool" where
  "path_held g D j v [] = (ids j v \<subseteq> D)"
| "path_held g D j v ((i, t, n) # cs) =
     (n < length (slots t) \<and> slots t ! n = Sub j v \<and> untagged j \<and> (\<exists>p. g i = Some p \<and> page_ok p t) \<and>
      slots_held g (others t n) \<and> distinct (i # pids t) \<and> path_held g D i t cs)"

lemma fr_simps [simp]:
  "pf_id (fr (i, t, n)) = i" "pf_node (fr (i, t, n)) = Some i" "pf_leaf (fr (i, t, n)) = int n"
  by (simp_all add: fr_def)

lemma path_slot:
  assumes "path_held g D j v ((i, t, n) # cs)"
  shows "Sub j v \<in> set (slots t)" "ids j v \<subseteq> set (pids t)" "i \<notin> ids j v" "j \<noteq> i"
proof -
  show sub: "Sub j v \<in> set (slots t)"
    using assms by (auto intro: nth_mem dest: sym)
  show "ids j v \<subseteq> set (pids t)"
    using pids_slot [OF sub] by (simp add: ids_def)
  then show "i \<notin> ids j v" "j \<noteq> i"
    using assms by (auto simp: ids_def)
qed

lemma path_held_ids: "path_held g D j v cs \<Longrightarrow> ids j v \<subseteq> D"
proof (induction cs arbitrary: j v)
  case (Cons c cs)
  obtain i t n where c: "c = (i, t, n)"
    by (cases c)
  have "path_held g D i t cs"
    using Cons.prems c by simp
  then have "ids i t \<subseteq> D"
    by (rule Cons.IH)
  then show ?case
    using path_slot(2) [of g D j v i t n cs] Cons.prems c by (auto simp: ids_def)
qed simp

lemma path_held_agree:
  "path_held g D j v cs \<Longrightarrow> (\<And>k. k \<in> D - ids j v \<Longrightarrow> g' k = g k) \<Longrightarrow> path_held g' D j v cs"
proof (induction cs arbitrary: j v)
  case (Cons c cs)
  obtain i t n where c: "c = (i, t, n)"
    by (cases c)
  have p: "path_held g D j v ((i, t, n) # cs)"
    using Cons.prems(1) c by simp
  note sl = path_slot [OF p]
  have it: "path_held g D i t cs" "ids i t \<subseteq> D" "n < length (slots t)" "slots t ! n = Sub j v" "distinct (pids t)"
    using p path_held_ids [of g D i t cs] by auto
  have jv: "ids j v \<subseteq> ids i t"
    using sl(2) by (auto simp: ids_def)
  have "path_held g' D i t cs"
    using Cons.prems(2) jv by (intro Cons.IH [OF it(1)]) blast
  moreover have "g' i = g i"
    using it(2) sl(3) by (intro Cons.prems(2)) (auto simp: ids_def)
  moreover have "slots_held g' (others t n)"
  proof (rule slots_held_agree [where A = "ids i t - ids j v"])
    show "slots_held g (others t n)"
      using p by simp
    show "set (pids x) \<subseteq> ids i t - ids j v" if "x \<in> set (others t n)" for x
      using others_pids [OF it(3,5) that] it(4) by (auto simp: ids_def)
    show "g' k = g k" if "k \<in> ids i t - ids j v" for k
      using that it(2) by (intro Cons.prems(2)) blast
  qed
  ultimately show ?case
    using p c by simp
qed simp

lemma holds_distinct: "holds g j u \<Longrightarrow> distinct (j # pids u)"
  by (simp add: holds_def)

lemma path_distinct:
  assumes "path_held g D j v ((i, t, n) # cs)" "distinct (j # pids u)" "(set (pids u) - set (pids v)) \<inter> D = {}"
  shows "distinct (i # pids (set_slot t n (Sub j u)))"
proof -
  have n: "n < length (slots t)" "slots t ! n = Sub j v" "distinct (i # pids t)" "ids i t \<subseteq> D"
    using assms(1) path_held_ids [of g D i t cs] by auto
  have "distinct (pids (Sub j u))" "set (pids (Sub j u)) \<inter> (set (pids t) - set (pids (slots t ! n))) = {}"
    using assms(2,3) n by (auto simp: holds_def ids_def)
  then have "distinct (pids (set_slot t n (Sub j u)))"
    "set (pids (set_slot t n (Sub j u))) = set (pids t) - set (pids (slots t ! n)) \<union> set (pids (Sub j u))"
    using distinct_pids_set_slot [OF n(1)] n(3) by auto
  then show ?thesis
    using n path_slot [OF assms(1)] assms(3) by (auto simp: ids_def)
qed

lemma path_holds:
  assumes "path_held g D j v ((i, t, n) # cs)" "holds g j u"
    and "g i = Some p" "page_ok p (set_slot t n (Sub j u))" "(set (pids u) - set (pids v)) \<inter> D = {}"
  shows "holds g i (set_slot t n (Sub j u))"
  by (rule holds_set_slot [where p = p], use assms in simp, rule assms(3), rule assms(4))
    (use assms path_distinct [OF assms(1) holds_distinct [OF assms(2)] assms(5)] in \<open>simp_all add: slots_held_def\<close>)

lemma path_pids:
  assumes "path_held g D j v ((i, t, n) # cs)" "distinct (j # pids u)" "(set (pids u) - set (pids v)) \<inter> D = {}"
  shows "set (pids (set_slot t n (Sub j u))) = set (pids t) - set (pids v) \<union> set (pids u)"
    "set (pids (set_slot t n (Sub j u))) - set (pids t) = set (pids u) - set (pids v)"
proof -
  have n: "n < length (slots t)" "slots t ! n = Sub j v" "distinct (i # pids t)" "ids i t \<subseteq> D"
    using assms(1) path_held_ids [of g D i t cs] by auto
  have "distinct (pids (Sub j u))" "set (pids (Sub j u)) \<inter> (set (pids t) - set (pids (slots t ! n))) = {}"
    using assms(2,3) n by (auto simp: holds_def ids_def)
  then have "set (pids (set_slot t n (Sub j u))) = set (pids t) - set (pids (Sub j v)) \<union> set (pids (Sub j u))"
    using distinct_pids_set_slot(2) [OF n(1)] n(2,3) by auto
  moreover have "j \<in> set (pids t)" "j \<notin> set (pids v)" "set (pids v) \<subseteq> set (pids t)"
    using path_slot(1,2) [OF assms(1)] n(3) distinct_pids_slot [of t "Sub j v"] by (auto simp: ids_def)
  ultimately show eq: "set (pids (set_slot t n (Sub j u))) = set (pids t) - set (pids v) \<union> set (pids u)"
    by auto
  show "set (pids (set_slot t n (Sub j u))) - set (pids t) = set (pids u) - set (pids v)"
    unfolding eq using n(4) assms(3) \<open>set (pids v) \<subseteq> set (pids t)\<close> by (auto simp: ids_def)
qed

lemma path_ptop: "path_held g D j v ((i, t, n) # cs) \<Longrightarrow> ptop (set_slot t n (Sub j u)) = ptop t"
  by (auto intro: ptop_set_slot_same)

lemma bounds_set_slot:
  assumes "n < length (slots t)"
  shows "minp (set_slot t n (Sub j u)) = (if n = 0 then minp u else minp t)"
    "maxp (set_slot t n (Sub j u)) = (if Suc n = length (slots t) then maxp u else maxp t)"
proof -
  have "slots t \<noteq> []"
    by simp
  then show "minp (set_slot t n (Sub j u)) = (if n = 0 then minp u else minp t)"
    using assms by (simp add: minp_slots [of "set_slot t n (Sub j u)"] minp_slots [of t] slots_set_slot hd_append)
  show "maxp (set_slot t n (Sub j u)) = (if Suc n = length (slots t) then maxp u else maxp t)"
    using assms by (simp add: maxp_slots [of "set_slot t n (Sub j u)"] maxp_slots [of t] slots_set_slot last_append last_drop)
qed

lemma bounds_slot:
  assumes "n < length (slots t)" "slots t ! n = Sub j v"
  shows "n = 0 \<Longrightarrow> minp t = minp v" "Suc n = length (slots t) \<Longrightarrow> maxp t = maxp v"
  using bounds_set_slot [OF assms(1), of j v] set_slot_same [OF assms(1)] assms(2) by simp_all

section \<open>Bounds along a path\<close>

text \<open>When the bounds of the lower end are what they were, the pages above it are right.\<close>

lemma path_stable:
  "path_held g D j v cs \<Longrightarrow> holds g j u \<Longrightarrow> minp u = minp v \<Longrightarrow> maxp u = maxp v \<Longrightarrow>
   (set (pids u) - set (pids v)) \<inter> D = {} \<Longrightarrow> (\<lambda>(r, T). holds g r T) (plug j u cs)"
proof (induction cs arbitrary: j v u)
  case (Cons c cs)
  obtain i t n where c: "c = (i, t, n)"
    by (cases c)
  have p: "path_held g D j v ((i, t, n) # cs)"
    using Cons.prems(1) c by simp
  obtain q where q: "g i = Some q" "page_ok q t" "n < length (slots t)" "slots t ! n = Sub j v"
    using p by auto
  have same: "minp (set_slot t n (Sub j u)) = minp t" "maxp (set_slot t n (Sub j u)) = maxp t"
    using bounds_set_slot [OF q(3), of j u] bounds_slot [OF q(3,4)] Cons.prems(3,4) by auto
  then have "page_ok q (set_slot t n (Sub j u))"
    using q(2) path_ptop [OF p] by (simp add: page_ok_def)
  then have "holds g i (set_slot t n (Sub j u))"
    by (rule path_holds [OF p Cons.prems(2) q(1) _ Cons.prems(5)])
  moreover have "path_held g D i t cs"
    using p by simp
  ultimately show ?case
    using Cons.IH [of i t "set_slot t n (Sub j u)"] same path_pids(2) [OF p holds_distinct [OF Cons.prems(2)] Cons.prems(5)] Cons.prems(5) c by simp
qed simp

lemma page_rep_bounds:
  "page_rep (p\<lparr>np_first := a\<rparr>) T = page_rep p T" "page_rep (p\<lparr>np_last := b\<rparr>) T = page_rep p T"
  by (simp_all add: page_rep_def)

lemma at_append: "at (xs @ y # ys) (int (length xs)) = Some y"
  by (simp add: at_int)

declare propagate_loop.simps [simp del]

lemma propagate_step:
  assumes "at frames (int m) = Some (fr (i, t, n))" "page_of s i = Some q"
    and "at frames (int m + 1) = Some f" "pf_id f = j" "untagged j"
    and "at (np_reps q) (int n) = Some (kChildTag OR j)" "int n < page_size q" "page_of s j = Some cp"
    and "p1 = (if fc \<and> int n = 0 then q\<lparr>np_first := np_first cp\<rparr> else q)"
    and "p2 = (if lc \<and> int n = page_size q - 1 then p1\<lparr>np_last := np_last cp\<rparr> else p1)"
  shows "propagate_loop frames (Suc m) j fc lc s =
    (if \<not> np_first p2 \<noteq> np_first q \<and> \<not> np_last p2 \<noteq> np_last q then ret ()
     else propagate_loop frames m i (np_first p2 \<noteq> np_first q) (np_last p2 \<noteq> np_last q)) (upd_page i p2 s)"
proof -
  have c: "(int n < 0 \<or> int n \<ge> page_size q) = False"
    "(\<not> is_child (kChildTag OR j) \<or> child_id (kChildTag OR j) \<noteq> j) = False"
    using assms(5,7) by auto
  show ?thesis
    by (simp only: propagate_loop.simps fr_simps c if_False op_simps assms(1-4,6,8) NodeByID_live [OF assms(2)]
      deref_live [OF assms(2)] deref_live [OF assms(8)] store_page_live [OF assms(2)] Let_def
      assms(9) [symmetric] assms(10) [symmetric])
qed

lemma propagate_loop_path:
  "path_held (page_of s) D j v cs \<Longrightarrow> holds (page_of s) j u \<Longrightarrow> store_ok s \<Longrightarrow>
   (set (pids u) - set (pids v)) \<inter> D = {} \<Longrightarrow> frames = rev (map fr cs) @ f # rest \<Longrightarrow> pf_id f = j \<Longrightarrow>
   \<exists>s'. propagate_loop frames (length cs) j (minp u \<noteq> minp v) (maxp u \<noteq> maxp v) s = Some (Inr (), s') \<and>
     store_ok s' \<and> (\<lambda>(r, T). holds (page_of s') r T) (plug j u cs) \<and> dom (page_of s') = dom (page_of s)"
proof (induction cs arbitrary: j v u s f rest)
  case (Cons c cs)
  obtain i t n where c: "c = (i, t, n)"
    by (cases c)
  have p: "path_held (page_of s) D j v ((i, t, n) # cs)"
    using Cons.prems(1) c by simp
  let ?t = "set_slot t n (Sub j u)"
  obtain q where q: "page_of s i = Some q" "page_ok q t" "n < length (slots t)" "slots t ! n = Sub j v" "untagged j"
    using p by auto
  obtain cp where cp: "page_of s j = Some cp" "page_ok cp u"
    using holds_page [OF Cons.prems(2)] by blast
  have sz: "page_size q = int (length (slots t))"
    using page_ok_size [OF q(2)] by (simp add: nl_ptop)
  have rep: "at (np_reps q) (int n) = Some (kChildTag OR j)"
    using page_ok_at [OF q(2,3)] q(4) by simp
  have fr: "frames = rev (map fr cs) @ fr (i, t, n) # (f # rest)" "pf_id f = j"
    using Cons.prems(5,6) c by simp_all
  have at1: "at frames (int (length cs)) = Some (fr (i, t, n))"
    using at_append [of "rev (map fr cs)"] fr(1) by simp
  have at2: "at frames (int (length cs) + 1) = Some f"
    using at_append [of "rev (map fr cs) @ [fr (i, t, n)]"] fr(1) by (simp add: add.commute)
  define p1 where "p1 = (if minp u \<noteq> minp v \<and> int n = 0 then q\<lparr>np_first := np_first cp\<rparr> else q)"
  define p2 where "p2 = (if maxp u \<noteq> maxp v \<and> int n = page_size q - 1 then p1\<lparr>np_last := np_last cp\<rparr> else p1)"
  have upd: "np_first p2 = (if minp u \<noteq> minp v \<and> n = 0 then minp u else np_first q)"
    "np_last p2 = (if maxp u \<noteq> maxp v \<and> Suc n = length (slots t) then maxp u else np_last q)"
    "page_rep p2 (ptop t)"
    using cp(2) sz q(2) by (simp_all add: page_ok_def page_rep_bounds p1_def p2_def)
  have old: "np_first q = minp t" "np_last q = maxp t"
    using q(2) by (simp_all add: page_ok_def)
  have ok: "page_ok p2 ?t"
    unfolding page_ok_def path_ptop [OF p] upd
    using upd(3) old bounds_set_slot [OF q(3), of j u] bounds_slot [OF q(3,4)] by simp
  let ?s = "upd_page i p2 s"
  have ij: "i \<notin> ids j v" "i \<in> D" "i \<notin> ids j u"
    using path_slot [OF p] path_held_ids [of "page_of s" D i t cs] p Cons.prems(4) by (auto simp: ids_def)
  have hu: "holds (page_of ?s) j u"
    by (rule holds_upd_page [OF Cons.prems(2) ij(3)])
  have pt: "path_held (page_of ?s) D i t cs"
  proof (rule path_held_agree [of "page_of s"])
    show "path_held (page_of s) D i t cs"
      using p by simp
    show "page_of ?s k = page_of s k" if "k \<in> D - ids i t" for k
      using that by (intro upd_page_other) (auto simp: ids_def)
  qed
  have ot: "slots_held (page_of ?s) (others t n)"
  proof (rule slots_held_agree [where A = "set (pids t)" and g = "page_of s"])
    show "slots_held (page_of s) (others t n)"
      using p by simp
    show "set (pids x) \<subseteq> set (pids t)" if "x \<in> set (others t n)" for x
      using that others_subset by (intro pids_slot) blast
    show "page_of ?s k = page_of s k" if "k \<in> set (pids t)" for k
      using that p by (intro upd_page_other) auto
  qed
  have ht: "holds (page_of ?s) i ?t"
  proof (rule holds_set_slot [OF q(3) _ ok ot])
    show "page_of ?s i = Some p2"
      by (rule upd_page_same [OF q(1)])
    show "slots_held (page_of ?s) (slots (Sub j u))"
      using hu q(5) by (simp add: slots_held_def)
    show "distinct (i # pids ?t)"
      by (rule path_distinct [OF p holds_distinct [OF Cons.prems(2)] Cons.prems(4)])
  qed
  have so: "store_ok ?s"
    by (rule store_ok_upd_page(1) [OF Cons.prems(3) q(1)])
  have dm: "dom (page_of ?s) = dom (page_of s)"
    using page_of_upd_page [OF q(1)] q(1) by (auto simp: dom_def)
  have step: "propagate_loop frames (length (c # cs)) j (minp u \<noteq> minp v) (maxp u \<noteq> maxp v) s =
      (if \<not> minp ?t \<noteq> minp t \<and> \<not> maxp ?t \<noteq> maxp t then ret ()
       else propagate_loop frames (length cs) i (minp ?t \<noteq> minp t) (maxp ?t \<noteq> maxp t)) ?s"
    using propagate_step [OF at1 q(1) at2 fr(2) q(5) rep _ cp(1) p1_def p2_def] q(3) sz old ok c
    by (simp add: page_ok_def)
  have fresh: "(set (pids ?t) - set (pids t)) \<inter> D = {}"
    using path_pids(2) [OF p holds_distinct [OF Cons.prems(2)] Cons.prems(4)] Cons.prems(4) by simp
  show ?case
  proof (cases "minp ?t = minp t \<and> maxp ?t = maxp t")
    case True
    then have "(\<lambda>(r, T). holds (page_of ?s) r T) (plug i ?t cs)"
      by (intro path_stable [OF pt ht _ _ fresh]) simp_all
    then show ?thesis
      unfolding step using True so dm c by (simp add: op_simps)
  next
    case False
    then have ne: "(\<not> minp ?t \<noteq> minp t \<and> \<not> maxp ?t \<noteq> maxp t) = False"
      by blast
    show ?thesis
      unfolding step ne if_False using Cons.IH [OF pt ht so fresh fr(1)] dm c by simp
  qed
qed (simp add: op_simps propagate_loop.simps)

lemma PropagateBoundary_path:
  assumes "path_held (page_of s) D j v cs" "holds (page_of s) j u" "store_ok s"
    and "(set (pids u) - set (pids v)) \<inter> D = {}" "frames = rev (map fr cs) @ f # rest" "pf_id f = j"
  shows "\<exists>s'. PropagateBoundary frames (int (length cs)) (minp v) (maxp v) s = Some (Inr (), s') \<and>
    store_ok s' \<and> (\<lambda>(r, T). holds (page_of s') r T) (plug j u cs) \<and> dom (page_of s') = dom (page_of s)"
proof -
  obtain p where p: "page_of s j = Some p" "np_first p = minp u" "np_last p = maxp u"
    using holds_page [OF assms(2)] by (auto simp: page_ok_def)
  have at: "at frames (int (length cs)) = Some f"
    using at_append [of "rev (map fr cs)" f rest] assms(5) by simp
  have run: "PropagateBoundary frames (int (length cs)) (minp v) (maxp v) s =
      (if minp u = minp v \<and> maxp u = maxp v then Some (Inr (), s)
       else propagate_loop frames (length cs) j (minp u \<noteq> minp v) (maxp u \<noteq> maxp v) s)"
    using p at assms(6) by (simp add: PropagateBoundary_def op_simps Let_def)
  show ?thesis
  proof (cases "minp u = minp v \<and> maxp u = maxp v")
    case True
    then show ?thesis
      using run assms(3) path_stable [OF assms(1,2) _ _ assms(4)] by simp
  next
    case False
    then show ?thesis
      using propagate_loop_path [OF assms] by (simp only: run if_False)
  qed
qed

section \<open>The trie above a page\<close>

lemma path_holds_up:
  "path_held g D j v (cs @ (i, t, n) # cs') \<Longrightarrow> holds g j v \<Longrightarrow> holds g i t \<and> path_held g D i t cs'"
proof (induction cs arbitrary: j v)
  case Nil
  then obtain p where p: "path_held g D j v ((i, t, n) # cs')" "g i = Some p" "page_ok p t" "n < length (slots t)"
      "slots t ! n = Sub j v"
    by auto
  then have "set_slot t n (Sub j v) = t"
    using set_slot_same by metis
  then show ?case
    using path_holds [OF p(1) Nil(2) p(2)] p(1,3) by simp
next
  case (Cons c cs)
  obtain i' t' n' where c: "c = (i', t', n')"
    by (cases c)
  have p: "path_held g D j v ((i', t', n') # (cs @ (i, t, n) # cs'))"
    using Cons.prems(1) c by simp
  then obtain q where q: "g i' = Some q" "page_ok q t'" "n' < length (slots t')" "slots t' ! n' = Sub j v"
    by auto
  then have "set_slot t' n' (Sub j v) = t'"
    using set_slot_same by metis
  then have "holds g i' t'"
    using path_holds [OF p Cons.prems(2) q(1)] q(2) by simp
  then show ?case
    using Cons.IH [of i' t'] p by simp
qed

lemma plug_append: "plug j u (cs @ cs') = (case plug j u cs of (i, t) \<Rightarrow> plug i t cs')"
  by (induction j u cs rule: plug.induct) simp_all

lemma plug_path: "path_held g D j v (cs @ (i, t, n) # cs') \<Longrightarrow> plug j v (cs @ (i, t, n) # cs') = plug i t cs'"
proof (induction cs arbitrary: j v)
  case (Cons c cs)
  obtain i' t' n' where c: "c = (i', t', n')"
    by (cases c)
  then have "n' < length (slots t')" "slots t' ! n' = Sub j v" "path_held g D i' t' (cs @ (i, t, n) # cs')"
    using Cons.prems by simp_all
  moreover from this have "set_slot t' n' (Sub j v) = t'"
    using set_slot_same by metis
  ultimately show ?case
    using Cons.IH c by simp
qed (auto dest: set_slot_same)

text \<open>The pages of the new trie.\<close>

definition top_ids :: "u64 \<Rightarrow> ctree \<Rightarrow> step list \<Rightarrow> u64 set" where
  "top_ids j u cs = (case plug j u cs of (r, T) \<Rightarrow> ids r T)"

lemma top_ids_path: "path_held g D j v ((i, t, n) # cs) \<Longrightarrow> top_ids j v ((i, t, n) # cs) = top_ids i t cs"
  using plug_path [of g D j v "[]" i t n cs] by (simp add: top_ids_def)

lemma top_ids_superset: "path_held g D j v cs \<Longrightarrow> ids j v \<subseteq> top_ids j v cs"
proof (induction cs arbitrary: j v)
  case (Cons c cs)
  obtain i t n where c: "c = (i, t, n)"
    by (cases c)
  then have p: "path_held g D j v ((i, t, n) # cs)"
    using Cons.prems by simp
  have "ids i t \<subseteq> top_ids i t cs"
    using p by (intro Cons.IH) simp
  then show ?case
    using top_ids_path [OF p] path_slot(2) [OF p] c by (auto simp: ids_def)
qed (simp add: top_ids_def)

lemma ids_plug:
  "path_held g D j v cs \<Longrightarrow> distinct (j # pids u) \<Longrightarrow> (set (pids u) - set (pids v)) \<inter> D = {} \<Longrightarrow>
   j \<notin> set (pids v) \<Longrightarrow> top_ids j u cs = top_ids j v cs - set (pids v) \<union> set (pids u)"
proof (induction cs arbitrary: j v u)
  case Nil
  then show ?case
    by (auto simp: top_ids_def ids_def)
next
  case (Cons c cs)
  obtain i t n where c: "c = (i, t, n)"
    by (cases c)
  then have p: "path_held g D j v ((i, t, n) # cs)"
    using Cons.prems by simp
  let ?t = "set_slot t n (Sub j u)"
  note pp = path_pids [OF p Cons.prems(2,3)]
  have "top_ids i ?t cs = top_ids i t cs - set (pids t) \<union> set (pids ?t)"
    using p pp(2) Cons.prems(3) path_distinct [OF p Cons.prems(2,3)] by (intro Cons.IH) simp_all
  moreover have "set (pids t) \<subseteq> top_ids i t cs"
    using top_ids_superset [of g D i t cs] p by (auto simp: ids_def)
  moreover have "set (pids v) \<subseteq> set (pids t)"
    using path_slot(2) [OF p] by (auto simp: ids_def)
  moreover have "top_ids j u (c # cs) = top_ids i ?t cs"
    using c by (simp add: top_ids_def)
  ultimately show ?case
    using top_ids_path [OF p] pp(1) c by auto
qed

end
