(* ===== verification/PathInsert.thy ===== *)
theory PathInsert
  imports Paths
begin

text \<open>
  Insertion along a path (\<^verbatim>\<open>InsertSlotFromPath\<close>, \<^verbatim>\<open>InsertAtPath\<close>): the three cases of the
  source change the pages in different ways, and all of them insert into the trie.
\<close>

section \<open>The trie along the path of a key\<close>

text \<open>The steps of the descent for \<open>key\<close>, none of which has the place to insert.\<close>

definition on_path :: "key \<Rightarrow> step list \<Rightarrow> bool" where
  "on_path key cs \<longleftrightarrow> (\<forall>(i, t, n) \<in> set cs. n = tslot (ptop t) key)"

definition passed :: "key \<Rightarrow> u16 \<Rightarrow> step list \<Rightarrow> bool" where
  "passed key d cs \<longleftrightarrow> (\<forall>(i, t, n) \<in> set cs. \<not> above_path (ptop t) key d)"

lemma on_path_simps [simp]:
  "on_path key []" "on_path key ((i, t, n) # cs) \<longleftrightarrow> n = tslot (ptop t) key \<and> on_path key cs"
  "on_path key (cs @ ds) \<longleftrightarrow> on_path key cs \<and> on_path key ds"
  by (simp_all add: on_path_def ball_Un)

lemma passed_simps [simp]:
  "passed key d []" "passed key d ((i, t, n) # cs) \<longleftrightarrow> \<not> above_path (ptop t) key d \<and> passed key d cs"
  "passed key d (cs @ ds) \<longleftrightarrow> passed key d cs \<and> passed key d ds"
  by (simp_all add: passed_def ball_Un)

text \<open>The trie of the root page when page \<open>j\<close> holds \<open>u\<close>.\<close>

definition top_tree :: "u64 \<Rightarrow> ctree \<Rightarrow> step list \<Rightarrow> ctree" where
  "top_tree j u cs = snd (plug j u cs)"

lemma top_tree_Nil [simp]: "top_tree j u [] = u"
  by (simp add: top_tree_def)

lemma top_tree_Cons: "top_tree j u ((i, t, n) # cs) = top_tree i (set_slot t n (Sub j u)) cs"
  by (simp add: top_tree_def)

lemma plug_root: "fst (plug j u cs) = fst (plug j v cs)"
proof (induction cs arbitrary: j u v)
  case (Cons c cs)
  show ?case
    by (cases c) (simp add: Cons.IH [of _ _ "set_slot _ _ (Sub j v)"])
qed simp

lemma top_tree_path: "path_held g D j v ((i, t, n) # cs) \<Longrightarrow> top_tree j v ((i, t, n) # cs) = top_tree i t cs"
  using plug_path [of g D j v "[]" i t n cs] by (simp add: top_tree_def)

lemma top_tree_leaf:
  "path_held g D j v cs \<Longrightarrow> on_path key cs \<Longrightarrow>
   leaves (flat (top_tree j v cs)) ! tslot (flat (top_tree j v cs)) key = leaves (flat v) ! tslot (flat v) key"
proof (induction cs arbitrary: j v)
  case (Cons c cs)
  obtain i t n where c: "c = (i, t, n)"
    by (cases c)
  then have p: "path_held g D j v ((i, t, n) # cs)"
    using Cons.prems by simp
  have "top_tree j v (c # cs) = top_tree i t cs"
    using top_tree_path [OF p] c by simp
  then show ?case
    using p Cons.IH [of i t] Cons.prems(2) flat_tslot_slot [of t key] c by simp
qed simp

lemma top_tree_pat: "path_held g D j v cs \<Longrightarrow> pat (ktree kf (top_tree j u cs)) \<Longrightarrow> pat (ktree kf u)"
proof (induction cs arbitrary: j u v)
  case (Cons c cs)
  obtain i t n where c: "c = (i, t, n)"
    by (cases c)
  then have "n < length (slots t)" "pat (ktree kf (set_slot t n (Sub j u)))"
    using Cons by (auto simp: top_tree_Cons)
  then show ?case
    using pat_set_slot [of kf t n "Sub j u"] by simp
qed simp

lemma top_tree_leaves: "path_held g D j v cs \<Longrightarrow> set (leaves (flat v)) \<subseteq> set (leaves (flat (top_tree j v cs)))"
proof (induction cs arbitrary: j v)
  case (Cons c cs)
  obtain i t n where c: "c = (i, t, n)"
    by (cases c)
  then have p: "path_held g D j v ((i, t, n) # cs)"
    using Cons.prems by simp
  then have "set (leaves (flat t)) \<subseteq> set (leaves (flat (top_tree i t cs)))"
    using Cons.IH [of i t] by simp
  then show ?case
    using slot_leaves_subset [OF path_slot(1) [OF p]] c by (auto simp: top_tree_path [OF p])
qed simp

lemma top_tree_tins:
  "path_held g D j v cs \<Longrightarrow> on_path key cs \<Longrightarrow> passed key d cs \<Longrightarrow> flat u = tins (flat v) key d q \<Longrightarrow>
   flat (top_tree j u cs) = tins (flat (top_tree j v cs)) key d q"
proof (induction cs arbitrary: j u v)
  case (Cons c cs)
  obtain i t n where c: "c = (i, t, n)"
    by (cases c)
  then have p: "path_held g D j v ((i, t, n) # cs)"
    using Cons.prems by simp
  have "flat (set_slot t n (Sub j u)) = tins (flat t) key d q"
    using flat_set_slot_tins [of t key d "Sub j u" q] p Cons.prems(2-4) c by simp
  moreover have "top_tree j v (c # cs) = top_tree i t cs"
    using top_tree_path [OF p] c by simp
  ultimately show ?case
    using Cons.IH [of i t "set_slot t n (Sub j u)"] p Cons.prems(2,3) c by (simp add: top_tree_Cons)
qed simp

lemma top_tree_tset:
  "path_held g D j v cs \<Longrightarrow> on_path key cs \<Longrightarrow> flat u = tset (flat v) (tslot (flat v) key) q \<Longrightarrow>
   flat (top_tree j u cs) = tset (flat (top_tree j v cs)) (tslot (flat (top_tree j v cs)) key) q"
proof (induction cs arbitrary: j u v)
  case (Cons c cs)
  obtain i t n where c: "c = (i, t, n)"
    by (cases c)
  then have p: "path_held g D j v ((i, t, n) # cs)"
    using Cons.prems by simp
  have "flat (set_slot t n (Sub j u)) = tset (flat t) (tslot (flat t) key) q"
    using flat_set_slot_tset [of "Sub j u" t key q] p Cons.prems(2,3) c by simp
  moreover have "top_tree j v (c # cs) = top_tree i t cs"
    using top_tree_path [OF p] c by simp
  ultimately show ?case
    using Cons.IH [of i t "set_slot t n (Sub j u)"] p Cons.prems(2) c by (simp add: top_tree_Cons)
qed simp

section \<open>InsertSlotFromPath\<close>

lemma ins_slot_below: "\<not> above_path t k d \<Longrightarrow> ins_slot t k d = tslot t k + (if key_bit k d then 1 else 0)"
  by (induction t) auto

lemma slot_from_path_spec:
  assumes "\<forall>(i, t, n) \<in> set fs. (\<exists>p. page_of s i = Some p \<and> page_ok p t) \<and> n = tslot (ptop t) key"
  shows "(\<forall>(i, t, n) \<in> set fs. \<not> above_path (ptop t) key d) \<and> slot_from_path (map fr fs) k key d s = Some (Inr None, s) \<or>
    (\<exists>pre i t n post. fs = pre @ (i, t, n) # post \<and> passed key d pre \<and> above_path (ptop t) key d \<and>
      slot_from_path (map fr fs) k key d s =
        Some (Inr (Some \<lparr>is_target = k + int (length pre), is_slot = int (ins_slot (ptop t) key d)\<rparr>), s))"
  using assms
proof (induction fs arbitrary: k)
  case Nil
  then show ?case
    by (simp add: op_simps)
next
  case (Cons f fs)
  obtain i t n where f: "f = (i, t, n)"
    by (cases f)
  then obtain p where p: "page_of s i = Some p" "page_ok p t" "n = tslot (ptop t) key"
    using Cons.prems by auto
  have rep: "page_rep p (ptop t)"
    using p(2) by (simp add: page_ok_def)
  note sl = InsertSlotAbovePath_rep [OF rep, of "int n" key d]
  show ?case
  proof (cases "above_path (ptop t) key d")
    case True
    then have "slot_from_path (map fr (f # fs)) k key d s =
        Some (Inr (Some \<lparr>is_target = k, is_slot = int (ins_slot (ptop t) key d)\<rparr>), s)"
      using p sl f by (simp add: op_simps)
    then show ?thesis
      using True f by (intro disjI2 exI [of _ "[]"]) auto
  next
    case False
    then have run: "slot_from_path (map fr (f # fs)) k key d s = slot_from_path (map fr fs) (k + 1) key d s"
      using p sl f by (simp add: op_simps)
    have "\<forall>(i, t, n) \<in> set fs. (\<exists>p. page_of s i = Some p \<and> page_ok p t) \<and> n = tslot (ptop t) key"
      using Cons.prems by simp
    from Cons.IH [OF this, of "k + 1"] show ?thesis
    proof (elim disjE exE conjE)
      assume "\<forall>(i, t, n) \<in> set fs. \<not> above_path (ptop t) key d" "slot_from_path (map fr fs) (k + 1) key d s = Some (Inr None, s)"
      then show ?thesis
        using run False f by simp
    next
      fix pre i' t' n' post
      assume h: "fs = pre @ (i', t', n') # post" "passed key d pre" "above_path (ptop t') key d"
        "slot_from_path (map fr fs) (k + 1) key d s =
          Some (Inr (Some \<lparr>is_target = k + 1 + int (length pre), is_slot = int (ins_slot (ptop t') key d)\<rparr>), s)"
      then have "f # fs = (f # pre) @ (i', t', n') # post" "passed key d (f # pre)"
        using False f by simp_all
      then show ?thesis
        using h(3,4) run by (intro disjI2 exI [of _ "f # pre"] exI [of _ i'] exI [of _ t'] exI [of _ n'] exI [of _ post])
          (simp add: add.commute add.left_commute)
    qed
  qed
qed

section \<open>InsertAtPath\<close>

text \<open>What the three cases start from, and what they achieve.\<close>

definition can_insert ::
  "key_fn \<Rightarrow> (pos \<Rightarrow> key) \<Rightarrow> heap_node_store \<Rightarrow> u64 \<Rightarrow> ctree \<Rightarrow> step list \<Rightarrow> key \<Rightarrow> u16 \<Rightarrow> pos \<Rightarrow> bool" where
  "can_insert K kf s j v cs key d q \<longleftrightarrow>
     store_ok s \<and> has_room s \<and> path_held (page_of s) (top_ids j v cs) j v cs \<and> holds (page_of s) j v \<and>
     dom (page_of s) = top_ids j v cs \<and> on_path key cs \<and> passed key d cs \<and> untagged q \<and>
     pat (map_rtree kf (tins (flat (top_tree j v cs)) key d q)) \<and>
     keys_of K kf (insert q (set (leaves (flat (top_tree j v cs)))))"

definition inserted ::
  "u64 \<Rightarrow> ctree \<Rightarrow> step list \<Rightarrow> key \<Rightarrow> u16 \<Rightarrow> pos \<Rightarrow> (mp_status + unit) \<times> heap_node_store \<Rightarrow> bool" where
  "inserted j v cs key d q r \<longleftrightarrow>
     (\<exists>s' T'. r = (Inr (), s') \<and> store_ok s' \<and> holds (page_of s') (fst (plug j v cs)) T' \<and>
        flat T' = tins (flat (top_tree j v cs)) key d q \<and> dom (page_of s') = ids (fst (plug j v cs)) T')"

text \<open>Whatever was done at the lower end, the bounds above it are repaired.\<close>

lemma finish_bounds:
  assumes D: "path_held (page_of s) (top_ids j v cs) j v cs" "dom (page_of s) = top_ids j v cs" "holds (page_of s) j v"
    and s1: "store_ok s1" "holds (page_of s1) j u"
      "\<And>k. k \<in> top_ids j v cs - ids j v \<Longrightarrow> page_of s1 k = page_of s k"
    and new: "set (pids v) \<subseteq> set (pids u)" "(set (pids u) - set (pids v)) \<inter> dom (page_of s) = {}"
      "dom (page_of s1) = dom (page_of s) \<union> set (pids u)"
    and fs: "frames = rev (map fr cs) @ f # rest" "pf_id f = j"
  shows "\<exists>s'. PropagateBoundary frames (int (length cs)) (minp v) (maxp v) s1 = Some (Inr (), s') \<and> store_ok s' \<and>
    holds (page_of s') (fst (plug j v cs)) (top_tree j u cs) \<and> dom (page_of s') = ids (fst (plug j v cs)) (top_tree j u cs)"
proof -
  have p1: "path_held (page_of s1) (top_ids j v cs) j v cs"
    by (rule path_held_agree [OF D(1) s1(3)])
  note new' = new [unfolded D(2)]
  obtain s' where s': "PropagateBoundary frames (int (length cs)) (minp v) (maxp v) s1 = Some (Inr (), s')" "store_ok s'"
    "(\<lambda>(r, T). holds (page_of s') r T) (plug j u cs)" "dom (page_of s') = dom (page_of s1)"
    using PropagateBoundary_path [OF p1 s1(2,1) new'(2) fs] by (elim exE conjE) (rule that)
  have "top_ids j u cs = top_ids j v cs - set (pids v) \<union> set (pids u)"
    using D(3) holds_distinct [OF s1(2)] by (intro ids_plug [OF p1 _ new'(2)]) (simp_all add: holds_def)
  then have "dom (page_of s') = ids (fst (plug j v cs)) (top_tree j u cs)"
    using new'(1,3) s'(4) plug_root [of j u cs v]
    by (auto simp: top_ids_def top_tree_def split: prod.splits)
  moreover have "holds (page_of s') (fst (plug j v cs)) (top_tree j u cs)"
    using s'(3) plug_root [of j u cs v] by (simp add: top_tree_def split: prod.splits)
  ultimately show ?thesis
    using s'(1,2) by blast
qed

lemma insert_finish:
  assumes "can_insert K kf s j v cs key d q"
    and s1: "store_ok s1" "holds (page_of s1) j u" "flat u = tins (flat v) key d q"
      "\<And>k. k \<in> top_ids j v cs - ids j v \<Longrightarrow> page_of s1 k = page_of s k"
    and new: "set (pids v) \<subseteq> set (pids u)" "(set (pids u) - set (pids v)) \<inter> dom (page_of s) = {}"
      "dom (page_of s1) = dom (page_of s) \<union> set (pids u)"
    and fs: "frames = rev (map fr cs) @ f # rest" "pf_id f = j"
  shows "\<exists>r. PropagateBoundary frames (int (length cs)) (minp v) (maxp v) s1 = Some r \<and> inserted j v cs key d q r"
proof -
  note c = assms(1) [unfolded can_insert_def]
  have D: "path_held (page_of s) (top_ids j v cs) j v cs" "dom (page_of s) = top_ids j v cs" "holds (page_of s) j v"
    using c by simp_all
  have "flat (top_tree j u cs) = tins (flat (top_tree j v cs)) key d q"
    using c by (intro top_tree_tins [OF D(1) _ _ s1(3)]) simp_all
  then show ?thesis
    using finish_bounds [OF D s1(1,2,4) new fs] unfolding inserted_def by blast
qed

lemma edge_loop_total:
  "\<forall>f \<in> set fs. \<exists>p. page_of s (pf_id f) = Some p \<Longrightarrow> \<exists>e. edge_loop fs slot s = Some (Inr e, s)"
  by (induction fs) (auto simp: op_simps)

lemma path_pages: "path_held g D j v cs \<Longrightarrow> (i, t, n) \<in> set cs \<Longrightarrow> \<exists>p. g i = Some p \<and> page_ok p t"
  by (induction g D j v cs rule: path_held.induct) auto

lemma PathEdgeInsertSlot_total:
  assumes "path_held (page_of s) D j v cs" "frames = rev (map fr cs) @ rest"
  shows "\<exists>e. PathEdgeInsertSlot frames (int (length cs)) slot sz s = Some (Inr e, s)"
proof -
  have "slice frames 0 (int (length cs)) = Some (rev (map fr cs))"
    using slice_prefix [of "length cs" frames] assms(2) by simp
  moreover have "\<forall>f \<in> set (rev (map fr cs)). \<exists>p. page_of s (pf_id f) = Some p"
    using path_pages [OF assms(1)] by fastforce
  ultimately show ?thesis
    using edge_loop_total by (fastforce simp: PathEdgeInsertSlot_def op_simps)
qed

text \<open>
  The place to insert is above a route of the page, or at a record of the page.
\<close>

definition insert_site :: "ctree \<Rightarrow> key \<Rightarrow> u16 \<Rightarrow> bool" where
  "insert_site v key d \<longleftrightarrow> above_path (ptop v) key d \<or> (\<exists>p. slots v ! tslot (ptop v) key = Rec p)"

lemma flat_insert_site: "insert_site v key d \<Longrightarrow> flat (cins v key d (Rec q)) = tins (flat v) key d q"
  unfolding insert_site_def by (rule flat_cins)

lemma slots_held_cins:
  "slots_held g (slots v) \<Longrightarrow> untagged q \<Longrightarrow> slots_held g (slots (cins v key d (Rec q)))"
  by (auto simp: slots_held_def slots_cins dest: in_set_takeD in_set_dropD)

lemma full_reps:
  assumes "page_ok p v" "i = ins_slot (ptop v) key d"
  shows "slice (np_reps p) 0 (int i) = Some (map slot_rep (take i (slots v)))"
    "slice (np_reps p) (int i) (page_size p) = Some (map slot_rep (drop i (slots v)))"
    "map slot_rep (take i (slots v)) @ [q] @ map slot_rep (drop i (slots v)) = map slot_rep (slots (cins v key d (Rec q)))"
  using page_slices_at [OF assms(1), of i] ins_slot_le [of "ptop v" key d] assms(2)
  by (simp_all add: nl_ptop slots_cins)

lemma at_frames:
  assumes "frames = rev (map fr cs) @ f # rest"
  shows "at frames (int (length cs)) = Some f"
    "cs = c # cs' \<Longrightarrow> at frames (int (length cs) - 1) = Some (fr c)"
proof -
  show "at frames (int (length cs)) = Some f"
    using at_append [of "rev (map fr cs)" f rest] assms by simp
  show "at frames (int (length cs) - 1) = Some (fr c)" if "cs = c # cs'"
    using at_append [of "rev (map fr cs')" "fr c" "f # rest"] assms that by simp
qed

lemma insert_small:
  assumes "can_insert K kf s j v cs key d q" "insert_site v key d" "nl (ptop v) < 339"
    and fs: "frames = rev (map fr cs) @ f # rest" "pf_id f = j"
  shows "\<exists>r. InsertAtPath K frames (int (length cs)) (int (ins_slot (ptop v) key d)) q key d s = Some r \<and>
    inserted j v cs key d q r"
proof -
  note c = assms(1) [unfolded can_insert_def]
  obtain p where p: "page_of s j = Some p" "page_ok p v"
    using c holds_page [of "page_of s" j v] by blast
  obtain p' where p': "InsertAtIncremental K j (int (ins_slot (ptop v) key d)) q key d s = Some (Inr (), upd_page j p' s)"
    "holds (page_of (upd_page j p' s)) j (cins v key d (Rec q))"
    using InsertAtIncremental_spec [of s j v q _ key d K] c assms(3) by blast
  let ?s = "upd_page j p' s"
  have b: "np_first p = minp v" "np_last p = maxp v" "page_size p = int (nl (ptop v))"
    using p(2) page_ok_size [OF p(2)] by (simp_all add: page_ok_def)
  have "\<exists>r. PropagateBoundary frames (int (length cs)) (minp v) (maxp v) ?s = Some r \<and> inserted j v cs key d q r"
  proof (rule insert_finish [OF assms(1) _ p'(2) flat_insert_site [OF assms(2)] _ _ _ _ fs])
    show "store_ok ?s"
      using c store_ok_upd_page(1) [OF _ p(1)] by simp
    show "page_of ?s k = page_of s k" if "k \<in> top_ids j v cs - ids j v" for k
      using that by (intro upd_page_other) (auto simp: ids_def)
    have "set (pids v) \<subseteq> dom (page_of s)"
      using c holds_dom [of "page_of s" j v] by (auto simp: ids_def)
    then show "dom (page_of ?s) = dom (page_of s) \<union> set (pids (cins v key d (Rec q)))"
      using page_of_upd_page [OF p(1)] p(1) by (auto simp: pids_cins)
  qed (simp_all add: pids_cins)
  then show ?thesis
    using at_frames(1) [OF fs(1)] assms(3) fs(2) p(1) b p'(1)
    by (simp add: InsertAtPath_def op_simps kMaxNodeReps_def)
qed

lemma can_insert_up:
  assumes "can_insert K kf s j v ((i, t, n) # cs) key d q"
  shows "can_insert K kf s i t cs key d q" "inserted i t cs key d q r = inserted j v ((i, t, n) # cs) key d q r"
proof -
  note c = assms [unfolded can_insert_def]
  have p: "path_held (page_of s) (top_ids j v ((i, t, n) # cs)) j v ((i, t, n) # cs)"
    using c by (elim conjE)
  have "holds (page_of s) j v"
    using c by (elim conjE)
  then have "holds (page_of s) i t"
    using path_holds_up [of "page_of s" "top_ids j v ((i, t, n) # cs)" j v "[]" i t n cs] p by simp
  then show "can_insert K kf s i t cs key d q"
    using c unfolding can_insert_def top_ids_path [OF p] top_tree_path [OF p] by simp
  have "plug j v ((i, t, n) # cs) = plug i t cs"
    using plug_path [of _ _ j v "[]"] p by fastforce
  then show "inserted i t cs key d q r = inserted j v ((i, t, n) # cs) key d q r"
    by (simp only: inserted_def top_tree_def)
qed

lemma full_page:
  assumes "can_insert K kf s j v cs key d q" "insert_site v key d" "nl (ptop v) = 339"
  obtains l e r where "cins v key d (Rec q) = Br l e r" "nl (ptop (Br l e r)) = 340"
    "slots_held (page_of s) (slots (Br l e r))" "distinct (pids (Br l e r))" "set (pids (Br l e r)) = set (pids v)"
    "flat (Br l e r) = tins (flat v) key d q" "pat (ktree kf (Br l e r))" "keys_of K kf (set (leaves (flat (Br l e r))))"
proof -
  note c = assms(1) [unfolded can_insert_def]
  let ?u = "cins v key d (Rec q)"
  have nl: "nl (ptop ?u) = 340"
    using assms(3) by (simp add: top_cins [of "Rec q" q])
  then obtain l e r where u: "?u = Br l e r"
    by (cases ?u) auto
  have fl: "flat ?u = tins (flat v) key d q"
    by (rule flat_insert_site [OF assms(2)])
  have "flat (top_tree j ?u cs) = tins (flat (top_tree j v cs)) key d q"
    using c fl by (intro top_tree_tins [of "page_of s" "top_ids j v cs"]) simp_all
  then have "pat (ktree kf (top_tree j ?u cs))"
    using c by (simp add: ktree_def)
  then have pat: "pat (ktree kf ?u)"
    using c top_tree_pat [of "page_of s" "top_ids j v cs" j v cs kf ?u] by blast
  have "set (leaves (flat v)) \<subseteq> set (leaves (flat (top_tree j v cs)))"
    using c top_tree_leaves [of "page_of s" _ j v cs] by blast
  then have "set (leaves (flat ?u)) \<subseteq> insert q (set (leaves (flat (top_tree j v cs))))"
    unfolding fl set_leaves_tins by blast
  then have keys: "keys_of K kf (set (leaves (flat ?u)))"
    using c keys_of_subset by blast
  have "slots_held (page_of s) (slots ?u)"
    using c holds_slots_held [of "page_of s" j v] by (intro slots_held_cins) simp_all
  moreover have "distinct (pids ?u)" "set (pids ?u) = set (pids v)"
    using c by (simp_all add: pids_cins holds_def)
  ultimately show ?thesis
    using that [of l e r] nl fl pat keys unfolding u by blast
qed

lemma insert_promote:
  assumes ci: "can_insert K kf s j v ((i, t, n) # cs) key d q" "insert_site v key d" "nl (ptop v) = 339" "nl (ptop t) < 339"
    and fs: "frames = rev (map fr ((i, t, n) # cs)) @ f # rest" "pf_id f = j"
  shows "\<exists>r. InsertAtPath K frames (int (length ((i, t, n) # cs))) (int (ins_slot (ptop v) key d)) q key d s = Some r \<and>
    inserted j v ((i, t, n) # cs) key d q r"
proof -
  note c = ci(1) [unfolded can_insert_def]
  note up = can_insert_up [OF ci(1)]
  obtain p where p: "page_of s j = Some p" "page_ok p v"
    using c holds_page [of "page_of s" j v] by blast
  have pp: "path_held (page_of s) (top_ids j v ((i, t, n) # cs)) j v ((i, t, n) # cs)"
    using c by (elim conjE)
  then have n: "n < length (slots t)" "slots t ! n = Sub j v"
    by simp_all
  have ht: "holds (page_of s) i t"
    using up(1) by (simp add: can_insert_def)
  obtain pt where pt: "page_of s i = Some pt" "page_ok pt t"
    using holds_page [OF ht] by blast
  obtain l e r where u: "cins v key d (Rec q) = Br l e r" "nl (ptop (Br l e r)) = 340"
    "slots_held (page_of s) (slots (Br l e r))" "distinct (pids (Br l e r))" "set (pids (Br l e r)) = set (pids v)"
    "flat (Br l e r) = tins (flat v) key d q" "pat (ktree kf (Br l e r))" "keys_of K kf (set (leaves (flat (Br l e r))))"
    using full_page [OF ci(1-3)] .
  have ft: "flat (set_slot t n (Br l e r)) = tins (flat t) key d q"
    using flat_set_slot_tins [of t key d "Br l e r" q] c u(6) n by simp
  have "flat (top_tree i (set_slot t n (Br l e r)) cs) = tins (flat (top_tree i t cs)) key d q"
    using up(1) ft unfolding can_insert_def by (intro top_tree_tins [of "page_of s" "top_ids i t cs"]) simp_all
  then have pat: "pat (ktree kf (set_slot t n (Br l e r)))"
    using up(1) top_tree_pat [of "page_of s" "top_ids i t cs" i t cs kf] unfolding can_insert_def ktree_def by metis
  obtain sib s' where s': "PromoteSibling K i (int n) j (map slot_rep (slots (Br l e r))) s = Some (Inr (), s')"
    "store_ok s'" "page_of s sib = None" "untagged sib" "holds (page_of s') i (set_slot t n (Br (Sub j l) e (Sub sib r)))"
    "\<forall>k. k \<noteq> i \<and> k \<noteq> j \<and> k \<noteq> sib \<longrightarrow> page_of s' k = page_of s k"
    using PromoteSibling_spec [OF _ _ ht ci(4) n u(3,2,4,5) pat u(8)] c by blast
  let ?u = "set_slot t n (Br (Sub j l) e (Sub sib r))"
  have D: "dom (page_of s) = top_ids i t cs" "ids i t \<subseteq> dom (page_of s)"
    using up(1) top_ids_superset [of "page_of s" _ i t cs] by (auto simp: can_insert_def)
  have "distinct (pids t)" "distinct (pids ?u)"
    using ht s'(5) by (simp_all add: holds_def)
  have pu: "set (pids ?u) = insert sib (set (pids t))"
  proof -
    have j: "j \<in> set (pids t)" "set (pids v) \<subseteq> set (pids t)"
      using path_slot(2) [OF pp] by (auto simp: ids_def)
    have sibt: "sib \<notin> set (pids t)"
      using s'(3) D(2) by (auto simp: ids_def)
    have "j \<notin> set (pids v)"
      using c by (simp add: holds_def)
    moreover have "sib \<noteq> j"
      using sibt j(1) by blast
    ultimately have d: "distinct (pids (Br (Sub j l) e (Sub sib r)))"
      using u(4,5) sibt j by auto
    have i: "set (pids (Br (Sub j l) e (Sub sib r))) \<inter> (set (pids t) - set (pids (slots t ! n))) = {}"
      using sibt u(5) n(2) by auto
    show ?thesis
      unfolding distinct_pids_set_slot(2) [OF n(1) \<open>distinct (pids t)\<close> d i] using j n(2) u(5) by auto
  qed
  have fs': "frames = rev (map fr cs) @ fr (i, t, n) # (f # rest)" "pf_id (fr (i, t, n)) = i"
    using fs(1) by simp_all
  have "\<exists>r. PropagateBoundary frames (int (length cs)) (minp t) (maxp t) s' = Some r \<and> inserted i t cs key d q r"
  proof (rule insert_finish [OF up(1) s'(2,5) _ _ _ _ _ fs'])
    show "flat ?u = tins (flat t) key d q"
      unfolding ft [symmetric] by (rule flat_set_slot_cong) simp
    have "k \<noteq> i \<and> k \<noteq> j \<and> k \<noteq> sib" if "k \<in> top_ids i t cs - ids i t" for k
      using that path_slot(2) [OF pp] s'(3) D(1) by (auto simp: ids_def)
    then show "page_of s' k = page_of s k" if "k \<in> top_ids i t cs - ids i t" for k
      using s'(6) that by blast
    show "set (pids t) \<subseteq> set (pids ?u)" "(set (pids ?u) - set (pids t)) \<inter> dom (page_of s) = {}"
      using pu s'(3) by auto
    have "ids i ?u \<subseteq> dom (page_of s')" "j \<in> ids i t"
      using holds_dom [OF s'(5)] path_slot(2) [OF pp] by (auto simp: ids_def)
    then have in': "i \<in> dom (page_of s')" "j \<in> dom (page_of s')" "sib \<in> dom (page_of s')"
      "i \<in> dom (page_of s)" "j \<in> dom (page_of s)"
      using pu D(2) by (auto simp: ids_def)
    have "k \<in> dom (page_of s') \<longleftrightarrow> k = sib \<or> k \<in> dom (page_of s)" for k
      using s'(6) in' by (cases "k = i \<or> k = j \<or> k = sib") (auto simp: domIff)
    then have "dom (page_of s') = insert sib (dom (page_of s))"
      by blast
    then show "dom (page_of s') = dom (page_of s) \<union> set (pids ?u)"
      using pu D(2) by (auto simp only: ids_def)
  qed
  then obtain r where r: "PropagateBoundary frames (int (length cs)) (minp t) (maxp t) s' = Some r" "inserted i t cs key d q r"
    by blast
  have sz: "page_size p = 339" "page_size pt = int (nl (ptop t))" "np_first pt = minp t" "np_last pt = maxp t"
    using page_ok_size [OF p(2)] page_ok_size [OF pt(2)] pt(2) ci(3) by (simp_all add: page_ok_def)
  note fr' = full_reps(1,2) [OF p(2) refl, of key d] full_reps(3) [OF p(2) refl, where key = key and d = d and q = q, unfolded u(1)]
  note atf = at_frames(1) [OF fs(1)] at_frames(1) [OF fs'(1)]
  have cond: "(page_size p < kMaxNodeReps) = False" "(int (length ((i, t, n) # cs)) > 0) = True" "(page_size pt < kMaxNodeReps) = True"
    "int (length ((i, t, n) # cs)) - 1 = int (length cs)"
    using sz ci(4) by (simp_all add: kMaxNodeReps_def)
  have "InsertAtPath K frames (int (length ((i, t, n) # cs))) (int (ins_slot (ptop v) key d)) q key d s = Some r"
    using r(1) unfolding InsertAtPath_def
    by (simp only: op_simps atf fs(2) NodeByID_live [OF p(1)] deref_live [OF p(1)] cond if_False if_True Let_def
      fr' fr_simps NodeByID_live [OF pt(1)] deref_live [OF pt(1)] s'(1) sz(3,4))
  then show ?thesis
    using r(2) up(2) by blast
qed

lemma insert_split:
  assumes ci: "can_insert K kf s j v cs key d q" "insert_site v key d" "nl (ptop v) = 339"
    and parent: "\<And>i t n cs'. cs = (i, t, n) # cs' \<Longrightarrow> nl (ptop t) = 339"
    and fs: "frames = rev (map fr cs) @ f # rest" "pf_id f = j"
  shows "\<exists>r. InsertAtPath K frames (int (length cs)) (int (ins_slot (ptop v) key d)) q key d s = Some r \<and>
    inserted j v cs key d q r"
proof -
  note c = ci(1) [unfolded can_insert_def]
  obtain p where p: "page_of s j = Some p" "page_ok p v"
    using c holds_page [of "page_of s" j v] by blast
  obtain l e r where u: "cins v key d (Rec q) = Br l e r" "nl (ptop (Br l e r)) = 340"
    "slots_held (page_of s) (slots (Br l e r))" "distinct (pids (Br l e r))" "set (pids (Br l e r)) = set (pids v)"
    "flat (Br l e r) = tins (flat v) key d q" "pat (ktree kf (Br l e r))" "keys_of K kf (set (leaves (flat (Br l e r))))"
    using full_page [OF ci] .
  let ?u = "Br l e r"
  have jv: "j \<notin> set (pids ?u)" "ids j ?u \<subseteq> dom (page_of s)" "ids j ?u = ids j v"
    using c u(5) holds_dom [of "page_of s" j v] by (auto simp: holds_def ids_def)
  obtain edge where edge: "PathEdgeInsertSlot frames (int (length cs)) (int (ins_slot (ptop v) key d)) (page_size p) s = Some (Inr edge, s)"
    using PathEdgeInsertSlot_total [of s "top_ids j v cs" j v cs frames "f # rest"] c fs(1) by blast
  have ok: "store_ok s" "has_room s" "distinct (j # pids ?u)"
    using c jv(1) u(4) by simp_all
  obtain s' w m where s': "SplitAndWriteNodeAt K j (map slot_rep (slots ?u)) edge s = Some (Inr (), s')" "store_ok s'"
    "holds (page_of s') j w" "flat w = flat ?u" "page_of s m = None" "ids j w = insert m (ids j ?u)"
    "\<forall>k. k \<noteq> j \<and> k \<noteq> m \<longrightarrow> page_of s' k = page_of s k"
    using SplitAndWriteNodeAt_spec [OF ok(1,2) p(1) page_ok_len [OF p(2)] u(3) ok(3) jv(2) u(2,7,8), of edge] by blast
  have D: "dom (page_of s) = top_ids j v cs"
    using c by (elim conjE)
  have "m \<notin> ids j v"
    using s'(5) jv(2,3) by blast
  moreover have "j \<notin> set (pids w)" "j \<notin> set (pids v)"
    using s'(3) c by (simp_all add: holds_def)
  ultimately have "set (pids w) = ids j w - {j}" "set (pids v) = ids j v - {j}" "m \<noteq> j"
    by (auto simp: ids_def)
  then have pw: "set (pids w) = insert m (set (pids v))"
    unfolding s'(6) jv(3) by blast
  have "\<exists>r. PropagateBoundary frames (int (length cs)) (minp v) (maxp v) s' = Some r \<and> inserted j v cs key d q r"
  proof (rule insert_finish [OF ci(1) s'(2,3) _ _ _ _ _ fs])
    show "flat w = tins (flat v) key d q"
      using s'(4) u(6) by simp
    have "k \<noteq> j \<and> k \<noteq> m" if "k \<in> top_ids j v cs - ids j v" for k
      using that s'(5) D by (auto simp: ids_def)
    then show "page_of s' k = page_of s k" if "k \<in> top_ids j v cs - ids j v" for k
      using s'(7) that by blast
    show "set (pids v) \<subseteq> set (pids w)" "(set (pids w) - set (pids v)) \<inter> dom (page_of s) = {}"
      using pw s'(5) by auto
    have in': "j \<in> dom (page_of s')" "m \<in> dom (page_of s')" "j \<in> dom (page_of s)"
      using holds_dom [OF s'(3)] pw p(1) by (auto simp: ids_def)
    have "k \<in> dom (page_of s') \<longleftrightarrow> k = m \<or> k \<in> dom (page_of s)" for k
      using s'(7) in' by (cases "k = j \<or> k = m") (auto simp: domIff)
    then have "dom (page_of s') = insert m (dom (page_of s))"
      by blast
    then show "dom (page_of s') = dom (page_of s) \<union> set (pids w)"
      using pw jv(2,3) by (auto simp only: ids_def)
  qed
  then obtain r' where r: "PropagateBoundary frames (int (length cs)) (minp v) (maxp v) s' = Some r'" "inserted j v cs key d q r'"
    by blast
  have sz: "page_size p = 339" "np_first p = minp v" "np_last p = maxp v"
    using page_ok_size [OF p(2)] p(2) ci(3) by (simp_all add: page_ok_def)
  note fr' = full_reps(1,2) [OF p(2) refl, of key d] full_reps(3) [OF p(2) refl, where key = key and d = d and q = q, unfolded u(1)]
  note atf = at_frames(1) [OF fs(1)]
  have cond: "(page_size p < kMaxNodeReps) = False"
    using sz by (simp add: kMaxNodeReps_def)
  note run = op_simps atf fs(2) NodeByID_live [OF p(1)] deref_live [OF p(1)] cond if_False if_True Let_def fr' edge s'(1) sz(2,3)
  have "InsertAtPath K frames (int (length cs)) (int (ins_slot (ptop v) key d)) q key d s = Some r'"
  proof (cases cs)
    case Nil
    then have "(int (length cs) > 0) = False"
      by simp
    then show ?thesis
      using r(1) unfolding InsertAtPath_def by (simp only: run)
  next
    case (Cons b cs')
    obtain i t n where b: "b = (i, t, n)"
      by (cases b)
    then obtain pt where pt: "page_of s i = Some pt" "page_ok pt t"
      using c Cons by auto
    have "(page_size pt < kMaxNodeReps) = False"
      using parent [of i t n cs'] Cons b page_ok_size [OF pt(2)] by (simp add: kMaxNodeReps_def)
    moreover have "(int (length cs) > 0) = True" "at frames (int (length cs) - 1) = Some (fr (i, t, n))"
      using at_frames(2) [OF fs(1), of b cs'] Cons b by simp_all
    ultimately show ?thesis
      using r(1) unfolding InsertAtPath_def
      by (simp only: run fr_simps NodeByID_live [OF pt(1)] deref_live [OF pt(1)])
  qed
  then show ?thesis
    using r(2) by blast
qed

theorem InsertAtPath_inserts:
  assumes "can_insert K kf s j v cs key d q" "insert_site v key d"
    and "frames = rev (map fr cs) @ f # rest" "pf_id f = j"
  shows "\<exists>r. InsertAtPath K frames (int (length cs)) (int (ins_slot (ptop v) key d)) q key d s = Some r \<and>
    inserted j v cs key d q r"
proof -
  have h: "holds (page_of s) j v"
    using assms(1) by (simp add: can_insert_def)
  have max: "nl (ptop t) \<le> 339" if "holds (page_of s) i t" for i t
    using holds_page [OF that] by (auto simp: page_ok_def page_rep_def)
  show ?thesis
  proof (cases "nl (ptop v) < 339")
    case True
    then show ?thesis
      by (rule insert_small [OF assms(1,2) _ assms(3,4)])
  next
    case False
    then have full: "nl (ptop v) = 339"
      using max [OF h] by simp
    show ?thesis
    proof (cases "\<exists>i t n cs'. cs = (i, t, n) # cs' \<and> nl (ptop t) < 339")
      case True
      then obtain i t n cs' where cs: "cs = (i, t, n) # cs'" "nl (ptop t) < 339"
        by blast
      then show ?thesis
        using insert_promote [of K kf s j v i t n cs' key d q frames f rest] assms full by simp
    next
      case no: False
      show ?thesis
      proof (rule insert_split [OF assms(1,2) full _ assms(3,4)])
        fix i t n cs'
        assume cs: "cs = (i, t, n) # cs'"
        then have "can_insert K kf s i t cs' key d q"
          using can_insert_up(1) assms(1) by blast
        then have "holds (page_of s) i t"
          by (simp only: can_insert_def)
        then show "nl (ptop t) = 339"
          using max [of i t] no cs by fastforce
      qed
    qed
  qed
qed

end
