(* ===== verification/IndexPut.thy ===== *)
theory IndexPut
  imports PathInsert
begin

text \<open>
  The correctness of \<^verbatim>\<open>Put\<close> (\<^verbatim>\<open>index.h\<close>): the entries of the index are updated at the key.
\<close>

section \<open>The path of a key\<close>

lemma path_to_record_step:
  "holds g i t \<Longrightarrow> path_held g D i t cs \<Longrightarrow> on_path key cs \<Longrightarrow>
   \<exists>j v cs'. path_held g D j v cs' \<and> on_path key cs' \<and> holds g j v \<and>
     (\<exists>p. slots v ! tslot (ptop v) key = Rec p \<and> untagged p) \<and> plug j v cs' = plug i t cs"
proof (induction "size t" arbitrary: i t cs rule: less_induct)
  case less
  have n: "tslot (ptop t) key < length (slots t)"
    using tslot_less [of "ptop t" key] by (simp add: nl_ptop)
  from less.prems(1) n show ?case
  proof (cases rule: slot_nth_cases)
    case (1 q)
    then show ?thesis
      using less.prems by blast
  next
    case (2 j v)
    let ?cs = "(i, t, tslot (ptop t) key) # cs"
    have "slots_held g (others t (tslot (ptop t) key))" "distinct (i # pids t)"
      using holds_others [OF less.prems(1)] holds_distinct [OF less.prems(1)] by blast+
    then have p: "path_held g D j v ?cs"
      using n 2 less.prems(2) holds_page [OF less.prems(1)] by simp
    have "plug j v ?cs = plug i t cs"
      using plug_path [of g D j v "[]" i t "tslot (ptop t) key" cs] p by simp
    moreover have "on_path key ?cs"
      using less.prems(3) by simp
    ultimately show ?thesis
      using less.hyps [OF size_slot [OF 2(4)] 2(3) p] by simp
  qed
qed

lemma path_to_record:
  assumes "holds g r T"
  obtains j v cs p where "path_held g (ids r T) j v cs" "on_path key cs" "holds g j v"
    "slots v ! tslot (ptop v) key = Rec p" "untagged p" "plug j v cs = (r, T)"
  using path_to_record_step [OF assms, of "ids r T" "[]" key] that by auto

lemma path_split:
  assumes "holds g j v" "path_held g D j v cs" "(j, v, n) # cs = a @ (i, t, m) # b"
  shows "holds g i t" "path_held g D i t b" "plug i t b = plug j v cs"
proof -
  have "holds g i t \<and> path_held g D i t b \<and> plug i t b = plug j v cs"
  proof (cases a)
    case Nil
    then show ?thesis
      using assms by simp
  next
    case (Cons x a')
    then have cs: "cs = a' @ (i, t, m) # b"
      using assms(3) by simp
    show ?thesis
      using path_holds_up [of g D j v a' i t m b] plug_path [of g D j v a' i t m b] assms(1,2) unfolding cs by simp
  qed
  then show "holds g i t" "path_held g D i t b" "plug i t b = plug j v cs"
    by blast+
qed

lemma insert_loop_path:
  "path_held (page_of s) D j v cs \<Longrightarrow> on_path key cs \<Longrightarrow>
   insert_loop K key q [] (fst (plug j v cs)) s = insert_loop K key q (rev (map fr cs)) j s"
proof (induction cs arbitrary: j v)
  case (Cons c cs)
  obtain i t n where c: "c = (i, t, n)"
    by (cases c)
  have p: "path_held (page_of s) D j v ((i, t, n) # cs)" "n = tslot (ptop t) key" "on_path key cs"
    using Cons.prems c by simp_all
  obtain pg where pg: "page_of s i = Some pg" "page_ok pg t" "n < length (slots t)" "slots t ! n = Sub j v" "untagged j"
    using p(1) by auto
  have sz: "np_size pg \<noteq> 0"
    using page_ok_size [OF pg(2)] by blast
  have at: "at (np_reps pg) (int n) = Some (kChildTag OR j)"
    using page_ok_at [OF pg(2,3)] pg(4) by simp
  have lk: "Lookup pg key = Some (int n, True)"
    using page_ok_lookup [OF pg(2)] p(2) by simp
  have "fst (plug j v (c # cs)) = fst (plug i t cs)"
    using plug_path [of "page_of s" D j v "[]" i t n cs] p(1) c by simp
  also have "insert_loop K key q [] (fst (plug i t cs)) s = insert_loop K key q (rev (map fr cs)) i s"
    using p by (intro Cons.IH) simp_all
  also have "\<dots> = insert_loop K key q (rev (map fr cs) @ [fr (i, t, n)]) j s"
    using pg(1,5) sz at lk by (subst insert_loop.simps) (simp add: op_simps fr_def)
  finally show ?case
    using c by simp
qed simp

section \<open>A new key\<close>

lemma cmp_ins_slot:
  assumes "\<not> above_path t key d" "first_diff key_bit key rk d" "key_bit rk d \<longleftrightarrow> key < rk"
  shows "int (ins_slot t key d) = (if CompareKeys key rk < 0 then int (tslot t key) else int (tslot t key) + 1)"
  using assms by (auto simp: ins_slot_below first_diff_def)

lemma InsertSlotFromPath_spec:
  assumes "holds (page_of s) j v" "path_held (page_of s) D j v cs" "on_path key cs" "n = tslot (ptop v) key"
    and "slots v ! n = Rec p" "first_diff key_bit key rk d" "key_bit rk d \<longleftrightarrow> key < rk"
  obtains a i t m b where "(j, v, n) # cs = a @ (i, t, m) # b" "insert_site t key d" "passed key d b"
    "InsertSlotFromPath (rev (map fr ((j, v, n) # cs))) key (CompareKeys key rk) d s =
      Some (Inr \<lparr>is_target = int (length b), is_slot = int (ins_slot (ptop t) key d)\<rparr>, s)"
proof -
  let ?cs = "(j, v, n) # cs"
  let ?fs = "rev (map fr ?cs)"
  have "\<exists>pg. page_of s j = Some pg \<and> page_ok pg v"
    using holds_page [OF assms(1)] by blast
  then have "\<forall>(i, t, m) \<in> set (rev ?cs). (\<exists>p. page_of s i = Some p \<and> page_ok p t) \<and> m = tslot (ptop t) key"
    using path_pages [OF assms(2)] assms(3,4) by (fastforce simp: on_path_def)
  from slot_from_path_spec [OF this, of d 0] show ?thesis
  proof (elim disjE exE conjE)
    assume no: "\<forall>(i, t, n) \<in> set (rev ?cs). \<not> above_path (ptop t) key d"
      and run: "slot_from_path (map fr (rev ?cs)) 0 key d s = Some (Inr None, s)"
    have "at ?fs (int (length ?fs) - 1) = Some (fr (j, v, n))"
      using at_append [of "rev (map fr cs)" "fr (j, v, n)" "[]"] by simp
    then have "InsertSlotFromPath ?fs key (CompareKeys key rk) d s =
        Some (Inr \<lparr>is_target = int (length cs), is_slot = int (ins_slot (ptop v) key d)\<rparr>, s)"
      using run no cmp_ins_slot [OF _ assms(6,7), of "ptop v"] assms(4)
      by (simp add: InsertSlotFromPath_def op_simps rev_map)
    moreover have "insert_site v key d" "passed key d cs"
      using no assms(4,5) by (auto simp: insert_site_def passed_def)
    ultimately show ?thesis
      using that [of "[]" j v n cs] by simp
  next
    fix pre i t m post
    assume h: "rev ?cs = pre @ (i, t, m) # post" "passed key d pre" "above_path (ptop t) key d"
      "slot_from_path (map fr (rev ?cs)) 0 key d s =
        Some (Inr (Some \<lparr>is_target = 0 + int (length pre), is_slot = int (ins_slot (ptop t) key d)\<rparr>), s)"
    have "?cs = rev post @ (i, t, m) # rev pre"
      using arg_cong [OF h(1), of rev] by simp
    moreover have "insert_site t key d" "passed key d (rev pre)"
      using h(2,3) by (simp_all add: insert_site_def passed_def)
    moreover have "InsertSlotFromPath ?fs key (CompareKeys key rk) d s =
        Some (Inr \<lparr>is_target = int (length pre), is_slot = int (ins_slot (ptop t) key d)\<rparr>, s)"
      using h(4) by (simp add: InsertSlotFromPath_def op_simps rev_map)
    ultimately show ?thesis
      using that [of "rev post" i t m "rev pre"] by simp
  qed
qed

lemma reached_leaf:
  assumes "path_held g D j v cs" "on_path key cs" "plug j v cs = (r, T)" "slots v ! tslot (ptop v) key = Rec p"
  shows "leaves (flat T) ! tslot (flat T) key = p"
proof -
  have "top_tree j v cs = T"
    using assms(3) by (simp add: top_tree_def)
  then show ?thesis
    using top_tree_leaf [OF assms(1,2)] flat_tslot_slot [of v key] assms(4) by simp
qed

lemma bottom_page:
  assumes "holds (page_of s) j v" "slots v ! tslot (ptop v) key = Rec p"
  obtains pg where "page_of s j = Some pg" "page_ok pg v" "np_size pg \<noteq> 0" "tslot (ptop v) key < length (slots v)"
    "at (np_reps pg) (int (tslot (ptop v) key)) = Some p" "Lookup pg key = Some (int (tslot (ptop v) key), True)"
proof -
  obtain pg where pg: "page_of s j = Some pg" "page_ok pg v"
    using holds_page [OF assms(1)] by blast
  have n: "tslot (ptop v) key < length (slots v)"
    using tslot_less [of "ptop v" key] by (simp add: nl_ptop)
  show ?thesis
    using that [OF pg _ n] page_ok_size [OF pg(2)] page_ok_at [OF pg(2) n] page_ok_lookup [OF pg(2)] assms(2) by simp
qed

lemma insert_loop_new:
  assumes "store_ok s" "has_room s" "holds (page_of s) r T" "dom (page_of s) = ids r T"
    and "pat (ktree kf T)" "keys_of K kf (insert q (set (leaves (flat T))))" "kf q = key" "untagged q"
    and "kf (leaves (flat T) ! tslot (flat T) key) \<noteq> key"
  shows "\<exists>s' T' d. insert_loop K key q [] r s = Some (Inr \<lparr>put_old_pos = 0, put_replaced = False\<rparr>, s') \<and> store_ok s' \<and>
    holds (page_of s') r T' \<and> dom (page_of s') = ids r T' \<and> flat T' = tins (flat T) key d q \<and> pat (ktree kf T')"
proof -
  obtain j v cs p where b: "path_held (page_of s) (ids r T) j v cs" "on_path key cs" "holds (page_of s) j v"
    "slots v ! tslot (ptop v) key = Rec p" "untagged p" "plug j v cs = (r, T)"
    using path_to_record [OF assms(3)] .
  have leaf: "leaves (flat T) ! tslot (flat T) key = p"
    by (rule reached_leaf [OF b(1,2,6,4)])
  then have p_in: "p \<in> set (leaves (flat T))" "kf p \<noteq> key"
    using tslot_leaf [of "flat T" key] assms(9) by simp_all
  have ok: "key_ok key" "key_ok (kf p)" and Kp: "Key K p = Inr (kf p)"
    using assms(6,7) p_in(1) Key_keys_of [OF assms(6), of p] by (auto simp: keys_of_def)
  obtain d where d: "FindDiffBit key (kf p) = Some (Inr d)" "first_diff key_bit key (kf p) d" "key_bit (kf p) d \<longleftrightarrow> key < kf p"
    using CompareAndDiffBit_spec [OF ok p_in(2) [symmetric]] by (auto simp: FindDiffBit_def diff_at_first_diff)
  obtain a i t m cs' where sp: "(j, v, tslot (ptop v) key) # cs = a @ (i, t, m) # cs'" "insert_site t key d" "passed key d cs'"
    "InsertSlotFromPath (rev (map fr ((j, v, tslot (ptop v) key) # cs))) key (CompareKeys key (kf p)) d s =
      Some (Inr \<lparr>is_target = int (length cs'), is_slot = int (ins_slot (ptop t) key d)\<rparr>, s)"
    using InsertSlotFromPath_spec [OF b(3,1,2) refl b(4) d(2,3)] .
  note split = path_split [OF b(3,1) sp(1), unfolded b(6)]
  have top: "top_tree i t cs' = T" "top_ids i t cs' = ids r T" "fst (plug i t cs') = r"
    using split(3) by (simp_all add: top_tree_def top_ids_def)
  have "on_path key ((j, v, tslot (ptop v) key) # cs)"
    using b(2) by simp
  then have "on_path key cs'"
    unfolding sp(1) by simp
  have patn: "pat (map_rtree kf (tins (flat T) key d q))"
    using pat_tins [OF assms(5) ok(1), of d] d(2) leaf assms(7) tslot_less [of "flat T" key]
    by (simp add: map_rtree_tins ktree_def)
  have ci: "can_insert K kf s i t cs' key d q"
    unfolding can_insert_def top using assms(1,2,4,6,8) split(1,2) \<open>on_path key cs'\<close> sp(3) patn by blast
  let ?frames = "rev (map fr ((j, v, tslot (ptop v) key) # cs))"
  have fs: "?frames = rev (map fr cs') @ fr (i, t, m) # rev (map fr a)"
    unfolding sp(1) by simp
  obtain res where res: "InsertAtPath K ?frames (int (length cs')) (int (ins_slot (ptop t) key d)) q key d s = Some res"
    "inserted i t cs' key d q res"
    using InsertAtPath_inserts [OF ci sp(2) fs] by auto
  obtain s' T' where s': "res = (Inr (), s')" "store_ok s'" "holds (page_of s') r T'" "flat T' = tins (flat T) key d q"
    "dom (page_of s') = ids r T'"
    using res(2) by (auto simp: inserted_def top)
  obtain pg where pg: "page_of s j = Some pg" "page_ok pg v" "np_size pg \<noteq> 0" "tslot (ptop v) key < length (slots v)"
    "at (np_reps pg) (int (tslot (ptop v) key)) = Some p" "Lookup pg key = Some (int (tslot (ptop v) key), True)"
    using bottom_page [OF b(3,4)] .
  have frame: "rev (map fr cs) @ [\<lparr>pf_id = j, pf_node = Some j, pf_leaf = int (tslot (ptop v) key)\<rparr>] = ?frames"
    by (simp add: fr_def)
  have cond: "(CompareKeys key (kf p) = 0) = False"
    using p_in(2) by simp
  have "insert_loop K key q [] r s = insert_loop K key q (rev (map fr cs)) j s"
    using insert_loop_path [OF b(1,2), of K q] b(6) by simp
  also have "\<dots> = Some (Inr \<lparr>put_old_pos = 0, put_replaced = False\<rparr>, s')"
    using b(5) pg(3) res(1) s'(1)
    by (subst insert_loop.simps) (simp add: op_simps pg Kp frame cond d(1) sp(4) Let_def del: CompareKeys_eq_0 map_append rev.simps list.map)
  finally show ?thesis
    using s'(2-5) patn by (auto simp: ktree_def)
qed

section \<open>An existing key\<close>

text \<open>The slot of a record is replaced, and the bounds with it.\<close>

lemma page_ok_set:
  assumes "page_ok p v" "n < length (slots v)" "slots v ! n = Rec x"
  shows "put_at (np_reps p) (int n) q = Some ((np_reps p)[n := q])"
    "page_ok (p\<lparr>np_reps := (np_reps p)[n := q], np_first := (if int n = 0 then q else np_first p),
       np_last := (if int n = page_size p - 1 then q else np_last p)\<rparr>) (set_slot v n (Rec q))"
proof -
  have rep: "page_rep p (ptop v)" "np_first p = minp v" "np_last p = maxp v"
    using assms(1) by (simp_all add: page_ok_def)
  then have n: "n < length (np_reps p)" "n < nl (ptop v)" "page_size p = int (length (slots v))"
    using assms(2) page_ok_size [OF assms(1)] by (auto simp: page_rep_def nl_ptop)
  then show "put_at (np_reps p) (int n) q = Some ((np_reps p)[n := q])"
    by (simp add: put_at_int)
  have t: "ptop (set_slot v n (Rec q)) = tset (ptop v) n q"
    by (rule ptop_set_slot_rec [OF assms(2,3)])
  have "page_rep (p\<lparr>np_reps := (np_reps p)[n := q]\<rparr>) (tset (ptop v) n q)"
    using rep(1) n(2) by (auto simp: page_rep_def leaves_tset take_update_swap)
  then show "page_ok (p\<lparr>np_reps := (np_reps p)[n := q], np_first := (if int n = 0 then q else np_first p),
       np_last := (if int n = page_size p - 1 then q else np_last p)\<rparr>) (set_slot v n (Rec q))"
    using rep(2,3) n(3) assms(2) by (auto simp: page_ok_def t page_rep_def minp_set_slot_rec maxp_set_slot_rec)
qed

lemma replace_bottom:
  assumes "store_ok s" "holds (page_of s) r T" "dom (page_of s) = ids r T" "untagged q"
    and b: "path_held (page_of s) (ids r T) j v cs" "on_path key cs" "holds (page_of s) j v"
      "slots v ! tslot (ptop v) key = Rec x" "plug j v cs = (r, T)"
    and p: "page_of s j = Some p" "page_ok p v" "page_ok p' (set_slot v (tslot (ptop v) key) (Rec q))"
    and fs: "frames = rev (map fr ((j, v, tslot (ptop v) key) # cs))"
  shows "\<exists>s' T'. PropagateBoundary frames (int (length frames) - 1) (np_first p) (np_last p) (upd_page j p' s) = Some (Inr (), s') \<and>
    store_ok s' \<and> holds (page_of s') r T' \<and> dom (page_of s') = ids r T' \<and> flat T' = tset (flat T) (tslot (flat T) key) q"
proof -
  let ?n = "tslot (ptop v) key" and ?s = "upd_page j p' s"
  let ?u = "set_slot v ?n (Rec q)"
  have n: "?n < length (slots v)"
    using tslot_less [of "ptop v" key] by (simp add: nl_ptop)
  have top: "top_tree j v cs = T" "top_ids j v cs = ids r T" "fst (plug j v cs) = r"
    using b(5) by (simp_all add: top_tree_def top_ids_def)
  have pids: "pids ?u = pids v"
    using pids_set_slot [OF n, of "Rec q"] pids_split [OF n] b(4) by simp
  have d: "distinct (j # pids v)"
    using b(3) by (simp add: holds_def)
  have "slots_held (page_of ?s) (slots v)"
    using d by (intro slots_held_upd_page holds_slots_held [OF b(3)]) simp
  then have "slots_held (page_of ?s) (others v ?n)" "slots_held (page_of ?s) (slots (Rec q))"
    using slots_held_sub [OF _ others_subset] assms(4) by (auto simp: slots_held_def)
  then have hu: "holds (page_of ?s) j ?u"
    using d pids by (intro holds_set_slot [of ?n v _ j p' "Rec q"] n p(3) upd_page_same [OF p(1)]) simp_all
  have fl: "flat ?u = tset (flat v) (tslot (flat v) key) q"
    by (rule flat_set_slot_tset) (simp add: b(4))
  have so: "store_ok ?s"
    by (rule store_ok_upd_page(1) [OF assms(1) p(1)])
  have other: "page_of ?s k = page_of s k" if "k \<in> top_ids j v cs - ids j v" for k
    using that by (intro upd_page_other) (auto simp: ids_def)
  have dm: "dom (page_of ?s) = dom (page_of s) \<union> set (pids ?u)"
    using page_of_upd_page [OF p(1)] p(1) holds_dom [OF b(3)] pids by (auto simp: ids_def)
  have fs': "frames = rev (map fr cs) @ fr (j, v, ?n) # []" "pf_id (fr (j, v, ?n)) = j"
    using fs by simp_all
  have len: "int (length frames) - 1 = int (length cs)"
    using fs by simp
  have "np_first p = minp v" "np_last p = maxp v"
    using p(2) by (simp_all add: page_ok_def)
  then show ?thesis
    using finish_bounds [OF b(1) [folded top(2)] assms(3) [folded top(2)] b(3) so hu other _ _ dm fs'] pids
      top_tree_tset [OF b(1,2) fl] unfolding len top by auto
qed

lemma replace_leaf:
  assumes "store_ok s" "holds (page_of s) r T" "dom (page_of s) = ids r T" "untagged q"
    and "keys_of K kf (set (leaves (flat T)))" "kf (leaves (flat T) ! tslot (flat T) key) = key"
  shows "\<exists>s' T'. insert_loop K key q [] r s =
      Some (Inr \<lparr>put_old_pos = leaves (flat T) ! tslot (flat T) key, put_replaced = True\<rparr>, s') \<and> store_ok s' \<and>
    holds (page_of s') r T' \<and> dom (page_of s') = ids r T' \<and> flat T' = tset (flat T) (tslot (flat T) key) q"
proof -
  obtain j v cs x where b: "path_held (page_of s) (ids r T) j v cs" "on_path key cs" "holds (page_of s) j v"
    "slots v ! tslot (ptop v) key = Rec x" "untagged x" "plug j v cs = (r, T)"
    using path_to_record [OF assms(2)] .
  let ?n = "tslot (ptop v) key"
  have leaf: "leaves (flat T) ! tslot (flat T) key = x"
    by (rule reached_leaf [OF b(1,2,6,4)])
  then have "x \<in> set (leaves (flat T))" "kf x = key"
    using tslot_leaf [of "flat T" key] assms(6) by simp_all
  then have Kx: "Key K x = Inr key"
    using Key_keys_of [OF assms(5)] by metis
  obtain p where p: "page_of s j = Some p" "page_ok p v" "np_size p \<noteq> 0" "?n < length (slots v)"
    "at (np_reps p) (int ?n) = Some x" "Lookup p key = Some (int ?n, True)"
    using bottom_page [OF b(3,4)] .
  note set = page_ok_set [OF p(2,4) b(4), of q]
  let ?frames = "rev (map fr ((j, v, ?n) # cs))"
  obtain s' T' where s': "PropagateBoundary ?frames (int (length ?frames) - 1) (np_first p) (np_last p)
      (upd_page j (p\<lparr>np_reps := (np_reps p)[?n := q], np_first := (if int ?n = 0 then q else np_first p),
         np_last := (if int ?n = page_size p - 1 then q else np_last p)\<rparr>) s) = Some (Inr (), s')" "store_ok s'"
    "holds (page_of s') r T'" "dom (page_of s') = ids r T'" "flat T' = tset (flat T) (tslot (flat T) key) q"
    using replace_bottom [OF assms(1-4) b(1-4,6) p(1,2) set(2) refl] by blast
  have mm: "(if c then MinPos q else ret y) s = Some (Inr (if c then q else y), s)"
    "(if c then MaxPos q else ret y) s = Some (Inr (if c then q else y), s)" for c y
    using assms(4) by (simp_all add: MinPos_record MaxPos_record op_simps)
  have rr: "replace_record ?frames j (int ?n) q s = Some (Inr (), s')"
    unfolding replace_record_def
    by (simp only: op_simps deref_live [OF p(1)] mm set(1) store_page_live [OF p(1)] s'(1))
  have frame: "rev (map fr cs) @ [\<lparr>pf_id = j, pf_node = Some j, pf_leaf = int ?n\<rparr>] = ?frames"
    by (simp add: fr_def)
  have "insert_loop K key q [] r s = insert_loop K key q (rev (map fr cs)) j s"
    using insert_loop_path [OF b(1,2), of K q] b(6) by simp
  also have "\<dots> = Some (Inr \<lparr>put_old_pos = x, put_replaced = True\<rparr>, s')"
    using b(5) p(3) by (subst insert_loop.simps) (simp add: op_simps p Kx frame rr Let_def del: map_append rev.simps list.map)
  finally show ?thesis
    using s'(2-5) leaf by blast
qed

section \<open>Put\<close>

text \<open>The keys of the record store, as a total function.\<close>

definition rec_key :: "key_fn \<Rightarrow> pos \<Rightarrow> key" where
  "rec_key K p = (case K p of Inl e \<Rightarrow> [] | Inr k \<Rightarrow> k)"

lemma rec_key_keys: "keys_of K kf P \<Longrightarrow> p \<in> P \<Longrightarrow> rec_key K p = kf p"
  by (simp add: keys_of_def rec_key_def)

lemma index_holds_tree:
  assumes "index_holds K x es"
  obtains T where "index_inv K (rec_key K) x T" "es = map (\<lambda>p. (rec_key K p, p)) (tree_pos T)"
proof -
  obtain kf T where kf: "index_inv K kf x T" "es = map (\<lambda>p. (kf p, p)) (tree_pos T)"
    using assms unfolding index_holds_def by blast
  have keys: "keys_of K kf (set (tree_pos T))"
    using kf(1) by (simp add: index_inv_def)
  have eq: "rec_key K p = kf p" if "p \<in> set (tree_pos T)" for p
    by (rule rec_key_keys [OF keys that])
  have "tree_pat (rec_key K) T"
  proof (cases T)
    case (Some t)
    then have "ktree (rec_key K) t = ktree kf t"
      unfolding ktree_def using eq by (intro map_rtree_cong_leaves) (simp add: tree_pos_def)
    then show ?thesis
      using kf(1) Some by (simp add: index_inv_def tree_pat_def)
  qed (simp add: tree_pat_def)
  moreover have "keys_of K (rec_key K) (set (tree_pos T))"
    using keys eq by (simp add: keys_of_def)
  ultimately have "index_inv K (rec_key K) x T"
    using kf(1) by (simp add: index_inv_def)
  then show ?thesis
    using that [of T] kf(2) eq by simp
qed

lemma index_holdsI:
  assumes "index_inv K (rec_key K) x T" "es = map (\<lambda>p. (rec_key K p, p)) (tree_pos T)"
  shows "index_holds K x es"
  using assms unfolding index_holds_def by blast

lemma map_of_entries:
  assumes "distinct (map kf ps)"
  shows "map_of (map (\<lambda>p. (kf p, p)) ps) k = Some p \<longleftrightarrow> p \<in> set ps \<and> kf p = k"
  using assms by (auto simp: map_of_eq_Some_iff comp_def)

lemma entries_distinct: "tree_pat kf T \<Longrightarrow> distinct (map kf (tree_pos T))"
  using tree_pat_sorted strict_sorted_iff by blast

lemma option_ext: "(\<And>y. a = Some y \<longleftrightarrow> b = Some y) \<Longrightarrow> a = b"
  by (metis not_Some_eq)

lemma entries_update:
  assumes "distinct (map kf ps)" "distinct (map kf qs)" "set qs = insert p (set ps - {x \<in> set ps. kf x = kf p})"
  shows "map_of (map (\<lambda>p. (kf p, p)) qs) = (map_of (map (\<lambda>p. (kf p, p)) ps))(kf p \<mapsto> p)"
proof
  fix k
  show "map_of (map (\<lambda>p. (kf p, p)) qs) k = ((map_of (map (\<lambda>p. (kf p, p)) ps))(kf p \<mapsto> p)) k"
  proof (rule option_ext)
    fix y
    show "map_of (map (\<lambda>p. (kf p, p)) qs) k = Some y \<longleftrightarrow> ((map_of (map (\<lambda>p. (kf p, p)) ps))(kf p \<mapsto> p)) k = Some y"
      using map_of_entries [OF assms(1), of k y] map_of_entries [OF assms(2), of k y] assms(3) by auto
  qed
qed

lemma Put_run:
  assumes "key_ok k" "untagged p" "insert_loop K k p [] (ix_root_id x) (ix_nodes x) = Some (Inr rs, s')"
  shows "Put K k p x = Some (Inr rs, x\<lparr>ix_nodes := s', ix_count := ix_count x + (if put_replaced rs then 0 else 1)\<rparr>)"
  using assms
  by (simp add: Put_def CheckKeySize_key_ok MakeRecord_untagged on_nodes_def InsertOrReplace_def add_count_def bindM_def ret_def res_def)

text \<open>The entries after the record of a key is added or replaced.\<close>

lemma index_updated:
  assumes inv: "index_inv K kf x (Some t)" and p: "key_ok k" "K p = Inr k" "kf p = k"
    and s': "store_ok s'" "holds (page_of s') 0 t'" "dom (page_of s') = ids 0 t'" "pat (ktree kf t')"
    and lv: "set (leaves (flat t')) = insert p (set (leaves (flat t)) - {y \<in> set (leaves (flat t)). kf y = kf p})"
  shows "\<exists>es'. index_holds K (x\<lparr>ix_nodes := s', ix_count := int (nl (flat t'))\<rparr>) es' \<and>
    map_of es' = (map_of (map (\<lambda>p. (kf p, p)) (leaves (flat t))))(k \<mapsto> p)"
proof -
  let ?x = "x\<lparr>ix_nodes := s', ix_count := int (nl (flat t'))\<rparr>"
  let ?es = "map (\<lambda>p. (kf p, p)) (leaves (flat t'))"
  have "keys_of K kf (set (leaves (flat t)))" "tree_pat kf (Some t)" "ix_root_id x = 0"
    using inv by (simp_all add: index_inv_def tree_pos_def)
  moreover from this have "keys_of K kf (set (leaves (flat t')))"
    using p lv by (auto simp: keys_of_def)
  ultimately have "index_inv K kf ?x (Some t')"
    using s' by (simp add: index_inv_def tree_rep_def tree_pat_def tree_pos_def)
  then have "index_holds K ?x ?es"
    unfolding index_holds_def by (intro exI [of _ kf] exI [of _ "Some t'"]) (simp add: tree_pos_def)
  moreover have "distinct (map kf (leaves (flat t)))" "distinct (map kf (leaves (flat t')))"
    using entries_distinct [of kf "Some t"] inv pat_distinct [OF s'(4)] by (simp_all add: index_inv_def tree_pos_def)
  then have "map_of ?es = (map_of (map (\<lambda>p. (kf p, p)) (leaves (flat t))))(k \<mapsto> p)"
    using entries_update [of kf "leaves (flat t)" "leaves (flat t')" p] lv p(3) by simp
  ultimately show ?thesis
    by blast
qed

lemma tset_entries:
  assumes "pat (ktree kf t)" "kf (leaves (flat t) ! tslot (flat t) k) = k" "kf p = k"
    and "flat t' = tset (flat t) (tslot (flat t) k) p"
  shows "pat (ktree kf t')" "nl (flat t') = nl (flat t)"
    "set (leaves (flat t')) = insert p (set (leaves (flat t)) - {y \<in> set (leaves (flat t)). kf y = kf p})"
proof -
  let ?n = "tslot (flat t) k"
  have tl: "?n < nl (flat t)"
    by (rule tslot_less)
  have "ktree kf t' = ktree kf t"
    using tset_same [of ?n "map_rtree kf (flat t)"] tl assms(2,3) by (simp add: ktree_def assms(4) map_rtree_tset)
  then show "pat (ktree kf t')"
    using assms(1) by simp
  show "nl (flat t') = nl (flat t)"
    by (simp add: assms(4))
  have dist: "distinct (map kf (leaves (flat t)))"
    using pat_distinct [OF assms(1)] by simp
  then have "{y \<in> set (leaves (flat t)). kf y = kf p} = {leaves (flat t) ! ?n}"
    using assms(2,3) tslot_leaf [of "flat t" k] by (auto simp: distinct_map inj_on_def)
  moreover have "distinct (leaves (flat t))"
    using dist by (simp add: distinct_map)
  ultimately show "set (leaves (flat t')) = insert p (set (leaves (flat t)) - {y \<in> set (leaves (flat t)). kf y = kf p})"
    using tl by (simp add: assms(4) leaves_tset set_update_distinct)
qed

text \<open>The leaf that a key leads to holds the key, or the key is not in the index.\<close>

lemma reached_entry:
  assumes "index_inv K kf x (Some t)"
  shows "map_of (map (\<lambda>p. (kf p, p)) (leaves (flat t))) k =
    (if kf (leaves (flat t) ! tslot (flat t) k) = k then Some (leaves (flat t) ! tslot (flat t) k) else None)"
proof -
  let ?q = "leaves (flat t) ! tslot (flat t) k"
  have pat: "pat (ktree kf t)"
    using assms by (simp add: index_inv_def tree_pat_def)
  have dist: "distinct (map kf (leaves (flat t)))"
    using pat_distinct [OF pat] by simp
  show ?thesis
  proof (cases "kf ?q = k")
    case True
    then show ?thesis
      using map_of_entries [OF dist, of k ?q] tslot_leaf [of "flat t" k] by simp
  next
    case False
    then have "k \<notin> kf ` set (leaves (flat t))"
      using pat_lookup_iff [OF pat, of k] tslot_less [of "flat t" k] by (simp add: ktree_def)
    then show ?thesis
      using False map_of_kf_None by simp
  qed
qed

theorem Put_holds:
  assumes "index_holds K x es" "key_ok k" "untagged p" "K p = Inr k" "has_room (ix_nodes x)"
  shows "\<exists>x' es'. Put K k p x = Some (Inr (case map_of es k of None \<Rightarrow> \<lparr>put_old_pos = 0, put_replaced = False\<rparr>
      | Some q \<Rightarrow> \<lparr>put_old_pos = q, put_replaced = True\<rparr>), x') \<and>
    index_holds K x' es' \<and> map_of es' = (map_of es)(k \<mapsto> p)"
proof -
  let ?kf = "rec_key K"
  obtain T where T: "index_inv K ?kf x T" "es = map (\<lambda>p. (?kf p, p)) (tree_pos T)"
    using index_holds_tree [OF assms(1)] .
  have kp: "?kf p = k"
    using assms(4) by (simp add: rec_key_def)
  have ix: "store_ok (ix_nodes x)" "ix_root_id x = 0" "tree_rep (page_of (ix_nodes x)) 0 T" "tree_pat ?kf T"
    "keys_of K ?kf (set (tree_pos T))" "ix_count x = int (length (tree_pos T))"
    using T(1) by (simp_all add: index_inv_def)
  have keys: "keys_of K ?kf (insert p (set (tree_pos T)))"
    using ix(5) assms(2,4) kp by (simp add: keys_of_def)
  show ?thesis
  proof (cases T)
    case None
    then obtain pg where pg: "page_of (ix_nodes x) = [0 \<mapsto> pg]" "np_size pg = 0" "len_ok pg"
      using ix(3) by (auto simp: tree_rep_def)
    then have p0: "page_of (ix_nodes x) 0 = Some pg"
      by simp
    obtain pg' where pg': "InsertAtIncremental K 0 0 p k 0 (ix_nodes x) = Some (Inr (), upd_page 0 pg' (ix_nodes x))"
      "holds (page_of (upd_page 0 pg' (ix_nodes x))) 0 (Rec p)"
      using InsertAtIncremental_empty [OF p0 pg(2,3) assms(3)] by blast
    let ?s = "upd_page 0 pg' (ix_nodes x)"
    have "insert_loop K k p [] 0 (ix_nodes x) = Some (Inr \<lparr>put_old_pos = 0, put_replaced = False\<rparr>, ?s)"
      using p0 pg(2) pg'(1) by (subst insert_loop.simps) (simp add: op_simps)
    then have run: "Put K k p x = Some (Inr \<lparr>put_old_pos = 0, put_replaced = False\<rparr>, x\<lparr>ix_nodes := ?s, ix_count := 1\<rparr>)"
      using Put_run [OF assms(2,3)] ix(2,6) None by (simp add: tree_pos_def)
    have "dom (page_of ?s) = {0}"
      using page_of_upd_page [OF p0, of pg'] pg(1) by auto
    then have "index_inv K ?kf (x\<lparr>ix_nodes := ?s, ix_count := 1\<rparr>) (Some (Rec p))"
      using ix(2) store_ok_upd_page(1) [OF ix(1) p0] pg'(2) keys kp assms(2)
      by (simp add: index_inv_def tree_rep_def tree_pat_def tree_pos_def ids_def None keys_of_def)
    then have "index_holds K (x\<lparr>ix_nodes := ?s, ix_count := 1\<rparr>) [(k, p)]"
      by (rule index_holdsI) (simp add: tree_pos_def kp)
    then show ?thesis
      using run T(2) None by (intro exI [of _ "x\<lparr>ix_nodes := ?s, ix_count := 1\<rparr>"] exI [of _ "[(k, p)]"])
        (simp add: tree_pos_def)
  next
    case (Some t)
    have h: "holds (page_of (ix_nodes x)) 0 t" "dom (page_of (ix_nodes x)) = ids 0 t" and pat: "pat (ktree ?kf t)"
      and ps: "tree_pos T = leaves (flat t)"
      using ix(3,4) Some by (simp_all add: tree_rep_def tree_pat_def tree_pos_def)
    let ?q = "leaves (flat t) ! tslot (flat t) k"
    have old: "map_of es k = (if ?kf ?q = k then Some ?q else None)"
      using reached_entry [of K ?kf x t k] T Some by (simp add: tree_pos_def)
    note upd = index_updated [OF T(1) [unfolded Some] assms(2,4) kp]
    have es: "es = map (\<lambda>p. (?kf p, p)) (leaves (flat t))"
      using T(2) ps by simp
    show ?thesis
    proof (cases "?kf ?q = k")
      case True
      obtain s' t' where s': "insert_loop K k p [] 0 (ix_nodes x) = Some (Inr \<lparr>put_old_pos = ?q, put_replaced = True\<rparr>, s')"
        "store_ok s'" "holds (page_of s') 0 t'" "dom (page_of s') = ids 0 t'" "flat t' = tset (flat t) (tslot (flat t) k) p"
        using replace_leaf [OF ix(1) h assms(3) ix(5) [unfolded ps] True] by blast
      note te = tset_entries [OF pat True kp s'(5)]
      have "Put K k p x = Some (Inr \<lparr>put_old_pos = ?q, put_replaced = True\<rparr>, x\<lparr>ix_nodes := s', ix_count := int (nl (flat t'))\<rparr>)"
        using Put_run [OF assms(2,3)] s'(1) ix(2,6) te(2) ps by simp
      then show ?thesis
        using upd [OF s'(2-4) te(1,3)] old True unfolding es by auto
    next
      case False
      obtain s' t' d where s': "insert_loop K k p [] 0 (ix_nodes x) = Some (Inr \<lparr>put_old_pos = 0, put_replaced = False\<rparr>, s')"
        "store_ok s'" "holds (page_of s') 0 t'" "dom (page_of s') = ids 0 t'" "flat t' = tins (flat t) k d p" "pat (ktree ?kf t')"
        using insert_loop_new [OF ix(1) assms(5) h pat keys [unfolded ps] kp assms(3) False] by blast
      have "k \<notin> ?kf ` set (leaves (flat t))"
        using old False map_of_eq_None_iff [of es k] unfolding es by (auto simp: image_iff)
      then have "{y \<in> set (leaves (flat t)). ?kf y = ?kf p} = {}"
        unfolding kp by blast
      then have lv: "set (leaves (flat t')) = insert p (set (leaves (flat t)) - {y \<in> set (leaves (flat t)). ?kf y = ?kf p})"
        by (auto simp: s'(5) set_leaves_tins)
      have "Put K k p x = Some (Inr \<lparr>put_old_pos = 0, put_replaced = False\<rparr>, x\<lparr>ix_nodes := s', ix_count := int (nl (flat t'))\<rparr>)"
        using Put_run [OF assms(2,3)] s'(1,5) ix(2,6) ps by (simp add: add.commute)
      then show ?thesis
        using upd [OF s'(2-4,6) lv] old False unfolding es by auto
    qed
  qed
qed

section \<open>Retarget\<close>

lemma retarget_loop_path:
  "path_held (page_of s) D j v cs \<Longrightarrow> on_path key cs \<Longrightarrow>
   retarget_loop key o_pos q [] (fst (plug j v cs)) s = retarget_loop key o_pos q (rev (map fr cs)) j s"
proof (induction cs arbitrary: j v)
  case (Cons c cs)
  obtain i t n where c: "c = (i, t, n)"
    by (cases c)
  have p: "path_held (page_of s) D j v ((i, t, n) # cs)" "n = tslot (ptop t) key" "on_path key cs"
    using Cons.prems c by simp_all
  obtain pg where pg: "page_of s i = Some pg" "page_ok pg t" "n < length (slots t)" "slots t ! n = Sub j v" "untagged j"
    using p(1) by auto
  have at: "at (np_reps pg) (int n) = Some (kChildTag OR j)" "Lookup pg key = Some (int n, True)"
    using page_ok_at [OF pg(2,3)] pg(4) page_ok_lookup [OF pg(2)] p(2) by simp_all
  have "fst (plug j v (c # cs)) = fst (plug i t cs)"
    using plug_path [of "page_of s" D j v "[]" i t n cs] p(1) c by simp
  also have "retarget_loop key o_pos q [] (fst (plug i t cs)) s = retarget_loop key o_pos q (rev (map fr cs)) i s"
    using p by (intro Cons.IH) simp_all
  also have "\<dots> = retarget_loop key o_pos q (rev (map fr cs) @ [fr (i, t, n)]) j s"
    using pg(1,5) at by (subst retarget_loop.simps) (simp add: op_simps fr_def)
  finally show ?case
    using c by simp
qed simp

lemma retarget_loop_spec:
  assumes "store_ok s" "holds (page_of s) r T" "dom (page_of s) = ids r T" "untagged q"
    and x_def: "x = leaves (flat T) ! tslot (flat T) key"
  shows "if x = o_pos
    then \<exists>s' T'. retarget_loop key o_pos q [] r s = Some (Inr (), s') \<and> store_ok s' \<and> holds (page_of s') r T' \<and>
      dom (page_of s') = ids r T' \<and> flat T' = tset (flat T) (tslot (flat T) key) q
    else retarget_loop key o_pos q [] r s = Some (Inl kPositionMismatch, s)"
proof -
  obtain j v cs y where b: "path_held (page_of s) (ids r T) j v cs" "on_path key cs" "holds (page_of s) j v"
    "slots v ! tslot (ptop v) key = Rec y" "untagged y" "plug j v cs = (r, T)"
    using path_to_record [OF assms(2)] .
  let ?n = "tslot (ptop v) key"
  have x: "x = y"
    using reached_leaf [OF b(1,2,6,4)] by (simp add: x_def)
  obtain p where p: "page_of s j = Some p" "page_ok p v" "np_size p \<noteq> 0" "?n < length (slots v)"
    "at (np_reps p) (int ?n) = Some y" "Lookup p key = Some (int ?n, True)"
    using bottom_page [OF b(3,4)] .
  note set = page_ok_set [OF p(2,4) b(4), of q]
  let ?frames = "rev (map fr ((j, v, ?n) # cs))"
  obtain s' T' where s': "PropagateBoundary ?frames (int (length ?frames) - 1) (np_first p) (np_last p)
      (upd_page j (p\<lparr>np_reps := (np_reps p)[?n := q], np_first := (if int ?n = 0 then q else np_first p),
         np_last := (if int ?n = page_size p - 1 then q else np_last p)\<rparr>) s) = Some (Inr (), s')" "store_ok s'"
    "holds (page_of s') r T'" "dom (page_of s') = ids r T'" "flat T' = tset (flat T) (tslot (flat T) key) q"
    using replace_bottom [OF assms(1-4) b(1-4,6) p(1,2) set(2) refl] by blast
  have frame: "rev (map fr cs) @ [\<lparr>pf_id = j, pf_node = Some j, pf_leaf = int ?n\<rparr>] = ?frames"
    by (simp add: fr_def)
  have c: "is_child y = False" "position y = y" "position q = q" "(\<not> True) = False"
    using b(5) assms(4) by simp_all
  have "retarget_loop key o_pos q [] r s = retarget_loop key o_pos q (rev (map fr cs)) j s"
    using retarget_loop_path [OF b(1,2), of o_pos q] b(6) by simp
  also have "\<dots> = (if y \<noteq> o_pos then Some (Inl kPositionMismatch, s) else Some (Inr (), s'))"
    by (subst retarget_loop.simps)
      (simp only: op_simps NodeByID_live [OF p(1)] deref_live [OF p(1)] p(5,6) fst_conv snd_conv c if_False frame Let_def
        set(1) store_page_live [OF p(1)] s'(1) split: if_split; simp)
  finally show ?thesis
    using s'(2-5) x by auto
qed

text \<open>
  \<^verbatim>\<open>Retarget\<close> compares positions only, so it relies on the caller to name a position of
  a record with the given key.
\<close>

theorem Retarget_holds:
  assumes "index_holds K x es" "key_ok k" "untagged q" "K q = Inr k" "K p = Inr k"
  shows "if map_of es k = Some p
    then \<exists>x' es'. Retarget k p q x = Some (Inr (), x') \<and> index_holds K x' es' \<and> map_of es' = (map_of es)(k \<mapsto> q)
    else Retarget k p q x = Some (Inl kPositionMismatch, x)"
proof -
  let ?kf = "rec_key K"
  obtain T where T: "index_inv K ?kf x T" "es = map (\<lambda>p. (?kf p, p)) (tree_pos T)"
    using index_holds_tree [OF assms(1)] .
  have kp: "?kf q = k" "?kf p = k"
    using assms(4,5) by (simp_all add: rec_key_def)
  have ix: "store_ok (ix_nodes x)" "ix_root_id x = 0" "tree_rep (page_of (ix_nodes x)) 0 T" "tree_pat ?kf T"
    "ix_count x = int (length (tree_pos T))"
    using T(1) by (simp_all add: index_inv_def)
  have run: "Retarget k p q x = on_nodes (\<lambda>root. retarget_loop k p q [] root) x"
    using assms(2,3) by (simp add: Retarget_def CheckKeySize_key_ok MakeRecord_untagged op_simps)
  show ?thesis
  proof (cases T)
    case None
    then obtain pg where "page_of (ix_nodes x) 0 = Some pg" "np_size pg = 0"
      using ix(3) by (auto simp: tree_rep_def)
    then have "retarget_loop k p q [] 0 (ix_nodes x) = Some (Inl kPositionMismatch, ix_nodes x)"
      by (subst retarget_loop.simps) (simp add: op_simps Lookup_def LookupRouteOnly_def)
    then show ?thesis
      using run ix(2) T(2) None by (simp add: tree_pos_def on_nodes_same)
  next
    case (Some t)
    have h: "holds (page_of (ix_nodes x)) 0 t" "dom (page_of (ix_nodes x)) = ids 0 t" and pat: "pat (ktree ?kf t)"
      and ps: "tree_pos T = leaves (flat t)"
      using ix(3,4) Some by (simp_all add: tree_rep_def tree_pat_def tree_pos_def)
    let ?q = "leaves (flat t) ! tslot (flat t) k"
    have es: "es = map (\<lambda>p. (?kf p, p)) (leaves (flat t))"
      using T(2) ps by simp
    have old: "map_of es k = Some p \<longleftrightarrow> ?q = p"
      using reached_entry [of K ?kf x t k] T Some kp(2) by (auto simp: tree_pos_def)
    note spec = retarget_loop_spec [OF ix(1) h assms(3) refl, where key = k and o_pos = p]
    show ?thesis
    proof (cases "?q = p")
      case True
      then obtain s' t' where s': "retarget_loop k p q [] 0 (ix_nodes x) = Some (Inr (), s')" "store_ok s'"
        "holds (page_of s') 0 t'" "dom (page_of s') = ids 0 t'" "flat t' = tset (flat t) (tslot (flat t) k) q"
        using spec by auto
      note te = tset_entries [OF pat _ kp(1) s'(5)]
      have "ix_count x = int (nl (flat t'))"
        using ix(5) ps te(2) kp(2) True by simp
      then have "Retarget k p q x = Some (Inr (), x\<lparr>ix_nodes := s', ix_count := int (nl (flat t'))\<rparr>)"
        using run s'(1) ix(2) by (simp add: on_nodes_def)
      then show ?thesis
        using index_updated [OF T(1) [unfolded Some] assms(2,4) kp(1) s'(2-4) te(1,3)] True kp(2) old es by auto
    next
      case False
      then show ?thesis
        using spec run ix(2) old by (simp add: on_nodes_same)
    qed
  qed
qed

lemma Retarget_errors:
  "\<not> key_ok k \<Longrightarrow> Retarget k p q x = Some (Inl kKeyTooLarge, x)"
  "key_ok k \<Longrightarrow> \<not> untagged q \<Longrightarrow> Retarget k p q x = Some (Inl kPositionTag, x)"
  by (simp_all add: Retarget_def CheckKeySize_too_large CheckKeySize_key_ok MakeRecord_untagged op_simps)

end
