(* ===== verification/DeleteCode.thy ===== *)
theory DeleteCode
  imports InsertCode
begin

text \<open>
  \<^verbatim>\<open>class Index\<close> (\<^verbatim>\<open>index.h\<close>), third part: \<^verbatim>\<open>Delete\<close> with the merging of pages
  after a deletion and the compression of the root.
\<close>

section \<open>Deleting a slot\<close>

text \<open>The page after the slot and its route are gone.\<close>

definition delete_rep :: "node_page \<Rightarrow> int \<Rightarrow> pos \<Rightarrow> pos \<Rightarrow> node_page option" where
  "delete_rep p slot first_pos last_pos =
     do { reps1 \<leftarrow> shift_down (np_reps p) slot (page_size p - 1);
          reps2 \<leftarrow> put_at reps1 (page_size p - 1) 0;
          Some (p\<lparr>np_reps := reps2, np_size := word_of_int (page_size p - 1),
                  np_first := first_pos, np_last := last_pos\<rparr>) }"

definition DeleteAtIncremental :: "u64 \<Rightarrow> int \<Rightarrow> unit iop" where
  "DeleteAtIncremental node slot =
     bindM (deref node) (\<lambda>p.
       if slot < 0 \<or> slot \<ge> page_size p then err kCorruptLayout
       else if page_size p = 1
       then
         bindM (chk (put_at (np_reps p) 0 0)) (\<lambda>reps.
           store_page node (p\<lparr>np_reps := reps, np_size := 0, np_first := 0, np_last := 0\<rparr>))
       else
         bindM (if slot = 0 then bindM (chk (at (np_reps p) 1)) MinPos else ret (np_first p)) (\<lambda>first_pos.
         bindM (if slot = page_size p - 1 then bindM (chk (at (np_reps p) (page_size p - 2))) MaxPos
                else ret (np_last p)) (\<lambda>last_pos.
         bindM (chkres (DeleteRoute p slot)) (\<lambda>p1.
         bindM (chk (delete_rep p1 slot first_pos last_pos)) (\<lambda>p2.
           store_page node p2)))))"

definition RebuildParentAfterChildBoundary :: "u64 \<Rightarrow> int \<Rightarrow> u64 \<Rightarrow> pos \<Rightarrow> pos \<Rightarrow> unit iop" where
  "RebuildParentAfterChildBoundary node slot child old_first old_last =
     bindM (deref node) (\<lambda>p.
     bindM (deref child) (\<lambda>c.
       let p1 = (if np_first c \<noteq> old_first \<and> slot = 0 then p\<lparr>np_first := np_first c\<rparr> else p);
           p2 = (if np_last c \<noteq> old_last \<and> slot = page_size p - 1 then p1\<lparr>np_last := np_last c\<rparr> else p1)
       in store_page node p2))"

section \<open>Merging\<close>

text \<open>
  The three loops of \<^verbatim>\<open>MergeChildIntoParent\<close> over the slots: moving the parent's slots
  behind the merged one, copying the child's, clearing what is left over.
\<close>

function move_loop :: "rep list \<Rightarrow> int \<Rightarrow> int \<Rightarrow> int \<Rightarrow> rep list option" where
  "move_loop reps slot off i =
     (if i > slot
      then do { x \<leftarrow> at reps i; ys \<leftarrow> put_at reps (i + off) x; move_loop ys slot off (i - 1) }
      else Some reps)"
  by pat_completeness auto
termination
  by (relation "measure (\<lambda>(reps, slot, off, i). nat (i - slot))") auto

function copy_loop :: "rep list \<Rightarrow> rep list \<Rightarrow> int \<Rightarrow> int \<Rightarrow> int \<Rightarrow> rep list option" where
  "copy_loop reps src slot i n =
     (if i < n
      then do { x \<leftarrow> at src i; ys \<leftarrow> put_at reps (slot + i) x; copy_loop ys src slot (i + 1) n }
      else Some reps)"
  by pat_completeness auto
termination
  by (relation "measure (\<lambda>(reps, src, slot, i, n). nat (n - i))") auto

function clear_loop :: "rep list \<Rightarrow> int \<Rightarrow> int \<Rightarrow> rep list option" where
  "clear_loop reps i n =
     (if i < n then do { ys \<leftarrow> put_at reps i 0; clear_loop ys (i + 1) n } else Some reps)"
  by pat_completeness auto
termination
  by (relation "measure (\<lambda>(reps, i, n). nat (n - i))") auto

declare move_loop.simps [simp del] copy_loop.simps [simp del] clear_loop.simps [simp del]

definition merge_reps :: "rep list \<Rightarrow> int \<Rightarrow> int \<Rightarrow> rep list \<Rightarrow> int \<Rightarrow> rep list option" where
  "merge_reps reps parent_size slot child_reps child_size =
     do { reps1 \<leftarrow> move_loop reps slot (child_size - 1) (parent_size - 1);
          reps2 \<leftarrow> copy_loop reps1 child_reps slot 0 child_size;
          clear_loop reps2 (parent_size - 1 + child_size) parent_size }"

definition MergeChildIntoParent :: "u64 \<Rightarrow> int \<Rightarrow> u64 \<Rightarrow> u64 \<Rightarrow> unit iop" where
  "MergeChildIntoParent node slot cid child =
     bindM (deref node) (\<lambda>p.
     bindM (deref child) (\<lambda>c.
     bindM (chk (zeros (page_size p - 1))) (\<lambda>buf.
     bindM (chkres (RouteDiffs p buf)) (\<lambda>old_diffs.
     bindM (chk (slice old_diffs 0 slot)) (\<lambda>diffs1.
     bindM (chk (zeros (page_size c - 1))) (\<lambda>cbuf.
     bindM (if page_size c > 1 then chkres (RouteDiffs c cbuf) else ret cbuf) (\<lambda>child_diffs.
     bindM (chk (slice old_diffs slot (page_size p - 1))) (\<lambda>diffs2.
     bindM (chk (merge_reps (np_reps p) (page_size p) slot (np_reps c) (page_size c))) (\<lambda>reps.
     bindM (store_page node (p\<lparr>np_reps := reps,
              np_size := word_of_int (page_size p - 1 + page_size c)\<rparr>)) (\<lambda>_.
     bindM (RebuildNodeWithDiffs node (diffs1 @ child_diffs @ diffs2)) (\<lambda>_.
       FreeNode cid)))))))))))"

definition RemoveMergedParentRep :: "u64 \<Rightarrow> int \<Rightarrow> int \<Rightarrow> unit iop" where
  "RemoveMergedParentRep node slot drop_diff =
     bindM (deref node) (\<lambda>p.
       if slot < 0 \<or> slot \<ge> page_size p \<or> drop_diff < 0 \<or> drop_diff \<ge> page_size p - 1
       then err kCorruptLayout
       else
         bindM (chk (zeros (page_size p - 1))) (\<lambda>buf.
         bindM (chkres (RouteDiffs p buf)) (\<lambda>old_diffs.
         bindM (chk (slice old_diffs 0 drop_diff)) (\<lambda>diffs1.
         bindM (chk (slice old_diffs (drop_diff + 1) (page_size p - 1))) (\<lambda>diffs2.
         bindM (chk (shift_down (np_reps p) slot (page_size p - 1))) (\<lambda>reps1.
         bindM (chk (put_at reps1 (page_size p - 1) 0)) (\<lambda>reps2.
         bindM (store_page node (p\<lparr>np_reps := reps2, np_size := word_of_int (page_size p - 1)\<rparr>)) (\<lambda>_.
           RebuildNodeWithDiffs node (diffs1 @ diffs2)))))))))"

text \<open>
  \<^verbatim>\<open>MergeLeftSibling\<close> and \<^verbatim>\<open>MergeRightSibling\<close> do the same with the roles of the two
  pages exchanged: the slots of \<open>r\<close> move into \<open>l\<close>, whose slot in the parent is \<open>l_slot\<close>.
\<close>

definition merge_siblings :: "u64 \<Rightarrow> int \<Rightarrow> u64 \<Rightarrow> u64 \<Rightarrow> int \<Rightarrow> u64 \<Rightarrow> u64 \<Rightarrow> unit iop" where
  "merge_siblings node l_slot l_id l r_slot r_id r =
     bindM (deref node) (\<lambda>p.
     bindM (deref l) (\<lambda>lp.
     bindM (deref r) (\<lambda>rp.
     bindM (chk (slice (np_reps lp) 0 (page_size lp))) (\<lambda>lreps.
     bindM (chk (slice (np_reps rp) 0 (page_size rp))) (\<lambda>rreps.
     bindM (chk (zeros (page_size p - 1))) (\<lambda>buf.
     bindM (chkres (RouteDiffs p buf)) (\<lambda>old_diffs.
     bindM (chk (zeros (page_size lp - 1))) (\<lambda>lbuf.
     bindM (if page_size lp > 1 then chkres (RouteDiffs lp lbuf) else ret lbuf) (\<lambda>ldiffs.
     bindM (chk (at old_diffs l_slot)) (\<lambda>mid.
     bindM (chk (zeros (page_size rp - 1))) (\<lambda>rbuf.
     bindM (if page_size rp > 1 then chkres (RouteDiffs rp rbuf) else ret rbuf) (\<lambda>rdiffs.
     bindM (WriteNodeWithDiffs l_id (lreps @ rreps) (ldiffs @ [mid] @ rdiffs)) (\<lambda>_.
     bindM (RemoveMergedParentRep node r_slot l_slot) (\<lambda>_.
       FreeNode r_id))))))))))))))"

definition MergeLeftSibling :: "u64 \<Rightarrow> int \<Rightarrow> u64 \<Rightarrow> u64 \<Rightarrow> int \<Rightarrow> u64 \<Rightarrow> u64 \<Rightarrow> unit iop" where
  "MergeLeftSibling node left_slot left_id left_page slot cid child =
     merge_siblings node left_slot left_id left_page slot cid child"

definition MergeRightSibling :: "u64 \<Rightarrow> int \<Rightarrow> u64 \<Rightarrow> u64 \<Rightarrow> int \<Rightarrow> u64 \<Rightarrow> u64 \<Rightarrow> unit iop" where
  "MergeRightSibling node slot cid child right_slot right_id right_page =
     merge_siblings node slot cid child right_slot right_id right_page"

text \<open>
  A neighbouring slot that is a page: its id, its page and its size, and size \<open>-1\<close> (with
  the initial values of the source's variables) when there is none.
\<close>

definition neighbour :: "node_page \<Rightarrow> int \<Rightarrow> (u64 \<times> u64 \<times> int) iop" where
  "neighbour p slot =
     (if 0 \<le> slot \<and> slot < page_size p
      then
        bindM (chk (at (np_reps p) slot)) (\<lambda>r.
          if is_child r
          then
            bindM (NodeByID (child_id r)) (\<lambda>n.
            bindM (deref n) (\<lambda>np. ret (child_id r, n, page_size np)))
          else ret (0, 0, -1))
      else ret (0, 0, -1))"

definition can_merge :: "node_page \<Rightarrow> int \<Rightarrow> int \<Rightarrow> int \<Rightarrow> bool iop" where
  "can_merge p nb_size child_size diff_idx =
     (if nb_size \<ge> 0 \<and> nb_size + child_size \<le> kMaxNodeReps then chk (IsDirectRoutePair p diff_idx)
      else ret False)"

definition MergeChildWithSibling :: "u64 \<Rightarrow> int \<Rightarrow> u64 \<Rightarrow> u64 \<Rightarrow> bool iop" where
  "MergeChildWithSibling node slot cid child =
     bindM (deref node) (\<lambda>p.
     bindM (deref child) (\<lambda>c.
     bindM (neighbour p (slot - 1)) (\<lambda>(left_id, left_page, left_size).
     bindM (neighbour p (slot + 1)) (\<lambda>(right_id, right_page, right_size).
     bindM (can_merge p left_size (page_size c) (slot - 1)) (\<lambda>can_left.
     bindM (can_merge p right_size (page_size c) slot) (\<lambda>can_right.
       if \<not> can_left \<and> \<not> can_right then ret False
       else if can_right \<and> (\<not> can_left \<or> right_size > left_size)
       then
         bindM (MergeRightSibling node slot cid child (slot + 1) right_id right_page) (\<lambda>_. ret True)
       else
         bindM (MergeLeftSibling node (slot - 1) left_id left_page slot cid child) (\<lambda>_. ret True)))))))"

section \<open>Deleting a key\<close>

text \<open>The part of \<^verbatim>\<open>DeleteFromChild\<close> after the recursive call, for a deleted key.\<close>

definition after_child_delete ::
  "u64 \<Rightarrow> int \<Rightarrow> u64 \<Rightarrow> u64 \<Rightarrow> pos \<Rightarrow> pos \<Rightarrow> delete_result \<Rightarrow> delete_result iop" where
  "after_child_delete node slot cid child old_first old_last result =
     bindM (deref node) (\<lambda>p.
     bindM (deref child) (\<lambda>c.
       if np_size c = 0
       then
         bindM (DeleteAtIncremental node slot) (\<lambda>_.
         bindM (FreeNode cid) (\<lambda>_. ret result))
       else if page_size p - 1 + page_size c \<le> kMaxNodeReps
       then bindM (MergeChildIntoParent node slot cid child) (\<lambda>_. ret result)
       else
         bindM (if page_size c < kMaxNodeReps div 32
                then MergeChildWithSibling node slot cid child else ret False) (\<lambda>merged.
           if merged then ret result
           else if np_first c = old_first \<and> np_last c = old_last then ret result
           else
             bindM (RebuildParentAfterChildBoundary node slot child old_first old_last) (\<lambda>_.
               ret result))))"

text \<open>\<^verbatim>\<open>DeleteFrom\<close>, with the call of \<^verbatim>\<open>DeleteFromChild\<close> written out.\<close>

partial_function (option) DeleteFrom ::
  "key_fn \<Rightarrow> u64 \<Rightarrow> key \<Rightarrow> heap_node_store \<Rightarrow> ((mp_status + delete_result) \<times> heap_node_store) option" where
  "DeleteFrom K i key s =
     bindM (NodeByID i) (\<lambda>node.
     bindM (deref node) (\<lambda>p.
     bindM (chk (Lookup p key)) (\<lambda>leaf_ok.
       if \<not> snd leaf_ok then ret \<lparr>del_pos = 0, del_deleted = False\<rparr>
       else
         bindM (chk (at (np_reps p) (fst leaf_ok))) (\<lambda>r.
           if \<not> is_child r
           then
             bindM (res (Key K (position r))) (\<lambda>record_key.
               if CompareKeys record_key key = 0
               then
                 bindM (DeleteAtIncremental node (fst leaf_ok)) (\<lambda>_.
                   ret \<lparr>del_pos = position r, del_deleted = True\<rparr>)
               else ret \<lparr>del_pos = 0, del_deleted = False\<rparr>)
           else
             bindM (NodeByID (child_id r)) (\<lambda>child.
             bindM (deref child) (\<lambda>c.
               if np_size c = 0 then err kCorruptLayout
               else
                 bindM (DeleteFrom K (child_id r) key) (\<lambda>result.
                   if \<not> del_deleted result then ret result
                   else
                     after_child_delete node (fst leaf_ok) (child_id r) child
                       (np_first c) (np_last c) result))))))) s"

text \<open>The loop of \<^verbatim>\<open>CompressRoot\<close>.\<close>

partial_function (option) compress_loop :: "u64 \<Rightarrow> heap_node_store \<Rightarrow> ((mp_status + unit) \<times> heap_node_store) option" where
  "compress_loop root s =
     bindM (deref root) (\<lambda>p.
     bindM (if page_size p = 1 then bindM (chk (at (np_reps p) 0)) (\<lambda>r. ret (is_child r)) else ret False) (\<lambda>again.
       if again
       then
         bindM (chk (at (np_reps p) 0)) (\<lambda>r.
         bindM (NodeByID (child_id r)) (\<lambda>child.
         bindM (deref child) (\<lambda>c.
         bindM (store_page root c) (\<lambda>_.
         bindM (FreeNode (child_id r)) (\<lambda>_.
           compress_loop root)))))
       else ret ())) s"

definition CompressRoot :: "u64 \<Rightarrow> unit iop" where
  "CompressRoot root = bindM (NodeByID root) compress_loop"

definition Delete :: "key_fn \<Rightarrow> key \<Rightarrow> (index, mp_status, delete_result) op" where
  "Delete K key =
     bindM (res (CheckKeySize key)) (\<lambda>_.
     bindM (on_nodes (\<lambda>root. DeleteFrom K root key)) (\<lambda>result.
       if del_deleted result
       then
         bindM (add_count (-1)) (\<lambda>_.
         bindM (on_nodes CompressRoot) (\<lambda>_.
           ret result))
       else ret result))"

end
