(* ===== verification/PageDelete.thy ===== *)
theory PageDelete
  imports Paths DeleteCode
begin

text \<open>
  Deletion in one page (\<^verbatim>\<open>DeleteAtIncremental\<close>) and the merging of pages after a deletion,
  each as a change of the subtrie that the pages hold.
\<close>

section \<open>Deleting a slot of a subtrie\<close>

primrec cdel :: "ctree \<Rightarrow> nat \<Rightarrow> ctree" where
  "cdel (Rec p) n = Rec p"
| "cdel (Sub i t) n = Sub i t"
| "cdel (Br l e r) n =
     (if n < nl (ptop l) then (if nl (ptop l) = 1 then r else Br (cdel l n) e r)
      else (if nl (ptop r) = 1 then l else Br l e (cdel r (n - nl (ptop l)))))"

lemma ptop_cdel: "ptop (cdel t n) = tdel (ptop t) n"
  by (induction t arbitrary: n) auto

lemma slots_cdel:
  "2 \<le> nl (ptop t) \<Longrightarrow> n < length (slots t) \<Longrightarrow> slots (cdel t n) = take n (slots t) @ drop (Suc n) (slots t)"
proof (induction t arbitrary: n)
  case (Br l e r)
  have pos: "0 < length (slots l)" "0 < length (slots r)"
    by simp_all
  show ?case
  proof (cases "n < length (slots l)")
    case True
    show ?thesis
    proof (cases "length (slots l) = 1")
      case False
      then show ?thesis
        using True pos Br.IH(1) [of n] by (simp add: nl_ptop Suc_le_eq)
    qed (use True in \<open>simp add: nl_ptop\<close>)
  next
    case False
    show ?thesis
    proof (cases "length (slots r) = 1")
      case True
      then show ?thesis
        using False Br.prems(2) by (simp add: nl_ptop)
    next
      case no: False
      then have "2 \<le> nl (ptop r)" "n - length (slots l) < length (slots r)"
        using False Br.prems(2) pos by (auto simp: nl_ptop Suc_le_eq)
      then show ?thesis
        using False no Br.IH(2) [of "n - length (slots l)"] by (simp add: nl_ptop Suc_diff_le)
    qed
  qed
qed auto

lemma flat_one_slot: "nl (ptop t) = 1 \<Longrightarrow> n < length (slots t) \<Longrightarrow> flat t = flat (slots t ! n)"
proof (cases t)
  case (Br l e r)
  then show "nl (ptop t) = 1 \<Longrightarrow> ?thesis"
    using nl_pos [of "ptop l"] nl_pos [of "ptop r"] by simp
qed auto

lemma nl_flat_ge: "nl (ptop t) \<le> nl (flat t)"
proof (induction t)
  case (Sub i t)
  then show ?case
    using nl_pos [of "flat t"] by simp
qed auto

lemma flat_cdel:
  "2 \<le> nl (ptop t) \<Longrightarrow> n < length (slots t) \<Longrightarrow> nl (flat (slots t ! n)) = 1 \<Longrightarrow>
   flat (cdel t n) = tdel (flat t) (off t n)"
proof (induction t arbitrary: n)
  case (Br l e r)
  have pos: "0 < length (slots l)" "0 < length (slots r)"
    by simp_all
  show ?case
  proof (cases "n < length (slots l)")
    case True
    then have slot: "slots (Br l e r) ! n = slots l ! n" "off (Br l e r) n = off l n" "off l n < nl (flat l)"
      using off_less [of n l 0] nl_pos [of "flat (slots l ! n)"] by (simp_all add: nth_append off_Br)
    show ?thesis
    proof (cases "nl (ptop l) = 1")
      case one: True
      then have "nl (flat l) = 1"
        using flat_one_slot [OF one True] Br.prems(3) slot(1) by simp
      then show ?thesis
        using True one slot by (simp add: nl_ptop)
    next
      case False
      then have "2 \<le> nl (ptop l)"
        using nl_pos [of "ptop l"] by linarith
      moreover from this have "nl (flat l) \<noteq> 1"
        using nl_flat_ge [of l] by linarith
      ultimately show ?thesis
        using True False slot Br.IH(1) [of n] Br.prems(3) by (simp add: nl_ptop)
    qed
  next
    case False
    let ?n = "n - length (slots l)"
    have n: "?n < length (slots r)"
      using False Br.prems(2) pos by auto
    have slot: "slots (Br l e r) ! n = slots r ! ?n" "off (Br l e r) n = nl (flat l) + off r ?n"
      using False by (simp_all add: nth_append off_Br)
    show ?thesis
    proof (cases "nl (ptop r) = 1")
      case one: True
      then have "nl (flat r) = 1"
        using flat_one_slot [OF one n] Br.prems(3) slot(1) by simp
      then show ?thesis
        using False one slot by (simp add: nl_ptop)
    next
      case no: False
      then have "2 \<le> nl (ptop r)"
        using nl_pos [of "ptop r"] by linarith
      moreover from this have "nl (flat r) \<noteq> 1"
        using nl_flat_ge [of r] by linarith
      ultimately show ?thesis
        using False no n slot Br.IH(2) [of ?n] Br.prems(3) by (simp add: nl_ptop)
    qed
  qed
qed auto

section \<open>DeleteAtIncremental\<close>

lemma others_nth:
  assumes "m < length (slots t)" "m \<noteq> n"
  shows "slots t ! m \<in> set (others t n)"
proof (cases "m < n")
  case True
  then have "slots t ! m = take n (slots t) ! m" "m < length (take n (slots t))"
    using assms by simp_all
  then show ?thesis
    unfolding others_def by (metis UnCI nth_mem set_append)
next
  case False
  then have "slots t ! m = drop (Suc n) (slots t) ! (m - Suc n)" "m - Suc n < length (drop (Suc n) (slots t))"
    using assms by auto
  then show ?thesis
    unfolding others_def by (metis UnCI nth_mem set_append)
qed

lemma minp_cdel:
  assumes "2 \<le> nl (ptop t)" "n < length (slots t)"
  shows "minp (cdel t n) = (if n = 0 then minp (slots t ! 1) else minp t)"
proof -
  have "2 \<le> length (slots t)"
    using assms(1) by (simp add: nl_ptop)
  then obtain a b cs where "slots t = a # b # cs"
    by (cases "slots t"; cases "tl (slots t)") auto
  then show ?thesis
    using slots_cdel [OF assms] assms(2) minp_slots [of "cdel t n"] minp_slots [of t] by (cases n) auto
qed

lemma maxp_cdel:
  assumes "2 \<le> nl (ptop t)" "n < length (slots t)"
  shows "maxp (cdel t n) = (if Suc n = length (slots t) then maxp (slots t ! (length (slots t) - 2)) else maxp t)"
proof -
  have len: "2 \<le> length (slots t)"
    using assms(1) by (simp add: nl_ptop)
  show ?thesis
  proof (cases "Suc n = length (slots t)")
    case True
    then have "slots (cdel t n) = take n (slots t)" "take n (slots t) \<noteq> []" "n - 1 = length (slots t) - 2"
      using slots_cdel [OF assms] len by auto
    moreover from this have "last (slots (cdel t n)) = slots t ! (length (slots t) - 2)"
      using assms(2) by (simp add: last_conv_nth min_def)
    ultimately show ?thesis
      using True by (simp add: maxp_slots [of "cdel t n"])
  next
    case False
    then have "drop (Suc n) (slots t) \<noteq> []"
      using assms(2) by simp
    then have "last (slots (cdel t n)) = last (slots t)"
      using slots_cdel [OF assms] by (simp add: last_drop)
    then show ?thesis
      using False by (simp add: maxp_slots [of "cdel t n"] maxp_slots [of t])
  qed
qed

text \<open>Closing the gap that a slot leaves.\<close>

lemma close_slot_spec:
  assumes "length R = 339" "m < 339" "n \<le> m"
  shows "\<exists>R1 R2. shift_down R (int n) (int m) = Some R1 \<and> put_at R1 (int m) 0 = Some R2 \<and>
    length R2 = 339 \<and> take m R2 = take n R @ drop (Suc n) (take (Suc m) R)"
proof -
  have len: "n + (m - n) < length R" "n + (m - n) = m"
    using assms by simp_all
  let ?R1 = "take n R @ take (m - n) (drop (Suc n) R) @ drop m R"
  have sh: "shift_down R (int n) (int m) = Some ?R1"
    using shift_down_spec [OF len(1)] assms(3) by (simp add: of_nat_diff len(2))
  have l1: "length ?R1 = 339"
    using assms by simp
  have put: "put_at ?R1 (int m) 0 = Some (?R1[m := 0])"
    using l1 assms(2) by (intro put_at_int) simp
  have e: "drop (Suc n) (take (Suc m) R) = take (m - n) (drop (Suc n) R)"
    by (simp add: drop_take)
  have tk: "take m (?R1[m := 0]) = take n R @ drop (Suc n) (take (Suc m) R)"
    using assms unfolding e by simp
  moreover have "length (?R1[m := 0]) = 339"
    using l1 by simp
  ultimately show ?thesis
    using sh put by blast
qed

lemma delete_rep_spec:
  assumes "length (np_reps p) = 339" "page_size p = int (Suc m)" "m < 339" "n \<le> m"
  shows "\<exists>reps. delete_rep p (int n) a b = Some (p\<lparr>np_reps := reps, np_size := of_nat m, np_first := a, np_last := b\<rparr>) \<and>
    length reps = 339 \<and> take m reps = take n (np_reps p) @ drop (Suc n) (take (Suc m) (np_reps p))"
proof -
  have "page_size p - 1 = int m"
    using assms(2) by simp
  then show ?thesis
    using close_slot_spec [OF assms(1,3,4)] by (fastforce simp: delete_rep_def)
qed

lemma DeleteAtIncremental_spec:
  assumes p: "page_of s i = Some p" "page_ok p t" and n: "n < length (slots t)" "2 \<le> nl (ptop t)"
    and held: "slots_held (page_of s) (others t n)"
  shows "\<exists>p'. DeleteAtIncremental i (int n) s = Some (Inr (), upd_page i p' s) \<and> page_ok p' (cdel t n)"
proof -
  have rep: "page_rep p (ptop t)" "np_first p = minp t" "np_last p = maxp t"
    using p(2) by (simp_all add: page_ok_def)
  define m where "m = nl (ptop t) - 1"
  have m: "nl (ptop t) = Suc m" "length (slots t) = Suc m" "m < 339" "n \<le> m" "1 \<le> m"
    using n rep(1) by (auto simp: m_def nl_ptop page_rep_def)
  have sz: "page_size p = int (Suc m)" "page_size p \<noteq> 1" "length (np_reps p) = 339"
    using page_ok_size [OF p(2)] rep(1) m by (simp_all add: page_rep_def)
  have first: "(if int n = 0 then bindM (chk (at (np_reps p) 1)) MinPos else ret (np_first p)) s = Some (Inr (minp (cdel t n)), s)"
  proof (cases "n = 0")
    case True
    then have "MinPos (slot_rep (slots t ! 1)) s = Some (Inr (minp (slots t ! 1)), s)"
      using m by (intro MinPos_slot [OF held] others_nth) auto
    then show ?thesis
      using True page_ok_at [OF p(2), of 1] m minp_cdel [OF n(2,1)] by (simp add: op_simps)
  next
    case False
    then show ?thesis
      using minp_cdel [OF n(2,1)] rep(2) by (simp add: op_simps)
  qed
  have last: "(if int n = page_size p - 1 then bindM (chk (at (np_reps p) (page_size p - 2))) MaxPos else ret (np_last p)) s =
      Some (Inr (maxp (cdel t n)), s)"
  proof (cases "n = m")
    case True
    then have "MaxPos (slot_rep (slots t ! (m - 1))) s = Some (Inr (maxp (slots t ! (m - 1))), s)"
      using m by (intro MaxPos_slot [OF held] others_nth) auto
    moreover have "page_size p - 2 = int (m - 1)" "length (slots t) - 2 = m - 1"
      using sz(1) m by auto
    ultimately show ?thesis
      using True page_ok_at [OF p(2), of "m - 1"] m maxp_cdel [OF n(2,1)] sz(1) by (simp add: op_simps)
  next
    case False
    then show ?thesis
      using maxp_cdel [OF n(2,1)] rep(3) sz(1) m(2) by (simp add: op_simps)
  qed
  obtain rts where rts: "DeleteRoute p (int n) = Some (Inr (p\<lparr>np_routes := rts\<rparr>))" "length rts = 338"
    "take (m - 1) rts = routes_of (tdel (ptop t) n)"
    using DeleteRoute_rep [OF rep(1) n(2), of n] m by auto
  obtain reps where reps: "delete_rep (p\<lparr>np_routes := rts\<rparr>) (int n) (minp (cdel t n)) (maxp (cdel t n)) =
      Some (p\<lparr>np_routes := rts, np_reps := reps, np_size := of_nat m, np_first := minp (cdel t n), np_last := maxp (cdel t n)\<rparr>)"
    "length reps = 339" "take m reps = take n (np_reps p) @ drop (Suc n) (take (Suc m) (np_reps p))"
    using delete_rep_spec [of "p\<lparr>np_routes := rts\<rparr>" m n] sz m by auto
  let ?p = "p\<lparr>np_routes := rts, np_reps := reps, np_size := of_nat m, np_first := minp (cdel t n), np_last := maxp (cdel t n)\<rparr>"
  have tk: "take (Suc m) (np_reps p) = map slot_rep (slots t)"
    using rep(1) m(1) by (simp add: page_rep_def leaves_ptop)
  have "take n (np_reps p) = take n (map slot_rep (slots t))"
    unfolding tk [symmetric] using m(4) by simp
  then have "take m reps = leaves (tdel (ptop t) n)"
    using reps(3) tk slots_cdel [OF n(2,1)] by (simp flip: ptop_cdel add: leaves_ptop take_map drop_map)
  moreover have "nl (tdel (ptop t) n) = m" "uint (of_nat m :: u16) = int m"
    using nl_tdel [OF n(2), of n] m by (simp_all add: of_nat_u16_size)
  ultimately have "page_ok ?p (cdel t n)"
    using rts(2,3) reps(2) m(3) by (simp add: page_ok_def page_rep_def ptop_cdel)
  moreover have "DeleteAtIncremental i (int n) s = Some (Inr (), upd_page i ?p s)"
  proof -
    have c: "(int n < 0 \<or> int n \<ge> page_size p) = False" "(page_size p = 1) = False"
      using sz m(4) by auto
    show ?thesis
      unfolding DeleteAtIncremental_def
      by (simp only: op_simps deref_live [OF p(1)] c if_False first last rts(1) reps(1) store_page_live [OF p(1)])
  qed
  ultimately show ?thesis
    by blast
qed

text \<open>The last slot of a page.\<close>

lemma DeleteAtIncremental_last:
  assumes "page_of s i = Some p" "page_ok p t" "nl (ptop t) = 1"
  shows "\<exists>p'. DeleteAtIncremental i 0 s = Some (Inr (), upd_page i p' s) \<and> np_size p' = 0 \<and> len_ok p'"
proof -
  have len: "len_ok p" "page_size p = 1"
    using page_ok_len [OF assms(2)] page_ok_size [OF assms(2)] assms(3) by simp_all
  then have "put_at (np_reps p) 0 0 = Some ((np_reps p)[0 := 0])"
    using put_at_int [of 0 "np_reps p" 0] by (simp add: len_ok_def)
  then show ?thesis
    using assms(1) len
    by (intro exI [of _ "p\<lparr>np_reps := (np_reps p)[0 := 0], np_size := 0, np_first := 0, np_last := 0\<rparr>"])
      (simp add: DeleteAtIncremental_def op_simps len_ok_def)
qed

end
