(* ===== verification/PageMerge.thy ===== *)
theory PageMerge
  imports PageDelete
begin

text \<open>
  Merging pages after a deletion (\<^verbatim>\<open>MergeChildIntoParent\<close>, \<^verbatim>\<open>MergeLeftSibling\<close>,
  \<^verbatim>\<open>MergeRightSibling\<close>, \<^verbatim>\<open>MergeChildWithSibling\<close>): the trie stays the same, only its page
  boundaries change.
\<close>

section \<open>The slots of a merged page\<close>

lemma move_loop_spec:
  "Suc n + w + k \<le> length xs \<Longrightarrow>
   move_loop xs (int n) (int w) (int n + int k) =
     Some (take (Suc n + w) xs @ take k (drop (Suc n) xs) @ drop (Suc n + w + k) xs)"
proof (induction k arbitrary: xs)
  case 0
  then show ?case
    by (subst move_loop.simps) simp
next
  case (Suc k)
  let ?i = "Suc (n + k)"
  let ?ys = "xs[?i + w := xs ! ?i]"
  have at: "at xs (int ?i) = Some (xs ! ?i)" "put_at xs (int (?i + w)) (xs ! ?i) = Some ?ys"
    using Suc.prems by (intro at_int put_at_int, simp)+
  have "move_loop xs (int n) (int w) (int n + int (Suc k)) = move_loop ?ys (int n) (int w) (int n + int k)"
    using at by (subst move_loop.simps) (simp add: algebra_simps)
  also have "\<dots> = Some (take (Suc n + w) ?ys @ take k (drop (Suc n) ?ys) @ drop (Suc n + w + k) ?ys)"
    using Suc.prems by (intro Suc.IH) simp
  also have "take (Suc n + w) ?ys = take (Suc n + w) xs"
    by simp
  also have "take k (drop (Suc n) ?ys) @ drop (Suc n + w + k) ?ys =
      take (Suc k) (drop (Suc n) xs) @ drop (Suc n + w + Suc k) xs"
  proof -
    have "drop (Suc n + w + k) ?ys = xs ! ?i # drop (Suc n + w + Suc k) xs"
      using Suc.prems Cons_nth_drop_Suc [of "Suc n + w + k" ?ys] by (simp add: algebra_simps)
    moreover have "take k (drop (Suc n) ?ys) = take k (drop (Suc n) xs)"
      by (rule nth_equalityI) (use Suc.prems in auto)
    moreover have "take (Suc k) (drop (Suc n) xs) = take k (drop (Suc n) xs) @ [xs ! ?i]"
      using Suc.prems by (simp add: take_Suc_conv_app_nth)
    ultimately show ?thesis
      by simp
  qed
  finally show ?case .
qed

lemma copy_loop_spec:
  "n + i + k \<le> length xs \<Longrightarrow> i + k \<le> length src \<Longrightarrow>
   copy_loop xs src (int n) (int i) (int i + int k) =
     Some (take (n + i) xs @ take k (drop i src) @ drop (n + i + k) xs)"
proof (induction k arbitrary: xs i)
  case 0
  then show ?case
    by (subst copy_loop.simps) simp
next
  case (Suc k)
  let ?ys = "xs[n + i := src ! i]"
  have at: "at src (int i) = Some (src ! i)" "put_at xs (int (n + i)) (src ! i) = Some ?ys"
    using Suc.prems by (intro at_int put_at_int, simp)+
  have "copy_loop xs src (int n) (int i) (int i + int (Suc k)) = copy_loop ?ys src (int n) (int (Suc i)) (int (Suc i) + int k)"
    using at by (subst copy_loop.simps) (simp add: algebra_simps)
  also have "\<dots> = Some (take (n + Suc i) ?ys @ take k (drop (Suc i) src) @ drop (n + Suc i + k) ?ys)"
    using Suc.prems by (intro Suc.IH) simp_all
  also have "take (n + Suc i) ?ys = take (n + i) xs @ [src ! i]"
    using Suc.prems by (simp add: take_Suc_conv_app_nth)
  also have "take (Suc k) (drop i src) = src ! i # take k (drop (Suc i) src)"
    using Suc.prems Cons_nth_drop_Suc [of i src, symmetric] by simp
  ultimately show ?case
    using Suc.prems by simp
qed

lemma merge_reps_spec:
  assumes "length R = 339" "n < a" "0 < c" "a - 1 + c \<le> 339" "c \<le> length C"
  shows "\<exists>R'. merge_reps R (int a) (int n) C (int c) = Some R' \<and> length R' = 339 \<and>
    take (a - 1 + c) R' = take n R @ take c C @ drop (Suc n) (take a R)"
proof -
  define k where "k = a - 1 - n"
  have a: "a = Suc (n + k)"
    using assms(2) by (simp add: k_def)
  let ?R1 = "take (n + c) R @ take k (drop (Suc n) R) @ drop (n + c + k) R"
  have offs: "Suc n + (c - 1) = n + c" "int c - 1 = int (c - 1)" "int a - 1 = int n + int k" "Suc n + (c - 1) + k = n + c + k"
    using assms(3) a by auto
  have mv: "move_loop R (int n) (int c - 1) (int a - 1) = Some ?R1"
    using move_loop_spec [of n "c - 1" k R] assms(1,4) a unfolding offs(2,3) by (simp only: offs(1))
  have l1: "length ?R1 = 339"
    using assms a by simp
  let ?R2 = "take n ?R1 @ take c C @ drop (n + c) ?R1"
  have cp: "copy_loop ?R1 C (int n) 0 (int c) = Some ?R2"
    using copy_loop_spec [of n 0 c ?R1 C] l1 assms a by simp
  have cl: "clear_loop ?R2 (int a - 1 + int c) (int a) = Some ?R2"
    using assms(3) by (subst clear_loop.simps) simp
  let ?M = "take n R @ take c C @ take k (drop (Suc n) R)"
  have "drop (n + c) ?R1 = take k (drop (Suc n) R) @ drop (n + c + k) R" "take n ?R1 = take n R"
    using assms(1,4) a by simp_all
  then have R2: "?R2 = ?M @ drop (n + c + k) R"
    by simp
  have M: "length ?M = a - 1 + c" "?M = take n R @ take c C @ drop (Suc n) (take a R)"
    using assms(1,3-5) a by (simp_all add: drop_take min_absorb2)
  have "length ?R2 = length ?M + length (drop (n + c + k) R)"
    unfolding R2 by (rule length_append)
  then have "length ?R2 = 339"
    unfolding M(1) using assms(1,3,4) a by simp
  moreover have "take (a - 1 + c) ?R2 = take n R @ take c C @ drop (Suc n) (take a R)"
    unfolding R2 M(2) [symmetric] M(1) [symmetric]
    by (rule append_eq_conv_conj [THEN iffD1, OF refl, THEN conjunct1, symmetric])
  moreover have "merge_reps R (int a) (int n) C (int c) = Some ?R2"
    by (simp only: merge_reps_def mv cp cl Option.bind.bind_lunit)
  ultimately show ?thesis
    by blast
qed

section \<open>The differences of a page\<close>

lemma page_diffs:
  assumes "page_ok p t"
  shows "zeros (page_size p - 1) = Some (replicate (nl (ptop t) - 1) 0)"
    "RouteDiffs p (replicate (nl (ptop t) - 1) 0) = Some (Inr (diffs (ptop t)))"
    "(if page_size p > 1 then chkres (Some (Inr (diffs (ptop t)))) else ret (replicate (nl (ptop t) - 1) 0)) s =
      Some (Inr (diffs (ptop t)), s)"
proof -
  have rep: "page_rep p (ptop t)" and sz: "page_size p = int (nl (ptop t))" "0 < nl (ptop t)"
    using assms page_ok_size [OF assms] nl_pos by (auto simp: page_ok_def)
  show "zeros (page_size p - 1) = Some (replicate (nl (ptop t) - 1) 0)"
    using sz by (simp add: zeros_def nat_diff_distrib)
  show rd: "RouteDiffs p (replicate (nl (ptop t) - 1) 0) = Some (Inr (diffs (ptop t)))"
    by (rule RouteDiffs_rep [OF rep]) simp
  have "nl (ptop t) = 1 \<Longrightarrow> diffs (ptop t) = []"
    by (simp add: nl_1_tables)
  then show "(if page_size p > 1 then chkres (Some (Inr (diffs (ptop t)))) else ret (replicate (nl (ptop t) - 1) 0)) s =
      Some (Inr (diffs (ptop t)), s)"
    using sz rd by (cases "nl (ptop t) = 1") (auto simp: op_simps)
qed

lemma page_diff_slices:
  assumes "page_ok p t" "n < length (slots t)"
  shows "slice (diffs (ptop t)) 0 (int n) = Some (take n (diffs (ptop t)))"
    "slice (diffs (ptop t)) (int n) (page_size p - 1) = Some (drop n (diffs (ptop t)))"
proof -
  have le: "n \<le> length (diffs (ptop t))" and ln: "int (length (diffs (ptop t))) = page_size p - 1"
    using assms(2) page_ok_size [OF assms(1)] nl_pos [of "ptop t"] by (auto simp: nl_ptop of_nat_diff Suc_le_eq)
  then show "slice (diffs (ptop t)) 0 (int n) = Some (take n (diffs (ptop t)))"
    "slice (diffs (ptop t)) (int n) (page_size p - 1) = Some (drop n (diffs (ptop t)))"
    using slice_prefix [OF le] slice_suffix [OF le] unfolding ln [symmetric] by simp_all
qed

lemma page_reps_take: "page_ok p t \<Longrightarrow> take (length (slots t)) (np_reps p) = map slot_rep (slots t)"
  by (simp add: page_ok_def page_rep_def nl_ptop leaves_ptop)

section \<open>The state after a deletion below a page\<close>

text \<open>
  Page \<open>i\<close> is still the page of \<open>t\<close>, while the page \<open>j\<close> of its slot \<open>n\<close> holds \<open>u\<close> by now.
  The trie that the pages stand for is \<open>set_slot t n (Sub j u)\<close>.
\<close>

definition child_new :: "(pos \<Rightarrow> key) \<Rightarrow> heap_node_store \<Rightarrow> u64 \<Rightarrow> ctree \<Rightarrow> nat \<Rightarrow> u64 \<Rightarrow> ctree \<Rightarrow> bool" where
  "child_new kf s i t n j u \<longleftrightarrow>
     store_ok s \<and> (\<exists>p. page_of s i = Some p \<and> page_ok p t) \<and> n < length (slots t) \<and> (\<exists>v. slots t ! n = Sub j v) \<and>
     untagged j \<and> slots_held (page_of s) (others t n) \<and> holds (page_of s) j u \<and>
     distinct (i # pids (set_slot t n (Sub j u))) \<and> 0 \<notin> set (pids (set_slot t n (Sub j u))) \<and>
     pat (ktree kf (set_slot t n (Sub j u)))"

text \<open>
  Between two stores, the pages \<open>P\<close> below page \<open>i\<close> become those of the trie \<open>T\<close>; the pages
  that it does not use any more are freed, and pages elsewhere stay as they are.
\<close>

definition shrunk :: "heap_node_store \<Rightarrow> u64 \<Rightarrow> u64 set \<Rightarrow> heap_node_store \<Rightarrow> ctree \<Rightarrow> bool" where
  "shrunk s i P s' T \<longleftrightarrow>
     store_ok s' \<and> holds (page_of s') i T \<and> set (pids T) \<subseteq> P \<and> (\<forall>k \<in> P - set (pids T). page_of s' k = None) \<and>
     (\<forall>k. k \<notin> insert i P \<longrightarrow> page_of s' k = page_of s k)"

lemma child_new_pids:
  assumes "child_new kf s i t n j u"
  shows "set (pids (set_slot t n c)) = set (concat (map pids (others t n))) \<union> set (pids c)"
    "distinct (pids (set_slot t n c)) \<longleftrightarrow> distinct (concat (map pids (others t n))) \<and> distinct (pids c) \<and>
      set (concat (map pids (others t n))) \<inter> set (pids c) = {}"
proof -
  have n: "n < length (slots t)"
    using assms by (simp add: child_new_def)
  show "set (pids (set_slot t n c)) = set (concat (map pids (others t n))) \<union> set (pids c)"
    unfolding pids_set_slot [OF n] others_def by auto
  show "distinct (pids (set_slot t n c)) \<longleftrightarrow> distinct (concat (map pids (others t n))) \<and> distinct (pids c) \<and>
      set (concat (map pids (others t n))) \<inter> set (pids c) = {}"
    unfolding pids_set_slot [OF n] others_def map_append concat_append distinct_append set_append by blast
qed

lemma child_new_slots:
  assumes "child_new kf s i t n j u"
  shows "slots_held (page_of s) (slots (set_slot t n (Sub j u)))" "slots_held (page_of s) (slots (set_slot t n u))"
proof -
  have n: "n < length (slots t)" and oth: "slots_held (page_of s) (others t n)"
    and h: "holds (page_of s) j u" "untagged j"
    using assms by (simp_all add: child_new_def)
  have "slots_held (page_of s) (slots (Sub j u))"
    using h by (simp add: slots_held_def)
  then show "slots_held (page_of s) (slots (set_slot t n (Sub j u)))"
    by (rule slots_held_Un [OF oth]) (simp add: set_slots_set_slot [OF n])
  show "slots_held (page_of s) (slots (set_slot t n u))"
    by (rule slots_held_Un [OF oth holds_slots_held [OF h(1)]]) (simp add: set_slots_set_slot [OF n])
qed

section \<open>MergeChildIntoParent\<close>

text \<open>A page is rewritten and another one freed.\<close>

lemma shrunk_write_free:
  assumes "store_ok s" "page_of s i = Some p" "page_ok p' T" "slots_held (page_of s) (slots T)"
    and "distinct (i # pids T)" "page_of s j = Some q" "j \<notin> insert i (set (pids T))" "j \<noteq> 0"
  shows "\<exists>s'. FreeNode j (upd_page i p' s) = Some (Inr (), s') \<and> shrunk s i (insert j (set (pids T))) s' T"
proof -
  let ?s = "upd_page i p' s"
  have ok: "store_ok ?s"
    by (rule store_ok_upd_page(1) [OF assms(1,2)])
  have j: "page_of ?s j = Some q"
    using assms(6,7) by simp
  obtain s' where s': "Free j ?s = Some (Inr (), s')" "store_ok s'" "page_of s' = (page_of ?s)(j := None)"
    using Free_spec [OF ok j assms(8)] by blast
  have "holds (page_of ?s) i T"
    using assms(2,3,5) slots_held_upd_page [OF assms(4), of i p'] by (intro holds_of_slots) auto
  then have "holds (page_of s') i T"
    by (rule holds_cong) (use s'(3) assms(7) in \<open>auto simp: ids_def\<close>)
  then show ?thesis
    using s' by (intro exI [of _ s']) (auto simp: shrunk_def FreeNode_def)
qed

lemma MergeChildIntoParent_spec:
  assumes c: "child_new kf s i t n j u" and fits: "nl (ptop t) - 1 + nl (ptop u) \<le> 339"
  shows "\<exists>s'. MergeChildIntoParent i (int n) j j s = Some (Inr (), s') \<and>
    shrunk s i (set (pids (set_slot t n (Sub j u)))) s' (set_slot t n u)"
proof -
  let ?T = "set_slot t n u"
  obtain p where p: "page_of s i = Some p" "page_ok p t"
    using c by (auto simp: child_new_def)
  have n: "n < length (slots t)" and ok: "store_ok s"
    using c by (simp_all add: child_new_def)
  obtain q where q: "page_of s j = Some q" "page_ok q u"
    using c holds_page [of "page_of s" j u] by (auto simp: child_new_def)
  have len: "length (np_reps p) = 339" "length (slots u) \<le> length (np_reps q)"
    using p(2) q(2) by (auto simp: page_ok_def page_rep_def nl_ptop)
  have sz: "page_size p = int (length (slots t))" "page_size q = int (length (slots u))" "0 < length (slots u)"
    using page_ok_size [OF p(2)] page_ok_size [OF q(2)] by (simp_all add: nl_ptop)
  have fits': "length (slots t) - 1 + length (slots u) \<le> 339"
    using fits by (simp add: nl_ptop)
  obtain R where R: "merge_reps (np_reps p) (page_size p) (int n) (np_reps q) (page_size q) = Some R" "length R = 339"
    "take (length (slots t) - 1 + length (slots u)) R =
      take n (np_reps p) @ take (length (slots u)) (np_reps q) @ drop (Suc n) (take (length (slots t)) (np_reps p))"
    using merge_reps_spec [OF len(1) n sz(3) fits' len(2)] unfolding sz by blast
  let ?p = "p\<lparr>np_reps := R, np_size := of_nat (nl (ptop (set_slot t n u)))\<rparr>"
  have nlT: "nl (ptop ?T) = length (slots t) - 1 + length (slots u)"
    using n by (simp add: nl_ptop slots_set_slot)
  have psz: "page_size p - 1 + page_size q = int (nl (ptop ?T))"
    using n unfolding sz nlT by (simp add: of_nat_diff)
  have "uint (of_nat (nl (ptop ?T)) :: u16) = int (nl (ptop ?T))"
    by (rule of_nat_u16_size) (use fits' nlT in simp)
  moreover have "take n (np_reps p) = take n (map slot_rep (slots t))"
    unfolding page_reps_take [OF p(2), symmetric] using n by simp
  moreover have "length (np_routes p) = 338"
    using p(2) by (simp add: page_ok_def page_rep_def)
  ultimately have rs: "reps_set ?p ?T"
    using R(2,3) fits' n page_reps_take [OF p(2)] page_reps_take [OF q(2)]
    by (simp add: reps_set_def len_ok_def nlT slots_set_slot take_map drop_map)
  have jT: "j \<noteq> i" "j \<notin> set (pids ?T)" "j \<noteq> 0" "distinct (i # pids ?T)"
    "insert j (set (pids ?T)) = set (pids (set_slot t n (Sub j u)))"
    using c child_new_pids [OF c, of u] child_new_pids [OF c, of "Sub j u"] by (auto simp: child_new_def)
  have pt: "hord (ptop ?T)"
    using c pat_hord_ptop [of kf ?T] flat_set_slot_cong [of u "Sub j u" t n] by (simp add: child_new_def ktree_def)
  let ?s = "upd_page i ?p s"
  have held: "slots_held (page_of s) (slots ?T)" "slots_held (page_of ?s) (slots ?T)"
    using child_new_slots(2) [OF c] slots_held_upd_page [of s ?T i] jT(4) by simp_all
  obtain p' where p': "RebuildNodeWithDiffs i (diffs (ptop ?T)) ?s = Some (Inr (), upd_page i p' ?s)" "page_ok p' ?T"
    using RebuildNodeWithDiffs_spec [OF upd_page_same [OF p(1)] rs held(2) pt] by blast
  obtain s' where s': "FreeNode j (upd_page i p' s) = Some (Inr (), s')" "shrunk s i (insert j (set (pids ?T))) s' ?T"
    using shrunk_write_free [OF ok p(1) p'(2) held(1) jT(4) q(1) _ jT(3)] jT(1,2) by auto
  have "MergeChildIntoParent i (int n) j j s = Some (Inr (), s')"
    by (simp only: MergeChildIntoParent_def op_simps deref_live [OF p(1)] deref_live [OF q(1)] page_diffs [OF p(2)]
      page_diffs [OF q(2)] page_diff_slices [OF p(2) n] R(1) store_page_live [OF p(1)]
      psz of_int_of_nat_eq diffs_set_slot [OF n, symmetric] p'(1) upd_page_twice s'(1))
  with s'(2) show ?thesis
    unfolding jT(5) by blast
qed

section \<open>Merging two neighbouring pages\<close>

text \<open>
  Two pages whose slots hang below the same route become one; \<open>m\<close> is the number of that
  route from the left.
\<close>

fun join :: "ctree \<Rightarrow> u16 \<Rightarrow> ctree \<Rightarrow> ctree" where
  "join (Sub a x) e (Sub b y) = Sub a (Br x e y)"
| "join l e r = Br l e r"

primrec fuse :: "ctree \<Rightarrow> nat \<Rightarrow> ctree" where
  "fuse (Rec p) m = Rec p"
| "fuse (Sub i t) m = Sub i t"
| "fuse (Br l e r) m =
     (if m < nl (ptop l) - 1 then Br (fuse l m) e r
      else if m = nl (ptop l) - 1 then join l e r
      else Br l e (fuse r (m - nl (ptop l))))"

lemma flat_fuse: "flat (fuse t m) = flat t"
proof -
  have "flat (join l e r) = Nd (flat l) e (flat r)" for l e r
    by (induction l e r rule: join.induct) simp_all
  then show ?thesis
    by (induction t arbitrary: m) simp_all
qed

lemma one_slot: "nl (ptop t) = 1 \<Longrightarrow> slots t = [t]"
proof (cases t)
  case (Br l e r)
  then show "nl (ptop t) = 1 \<Longrightarrow> ?thesis"
    using nl_pos [of "ptop l"] nl_pos [of "ptop r"] by simp
qed auto

lemma direct_pair_less: "direct_pair T m \<Longrightarrow> Suc m < nl T"
proof (induction T arbitrary: m)
  case (Nd l d r)
  then show ?case
    using nl_pos [of l] nl_pos [of r] by (auto split: if_splits dest!: Nd.IH)
qed simp

lemma slots_fuse:
  "direct_pair (ptop t) m \<Longrightarrow> slots t ! m = Sub a x \<Longrightarrow> slots t ! Suc m = Sub b y \<Longrightarrow>
   slots (fuse t m) = take m (slots t) @ Sub a (Br x (diffs (ptop t) ! m) y) # drop (Suc (Suc m)) (slots t) \<and>
   diffs (ptop (fuse t m)) = take m (diffs (ptop t)) @ drop (Suc m) (diffs (ptop t))"
proof (induction t arbitrary: m)
  case (Br l e r)
  have len: "length (slots l) = nl (ptop l)" "length (diffs (ptop l)) = nl (ptop l) - 1" "0 < nl (ptop l)"
    using nl_pos by (simp_all add: nl_ptop)
  consider "m < nl (ptop l) - 1" | "m = nl (ptop l) - 1" | "nl (ptop l) \<le> m"
    by linarith
  then show ?case
  proof cases
    case 1
    then have "m < nl (ptop l)" "Suc m < nl (ptop l)"
      by simp_all
    then show ?thesis
      using 1 Br.IH(1) [of m] Br.prems len by (simp add: nth_append)
  next
    case 2
    then have one: "nl (ptop l) = 1" "nl (ptop r) = 1" "m = 0"
      using Br.prems(1) by (auto split: if_splits)
    then have "l = Sub a x" "r = Sub b y"
      using Br.prems(2,3) one_slot [OF one(1)] one_slot [OF one(2)] by simp_all
    then show ?thesis
      using one(3) by simp
  next
    case 3
    then have m: "\<not> m < nl (ptop l) - 1" "m \<noteq> nl (ptop l) - 1" "m = nl (ptop l) + (m - nl (ptop l))"
      using len(3) by auto
    let ?m = "m - nl (ptop l)"
    have at: "m = length (diffs (ptop l)) + Suc ?m"
      using 3 len by simp
    have "diffs (ptop (Br l e r)) ! m = (e # diffs (ptop r)) ! Suc ?m"
      by (subst at) (simp only: ptop.simps diffs.simps append_Cons append_Nil nth_append_length_plus)
    then have "diffs (ptop (Br l e r)) ! m = diffs (ptop r) ! ?m" "m - (nl (ptop l) - 1) = Suc ?m"
      using at len(2) by simp_all
    then show ?thesis
      using Br.IH(2) [of ?m] Br.prems 3 m(1,2) len by (simp add: nth_append Suc_diff_le)
  qed
qed simp_all

lemma pids_fuse:
  assumes "direct_pair (ptop t) m" "slots t ! m = Sub a x" "slots t ! Suc m = Sub b y" "distinct (pids t)"
  shows "set (pids (fuse t m)) = set (pids t) - {b}" "distinct (pids (fuse t m))"
    "a \<in> set (pids t)" "b \<in> set (pids t)" "a \<noteq> b" "distinct (a # pids (Br x e y))" "b \<notin> set (pids (Br x e y))"
proof -
  have m: "Suc m < length (slots t)"
    using direct_pair_less [OF assms(1)] by (simp add: nl_ptop)
  have "slots t = take m (slots t) @ Sub a x # Sub b y # drop (Suc (Suc m)) (slots t)"
    using id_take_nth_drop [of m "slots t"] Cons_nth_drop_Suc [of "Suc m" "slots t"] m assms(2,3) by simp
  then have t: "pids t = concat (map pids (take m (slots t))) @ a # pids x @ b # pids y @ concat (map pids (drop (Suc (Suc m)) (slots t)))"
    by (subst pids_slots) (metis (no_types, lifting) append_Cons append_assoc concat.simps(2) concat_append list.simps(9) map_append pids_simps(2))
  have f: "pids (fuse t m) = concat (map pids (take m (slots t))) @ a # pids x @ pids y @ concat (map pids (drop (Suc (Suc m)) (slots t)))"
    using slots_fuse [OF assms(1-3)] by (simp add: pids_slots [of "fuse t m"])
  show "set (pids (fuse t m)) = set (pids t) - {b}" "distinct (pids (fuse t m))"
    "a \<in> set (pids t)" "b \<in> set (pids t)" "a \<noteq> b" "distinct (a # pids (Br x e y))" "b \<notin> set (pids (Br x e y))"
    using assms(4) unfolding t f by auto
qed

lemma RemoveMergedParentRep_spec:
  assumes p: "page_of s i = Some p" "page_ok p t" and T: "ptop T = ptop t"
    and d: "direct_pair (ptop T) m" "slots T ! m = Sub a x" "slots T ! Suc m = Sub b y"
    and f: "slots_held (page_of s) (slots (fuse T m))" "i \<notin> set (pids (fuse T m))" "pat (ktree kf T)"
  shows "\<exists>p'. RemoveMergedParentRep i (int (Suc m)) (int m) s = Some (Inr (), upd_page i p' s) \<and> page_ok p' (fuse T m)"
proof -
  let ?F = "fuse T m"
  have len: "length (slots t) = length (slots T)" "map slot_rep (slots t) = map slot_rep (slots T)"
    using T by (simp_all flip: nl_ptop leaves_ptop)
  define l where "l = length (slots T) - 1"
  have m: "length (slots T) = Suc l" "Suc m \<le> l" "Suc m < length (slots t)" "m < length (slots t)"
    using direct_pair_less [OF d(1)] len by (auto simp: l_def nl_ptop)
  have sz: "page_size p = int (Suc l)" "page_size p - 1 = int l" "l < 339" "length (np_reps p) = 339" "length (np_routes p) = 338"
    using page_ok_size [OF p(2)] p(2) m(1) len by (auto simp: nl_ptop page_ok_def page_rep_def)
  obtain R1 R2 where R: "shift_down (np_reps p) (int (Suc m)) (int l) = Some R1" "put_at R1 (int l) 0 = Some R2"
    "length R2 = 339" "take l R2 = take (Suc m) (np_reps p) @ drop (Suc (Suc m)) (take (Suc l) (np_reps p))"
    using close_slot_spec [OF sz(4,3) m(2)] by blast
  note sf = slots_fuse [OF d]
  have nlF: "nl (ptop ?F) = l"
    using sf m by (simp add: nl_ptop)
  have reps: "take (Suc l) (np_reps p) = map slot_rep (slots T)"
    using page_reps_take [OF p(2)] len m(1) by simp
  have "take (Suc m) (np_reps p) = take (Suc m) (map slot_rep (slots T))"
    unfolding reps [symmetric] using m by simp
  also have "\<dots> = map slot_rep (take m (slots T)) @ [kChildTag OR a]"
    using m d(2) by (simp add: take_Suc_conv_app_nth take_map)
  finally have "take l R2 = map slot_rep (slots ?F)"
    using R(4) reps sf by (simp add: drop_map)
  moreover have "uint (of_nat l :: u16) = int l"
    by (rule of_nat_u16_size) (use sz(3) in simp)
  ultimately have rs: "reps_set (p\<lparr>np_reps := R2, np_size := of_nat l\<rparr>) ?F"
    using R(3) sz nlF by (simp add: reps_set_def len_ok_def)
  let ?s = "upd_page i (p\<lparr>np_reps := R2, np_size := of_nat l\<rparr>) s"
  have "hord (ptop ?F)"
    using pat_hord_ptop [of kf ?F] f(3) by (simp add: ktree_def flat_fuse)
  then obtain p' where p': "RebuildNodeWithDiffs i (diffs (ptop ?F)) ?s = Some (Inr (), upd_page i p' ?s)" "page_ok p' ?F"
    using RebuildNodeWithDiffs_spec [OF upd_page_same [OF p(1)] rs slots_held_upd_page [OF f(1,2)]] by blast
  have c: "(int (Suc m) < 0 \<or> int (Suc m) \<ge> page_size p \<or> int m < 0 \<or> int m \<ge> int l) = False"
    "int m + 1 = int (Suc m)"
    using sz(1) m by auto
  have ds: "take m (diffs (ptop t)) @ drop (Suc m) (diffs (ptop t)) = diffs (ptop ?F)"
    using sf T by simp
  have zr: "zeros (int l) = Some (replicate (nl (ptop t) - 1) 0)"
    using page_diffs(1) [OF p(2)] sz(2) by simp
  have sl: "slice (diffs (ptop t)) (int (Suc m)) (int l) = Some (drop (Suc m) (diffs (ptop t)))"
    using page_diff_slices(2) [OF p(2) m(3)] sz(2) by simp
  have w: "word_of_int (int l) = (of_nat l :: u16)"
    by simp
  have "RemoveMergedParentRep i (int (Suc m)) (int m) s = Some (Inr (), upd_page i p' s)"
    unfolding RemoveMergedParentRep_def
    by (simp only: op_simps deref_live [OF p(1)] c if_False sz(2) zr page_diffs(2) [OF p(2)]
      page_diff_slices(1) [OF p(2) m(4)] sl R(1,2) w store_page_live [OF p(1)] ds p'(1) upd_page_twice)
  then show ?thesis
    using p'(2) by blast
qed

lemma shrunk_before:
  assumes "shrunk s1 i P s' T" "\<And>k. k \<notin> insert i P \<Longrightarrow> page_of s1 k = page_of s k"
  shows "shrunk s i P s' T"
  using assms unfolding shrunk_def by simp

lemma merge_siblings_spec:
  assumes ok: "store_ok s" and p: "page_of s i = Some p" "page_ok p t" and T: "ptop T = ptop t"
    and d: "direct_pair (ptop T) m" "slots T ! m = Sub a x" "slots T ! Suc m = Sub b y"
    and fits: "nl (ptop x) + nl (ptop y) \<le> 339"
    and h: "slots_held (page_of s) (slots T)" "distinct (i # pids T)" "0 \<notin> set (pids T)" "pat (ktree kf T)"
  shows "\<exists>s'. merge_siblings i (int m) a a (int (Suc m)) b b s = Some (Inr (), s') \<and>
    shrunk s i (set (pids T)) s' (fuse T m)"
proof -
  let ?F = "fuse T m" and ?e = "diffs (ptop t) ! m"
  let ?u = "Br x ?e y"
  have "Suc m < nl (ptop T)"
    by (rule direct_pair_less [OF d(1)])
  then have m: "m < length (slots T)" "Suc m < length (slots T)" "m < length (diffs (ptop t))"
    using T by (simp_all add: nl_ptop [symmetric])
  have "Sub a x \<in> set (slots T)" "Sub b y \<in> set (slots T)"
    using m d by (metis nth_mem)+
  then have ab: "holds (page_of s) a x" "holds (page_of s) b y"
    using h(1) by (fastforce simp: slots_held_def)+
  have ua: "untagged a"
    using h(1) \<open>Sub a x \<in> set (slots T)\<close> by (fastforce simp: slots_held_def)
  obtain pa where pa: "page_of s a = Some pa" "page_ok pa x"
    using holds_page [OF ab(1)] by blast
  obtain pb where pb: "page_of s b = Some pb" "page_ok pb y"
    using holds_page [OF ab(2)] by blast
  have pf: "set (pids ?F) = set (pids T) - {b}" "distinct (pids ?F)" "a \<in> set (pids T)" "b \<in> set (pids T)" "a \<noteq> b"
    "distinct (a # pids ?u)" "b \<notin> set (pids ?u)"
    using pids_fuse [OF d] h(2) by auto
  note sf = slots_fuse [OF d, unfolded T]
  have slotF: "Sub a ?u \<in> set (slots ?F)"
    using sf by simp
  have patF: "pat (ktree kf ?F)"
    using h(4) by (simp add: ktree_def flat_fuse)
  then have hu: "hord (ptop ?u)"
    using pat_slot [OF _ slotF] pat_hord_ptop [of kf ?u] by simp
  have su: "slots_held (page_of s) (slots ?u)"
    by (rule slots_held_Un [OF holds_slots_held [OF ab(1)] holds_slots_held [OF ab(2)]]) simp
  obtain pa' where pa': "WriteNodeWithDiffs a (map slot_rep (slots ?u)) (diffs (ptop ?u)) s = Some (Inr (), upd_page a pa' s)"
    "page_ok pa' ?u"
    using WriteNodeWithDiffs_spec [OF pa(1) page_ok_len [OF pa(2)] su _ _ hu] pf(6) fits by auto
  let ?s1 = "upd_page a pa' s"
  have ai: "a \<noteq> i" "b \<noteq> i"
    using pf(3,4) h(2) by auto
  have "holds (page_of ?s1) a ?u"
    using pa(1) pa'(2) pf(6) slots_held_upd_page [OF su, of a pa'] by (intro holds_of_slots) auto
  then have "slots_held (page_of ?s1) [Sub a ?u]"
    using ua by (simp add: slots_held_def)
  moreover have "slots_held (page_of ?s1) (others T m)"
  proof (rule slots_held_agree [where A = "set (pids T) - set (pids (slots T ! m))" and g = "page_of s"])
    show "slots_held (page_of s) (others T m)"
      by (rule slots_held_sub [OF h(1) others_subset])
    show "set (pids c) \<subseteq> set (pids T) - set (pids (slots T ! m))" if "c \<in> set (others T m)" for c
      using others_pids [OF m(1) _ that] h(2) by simp
    show "page_of ?s1 k = page_of s k" if "k \<in> set (pids T) - set (pids (slots T ! m))" for k
      using that d(2) by (intro upd_page_other) auto
  qed
  moreover have "set (slots ?F) \<subseteq> set [Sub a ?u] \<union> set (others T m)"
    using sf set_drop_subset_set_drop [of "Suc m" "Suc (Suc m)" "slots T"] by (auto simp: others_def)
  ultimately have heldF: "slots_held (page_of ?s1) (slots ?F)"
    by (rule slots_held_Un)
  have i1: "page_of ?s1 i = Some p"
    using p(1) ai(1) by simp
  obtain p' where p': "RemoveMergedParentRep i (int (Suc m)) (int m) ?s1 = Some (Inr (), upd_page i p' ?s1)" "page_ok p' ?F"
    using RemoveMergedParentRep_spec [OF i1 p(2) T d heldF _ h(4)] pf(1) h(2) by auto
  have "b \<notin> insert i (set (pids ?F))" "b \<noteq> 0" "distinct (i # pids ?F)" "page_of ?s1 b = Some pb"
    using ai pf h(2,3) pb(1) by auto
  then obtain s' where s': "FreeNode b (upd_page i p' ?s1) = Some (Inr (), s')" "shrunk ?s1 i (insert b (set (pids ?F))) s' ?F"
    using shrunk_write_free [OF store_ok_upd_page(1) [OF ok pa(1)] i1 p'(2) heldF] by blast
  have "insert b (set (pids ?F)) = set (pids T)"
    using pf(1,4) by auto
  then have sh: "shrunk ?s1 i (set (pids T)) s' ?F"
    using s'(2) by simp
  have "shrunk s i (set (pids T)) s' ?F"
  proof (rule shrunk_before [OF sh])
    show "page_of ?s1 k = page_of s k" if "k \<notin> insert i (set (pids T))" for k
      using that pf(3) by (intro upd_page_other) blast
  qed
  moreover have "merge_siblings i (int m) a a (int (Suc m)) b b s = Some (Inr (), s')"
  proof -
    have rs: "slice (np_reps pa) 0 (page_size pa) = Some (map slot_rep (slots x))"
      "slice (np_reps pb) 0 (page_size pb) = Some (map slot_rep (slots y))"
      using page_slices_at(1) [OF pa(2), of "length (slots x)"] page_slices_at(1) [OF pb(2), of "length (slots y)"]
        page_ok_size [OF pa(2)] page_ok_size [OF pb(2)] by (simp_all add: nl_ptop)
    have at: "at (diffs (ptop t)) (int m) = Some ?e"
      by (rule at_int [OF m(3)])
    have w: "WriteNodeWithDiffs a (map slot_rep (slots x) @ map slot_rep (slots y)) (diffs (ptop x) @ [?e] @ diffs (ptop y)) s =
        Some (Inr (), ?s1)"
      using pa'(1) by simp
    show ?thesis
      unfolding merge_siblings_def
      by (simp only: op_simps deref_live [OF p(1)] deref_live [OF pa(1)] deref_live [OF pb(1)] rs page_diffs [OF p(2)]
        page_diffs [OF pa(2)] page_diffs [OF pb(2)] at w p'(1) s'(1))
  qed
  ultimately show ?thesis
    by blast
qed

section \<open>MergeChildWithSibling\<close>

definition nb :: "ctree \<Rightarrow> int \<Rightarrow> u64 \<times> u64 \<times> int" where
  "nb T k =
     (if 0 \<le> k \<and> k < int (length (slots T))
      then case slots T ! nat k of Sub b y \<Rightarrow> (b, b, int (length (slots y))) | _ \<Rightarrow> (0, 0, -1)
      else (0, 0, -1))"

lemma neighbour_nb:
  assumes "page_ok p t" "ptop T = ptop t" "slots_held (page_of s) (slots T)"
  shows "neighbour p k s = Some (Inr (nb T k), s)"
proof (cases "0 \<le> k \<and> k < page_size p")
  case True
  have len: "length (slots T) = length (slots t)" "map slot_rep (slots T) = map slot_rep (slots t)"
    using assms(2) by (simp_all flip: nl_ptop leaves_ptop)
  then obtain m where m: "k = int m" "m < length (slots T)" "m < length (slots t)"
    using True page_ok_size [OF assms(1)] by (metis nl_ptop of_nat_less_iff zero_le_imp_eq_int)
  have "slot_rep (slots t ! m) = slot_rep (slots T ! m)"
    using m len(2) by (metis nth_map)
  then have at: "at (np_reps p) k = Some (slot_rep (slots T ! m))"
    using page_ok_at [OF assms(1) m(3)] m(1) by simp
  have "slots T ! m \<in> set (slots T)"
    using m(2) by simp
  then consider q where "slots T ! m = Rec q" "untagged q"
    | b y where "slots T ! m = Sub b y" "untagged b" "holds (page_of s) b y"
    using assms(3) unfolding slots_held_def by blast
  then show ?thesis
  proof cases
    case 1
    then show ?thesis
      using True at m by (simp add: neighbour_def nb_def op_simps)
  next
    case 2
    obtain pb where pb: "page_of s b = Some pb" "page_ok pb y"
      using holds_page [OF 2(3)] by blast
    then show ?thesis
      using True at m 2 page_ok_size [OF pb(2)] by (simp add: neighbour_def nb_def op_simps nl_ptop)
  qed
next
  case False
  have "page_size p = int (length (slots T))"
    using page_ok_size [OF assms(1)] assms(2) by (simp flip: nl_ptop)
  then show ?thesis
    using False by (auto simp: neighbour_def nb_def op_simps)
qed

lemma nb_page:
  assumes "nb T k = (b, b', l)" "0 \<le> l"
  shows "\<exists>m y. k = int m \<and> m < length (slots T) \<and> slots T ! m = Sub b y \<and> b' = b \<and> l = int (length (slots y))"
  using assms by (intro exI [of _ "nat k"]) (auto simp: nb_def split: if_splits ctree.splits)

lemma can_merge_spec:
  assumes "page_ok p t"
  shows "\<exists>r. can_merge p l c k s = Some (Inr r, s) \<and> (r \<longrightarrow> 0 \<le> l \<and> l + c \<le> 339 \<and> 0 \<le> k \<and> direct_pair (ptop t) (nat k))"
proof (cases "0 \<le> l \<and> l + c \<le> 339")
  case True
  have rep: "page_rep p (ptop t)"
    using assms by (simp add: page_ok_def)
  have "\<exists>r. IsDirectRoutePair p k = Some r \<and> (r \<longrightarrow> 0 \<le> k \<and> direct_pair (ptop t) (nat k))"
  proof (cases "0 \<le> k")
    case True
    then obtain m where "k = int m"
      by (metis zero_le_imp_eq_int)
    then show ?thesis
      using IsDirectRoutePair_rep [OF rep, of m] by simp
  qed (auto simp: IsDirectRoutePair_def)
  then show ?thesis
    using True by (auto simp: can_merge_def op_simps kMaxNodeReps_def)
qed (auto simp: can_merge_def op_simps kMaxNodeReps_def)

lemma child_new_slot:
  assumes "child_new kf s i t n j u"
  shows "ptop (set_slot t n (Sub j u)) = ptop t" "slots (set_slot t n (Sub j u)) ! n = Sub j u"
    "length (slots (set_slot t n (Sub j u))) = length (slots t)"
proof -
  obtain v where v: "n < length (slots t)" "slots t ! n = Sub j v"
    using assms by (auto simp: child_new_def)
  then show "ptop (set_slot t n (Sub j u)) = ptop t"
    by (rule ptop_set_slot_same)
  show "slots (set_slot t n (Sub j u)) ! n = Sub j u" "length (slots (set_slot t n (Sub j u))) = length (slots t)"
    using v(1) by (simp_all add: slots_set_slot nth_append)
qed

lemma MergeChildWithSibling_spec:
  assumes c: "child_new kf s i t n j u"
  defines "T \<equiv> set_slot t n (Sub j u)"
  shows "\<exists>r s'. MergeChildWithSibling i (int n) j j s = Some (Inr r, s') \<and>
    (if r then \<exists>T'. flat T' = flat T \<and> shrunk s i (set (pids T)) s' T' else s' = s)"
proof -
  obtain p where p: "page_of s i = Some p" "page_ok p t"
    using c by (auto simp: child_new_def)
  obtain q where q: "page_of s j = Some q" "page_ok q u"
    using c holds_page [of "page_of s" j u] by (auto simp: child_new_def)
  note T = child_new_slot [OF c, folded T_def]
  have h: "store_ok s" "slots_held (page_of s) (slots T)" "distinct (i # pids T)" "0 \<notin> set (pids T)" "pat (ktree kf T)"
    using c child_new_slots(1) [OF c] unfolding T_def child_new_def by blast+
  obtain lid lpg lsz where l: "nb T (int n - 1) = (lid, lpg, lsz)"
    by (metis prod_cases3)
  obtain rid rpg rsz where r: "nb T (int n + 1) = (rid, rpg, rsz)"
    by (metis prod_cases3)
  obtain cl where cl: "can_merge p lsz (page_size q) (int n - 1) s = Some (Inr cl, s)"
    "cl \<longrightarrow> 0 \<le> lsz \<and> lsz + page_size q \<le> 339 \<and> 0 \<le> int n - 1 \<and> direct_pair (ptop t) (nat (int n - 1))"
    using can_merge_spec [OF p(2)] by blast
  obtain cr where cr: "can_merge p rsz (page_size q) (int n) s = Some (Inr cr, s)"
    "cr \<longrightarrow> 0 \<le> rsz \<and> rsz + page_size q \<le> 339 \<and> 0 \<le> int n \<and> direct_pair (ptop t) (nat (int n))"
    using can_merge_spec [OF p(2)] by blast
  have qsz: "page_size q = int (nl (ptop u))"
    using page_ok_size [OF q(2)] by simp
  have run: "MergeChildWithSibling i (int n) j j s =
      (if \<not> cl \<and> \<not> cr then ret False
       else if cr \<and> (\<not> cl \<or> rsz > lsz)
       then bindM (MergeRightSibling i (int n) j j (int n + 1) rid rpg) (\<lambda>_. ret True)
       else bindM (MergeLeftSibling i (int n - 1) lid lpg (int n) j j) (\<lambda>_. ret True)) s"
    unfolding MergeChildWithSibling_def
    by (simp only: op_simps deref_live [OF p(1)] deref_live [OF q(1)] neighbour_nb [OF p(2) T(1) h(2)] l r cl(1) cr(1) prod.case)
  show ?thesis
  proof (cases "\<not> cl \<and> \<not> cr")
    case True
    then show ?thesis
      using run by (auto simp: op_simps)
  next
    case no: False
    show ?thesis
    proof (cases "cr \<and> (\<not> cl \<or> rsz > lsz)")
      case True
      then obtain m y where y: "int n + 1 = int m" "slots T ! m = Sub rid y" "rpg = rid" "rsz = int (nl (ptop y))"
        using nb_page [OF r] cr(2) by (auto simp: nl_ptop)
      then have m: "m = Suc n"
        by linarith
      then have y': "slots T ! Suc n = Sub rid y" "int n + 1 = int (Suc n)"
        using y(2) m by simp_all
      have fits: "nl (ptop u) + nl (ptop y) \<le> 339" "direct_pair (ptop T) n"
        using True cr(2) y(4) qsz T(1) by auto
      obtain s' where s': "merge_siblings i (int n) j j (int (Suc n)) rid rid s = Some (Inr (), s')"
        "shrunk s i (set (pids T)) s' (fuse T n)"
        using merge_siblings_spec [OF h(1) p T(1) fits(2) T(2) y'(1) fits(1) h(2-5)] by blast
      have "MergeChildWithSibling i (int n) j j s = Some (Inr True, s')"
        using run no True s'(1) [folded y'(2)] y(3) by (simp add: op_simps MergeRightSibling_def)
      then show ?thesis
        using s'(2) flat_fuse [of T n] by auto
    next
      case False
      then have t: cl
        using no by blast
      then obtain m y where y: "int n - 1 = int m" "slots T ! m = Sub lid y" "lpg = lid" "lsz = int (nl (ptop y))"
        using nb_page [OF l] cl(2) by (auto simp: nl_ptop)
      then have m: "n = Suc m"
        by linarith
      have fits: "nl (ptop y) + nl (ptop u) \<le> 339" "direct_pair (ptop T) m" "slots T ! Suc m = Sub j u"
        using t cl(2) y(1,4) qsz T(1,2) m by auto
      obtain s' where s': "merge_siblings i (int m) lid lid (int (Suc m)) j j s = Some (Inr (), s')"
        "shrunk s i (set (pids T)) s' (fuse T m)"
        using merge_siblings_spec [OF h(1) p T(1) fits(2) y(2) fits(3,1) h(2-5)] by blast
      have "MergeChildWithSibling i (int n) j j s = Some (Inr True, s')"
        using run s'(1) [folded m y(1)] y(3)
        unfolding if_not_P [OF no] if_not_P [OF False] by (simp add: op_simps MergeLeftSibling_def)
      then show ?thesis
        using s'(2) flat_fuse [of T m] by auto
    qed
  qed
qed

section \<open>After the deletion below a page\<close>

lemma RebuildParentAfterChildBoundary_spec:
  assumes c: "child_new kf s i t n j u" "slots t ! n = Sub j v"
  shows "\<exists>p'. RebuildParentAfterChildBoundary i (int n) j (minp v) (maxp v) s = Some (Inr (), upd_page i p' s) \<and>
    page_ok p' (set_slot t n (Sub j u))"
proof -
  let ?T = "set_slot t n (Sub j u)"
  obtain p where p: "page_of s i = Some p" "page_ok p t" and n: "n < length (slots t)"
    using c by (auto simp: child_new_def)
  obtain q where q: "page_of s j = Some q" "page_ok q u"
    using c holds_page [of "page_of s" j u] by (auto simp: child_new_def)
  define p1 where "p1 = (if np_first q \<noteq> minp v \<and> int n = 0 then p\<lparr>np_first := np_first q\<rparr> else p)"
  define p2 where "p2 = (if np_last q \<noteq> maxp v \<and> int n = page_size p - 1 then p1\<lparr>np_last := np_last q\<rparr> else p1)"
  have sz: "page_size p = int (length (slots t))"
    using page_ok_size [OF p(2)] by (simp add: nl_ptop)
  have upd: "np_first p2 = (if minp u \<noteq> minp v \<and> n = 0 then minp u else minp t)"
    "np_last p2 = (if maxp u \<noteq> maxp v \<and> Suc n = length (slots t) then maxp u else maxp t)"
    "page_rep p2 (ptop t)"
    using q(2) p(2) sz by (simp_all add: page_ok_def page_rep_bounds p1_def p2_def)
  have "page_ok p2 ?T"
    unfolding page_ok_def child_new_slot(1) [OF c(1)] upd
    using upd(3) bounds_set_slot [OF n, of j u] bounds_slot [OF n c(2)] by simp
  moreover have "RebuildParentAfterChildBoundary i (int n) j (minp v) (maxp v) s = Some (Inr (), upd_page i p2 s)"
    unfolding RebuildParentAfterChildBoundary_def
    by (simp only: op_simps deref_live [OF p(1)] deref_live [OF q(1)] Let_def p1_def [symmetric] p2_def [symmetric]
      store_page_live [OF p(1)])
  ultimately show ?thesis
    by blast
qed

lemma shrunk_upd_page:
  assumes c: "child_new kf s i t n j u" and p': "page_ok p' (set_slot t n (Sub j u))"
  shows "shrunk s i (set (pids (set_slot t n (Sub j u)))) (upd_page i p' s) (set_slot t n (Sub j u))"
proof -
  let ?T = "set_slot t n (Sub j u)"
  obtain p where p: "page_of s i = Some p"
    using c by (auto simp: child_new_def)
  have d: "distinct (i # pids ?T)" "store_ok s"
    using c by (simp_all add: child_new_def)
  have "slots_held (page_of (upd_page i p' s)) (slots ?T)"
    using d by (intro slots_held_upd_page child_new_slots(1) [OF c]) simp
  then have "holds (page_of (upd_page i p' s)) i ?T"
    using p p' d by (intro holds_of_slots) auto
  then show ?thesis
    using store_ok_upd_page(1) [OF d(2) p] by (simp add: shrunk_def)
qed

lemma shrunk_same:
  assumes c: "child_new kf s i t n j u" "slots t ! n = Sub j v" "minp u = minp v" "maxp u = maxp v"
  shows "shrunk s i (set (pids (set_slot t n (Sub j u)))) s (set_slot t n (Sub j u))"
proof -
  let ?T = "set_slot t n (Sub j u)"
  obtain p where p: "page_of s i = Some p" "page_ok p t" and n: "n < length (slots t)"
    using c by (auto simp: child_new_def)
  have d: "distinct (i # pids ?T)" "store_ok s"
    using c(1) by (simp_all add: child_new_def)
  have "minp ?T = minp t" "maxp ?T = maxp t"
    using bounds_set_slot [OF n, of j u] bounds_slot [OF n c(2)] c(3,4) by auto
  then have "page_ok p ?T"
    using p(2) child_new_slot(1) [OF c(1)] by (simp add: page_ok_def)
  then have "holds (page_of s) i ?T"
    by (rule holds_of_slots [OF p(1) _ d(1) child_new_slots(1) [OF c(1)]])
  then show ?thesis
    using d(2) by (simp add: shrunk_def)
qed

theorem after_child_delete_spec:
  assumes c: "child_new kf s i t n j u" "slots t ! n = Sub j v"
  defines "T \<equiv> set_slot t n (Sub j u)"
  shows "\<exists>s' T'. after_child_delete i (int n) j j (minp v) (maxp v) r s = Some (Inr r, s') \<and>
    flat T' = flat T \<and> shrunk s i (set (pids T)) s' T'"
proof -
  obtain p where p: "page_of s i = Some p" "page_ok p t"
    using c by (auto simp: child_new_def)
  obtain q where q: "page_of s j = Some q" "page_ok q u"
    using c holds_page [of "page_of s" j u] by (auto simp: child_new_def)
  have sz: "page_size p = int (nl (ptop t))" "page_size q = int (nl (ptop u))" "(np_size q = 0) = False"
    using page_ok_size [OF p(2)] page_ok_size [OF q(2)] by simp_all
  have qb: "np_first q = minp u" "np_last q = maxp u"
    using q(2) by (simp_all add: page_ok_def)
  have run: "after_child_delete i (int n) j j (minp v) (maxp v) r s =
      (if page_size p - 1 + page_size q \<le> kMaxNodeReps
       then bindM (MergeChildIntoParent i (int n) j j) (\<lambda>_. ret r)
       else bindM (if page_size q < kMaxNodeReps div 32 then MergeChildWithSibling i (int n) j j else ret False) (\<lambda>merged.
         if merged then ret r
         else if minp u = minp v \<and> maxp u = maxp v then ret r
         else bindM (RebuildParentAfterChildBoundary i (int n) j (minp v) (maxp v)) (\<lambda>_. ret r))) s"
    unfolding after_child_delete_def
    by (simp only: op_simps deref_live [OF p(1)] deref_live [OF q(1)] sz(3) if_False qb)
  show ?thesis
  proof (cases "page_size p - 1 + page_size q \<le> kMaxNodeReps")
    case True
    then have "nl (ptop t) - 1 + nl (ptop u) \<le> 339"
      using sz(1,2) nl_pos [of "ptop t"] by (simp add: kMaxNodeReps_def)
    then obtain s' where s': "MergeChildIntoParent i (int n) j j s = Some (Inr (), s')"
      "shrunk s i (set (pids T)) s' (set_slot t n u)"
      using MergeChildIntoParent_spec [OF c(1)] unfolding T_def by blast
    have "flat (set_slot t n u) = flat T"
      unfolding T_def by (rule flat_set_slot_cong) simp
    then show ?thesis
      using run True s' by (auto simp: op_simps)
  next
    case big: False
    obtain m s1 where m: "(if page_size q < kMaxNodeReps div 32 then MergeChildWithSibling i (int n) j j else ret False) s =
        Some (Inr m, s1)" "if m then \<exists>T'. flat T' = flat T \<and> shrunk s i (set (pids T)) s1 T' else s1 = s"
      using MergeChildWithSibling_spec [OF c(1)] unfolding T_def by (cases "page_size q < kMaxNodeReps div 32") (auto simp: ret_apply)
    have run2: "after_child_delete i (int n) j j (minp v) (maxp v) r s =
        (if m then ret r
         else if minp u = minp v \<and> maxp u = maxp v then ret r
         else bindM (RebuildParentAfterChildBoundary i (int n) j (minp v) (maxp v)) (\<lambda>_. ret r)) s1"
      unfolding run using big m(1) by (simp only: if_False op_simps)
    show ?thesis
    proof (cases m)
      case True
      then show ?thesis
        using run2 m(2) by (auto simp: op_simps)
    next
      case False
      then have s1: "s1 = s"
        using m(2) by simp
      show ?thesis
      proof (cases "minp u = minp v \<and> maxp u = maxp v")
        case True
        then show ?thesis
          using run2 s1 False shrunk_same [OF c] unfolding T_def by (auto simp: op_simps)
      next
        case no: False
        obtain p' where "RebuildParentAfterChildBoundary i (int n) j (minp v) (maxp v) s = Some (Inr (), upd_page i p' s)"
          "page_ok p' T"
          using RebuildParentAfterChildBoundary_spec [OF c] unfolding T_def by blast
        then show ?thesis
          using run2 s1 False no shrunk_upd_page [OF c(1)] unfolding T_def by (auto simp: op_simps)
      qed
    qed
  qed
qed

end
