(* ===== verification/IndexDelete.thy ===== *)
theory IndexDelete
  imports PageMerge IndexPut
begin

text \<open>
  The correctness of \<^verbatim>\<open>Delete\<close> (\<^verbatim>\<open>index.h\<close>): \<^verbatim>\<open>DeleteFrom\<close> removes the record of the key
  from the trie below a page and frees the pages that become superfluous, \<^verbatim>\<open>CompressRoot\<close>
  keeps the trie, and the entries of the index lose the key.
\<close>

section \<open>A slot is removed\<close>

lemma pids_cdel: "2 \<le> nl (ptop t) \<Longrightarrow> n < length (slots t) \<Longrightarrow> pids (cdel t n) = concat (map pids (others t n))"
  using slots_cdel [of t n] by (simp add: pids_slots [of "cdel t n"] others_def)

lemma set_pids_cdel:
  assumes "2 \<le> nl (ptop t)" "n < length (slots t)" "distinct (pids t)"
  shows "set (pids (cdel t n)) = set (pids t) - set (pids (slots t ! n))" "distinct (pids (cdel t n))"
  using assms(3) unfolding pids_cdel [OF assms(1,2)] pids_split [OF assms(2)] others_def by auto

lemma slots_held_cdel:
  "2 \<le> nl (ptop t) \<Longrightarrow> n < length (slots t) \<Longrightarrow> slots_held g (others t n) \<Longrightarrow> slots_held g (slots (cdel t n))"
  using slots_cdel [of t n] by (simp add: others_def)

lemma DeleteAtIncremental_holds:
  assumes p: "page_of s i = Some p" "page_ok p t" and n: "n < length (slots t)" "2 \<le> nl (ptop t)"
    and h: "store_ok s" "slots_held (page_of s) (others t n)" "distinct (i # pids t)"
  shows "\<exists>p'. DeleteAtIncremental i (int n) s = Some (Inr (), upd_page i p' s) \<and> page_ok p' (cdel t n) \<and>
    shrunk s i (set (pids (cdel t n))) (upd_page i p' s) (cdel t n)"
proof -
  obtain p' where p': "DeleteAtIncremental i (int n) s = Some (Inr (), upd_page i p' s)" "page_ok p' (cdel t n)"
    using DeleteAtIncremental_spec [OF p n h(2)] by blast
  have d: "distinct (i # pids (cdel t n))"
    using set_pids_cdel [OF n(2,1)] h(3) by auto
  have "slots_held (page_of (upd_page i p' s)) (slots (cdel t n))"
    using d by (intro slots_held_upd_page slots_held_cdel [OF n(2,1) h(2)]) simp
  then have "holds (page_of (upd_page i p' s)) i (cdel t n)"
    using p(1) p'(2) d by (intro holds_of_slots) auto
  then show ?thesis
    using p' store_ok_upd_page(1) [OF h(1) p(1)] by (auto simp: shrunk_def)
qed

section \<open>What a deletion below a page leaves\<close>

text \<open>
  The slot \<open>m\<close> of the trie \<open>t\<close> below page \<open>i\<close> is deleted: the pages hold the rest of the
  trie; when nothing is left, page \<open>i\<close> is empty and the pages below it are freed.
\<close>

definition emptied :: "heap_node_store \<Rightarrow> u64 \<Rightarrow> u64 set \<Rightarrow> heap_node_store \<Rightarrow> bool" where
  "emptied s i P s' \<longleftrightarrow>
     store_ok s' \<and> (\<exists>p. page_of s' i = Some p \<and> np_size p = 0 \<and> len_ok p) \<and> (\<forall>k \<in> P. page_of s' k = None) \<and>
     (\<forall>k. k \<notin> insert i P \<longrightarrow> page_of s' k = page_of s k)"

definition removed :: "heap_node_store \<Rightarrow> u64 \<Rightarrow> ctree \<Rightarrow> nat \<Rightarrow> heap_node_store \<Rightarrow> bool" where
  "removed s i t m s' \<longleftrightarrow>
     (if nl (flat t) = 1 then emptied s i (set (pids t)) s'
      else \<exists>t'. shrunk s i (set (pids t)) s' t' \<and> flat t' = tdel (flat t) m)"

lemma shrunk_compose:
  assumes "shrunk s j (set (pids v)) s1 u" "shrunk s1 i P1 s' t'"
    and "P1 = P - set (pids v) \<union> set (pids u)" "insert j (set (pids v)) \<subseteq> P" "j \<notin> set (pids v)" "i \<notin> P"
  shows "shrunk s i P s' t'"
proof -
  have u: "set (pids u) \<subseteq> set (pids v)" "\<And>k. k \<in> set (pids v) - set (pids u) \<Longrightarrow> page_of s1 k = None"
    "\<And>k. k \<notin> insert j (set (pids v)) \<Longrightarrow> page_of s1 k = page_of s k"
    using assms(1) by (auto simp: shrunk_def)
  have t': "store_ok s'" "holds (page_of s') i t'" "set (pids t') \<subseteq> P1" "\<And>k. k \<in> P1 - set (pids t') \<Longrightarrow> page_of s' k = None"
    "\<And>k. k \<notin> insert i P1 \<Longrightarrow> page_of s' k = page_of s1 k"
    using assms(2) by (auto simp: shrunk_def)
  have "page_of s' k = None" if k: "k \<in> P - set (pids t')" for k
  proof (cases "k \<in> P1")
    case True
    then show ?thesis
      using t'(4) k by blast
  next
    case False
    then have "k \<in> set (pids v) - set (pids u)" "k \<notin> insert i P1"
      using k assms(3,6) by blast+
    then show ?thesis
      using u(2) t'(5) by simp
  qed
  moreover have "page_of s' k = page_of s k" if "k \<notin> insert i P" for k
  proof -
    have "k \<notin> insert i P1" "k \<notin> insert j (set (pids v))"
      using that assms(3,4) u(1) by blast+
    then show ?thesis
      using t'(5) u(3) by simp
  qed
  moreover have "set (pids t') \<subseteq> P"
    using t'(3) u(1) assms(3,4) by blast
  ultimately show ?thesis
    using t'(1,2) unfolding shrunk_def by blast
qed

text \<open>The page of a slot after the deletion below it.\<close>

lemma child_newI:
  assumes h: "holds (page_of s) i t" "store_ok s" "0 \<notin> set (pids t)" and n: "n < length (slots t)" "slots t ! n = Sub j v"
    and s1: "shrunk s j (set (pids v)) s1 u" and pat: "pat (ktree kf (set_slot t n (Sub j u)))"
  shows "child_new kf s1 i t n j u"
    "set (pids (set_slot t n (Sub j u))) = set (pids t) - set (pids v) \<union> set (pids u)"
proof -
  have sj: "Sub j v \<in> set (slots t)"
    using n by (metis nth_mem)
  note hs = holds_slot [OF h(1) sj]
  have jv: "set (pids (Sub j v)) \<subseteq> set (pids t)" "j \<notin> set (pids v)"
    using pids_slot [OF sj] holds_distinct [OF hs(1)] by auto
  have u: "holds (page_of s1) j u" "set (pids u) \<subseteq> set (pids v)" "store_ok s1"
    "\<And>k. k \<notin> insert j (set (pids v)) \<Longrightarrow> page_of s1 k = page_of s k"
    using s1 by (auto simp: shrunk_def)
  have dt: "i \<notin> set (pids t)" "distinct (pids t)"
    using holds_distinct [OF h(1)] by simp_all
  have c: "distinct (pids (Sub j u))" "set (pids (Sub j u)) \<inter> (set (pids t) - set (pids (slots t ! n))) = {}"
    using holds_distinct [OF u(1)] u(2) n(2) by auto
  note pp = distinct_pids_set_slot [OF n(1) dt(2) c]
  show eq: "set (pids (set_slot t n (Sub j u))) = set (pids t) - set (pids v) \<union> set (pids u)"
    using pp(2) n(2) jv by auto
  have same: "page_of s1 k = page_of s k" if "k \<notin> set (pids (Sub j v))" for k
    using u(4) that by simp
  obtain p where p: "page_of s i = Some p" "page_ok p t"
    using holds_page [OF h(1)] by blast
  have "i \<notin> set (pids (Sub j v))"
    using dt(1) jv(1) by blast
  then have "page_of s1 i = Some p"
    using same p(1) by simp
  moreover have "slots_held (page_of s1) (others t n)"
  proof (rule slots_held_agree [where A = "set (pids t) - set (pids (Sub j v))" and g = "page_of s"])
    show "slots_held (page_of s) (others t n)"
      by (rule holds_others [OF h(1)])
    show "set (pids c) \<subseteq> set (pids t) - set (pids (Sub j v))" if "c \<in> set (others t n)" for c
      using others_pids [OF n(1) dt(2) that] n(2) by simp
    show "page_of s1 k = page_of s k" if "k \<in> set (pids t) - set (pids (Sub j v))" for k
      using same that by blast
  qed
  moreover have "set (pids (set_slot t n (Sub j u))) \<subseteq> set (pids t)"
    unfolding eq using u(2) jv(1) by auto
  ultimately show "child_new kf s1 i t n j u"
    using p(2) n pat u(1,3) hs(2) dt(1) h(3) pp(1) unfolding child_new_def by auto
qed

lemma after_child_empty_run:
  assumes "page_of s1 i = Some p" "page_of s1 j = Some c" "np_size c = 0"
    and "DeleteAtIncremental i (int n) s1 = Some (Inr (), s2)" "Free j s2 = Some (Inr (), s')"
  shows "after_child_delete i (int n) j j a b r s1 = Some (Inr r, s')"
  using assms by (simp add: after_child_delete_def op_simps FreeNode_def)

lemma after_child_empty:
  assumes h: "holds (page_of s) i t" "0 \<notin> set (pids t)" and n: "n < length (slots t)" "slots t ! n = Sub j v"
    and one: "nl (flat v) = 1" and s1: "emptied s j (set (pids v)) s1"
  shows "\<exists>s'. after_child_delete i (int n) j j a b r s1 = Some (Inr r, s') \<and> removed s i t (off t n) s'"
proof -
  have sj: "Sub j v \<in> set (slots t)"
    using n by (metis nth_mem)
  have jv: "set (pids (Sub j v)) \<subseteq> set (pids t)" "j \<notin> set (pids v)"
    using pids_slot [OF sj] holds_distinct [OF holds_slot(1) [OF h(1) sj]] by auto
  have dt: "i \<notin> set (pids t)" "distinct (pids t)" "distinct (i # pids t)"
    using holds_distinct [OF h(1)] by simp_all
  have ij: "i \<noteq> j" "j \<noteq> 0" "i \<notin> set (pids v)"
    using jv(1) dt(1) h(2) by auto
  obtain c where c: "page_of s1 j = Some c" "np_size c = 0" and ok: "store_ok s1"
    and gone: "\<And>k. k \<in> set (pids v) \<Longrightarrow> page_of s1 k = None"
    and same: "\<And>k. k \<notin> insert j (set (pids v)) \<Longrightarrow> page_of s1 k = page_of s k"
    using s1 unfolding emptied_def by blast
  obtain p where p: "page_of s i = Some p" "page_ok p t"
    using holds_page [OF h(1)] by blast
  have p1: "page_of s1 i = Some p"
    using same [of i] ij p(1) by simp
  have free: "\<exists>s'. Free j (upd_page i p' s1) = Some (Inr (), s') \<and> store_ok s' \<and>
      page_of s' = (page_of (upd_page i p' s1))(j := None)" for p'
  proof -
    have "page_of (upd_page i p' s1) j = Some c"
      using c(1) ij by simp
    then show ?thesis
      using Free_spec [OF store_ok_upd_page(1) [OF ok p1]] ij(2) by blast
  qed
  have rest: "page_of (upd_page i p' s1) k = page_of s k" if "k \<notin> insert i (set (pids (Sub j v)))" for k p'
    using that same [of k] by simp
  show ?thesis
  proof (cases "nl (ptop t) = 1")
    case True
    then have t: "t = Sub j v" "n = 0"
      using one_slot [OF True] n by simp_all
    obtain p' where p': "DeleteAtIncremental i 0 s1 = Some (Inr (), upd_page i p' s1)" "np_size p' = 0" "len_ok p'"
      using DeleteAtIncremental_last [OF p1 p(2) True] by blast
    obtain s' where s': "Free j (upd_page i p' s1) = Some (Inr (), s')" "store_ok s'"
      "page_of s' = (page_of (upd_page i p' s1))(j := None)"
      using free by blast
    have "after_child_delete i (int n) j j a b r s1 = Some (Inr r, s')"
      using after_child_empty_run [OF p1 c, where n = 0] p'(1) s'(1) t(2) by simp
    moreover have "emptied s i (set (pids t)) s'"
      unfolding emptied_def
    proof (intro conjI allI ballI impI exI)
      show "page_of s' i = Some p'"
        using s'(3) ij p1 by simp
      show "page_of s' k = None" if "k \<in> set (pids t)" for k
        using that s'(3) gone [of k] ij t(1) by (cases "k = i") auto
      show "page_of s' k = page_of s k" if "k \<notin> insert i (set (pids t))" for k
        using that s'(3) rest [of k] t(1) by simp
    qed (use s' p' in simp_all)
    ultimately show ?thesis
      using t(1) one by (auto simp: removed_def)
  next
    case False
    then have two: "2 \<le> nl (ptop t)"
      using nl_pos [of "ptop t"] by linarith
    have oth: "slots_held (page_of s1) (others t n)"
    proof (rule slots_held_agree [where A = "set (pids t) - set (pids (Sub j v))" and g = "page_of s"])
      show "slots_held (page_of s) (others t n)"
        by (rule holds_others [OF h(1)])
      show "set (pids c) \<subseteq> set (pids t) - set (pids (Sub j v))" if "c \<in> set (others t n)" for c
        using others_pids [OF n(1) dt(2) that] n(2) by simp
      show "page_of s1 k = page_of s k" if "k \<in> set (pids t) - set (pids (Sub j v))" for k
        using same [of k] that by auto
    qed
    obtain p' where p': "DeleteAtIncremental i (int n) s1 = Some (Inr (), upd_page i p' s1)"
      "shrunk s1 i (set (pids (cdel t n))) (upd_page i p' s1) (cdel t n)"
      using DeleteAtIncremental_holds [OF p1 p(2) n(1) two ok oth dt(3)] by blast
    obtain s' where s': "Free j (upd_page i p' s1) = Some (Inr (), s')" "store_ok s'"
      "page_of s' = (page_of (upd_page i p' s1))(j := None)"
      using free by blast
    have run: "after_child_delete i (int n) j j a b r s1 = Some (Inr r, s')"
      by (rule after_child_empty_run [OF p1 c p'(1) s'(1)])
    note pc = set_pids_cdel [OF two n(1) dt(2), unfolded n(2)]
    have "holds (page_of (upd_page i p' s1)) i (cdel t n)"
      using p'(2) by (simp add: shrunk_def)
    then have hc: "holds (page_of s') i (cdel t n)"
      by (rule holds_cong) (use s'(3) pc(1) ij in \<open>auto simp: ids_def\<close>)
    have "shrunk s i (set (pids t)) s' (cdel t n)"
      unfolding shrunk_def
    proof (intro conjI allI ballI impI)
      show "set (pids (cdel t n)) \<subseteq> set (pids t)"
        using pc(1) by blast
      show "page_of s' k = None" if "k \<in> set (pids t) - set (pids (cdel t n))" for k
      proof -
        have "k = j \<or> k \<in> set (pids v)"
          using that pc(1) by auto
        then show ?thesis
          using s'(3) gone [of k] ij by (cases "k = i") auto
      qed
      show "page_of s' k = page_of s k" if "k \<notin> insert i (set (pids t))" for k
      proof -
        have "k \<noteq> j" "k \<notin> insert i (set (pids (Sub j v)))"
          using that jv(1) by auto
        then show ?thesis
          using s'(3) rest [of k] by simp
      qed
    qed (use s'(2) hc in simp_all)
    moreover have "flat (cdel t n) = tdel (flat t) (off t n)"
      using flat_cdel [OF two n(1)] n(2) one by simp
    moreover have "nl (flat t) \<noteq> 1"
      using nl_flat_ge [of t] two by linarith
    ultimately show ?thesis
      using run by (auto simp: removed_def)
  qed
qed

text \<open>The page of the slot is not empty: it may be merged.\<close>

lemma after_child_left:
  assumes h: "holds (page_of s) i t" "store_ok s" "0 \<notin> set (pids t)" and n: "n < length (slots t)" "slots t ! n = Sub j v"
    and m: "m < nl (flat v)" "nl (flat v) \<noteq> 1" and s1: "removed s j v m s1" and pat: "pat (ktree kf t)"
  shows "\<exists>s'. after_child_delete i (int n) j j (minp v) (maxp v) r s1 = Some (Inr r, s') \<and>
    removed s i t (off t n + m) s'"
proof -
  obtain u where u: "shrunk s j (set (pids v)) s1 u" "flat u = tdel (flat v) m"
    using s1 m(2) by (auto simp: removed_def)
  let ?T = "set_slot t n (Sub j u)"
  have two: "2 \<le> nl (flat v)"
    using m(2) nl_pos [of "flat v"] by linarith
  have fT: "flat ?T = tdel (flat t) (off t n + m)"
    using flat_set_slot_tdel [OF n(1), of m "Sub j u"] n(2) m(1) two u(2) by simp
  then have "pat (ktree kf ?T)"
    using pat_tdel [OF pat, of "off t n + m"] by (simp add: ktree_def map_rtree_tdel)
  note cn = child_newI [OF h n u(1) this]
  obtain s' T' where s': "after_child_delete i (int n) j j (minp v) (maxp v) r s1 = Some (Inr r, s')"
    "flat T' = flat ?T" "shrunk s1 i (set (pids ?T)) s' T'"
    using after_child_delete_spec [OF cn(1)] by (metis n(2))
  have sj: "Sub j v \<in> set (slots t)"
    using n by (metis nth_mem)
  have "insert j (set (pids v)) \<subseteq> set (pids t)" "j \<notin> set (pids v)" "i \<notin> set (pids t)"
    using pids_slot [OF sj] holds_distinct [OF holds_slot(1) [OF h(1) sj]] holds_distinct [OF h(1)] by auto
  then have "shrunk s i (set (pids t)) s' T'"
    by (rule shrunk_compose [OF u(1) s'(3) cn(2)])
  moreover have "nl (flat t) \<noteq> 1"
    using off_less [OF n(1), of 1] n(2) two by simp
  ultimately show ?thesis
    using s'(1,2) fT by (auto simp: removed_def)
qed

section \<open>DeleteFrom\<close>

text \<open>The key of the reached record decides; only then anything changes.\<close>

definition deletes ::
  "(pos \<Rightarrow> key) \<Rightarrow> heap_node_store \<Rightarrow> u64 \<Rightarrow> ctree \<Rightarrow> key \<Rightarrow> ((mp_status + delete_result) \<times> heap_node_store) option \<Rightarrow> bool" where
  "deletes kf s i t key r \<longleftrightarrow>
     (let p = leaves (flat t) ! tslot (flat t) key in
      if kf p = key
      then \<exists>s'. r = Some (Inr \<lparr>del_pos = p, del_deleted = True\<rparr>, s') \<and> removed s i t (tslot (flat t) key) s'
      else r = Some (Inr \<lparr>del_pos = 0, del_deleted = False\<rparr>, s))"

lemma removed_record:
  assumes h: "holds (page_of s) i t" "store_ok s" and n: "n < length (slots t)" "slots t ! n = Rec q"
  shows "\<exists>s'. DeleteAtIncremental i (int n) s = Some (Inr (), s') \<and> removed s i t (off t n) s'"
proof -
  obtain p where p: "page_of s i = Some p" "page_ok p t"
    using holds_page [OF h(1)] by blast
  have d: "distinct (i # pids t)"
    by (rule holds_distinct [OF h(1)])
  show ?thesis
  proof (cases "nl (ptop t) = 1")
    case True
    then have t: "t = Rec q" "n = 0"
      using one_slot [OF True] n by simp_all
    obtain p' where p': "DeleteAtIncremental i 0 s = Some (Inr (), upd_page i p' s)" "np_size p' = 0" "len_ok p'"
      using DeleteAtIncremental_last [OF p True] by blast
    then have "emptied s i (set (pids t)) (upd_page i p' s)"
      using store_ok_upd_page(1) [OF h(2) p(1)] p(1) t(1) by (simp add: emptied_def)
    then show ?thesis
      using p'(1) t by (simp add: removed_def)
  next
    case False
    then have two: "2 \<le> nl (ptop t)"
      using nl_pos [of "ptop t"] by linarith
    obtain p' where p': "DeleteAtIncremental i (int n) s = Some (Inr (), upd_page i p' s)"
      "shrunk s i (set (pids (cdel t n))) (upd_page i p' s) (cdel t n)"
      using DeleteAtIncremental_holds [OF p n(1) two h(2) holds_others [OF h(1)] d] by blast
    have "set (pids (cdel t n)) = set (pids t)"
      using set_pids_cdel(1) [OF two n(1)] d n(2) by simp
    moreover have "flat (cdel t n) = tdel (flat t) (off t n)"
      using flat_cdel [OF two n(1)] n(2) by simp
    moreover have "nl (flat t) \<noteq> 1"
      using nl_flat_ge [of t] two by linarith
    ultimately show ?thesis
      using p' by (auto simp: removed_def)
  qed
qed

theorem DeleteFrom_spec:
  "holds (page_of s) i t \<Longrightarrow> store_ok s \<Longrightarrow> 0 \<notin> set (pids t) \<Longrightarrow> pat (ktree kf t) \<Longrightarrow>
   keys_of K kf (set (leaves (flat t))) \<Longrightarrow> deletes kf s i t key (DeleteFrom K i key s)"
proof (induction "size t" arbitrary: i t rule: less_induct)
  case less
  note h = less.prems(1-3)
  obtain p n where p: "page_of s i = Some p" "page_ok p t" "n = tslot (ptop t) key" "n < length (slots t)"
    "Lookup p key = Some (int n, True)" "at (np_reps p) (int n) = Some (slot_rep (slots t ! n))"
    using page_descend [OF h(1), of key] by metis
  define x where "x = leaves (flat t) ! tslot (flat t) key"
  have x: "x = leaves (flat (slots t ! n)) ! tslot (flat (slots t ! n)) key" "tslot (flat t) key = off t n + tslot (flat (slots t ! n)) key"
    using flat_tslot_slot [of t key] tslot_off [of t key] p(3) x_def by simp_all
  have Kx: "Key K x = Inr (kf x)"
    using Key_keys_of [OF less.prems(5)] tslot_leaf [of "flat t" key] x_def by simp
  from h(1) p(4) show ?case
  proof (cases rule: slot_nth_cases)
    case (1 q)
    then have q: "x = q" "tslot (flat t) key = off t n"
      using x by simp_all
    obtain s' where s': "DeleteAtIncremental i (int n) s = Some (Inr (), s')" "removed s i t (off t n) s'"
      using removed_record [OF h(1,2) p(4) 1(1)] by blast
    have "DeleteFrom K i key s =
        (if kf q = key then Some (Inr \<lparr>del_pos = q, del_deleted = True\<rparr>, s')
         else Some (Inr \<lparr>del_pos = 0, del_deleted = False\<rparr>, s))"
      using p(1,5,6) 1 Kx s'(1) q(1) by (subst DeleteFrom.simps) (simp add: op_simps)
    then show ?thesis
      unfolding deletes_def Let_def x_def [symmetric] unfolding q using s'(2) by simp
  next
    case (2 j v)
    obtain c where c: "page_of s j = Some c" "page_ok c v"
      using holds_page [OF 2(3)] by blast
    have cb: "np_first c = minp v" "np_last c = maxp v" "np_size c \<noteq> 0"
      using c(2) page_ok_size [OF c(2)] by (simp_all add: page_ok_def)
    have xv: "x = leaves (flat v) ! tslot (flat v) key" "tslot (flat t) key = off t n + tslot (flat v) key"
      using x 2(1) by simp_all
    have sub: "set (pids v) \<subseteq> set (pids t)" "set (leaves (flat v)) \<subseteq> set (leaves (flat t))"
      using pids_slot [OF 2(4)] slot_leaves_subset [OF 2(4)] by auto
    have pv: "pat (ktree kf v)"
      using pat_slot [OF less.prems(4) 2(4)] by simp
    have IH: "deletes kf s j v key (DeleteFrom K j key s)"
      using less.hyps [OF size_slot [OF 2(4)] 2(3) h(2) _ pv keys_of_subset [OF less.prems(5) sub(2)]] sub(1) h(3) by blast
    have run: "DeleteFrom K i key s = bindM (DeleteFrom K j key) (\<lambda>result.
        if \<not> del_deleted result then ret result
        else after_child_delete i (int n) j j (minp v) (maxp v) result) s"
      using p(1,5,6) 2(1,2) c(1) cb by (subst DeleteFrom.simps) (simp add: op_simps cong: if_cong)
    show ?thesis
    proof (cases "kf x = key")
      case False
      then have "DeleteFrom K j key s = Some (Inr \<lparr>del_pos = 0, del_deleted = False\<rparr>, s)"
        using IH by (simp add: deletes_def xv(1) [symmetric] Let_def)
      then show ?thesis
        using run False by (simp add: deletes_def x_def [symmetric] Let_def op_simps)
    next
      case True
      let ?r = "\<lparr>del_pos = x, del_deleted = True\<rparr>"
      obtain s1 where s1: "DeleteFrom K j key s = Some (Inr ?r, s1)" "removed s j v (tslot (flat v) key) s1"
        using IH True by (auto simp: deletes_def xv(1) [symmetric] Let_def)
      have "\<exists>s'. after_child_delete i (int n) j j (minp v) (maxp v) ?r s1 = Some (Inr ?r, s') \<and>
          removed s i t (off t n + tslot (flat v) key) s'"
      proof (cases "nl (flat v) = 1")
        case one: True
        then have "tslot (flat v) key = 0" "emptied s j (set (pids v)) s1"
          using tslot_less [of "flat v" key] s1(2) by (simp_all add: removed_def)
        then show ?thesis
          using after_child_empty [OF h(1,3) p(4) 2(1) one] by simp
      next
        case no: False
        show ?thesis
          by (rule after_child_left [OF h p(4) 2(1) tslot_less no s1(2) less.prems(4)])
      qed
      then show ?thesis
        using run s1(1) True unfolding deletes_def Let_def x_def [symmetric] unfolding xv(2) by (auto simp: op_simps)
    qed
  qed
qed

section \<open>CompressRoot\<close>

lemma bindM_bool [op_simps]:
  "m s = Some (Inr True, s') \<Longrightarrow> bindM m f s = f True s'" "m s = Some (Inr False, s') \<Longrightarrow> bindM m f s = f False s'"
  by (simp_all only: bindM_Inr)

lemma compress_step:
  assumes h: "holds (page_of s) 0 (Sub j v)" and ok: "store_ok s" and dom: "dom (page_of s) = ids 0 (Sub j v)"
  shows "\<exists>s1. compress_loop 0 s = compress_loop 0 s1 \<and> store_ok s1 \<and> holds (page_of s1) 0 v \<and> dom (page_of s1) = ids 0 v"
proof -
  obtain p where p: "page_of s 0 = Some p" "page_ok p (Sub j v)"
    using holds_page [OF h] by blast
  have hs: "holds (page_of s) j v" "untagged j"
    using holds_slot [OF h, of j v] by simp_all
  obtain c where c: "page_of s j = Some c" "page_ok c v"
    using holds_page [OF hs(1)] by blast
  have d: "j \<noteq> 0" "0 \<notin> set (pids v)" "j \<notin> set (pids v)" "distinct (0 # pids v)"
    using holds_distinct [OF h] by auto
  have at: "page_size p = 1" "at (np_reps p) 0 = Some (kChildTag OR j)"
    using page_ok_size [OF p(2)] page_ok_at [OF p(2), of 0] by simp_all
  have pj: "page_of (upd_page 0 c s) j = Some c"
    using c(1) d(1) by simp
  obtain s1 where s1: "Free j (upd_page 0 c s) = Some (Inr (), s1)" "store_ok s1" "page_of s1 = (page_of (upd_page 0 c s))(j := None)"
    using Free_spec [OF store_ok_upd_page(1) [OF ok p(1)] pj d(1)] by blast
  have pg: "page_of s1 = (page_of s)(0 \<mapsto> c, j := None)"
    using s1(3) page_of_upd_page [OF p(1)] by simp
  have same: "page_of s1 k = page_of s k" if "k \<in> set (pids v)" for k
    using that d unfolding pg by auto
  have "slots_held (page_of s1) (slots v)"
    by (rule slots_held_agree [where A = "set (pids v)", OF holds_slots_held [OF hs(1)] pids_slot same])
  then have "holds (page_of s1) 0 v"
    using c(2) d(1,4) by (intro holds_of_slots [where p = c]) (simp_all add: pg)
  moreover have "dom (page_of s1) = ids 0 v"
  proof -
    have "dom (page_of s1) = insert 0 (dom (page_of s)) - {j}"
      unfolding pg using d(1) by auto
    then show ?thesis
      using dom d by (auto simp: ids_def)
  qed
  moreover have "compress_loop 0 s = compress_loop 0 s1"
    using p(1) at c(1) hs(2) s1(1) pj by (subst compress_loop.simps) (simp add: op_simps FreeNode_def)
  ultimately show ?thesis
    using s1(2) by blast
qed

lemma compress_loop_spec:
  "holds (page_of s) 0 t \<Longrightarrow> store_ok s \<Longrightarrow> dom (page_of s) = ids 0 t \<Longrightarrow>
   \<exists>s' t'. compress_loop 0 s = Some (Inr (), s') \<and> store_ok s' \<and> holds (page_of s') 0 t' \<and> dom (page_of s') = ids 0 t' \<and>
     flat t' = flat t"
proof (induction "size t" arbitrary: s t rule: less_induct)
  case less
  obtain p where p: "page_of s 0 = Some p" "page_ok p t"
    using holds_page [OF less.prems(1)] by blast
  have sz: "page_size p = int (nl (ptop t))"
    using page_ok_size [OF p(2)] by simp
  show ?case
  proof (cases "\<exists>j v. t = Sub j v")
    case True
    then obtain j v where t: "t = Sub j v"
      by blast
    obtain s1 where s1: "compress_loop 0 s = compress_loop 0 s1" "store_ok s1" "holds (page_of s1) 0 v" "dom (page_of s1) = ids 0 v"
      using compress_step [of s j v] less.prems t by blast
    then show ?thesis
      using less.hyps [of v s1] t by simp
  next
    case no: False
    have "compress_loop 0 s = Some (Inr (), s)"
    proof (cases "nl (ptop t) = 1")
      case True
      have "t \<in> set (slots t)"
        using one_slot [OF True] by simp
      then obtain q where q: "t = Rec q" "untagged q"
        using no holds_slots_held [OF less.prems(1)] unfolding slots_held_def by blast
      then have "at (np_reps p) 0 = Some q"
        using page_ok_at [OF p(2), of 0] by simp
      then show ?thesis
        using p(1) q(2) by (subst compress_loop.simps) (simp add: op_simps)
    next
      case False
      then show ?thesis
        using p(1) sz by (subst compress_loop.simps) (simp add: op_simps)
    qed
    then show ?thesis
      using less.prems by blast
  qed
qed

lemma compress_loop_empty: "page_of s 0 = Some p \<Longrightarrow> np_size p = 0 \<Longrightarrow> compress_loop 0 s = Some (Inr (), s)"
  by (subst compress_loop.simps) (simp add: op_simps)

section \<open>Delete\<close>

lemma entries_remove:
  assumes "distinct (map kf ps)" "distinct (map kf qs)" "set qs = {x \<in> set ps. kf x \<noteq> k}"
  shows "map_of (map (\<lambda>p. (kf p, p)) qs) = (map_of (map (\<lambda>p. (kf p, p)) ps))(k := None)"
proof
  fix l
  show "map_of (map (\<lambda>p. (kf p, p)) qs) l = ((map_of (map (\<lambda>p. (kf p, p)) ps))(k := None)) l"
  proof (rule option_ext)
    fix y
    show "map_of (map (\<lambda>p. (kf p, p)) qs) l = Some y \<longleftrightarrow> ((map_of (map (\<lambda>p. (kf p, p)) ps))(k := None)) l = Some y"
      using map_of_entries [OF assms(1), of l y] map_of_entries [OF assms(2), of l y] assms(3) by auto
  qed
qed

text \<open>The whole store after the deletion of a slot, with the root compressed.\<close>

lemma removed_compressed:
  assumes "holds (page_of s) 0 t" "dom (page_of s) = ids 0 t" "removed s 0 t m s1"
  shows "\<exists>s' T. CompressRoot 0 s1 = Some (Inr (), s') \<and> store_ok s' \<and> tree_rep (page_of s') 0 T \<and>
    (if nl (flat t) = 1 then T = None else \<exists>t'. T = Some t' \<and> flat t' = tdel (flat t) m)"
proof (cases "nl (flat t) = 1")
  case True
  then have e: "emptied s 0 (set (pids t)) s1"
    using assms(3) by (simp add: removed_def)
  then obtain p where p: "page_of s1 0 = Some p" "np_size p = 0" "len_ok p" "store_ok s1"
    by (auto simp: emptied_def)
  have "page_of s1 k = None" if "k \<noteq> 0" for k
  proof (cases "k \<in> set (pids t)")
    case False
    then have "page_of s1 k = page_of s k" "k \<notin> dom (page_of s)"
      using e that assms(2) by (auto simp: emptied_def ids_def)
    then show ?thesis
      by (simp add: domIff)
  qed (use e in \<open>simp add: emptied_def\<close>)
  then have "page_of s1 = [0 \<mapsto> p]"
    using p(1) by auto
  then have "tree_rep (page_of s1) 0 None"
    using p by (auto simp: tree_rep_def)
  moreover have "CompressRoot 0 s1 = Some (Inr (), s1)"
    using p compress_loop_empty by (simp add: CompressRoot_def op_simps)
  ultimately show ?thesis
    using p(4) True by auto
next
  case False
  then obtain t1 where t1: "shrunk s 0 (set (pids t)) s1 t1" "flat t1 = tdel (flat t) m"
    using assms(3) by (auto simp: removed_def)
  then have h: "store_ok s1" "holds (page_of s1) 0 t1" "set (pids t1) \<subseteq> set (pids t)"
    by (simp_all add: shrunk_def)
  have "page_of s1 k = None" if "k \<notin> ids 0 t1" for k
  proof (cases "k \<in> set (pids t)")
    case True
    then show ?thesis
      using that t1(1) by (auto simp: shrunk_def ids_def)
  next
    case False
    then have "page_of s1 k = page_of s k" "k \<notin> dom (page_of s)"
      using that t1(1) assms(2) by (auto simp: shrunk_def ids_def)
    then show ?thesis
      by (simp add: domIff)
  qed
  then have "dom (page_of s1) = ids 0 t1"
    using holds_dom [OF h(2)] by (metis domIff subsetI subset_antisym)
  then obtain s' t' where s': "compress_loop 0 s1 = Some (Inr (), s')" "store_ok s'" "holds (page_of s') 0 t'"
    "dom (page_of s') = ids 0 t'" "flat t' = flat t1"
    using compress_loop_spec [OF h(2,1)] by blast
  obtain p where "page_of s1 0 = Some p"
    using holds_page [OF h(2)] by blast
  then have "CompressRoot 0 s1 = Some (Inr (), s')"
    using s'(1) by (simp add: CompressRoot_def op_simps)
  then show ?thesis
    using s' t1(2) False by (intro exI [of _ s'] exI [of _ "Some t'"]) (simp add: tree_rep_def)
qed

lemma Delete_too_large: "\<not> key_ok k \<Longrightarrow> Delete K k x = Some (Inl kKeyTooLarge, x)"
  by (simp add: Delete_def CheckKeySize_too_large op_simps)

lemma on_nodes_run: "f (ix_root_id x) (ix_nodes x) = Some (r, s') \<Longrightarrow> on_nodes f x = Some (r, x\<lparr>ix_nodes := s'\<rparr>)"
  by (simp add: on_nodes_def)

lemma Delete_run:
  assumes "key_ok k" "ix_root_id x = 0"
  shows "DeleteFrom K 0 k (ix_nodes x) = Some (Inr \<lparr>del_pos = q, del_deleted = False\<rparr>, ix_nodes x) \<Longrightarrow>
      Delete K k x = Some (Inr \<lparr>del_pos = q, del_deleted = False\<rparr>, x)"
    "DeleteFrom K 0 k (ix_nodes x) = Some (Inr \<lparr>del_pos = q, del_deleted = True\<rparr>, s1) \<Longrightarrow> CompressRoot 0 s1 = Some (Inr (), s') \<Longrightarrow>
      Delete K k x = Some (Inr \<lparr>del_pos = q, del_deleted = True\<rparr>, x\<lparr>ix_nodes := s', ix_count := ix_count x - 1\<rparr>)"
  using assms by (simp_all add: Delete_def CheckKeySize_key_ok op_simps on_nodes_def add_count_def)

lemma Delete_absent:
  assumes "index_holds K x es" "key_ok k" "ix_root_id x = 0" "map_of es k = None"
    and "DeleteFrom K 0 k (ix_nodes x) = Some (Inr \<lparr>del_pos = 0, del_deleted = False\<rparr>, ix_nodes x)"
  shows "\<exists>x' es'. Delete K k x = Some (Inr (case map_of es k of None \<Rightarrow> \<lparr>del_pos = 0, del_deleted = False\<rparr>
      | Some q \<Rightarrow> \<lparr>del_pos = q, del_deleted = True\<rparr>), x') \<and>
    index_holds K x' es' \<and> map_of es' = (map_of es)(k := None)"
  using Delete_run(1) [OF assms(2,3,5)] assms(1,4) by (intro exI [of _ x] exI [of _ es]) auto

theorem Delete_holds:
  assumes "index_holds K x es" "key_ok k"
  shows "\<exists>x' es'. Delete K k x = Some (Inr (case map_of es k of None \<Rightarrow> \<lparr>del_pos = 0, del_deleted = False\<rparr>
      | Some q \<Rightarrow> \<lparr>del_pos = q, del_deleted = True\<rparr>), x') \<and>
    index_holds K x' es' \<and> map_of es' = (map_of es)(k := None)"
proof -
  let ?kf = "rec_key K"
  obtain T where T: "index_inv K ?kf x T" "es = map (\<lambda>p. (?kf p, p)) (tree_pos T)"
    using index_holds_tree [OF assms(1)] .
  have ix: "store_ok (ix_nodes x)" "ix_root_id x = 0" "tree_rep (page_of (ix_nodes x)) 0 T" "tree_pat ?kf T"
    "keys_of K ?kf (set (tree_pos T))" "ix_count x = int (length (tree_pos T))"
    using T(1) by (simp_all add: index_inv_def)
  show ?thesis
  proof (cases T)
    case None
    then obtain p where "page_of (ix_nodes x) 0 = Some p" "np_size p = 0"
      using ix(3) by (auto simp: tree_rep_def)
    then have run: "DeleteFrom K 0 k (ix_nodes x) = Some (Inr \<lparr>del_pos = 0, del_deleted = False\<rparr>, ix_nodes x)"
      by (subst DeleteFrom.simps) (simp add: op_simps Lookup_def LookupRouteOnly_def)
    have "map_of es k = None"
      by (simp add: T(2) None tree_pos_def)
    then show ?thesis
      by (rule Delete_absent [OF assms ix(2) _ run])
  next
    case (Some t)
    have h: "holds (page_of (ix_nodes x)) 0 t" "dom (page_of (ix_nodes x)) = ids 0 t" and pat: "pat (ktree ?kf t)"
      and ps: "tree_pos T = leaves (flat t)" and keys: "keys_of K ?kf (set (leaves (flat t)))"
      using ix(3-5) Some by (simp_all add: tree_rep_def tree_pat_def tree_pos_def)
    let ?m = "tslot (flat t) k"
    let ?q = "leaves (flat t) ! ?m"
    have tl: "?m < nl (flat t)"
      by (rule tslot_less)
    have dist: "distinct (map ?kf (leaves (flat t)))"
      using entries_distinct [OF ix(4)] ps by simp
    have "0 \<notin> set (pids t)"
      using holds_distinct [OF h(1)] by simp
    note del = DeleteFrom_spec [OF h(1) ix(1) this pat keys, where key = k, unfolded deletes_def Let_def]
    show ?thesis
    proof (cases "?kf ?q = k")
      case False
      have "k \<notin> ?kf ` set (leaves (flat t))"
        using pat_lookup_iff [OF pat, of k] False tl by (simp add: ktree_def)
      then have "map_of es k = None"
        using map_of_kf_None [of k ?kf] T(2) ps by simp
      then show ?thesis
        using del False by (intro Delete_absent [OF assms ix(2)]) simp_all
    next
      case True
      then obtain s1 where s1: "DeleteFrom K 0 k (ix_nodes x) = Some (Inr \<lparr>del_pos = ?q, del_deleted = True\<rparr>, s1)"
        "removed (ix_nodes x) 0 t ?m s1"
        using del by auto
      obtain s' T' where s': "CompressRoot 0 s1 = Some (Inr (), s')" "store_ok s'" "tree_rep (page_of s') 0 T'"
        "if nl (flat t) = 1 then T' = None else \<exists>t'. T' = Some t' \<and> flat t' = tdel (flat t) ?m"
        using removed_compressed [OF h s1(2)] by blast
      have pos: "tree_pos T' = take ?m (leaves (flat t)) @ drop (Suc ?m) (leaves (flat t))" "tree_pat ?kf T'"
      proof -
        show "tree_pos T' = take ?m (leaves (flat t)) @ drop (Suc ?m) (leaves (flat t))"
          using s'(4) tl leaves_tdel [of "flat t" ?m] nl_pos [of "flat t"]
          by (auto simp: tree_pos_def Suc_le_eq split: if_splits)
        show "tree_pat ?kf T'"
          using s'(4) pat_tdel [OF pat, of ?m] by (auto simp: tree_pat_def ktree_def map_rtree_tdel split: if_splits)
      qed
      let ?x = "x\<lparr>ix_nodes := s', ix_count := ix_count x - 1\<rparr>"
      have split: "leaves (flat t) = take ?m (leaves (flat t)) @ ?q # drop (Suc ?m) (leaves (flat t))"
        using tl by (intro id_take_nth_drop) simp
      have "set (tree_pos T') = {y \<in> set (leaves (flat t)). ?kf y \<noteq> k}"
      proof -
        have "distinct (map ?kf (take ?m (leaves (flat t)) @ ?q # drop (Suc ?m) (leaves (flat t))))"
          using dist split by simp
        then have "?kf y \<noteq> k" if "y \<in> set (tree_pos T')" for y
          using that True unfolding pos(1) by auto
        moreover have "set (leaves (flat t)) = insert ?q (set (tree_pos T'))"
          using arg_cong [OF split, of set] unfolding pos(1) by auto
        ultimately show ?thesis
          using True by auto
      qed
      moreover have "distinct (map ?kf (tree_pos T'))"
        by (rule entries_distinct [OF pos(2)])
      ultimately have "map_of (map (\<lambda>p. (?kf p, p)) (tree_pos T')) = (map_of es)(k := None)"
        using entries_remove [OF dist] T(2) ps by simp
      moreover have "index_inv K ?kf ?x T'"
      proof -
        have "set (tree_pos T') \<subseteq> set (tree_pos T)"
          unfolding pos(1) ps by (auto dest: in_set_takeD in_set_dropD)
        then have "keys_of K ?kf (set (tree_pos T'))"
          by (rule keys_of_subset [OF ix(5)])
        moreover have "ix_count ?x = int (length (tree_pos T'))"
          using ix(6) tl ps unfolding pos(1) by simp
        ultimately show ?thesis
          using ix(2) s'(2,3) pos(2) by (simp add: index_inv_def)
      qed
      then have "index_holds K ?x (map (\<lambda>p. (?kf p, p)) (tree_pos T'))"
        by (rule index_holdsI) simp
      moreover have "map_of es k = Some ?q"
        using map_of_entries [OF dist, of k ?q] T(2) ps True tslot_leaf [of "flat t" k] by simp
      ultimately show ?thesis
        using Delete_run(2) [OF assms(2) ix(2) s1(1) s'(1)] by auto
    qed
  qed
qed

end
