(* ===== verification/RecordStore.thy ===== *)
theory RecordStore
  imports IndexPut IndexDelete
begin

text \<open>
  \<^verbatim>\<open>record_store.h\<close>: the in-memory record store \<^verbatim>\<open>HeapRecordStore\<close> and the callback store
  \<^verbatim>\<open>RecordStoreFunc\<close>. The locale \<open>record_store\<close> is what a client needs of a store of records
  beside an index; an index over such a store keeps its entries while records are added, and
  the factories of \<^verbatim>\<open>minpatricia.h\<close> return an empty one.
\<close>

section \<open>The code\<close>

definition RecordStoreFunc_Key :: "key_fn option \<Rightarrow> key_fn" where
  "RecordStoreFunc_Key fn pos = (case fn of None \<Rightarrow> Inl kMissingKey | Some f \<Rightarrow> f pos)"

record 'v heap_record =
  hrec_key :: bytes
  hrec_value :: 'v
  hrec_live :: bool

record 'v heap_record_store =
  hr_records :: "'v heap_record list"
  hr_free :: "pos list"
  hr_live :: int

text \<open>\<open>v0\<close> is \<^verbatim>\<open>V{}\<close>.\<close>

definition no_record :: "'v \<Rightarrow> 'v heap_record" where
  "no_record v0 = \<lparr>hrec_key = [], hrec_value = v0, hrec_live = False\<rparr>"

definition HeapRecordStore :: "'v \<Rightarrow> 'v heap_record_store" where
  "HeapRecordStore v0 = \<lparr>hr_records = [no_record v0], hr_free = [], hr_live = 0\<rparr>"

definition RecordAdd :: "key \<Rightarrow> 'v \<Rightarrow> 'v heap_record_store \<Rightarrow> (pos \<times> 'v heap_record_store) option" where
  "RecordAdd key v s =
     (if hr_free s \<noteq> []
      then do {
        let pos = last (hr_free s);
        rs \<leftarrow> put_at (hr_records s) (uint pos) \<lparr>hrec_key = key, hrec_value = v, hrec_live = True\<rparr>;
        Some (pos, s\<lparr>hr_records := rs, hr_free := butlast (hr_free s), hr_live := hr_live s + 1\<rparr>) }
      else
        Some (of_nat (length (hr_records s)),
          s\<lparr>hr_records := hr_records s @ [\<lparr>hrec_key = key, hrec_value = v, hrec_live = True\<rparr>],
            hr_live := hr_live s + 1\<rparr>))"

definition RecordFree :: "'v \<Rightarrow> pos \<Rightarrow> ('v heap_record_store, mp_status, unit) op" where
  "RecordFree v0 pos s =
     (if pos = 0 \<or> unat pos \<ge> length (hr_records s) \<or> \<not> hrec_live (hr_records s ! unat pos)
      then Some (Inl kMissingKey, s)
      else Some (Inr (), s\<lparr>hr_records := (hr_records s)[unat pos := no_record v0], hr_free := hr_free s @ [pos],
                          hr_live := hr_live s - 1\<rparr>))"

definition RecordKey :: "'v heap_record_store \<Rightarrow> key_fn" where
  "RecordKey s pos =
     (if pos = 0 \<or> unat pos \<ge> length (hr_records s) then Inl kMissingKey
      else let r = hr_records s ! unat pos in if \<not> hrec_live r then Inl kMissingKey else Inr (hrec_key r))"

definition RecordValue :: "'v heap_record_store \<Rightarrow> pos \<Rightarrow> mp_status + 'v" where
  "RecordValue s pos =
     (if pos = 0 \<or> unat pos \<ge> length (hr_records s) then Inl kMissingKey
      else let r = hr_records s ! unat pos in if \<not> hrec_live r then Inl kMissingKey else Inr (hrec_value r))"

definition RecordOf :: "'v heap_record_store \<Rightarrow> pos \<Rightarrow> mp_status + 'v heap_record" where
  "RecordOf s pos =
     (if pos = 0 \<or> unat pos \<ge> length (hr_records s) then Inl kMissingKey
      else let r = hr_records s ! unat pos in if \<not> hrec_live r then Inl kMissingKey else Inr r)"

definition RecordLen :: "'v heap_record_store \<Rightarrow> int" where
  "RecordLen s = hr_live s"

text \<open>\<^verbatim>\<open>minpatricia.h\<close>: the factories, which own the stores they create.\<close>

definition NewWithRecords :: "key_fn \<Rightarrow> (mp_status + index) option" where
  "NewWithRecords K = NewWithNodes K HeapNodeStore"

definition NewHeap :: "'v \<Rightarrow> (mp_status + 'v heap_record_store \<times> index) option" where
  "NewHeap v0 =
     map_option (\<lambda>r. case r of Inl e \<Rightarrow> Inl e | Inr x \<Rightarrow> Inr (HeapRecordStore v0, x))
       (NewWithNodes (RecordKey (HeapRecordStore v0)) HeapNodeStore)"

section \<open>Invariant\<close>

text \<open>The records by position.\<close>

definition recs :: "'v heap_record_store \<Rightarrow> pos \<Rightarrow> (key \<times> 'v) option" where
  "recs s pos = (case RecordOf s pos of Inl e \<Rightarrow> None | Inr r \<Rightarrow> Some (hrec_key r, hrec_value r))"

definition records_ok :: "'v heap_record_store \<Rightarrow> bool" where
  "records_ok s \<longleftrightarrow>
     length (hr_records s) \<le> 2 ^ 63 \<and> distinct (hr_free s) \<and> 0 < length (hr_records s) \<and>
     (\<forall>p \<in> set (hr_free s). p \<noteq> 0 \<and> unat p < length (hr_records s) \<and> recs s p = None) \<and>
     hr_live s = int (card (dom (recs s)))"

definition records_room :: "'v heap_record_store \<Rightarrow> bool" where
  "records_room s \<longleftrightarrow> hr_free s \<noteq> [] \<or> length (hr_records s) < 2 ^ 63"

lemma recs_eq: "recs s p =
   (if p = 0 \<or> unat p \<ge> length (hr_records s) \<or> \<not> hrec_live (hr_records s ! unat p) then None
    else Some (hrec_key (hr_records s ! unat p), hrec_value (hr_records s ! unat p)))"
  by (simp add: recs_def RecordOf_def Let_def)

lemma RecordKey_recs: "RecordKey s p = (case recs s p of None \<Rightarrow> Inl kMissingKey | Some (k, v) \<Rightarrow> Inr k)"
  by (simp add: recs_eq RecordKey_def Let_def)

lemma RecordValue_recs: "RecordValue s p = (case recs s p of None \<Rightarrow> Inl kMissingKey | Some (k, v) \<Rightarrow> Inr v)"
  by (simp add: recs_eq RecordValue_def Let_def)

lemma finite_recs: "finite (dom (recs s))"
  by (rule finite_subset [of _ UNIV]) simp_all

text \<open>A record is written at a position inside the array.\<close>

lemma recs_update:
  assumes "hr_records s' = (hr_records s)[unat p := r]" "unat p < length (hr_records s)" "p \<noteq> 0"
  shows "recs s' = (recs s)(p := (if hrec_live r then Some (hrec_key r, hrec_value r) else None))"
proof
  fix q
  show "recs s' q = ((recs s)(p := (if hrec_live r then Some (hrec_key r, hrec_value r) else None))) q"
    using assms by (cases "q = p") (simp_all add: recs_eq nth_list_update word_unat_eq_iff)
qed

lemma RecordAdd_reuse:
  assumes "records_ok s" "hr_free s \<noteq> []"
  shows "\<exists>p s'. RecordAdd k v s = Some (p, s') \<and> records_ok s' \<and> recs s p = None \<and> untagged p \<and> p \<noteq> 0 \<and>
    recs s' = (recs s)(p \<mapsto> (k, v))"
proof -
  let ?p = "last (hr_free s)"
  define s' where "s' = s\<lparr>hr_records := (hr_records s)[unat ?p := \<lparr>hrec_key = k, hrec_value = v, hrec_live = True\<rparr>],
    hr_free := butlast (hr_free s), hr_live := hr_live s + 1\<rparr>"
  have f: "hr_records s' = (hr_records s)[unat ?p := \<lparr>hrec_key = k, hrec_value = v, hrec_live = True\<rparr>]"
    "hr_free s' = butlast (hr_free s)" "hr_live s' = hr_live s + 1"
    by (simp_all add: s'_def)
  have "?p \<in> set (hr_free s)"
    using assms(2) by simp
  then have p: "?p \<noteq> 0" "unat ?p < length (hr_records s)" "recs s ?p = None"
    using assms(1) by (auto simp: records_ok_def)
  have rs: "recs s' = (recs s)(?p \<mapsto> (k, v))"
    using recs_update [OF f(1) p(2,1)] by simp
  have "distinct (butlast (hr_free s) @ [?p])"
    using assms by (simp add: records_ok_def)
  then have d: "distinct (butlast (hr_free s))" "?p \<notin> set (butlast (hr_free s))"
    by simp_all
  have "q \<noteq> 0 \<and> unat q < length (hr_records s) \<and> recs s' q = None" if "q \<in> set (butlast (hr_free s))" for q
  proof -
    have "q \<noteq> ?p" "q \<in> set (hr_free s)"
      using that d(2) in_set_butlastD by fastforce+
    then show ?thesis
      using assms(1) unfolding rs records_ok_def by auto
  qed
  moreover have "card (dom (recs s')) = Suc (card (dom (recs s)))"
    using p(3) finite_recs [of s] unfolding rs by (simp add: domIff)
  ultimately have "records_ok s'"
    using assms(1) d(1) by (auto simp: records_ok_def f)
  moreover have "put_at (hr_records s) (uint ?p) \<lparr>hrec_key = k, hrec_value = v, hrec_live = True\<rparr> =
      Some ((hr_records s)[unat ?p := \<lparr>hrec_key = k, hrec_value = v, hrec_live = True\<rparr>])"
    using put_at_int [OF p(2), of "\<lparr>hrec_key = k, hrec_value = v, hrec_live = True\<rparr>"] by simp
  then have "RecordAdd k v s = Some (?p, s')"
    using assms(2) by (simp add: RecordAdd_def Let_def s'_def)
  moreover have "untagged ?p"
    using p(2) assms(1) by (simp add: untagged_iff records_ok_def)
  ultimately show ?thesis
    using p rs by blast
qed

lemma RecordAdd_grow:
  assumes "records_ok s" "hr_free s = []" "length (hr_records s) < 2 ^ 63"
  shows "\<exists>p s'. RecordAdd k v s = Some (p, s') \<and> records_ok s' \<and> recs s p = None \<and> untagged p \<and> p \<noteq> 0 \<and>
    recs s' = (recs s)(p \<mapsto> (k, v))"
proof -
  let ?p = "of_nat (length (hr_records s)) :: u64" and ?r = "\<lparr>hrec_key = k, hrec_value = v, hrec_live = True\<rparr>"
  define s' where "s' = s\<lparr>hr_records := hr_records s @ [?r], hr_live := hr_live s + 1\<rparr>"
  have f: "hr_records s' = hr_records s @ [?r]" "hr_free s' = []" "hr_live s' = hr_live s + 1"
    using assms(2) by (simp_all add: s'_def)
  have u: "unat ?p = length (hr_records s)"
    using assms(3) by (simp add: unat_of_nat)
  have p: "untagged ?p" "recs s ?p = None" "?p \<noteq> 0"
    using assms(1,3) u by (simp_all add: untagged_iff recs_eq records_ok_def flip: unat_eq_0)
  have rs: "recs s' = (recs s)(?p \<mapsto> (k, v))"
  proof
    fix q
    show "recs s' q = ((recs s)(?p \<mapsto> (k, v))) q"
    proof (cases "q = ?p")
      case False
      then have "unat q \<noteq> length (hr_records s)"
        using u by (metis word_unat_eq_iff)
      with False show ?thesis
        by (auto simp: recs_eq nth_append f)
    qed (use u p(3) in \<open>simp add: recs_eq f\<close>)
  qed
  have "card (dom (recs s')) = Suc (card (dom (recs s)))"
    using p(2) finite_recs [of s] unfolding rs by (simp add: domIff)
  then have "records_ok s'"
    using assms by (simp add: records_ok_def f)
  moreover have "RecordAdd k v s = Some (?p, s')"
    using assms(2) by (simp add: RecordAdd_def s'_def)
  ultimately show ?thesis
    using p rs by blast
qed

lemma RecordAdd_spec:
  assumes "records_ok s" "records_room s"
  shows "\<exists>p s'. RecordAdd k v s = Some (p, s') \<and> records_ok s' \<and> recs s p = None \<and> untagged p \<and> p \<noteq> 0 \<and>
    recs s' = (recs s)(p \<mapsto> (k, v))"
  using RecordAdd_reuse [OF assms(1), of k v] RecordAdd_grow [OF assms(1), of k v] assms(2) unfolding records_room_def by blast

lemma RecordFree_spec:
  assumes "records_ok s" "recs s p = Some r"
  shows "\<exists>s'. RecordFree v0 p s = Some (Inr (), s') \<and> records_ok s' \<and> records_room s' \<and> recs s' = (recs s)(p := None)"
proof -
  define s' where "s' = s\<lparr>hr_records := (hr_records s)[unat p := no_record v0], hr_free := hr_free s @ [p], hr_live := hr_live s - 1\<rparr>"
  have f: "hr_records s' = (hr_records s)[unat p := no_record v0]" "hr_free s' = hr_free s @ [p]" "hr_live s' = hr_live s - 1"
    by (simp_all add: s'_def)
  have p: "p \<noteq> 0" "unat p < length (hr_records s)" "hrec_live (hr_records s ! unat p)"
    using assms(2) by (auto simp: recs_eq split: if_splits)
  have rs: "recs s' = (recs s)(p := None)"
    using recs_update [OF f(1) p(2,1)] by (simp add: no_record_def)
  have "p \<notin> set (hr_free s)"
    using assms by (auto simp: records_ok_def)
  moreover have "card (dom (recs s)) = Suc (card (dom (recs s) - {p}))"
    using assms(2) finite_recs [of s] by (intro card.remove) (auto simp: dom_def)
  ultimately have "records_ok s'"
    using assms(1) p unfolding records_ok_def f rs by auto
  moreover have "RecordFree v0 p s = Some (Inr (), s')"
    using p by (simp add: RecordFree_def s'_def)
  moreover have "records_room s'"
    by (simp add: records_room_def f)
  ultimately show ?thesis
    using rs by blast
qed

lemma RecordFree_dead: "recs s p = None \<Longrightarrow> RecordFree v0 p s = Some (Inl kMissingKey, s)"
  by (auto simp: RecordFree_def recs_eq split: if_splits)

lemma HeapRecordStore_ok: "records_ok (HeapRecordStore v0)" "records_room (HeapRecordStore v0)"
  "recs (HeapRecordStore v0) = Map.empty"
proof -
  show e: "recs (HeapRecordStore v0) = Map.empty"
  proof
    show "recs (HeapRecordStore v0) p = None" for p
      by (cases "unat p") (simp_all add: recs_eq HeapRecordStore_def no_record_def unat_eq_0)
  qed
  show "records_ok (HeapRecordStore v0)" "records_room (HeapRecordStore v0)"
    unfolding records_ok_def records_room_def e by (simp_all add: HeapRecordStore_def)
qed

lemma RecordLen_recs: "records_ok s \<Longrightarrow> RecordLen s = int (card (dom (recs s)))"
  by (simp add: RecordLen_def records_ok_def)

section \<open>The interface\<close>

text \<open>An index holds its entries for every store that gives the same keys at their positions.\<close>

lemma index_holds_cong:
  assumes "index_holds K x es" "\<And>p. p \<in> snd ` set es \<Longrightarrow> K' p = K p"
  shows "index_holds K' x es"
proof -
  obtain kf T where kf: "index_inv K kf x T" "es = map (\<lambda>p. (kf p, p)) (tree_pos T)"
    using assms(1) unfolding index_holds_def by blast
  have "K' p = K p" if "p \<in> set (tree_pos T)" for p
    using that by (intro assms(2)) (force simp: kf(2))
  then have "index_inv K' kf x T"
    using kf(1) by (auto simp: index_inv_def keys_of_def)
  then show ?thesis
    unfolding index_holds_def using kf(2) by blast
qed

text \<open>
  What a client of an index needs of its records. Reading: a partial map from positions to keys
  and values, and reads of keys that agree with it.
\<close>

locale records_read =
  fixes recs :: "'s \<Rightarrow> pos \<rightharpoonup> key \<times> 'v"
    and key_of :: "'s \<Rightarrow> key_fn"
  assumes key_recs: "key_of s p = (case recs s p of None \<Rightarrow> Inl kMissingKey | Some (k, v) \<Rightarrow> Inr k)"
begin

lemma entry_record: "index_holds (key_of s) x es \<Longrightarrow> (k, p) \<in> set es \<Longrightarrow> \<exists>v. recs s p = Some (k, v)"
  using index_holds_keys(1) [of "key_of s" x es k p] by (auto simp: key_recs split: option.splits)

lemma record_key: "recs s p = Some (k, v) \<Longrightarrow> key_of s p = Inr k"
  by (simp add: key_recs)

text \<open>
  The contents of index and records together: the value that the record of an entry holds.
\<close>

definition contents :: "'s \<Rightarrow> (key \<times> pos) list \<Rightarrow> key \<rightharpoonup> 'v" where
  "contents s es k = Option.bind (map_of es k) (\<lambda>p. map_option snd (recs s p))"

text \<open>More records do not change what the index holds.\<close>

lemma keep:
  assumes "index_holds (key_of s) x es" "recs s \<subseteq>\<^sub>m recs s'"
  shows "index_holds (key_of s') x es" "contents s' es = contents s es"
proof -
  have rec: "recs s' p = recs s p" if "(k, p) \<in> set es" for k p
    using entry_record [OF assms(1) that] assms(2) by (auto simp: map_le_def dom_def)
  show "index_holds (key_of s') x es"
    using rec by (intro index_holds_cong [OF assms(1)]) (auto simp: key_recs)
  show "contents s' es = contents s es"
    using rec by (intro ext) (auto simp: contents_def dest!: map_of_SomeD split: Option.bind_split)
qed

text \<open>The operations of the index, on records that are there.\<close>

lemma put_at:
  assumes "index_holds (key_of s) x es" "recs s p = Some (k, v)" "key_ok k" "untagged p" "has_room (ix_nodes x)"
  shows "\<exists>x' es'. Put (key_of s) k p x = Some (Inr (case map_of es k of None \<Rightarrow> \<lparr>put_old_pos = 0, put_replaced = False\<rparr>
      | Some q \<Rightarrow> \<lparr>put_old_pos = q, put_replaced = True\<rparr>), x') \<and>
    index_holds (key_of s) x' es' \<and> contents s es' = (contents s es)(k \<mapsto> v) \<and> map_of es' = (map_of es)(k \<mapsto> p)"
proof -
  obtain x' es' where "Put (key_of s) k p x = Some (Inr (case map_of es k of None \<Rightarrow> \<lparr>put_old_pos = 0, put_replaced = False\<rparr>
      | Some q \<Rightarrow> \<lparr>put_old_pos = q, put_replaced = True\<rparr>), x')" "index_holds (key_of s) x' es'" "map_of es' = (map_of es)(k \<mapsto> p)"
    using Put_holds [OF assms(1,3,4) record_key [OF assms(2)] assms(5)] by blast
  moreover from this have "contents s es' = (contents s es)(k \<mapsto> v)"
    using assms(2) by (intro ext) (simp add: contents_def)
  ultimately show ?thesis
    by blast
qed

lemma delete_entry:
  assumes "index_holds (key_of s) x es" "key_ok k"
  shows "\<exists>x' es'. Delete (key_of s) k x = Some (Inr (case map_of es k of None \<Rightarrow> \<lparr>del_pos = 0, del_deleted = False\<rparr>
      | Some q \<Rightarrow> \<lparr>del_pos = q, del_deleted = True\<rparr>), x') \<and>
    index_holds (key_of s) x' es' \<and> contents s es' = (contents s es)(k := None) \<and> map_of es' = (map_of es)(k := None)"
proof -
  obtain x' es' where "Delete (key_of s) k x = Some (Inr (case map_of es k of None \<Rightarrow> \<lparr>del_pos = 0, del_deleted = False\<rparr>
      | Some q \<Rightarrow> \<lparr>del_pos = q, del_deleted = True\<rparr>), x')" "index_holds (key_of s) x' es'" "map_of es' = (map_of es)(k := None)"
    using Delete_holds [OF assms] by blast
  moreover from this have "contents s es' = (contents s es)(k := None)"
    by (intro ext) (simp add: contents_def)
  ultimately show ?thesis
    by blast
qed

text \<open>A position in the index has a record with the key, whose value is the contents.\<close>

lemma entry_contents:
  assumes "index_holds (key_of s) x es"
  shows "contents s es k = None \<longleftrightarrow> map_of es k = None"
    "map_of es k = Some p \<Longrightarrow> \<exists>v. recs s p = Some (k, v) \<and> contents s es k = Some v"
proof -
  show e: "\<exists>v. recs s p = Some (k, v) \<and> contents s es k = Some v" if "map_of es k = Some p" for p
    using entry_record [OF assms map_of_SomeD [OF that]] that by (auto simp: contents_def)
  show "contents s es k = None \<longleftrightarrow> map_of es k = None"
    using e by (cases "map_of es k") (auto simp: contents_def)
qed

text \<open>Adding a record and putting it into the index updates the contents at the key.\<close>

lemma put_new:
  assumes "index_holds (key_of s) x es" "recs s \<subseteq>\<^sub>m recs s'" "recs s' p = Some (k, v)" "key_ok k" "untagged p" "has_room (ix_nodes x)"
  shows "\<exists>x' es'. Put (key_of s') k p x = Some (Inr (case map_of es k of None \<Rightarrow> \<lparr>put_old_pos = 0, put_replaced = False\<rparr>
      | Some q \<Rightarrow> \<lparr>put_old_pos = q, put_replaced = True\<rparr>), x') \<and>
    index_holds (key_of s') x' es' \<and> contents s' es' = (contents s es)(k \<mapsto> v) \<and> map_of es' = (map_of es)(k \<mapsto> p)"
  using put_at [OF keep(1) [OF assms(1,2)] assms(3-6)] keep(2) [OF assms(1,2)] by simp

end

text \<open>
  Changing: positions of new records that were free and have no tag bit, and removal of one
  record at a time.
\<close>

locale record_store = records_read recs key_of
  for recs :: "'s \<Rightarrow> pos \<rightharpoonup> key \<times> 'v" and key_of :: "'s \<Rightarrow> key_fn" +
  fixes add :: "key \<Rightarrow> 'v \<Rightarrow> 's \<Rightarrow> (pos \<times> 's) option"
    and free :: "pos \<Rightarrow> ('s, mp_status, unit) op"
    and ok :: "'s \<Rightarrow> bool"
    and room :: "'s \<Rightarrow> bool"
  assumes add_new: "ok s \<Longrightarrow> room s \<Longrightarrow> \<exists>p s'. add k v s = Some (p, s') \<and> ok s' \<and> recs s p = None \<and> untagged p \<and>
      recs s' = (recs s)(p \<mapsto> (k, v))"
    and free_live: "ok s \<Longrightarrow> recs s p = Some r \<Longrightarrow> \<exists>s'. free p s = Some (Inr (), s') \<and> ok s' \<and> recs s' = (recs s)(p := None)"
begin

lemma holds_free:
  assumes "index_holds (key_of s) x es" "p \<notin> snd ` set es" "recs s' = (recs s)(p := None)"
  shows "index_holds (key_of s') x es"
  using assms by (intro index_holds_cong [OF assms(1)]) (auto simp: key_recs)

lemma add_put:
  assumes h: "index_holds (key_of s) x es" and ok: "ok s" "room s" "key_ok k" "has_room (ix_nodes x)"
  shows "\<exists>p s' r x' es'. add k v s = Some (p, s') \<and> ok s' \<and> Put (key_of s') k p x = Some (Inr r, x') \<and>
    index_holds (key_of s') x' es' \<and> contents s' es' = (contents s es)(k \<mapsto> v) \<and>
    r = (case map_of es k of None \<Rightarrow> \<lparr>put_old_pos = 0, put_replaced = False\<rparr>
      | Some q \<Rightarrow> \<lparr>put_old_pos = q, put_replaced = True\<rparr>) \<and> map_of es' = (map_of es)(k \<mapsto> p)"
proof -
  obtain p s' where p: "add k v s = Some (p, s')" "ok s'" "recs s p = None" "untagged p" "recs s' = (recs s)(p \<mapsto> (k, v))"
    using add_new [OF ok(1,2)] by blast
  have "recs s \<subseteq>\<^sub>m recs s'" "recs s' p = Some (k, v)"
    using p(3,5) by (auto simp: map_le_def)
  from put_new [OF h this ok(3) p(4) ok(4)] show ?thesis
    using p(1,2) by blast
qed

text \<open>The record that a \<^verbatim>\<open>Put\<close> replaced or a \<^verbatim>\<open>Delete\<close> removed can be freed.\<close>

lemma free_old:
  assumes h: "index_holds (key_of s) x es" and ok: "ok s" and p: "recs s p = Some (k, v)" "map_of es k \<noteq> Some p"
  shows "\<exists>s'. free p s = Some (Inr (), s') \<and> ok s' \<and> index_holds (key_of s') x es \<and> contents s' es = contents s es"
proof -
  obtain s' where s': "free p s = Some (Inr (), s')" "ok s'" "recs s' = (recs s)(p := None)"
    using free_live [OF ok p(1)] by blast
  have out: "p \<noteq> q" if "map_of es l = Some q" for l q
  proof
    assume "p = q"
    then have "l = k"
      using entry_record [OF h map_of_SomeD [OF that]] p(1) by auto
    then show False
      using that p(2) \<open>p = q\<close> by simp
  qed
  have "p \<notin> snd ` set es"
  proof
    assume "p \<in> snd ` set es"
    then obtain l where "(l, p) \<in> set es"
      by auto
    then have "map_of es l = Some p"
      using index_holds_sorted(2) [OF h] by simp
    then show False
      using out by blast
  qed
  then have "index_holds (key_of s') x es"
    by (rule holds_free [OF h _ s'(3)])
  moreover have "contents s' es l = contents s es l" for l
    using out [of l] s'(3) by (cases "map_of es l") (auto simp: contents_def)
  ultimately show ?thesis
    using s'(1,2) by blast
qed

end

interpretation hr: record_store recs RecordKey RecordAdd "RecordFree v0" records_ok records_room for v0
proof unfold_locales
  show "RecordKey s p = (case recs s p of None \<Rightarrow> Inl kMissingKey | Some (k, v) \<Rightarrow> Inr k)" for s :: "'a heap_record_store" and p
    by (rule RecordKey_recs)
  show "\<exists>p s'. RecordAdd k v s = Some (p, s') \<and> records_ok s' \<and> recs s p = None \<and> untagged p \<and> recs s' = (recs s)(p \<mapsto> (k, v))"
    if "records_ok s" "records_room s" for s :: "'a heap_record_store" and k v
    using RecordAdd_spec [OF that, of k v] by blast
  show "\<exists>s'. RecordFree v0 p s = Some (Inr (), s') \<and> records_ok s' \<and> recs s' = (recs s)(p := None)"
    if "records_ok s" "recs s p = Some r" for s :: "'a heap_record_store" and p r
    using RecordFree_spec [OF that, of v0] by blast
qed

section \<open>An index over its own records\<close>

text \<open>
  \<open>heap_holds h m\<close>: the records and the index of \<open>h\<close> together hold the map \<open>m\<close> from keys
  to values, and no other records.
\<close>

type_synonym 'v heap_index = "'v heap_record_store \<times> index"

definition heap_holds :: "'v heap_index \<Rightarrow> (key \<rightharpoonup> 'v) \<Rightarrow> bool" where
  "heap_holds h m \<longleftrightarrow>
     (\<exists>es. records_ok (fst h) \<and> index_holds (RecordKey (fst h)) (snd h) es \<and> m = hr.contents (fst h) es)"

text \<open>The use of the two that \<^verbatim>\<open>docs/design/minpatricia.md\<close> describes.\<close>

definition heap_put :: "key \<Rightarrow> 'v \<Rightarrow> ('v heap_index, mp_status, put_result) op" where
  "heap_put k v h =
     do { (p, rs) \<leftarrow> RecordAdd k v (fst h);
          (r, x) \<leftarrow> Put (RecordKey rs) k p (snd h);
          Some (r, (rs, x)) }"

definition heap_get :: "key \<Rightarrow> 'v heap_index \<Rightarrow> ((mp_status + 'v option) \<times> 'v heap_index) option" where
  "heap_get k h =
     do { (r, x) \<leftarrow> IndexGet (RecordKey (fst h)) k (snd h);
          Some (case r of Inl e \<Rightarrow> Inl e
            | Inr f \<Rightarrow> if pb_found f then map_sum id Some (RecordValue (fst h) (pb_pos f)) else Inr None, (fst h, x)) }"

definition heap_delete :: "'v \<Rightarrow> key \<Rightarrow> ('v heap_index, mp_status, bool) op" where
  "heap_delete v0 k h =
     do { (r, x) \<leftarrow> Delete (RecordKey (fst h)) k (snd h);
          case r of Inl e \<Rightarrow> Some (Inl e, (fst h, x))
          | Inr d \<Rightarrow>
              if del_deleted d
              then do { (f, rs) \<leftarrow> RecordFree v0 (del_pos d) (fst h); Some (map_sum id (\<lambda>_. True) f, (rs, x)) }
              else Some (Inr False, (fst h, x)) }"

lemma heap_put_holds:
  assumes "heap_holds h m" "records_room (fst h)" "has_room (ix_nodes (snd h))" "key_ok k"
  shows "\<exists>r h'. heap_put k v h = Some (Inr r, h') \<and> heap_holds h' (m(k \<mapsto> v)) \<and> put_replaced r = (m k \<noteq> None)"
proof -
  obtain es where es: "records_ok (fst h)" "index_holds (RecordKey (fst h)) (snd h) es" "m = hr.contents (fst h) es"
    using assms(1) by (auto simp: heap_holds_def)
  obtain p s' r x' es' where a: "RecordAdd k v (fst h) = Some (p, s')" "records_ok s'" "Put (RecordKey s') k p (snd h) = Some (Inr r, x')"
    "index_holds (RecordKey s') x' es'" "hr.contents s' es' = (hr.contents (fst h) es)(k \<mapsto> v)"
    "r = (case map_of es k of None \<Rightarrow> \<lparr>put_old_pos = 0, put_replaced = False\<rparr>
      | Some q \<Rightarrow> \<lparr>put_old_pos = q, put_replaced = True\<rparr>)"
    using hr.add_put [OF es(2,1) assms(2,4,3), of v] by blast
  have "put_replaced r = (m k \<noteq> None)"
  proof (cases "map_of es k")
    case (Some q)
    then show ?thesis
      using hr.entry_record [OF es(2) map_of_SomeD [OF Some]] a(6) es(3) by (auto simp: hr.contents_def)
  qed (use a(6) es(3) in \<open>simp add: hr.contents_def\<close>)
  moreover have "heap_holds (s', x') (m(k \<mapsto> v))"
    unfolding heap_holds_def using a(2,4,5) es(3) by auto
  moreover have "heap_put k v h = Some (Inr r, (s', x'))"
    using a(1,3) by (simp add: heap_put_def)
  ultimately show ?thesis
    by blast
qed

lemma heap_get_holds:
  assumes "heap_holds h m" "key_ok k"
  shows "heap_get k h = Some (Inr (m k), h)"
proof -
  obtain es where es: "index_holds (RecordKey (fst h)) (snd h) es" "m = hr.contents (fst h) es"
    using assms(1) by (auto simp: heap_holds_def)
  show ?thesis
  proof (cases "map_of es k")
    case None
    then show ?thesis
      using IndexGet_holds [OF es(1) assms(2)] es(2) by (simp add: heap_get_def hr.contents_def)
  next
    case (Some p)
    obtain v where "recs (fst h) p = Some (k, v)"
      using hr.entry_record [OF es(1) map_of_SomeD [OF Some]] by blast
    then show ?thesis
      using IndexGet_holds [OF es(1) assms(2)] es(2) Some by (simp add: heap_get_def hr.contents_def RecordValue_recs)
  qed
qed

lemma heap_delete_holds:
  assumes "heap_holds h m" "key_ok k"
  shows "\<exists>h'. heap_delete v0 k h = Some (Inr (m k \<noteq> None), h') \<and> heap_holds h' (m(k := None))"
proof -
  obtain es where es: "records_ok (fst h)" "index_holds (RecordKey (fst h)) (snd h) es" "m = hr.contents (fst h) es"
    using assms(1) by (auto simp: heap_holds_def)
  obtain x' es' where d: "Delete (RecordKey (fst h)) k (snd h) = Some (Inr (case map_of es k of
      None \<Rightarrow> \<lparr>del_pos = 0, del_deleted = False\<rparr> | Some q \<Rightarrow> \<lparr>del_pos = q, del_deleted = True\<rparr>), x')"
    "index_holds (RecordKey (fst h)) x' es'" "map_of es' = (map_of es)(k := None)" and c: "hr.contents (fst h) es' = m(k := None)"
    using hr.delete_entry [OF es(2) assms(2)] es(3) by blast
  show ?thesis
  proof (cases "map_of es k")
    case None
    moreover have "m k = None"
      using None es(3) by (simp add: hr.contents_def)
    ultimately show ?thesis
      using d(1,2) es(1) c by (auto simp: heap_delete_def heap_holds_def)
  next
    case (Some q)
    obtain v where v: "recs (fst h) q = Some (k, v)"
      using hr.entry_record [OF es(2) map_of_SomeD [OF Some]] by blast
    have "map_of es' k \<noteq> Some q"
      using d(3) by simp
    then obtain s' where s': "RecordFree v0 q (fst h) = Some (Inr (), s')" "records_ok s'" "index_holds (RecordKey s') x' es'"
      "hr.contents s' es' = hr.contents (fst h) es'"
      using hr.free_old [OF d(2) es(1) v] by blast
    have "m k \<noteq> None"
      using Some v es(3) by (simp add: hr.contents_def)
    moreover have "heap_holds (s', x') (m(k := None))"
      unfolding heap_holds_def using s'(2-4) c by auto
    moreover have "heap_delete v0 k h = Some (Inr True, (s', x'))"
      using d(1) Some s'(1) by (simp add: heap_delete_def)
    ultimately show ?thesis
      by auto
  qed
qed

lemma NewHeap_holds: "\<exists>h. NewHeap v0 = Some (Inr h) \<and> heap_holds h Map.empty"
proof -
  obtain x where x: "NewWithNodes (RecordKey (HeapRecordStore v0)) HeapNodeStore = Some (Inr x)"
    "index_holds (RecordKey (HeapRecordStore v0)) x []"
    using NewWithNodes_empty by blast
  have "heap_holds (HeapRecordStore v0, x) Map.empty"
    unfolding heap_holds_def using x(2) HeapRecordStore_ok(1)
    by (intro exI [of _ "[]"]) (auto simp: hr.contents_def)
  then show ?thesis
    using x(1) by (simp add: NewHeap_def)
qed

text \<open>
  Every state that uses of a new heap index lead to, with the map that the calls have built.
  \<open>records_room\<close> and \<open>has_room\<close> say that there are positions and page ids left.
\<close>

inductive heap_reach :: "'v \<Rightarrow> 'v heap_index \<Rightarrow> (key \<rightharpoonup> 'v) \<Rightarrow> bool" for v0 where
  new: "NewHeap v0 = Some (Inr h) \<Longrightarrow> heap_reach v0 h Map.empty"
| put: "heap_reach v0 h m \<Longrightarrow> key_ok k \<Longrightarrow> records_room (fst h) \<Longrightarrow> has_room (ix_nodes (snd h)) \<Longrightarrow>
    heap_put k v h = Some (r, h') \<Longrightarrow> heap_reach v0 h' (m(k \<mapsto> v))"
| get: "heap_reach v0 h m \<Longrightarrow> key_ok k \<Longrightarrow> heap_get k h = Some (r, h') \<Longrightarrow> heap_reach v0 h' m"
| delete: "heap_reach v0 h m \<Longrightarrow> key_ok k \<Longrightarrow> heap_delete v0 k h = Some (r, h') \<Longrightarrow> heap_reach v0 h' (m(k := None))"

inductive_cases heap_reachE: "heap_reach v0 h m"

lemma heap_reach_holds: "heap_reach v0 h m \<Longrightarrow> heap_holds h m"
proof (induction rule: heap_reach.induct)
  case (new h)
  then show ?case
    using NewHeap_holds [of v0] by auto
next
  case (put h m k v r h')
  then obtain r' h2 where "heap_put k v h = Some (Inr r', h2)" "heap_holds h2 (m(k \<mapsto> v))"
    using heap_put_holds [of h m k v] by blast
  then show ?case
    using put.hyps(5) by (simp add: fun_upd_def)
next
  case (get h m k r h')
  then show ?case
    using heap_get_holds [of h m k] by auto
next
  case (delete h m k r h')
  then obtain r' h2 where "heap_delete v0 k h = Some (Inr r', h2)" "heap_holds h2 (m(k := None))"
    using heap_delete_holds [of h m k v0] by blast
  then show ?case
    using delete.hyps(3) by (simp add: fun_upd_def)
qed

end
