(* ===== verification/Samples.thy ===== *)
theory Samples
  imports RecordStore
begin

text \<open>
  Concrete states at which the properties of the root theory are applied: tries of every size
  over keys of zero bytes, and a store with a root page above one other page.
\<close>

section \<open>A trie of any size\<close>

text \<open>The keys are the strings of zero bytes; each differs from the longer ones in their presence slot.\<close>

definition zkey :: "pos \<Rightarrow> key" where
  "zkey p = replicate (unat p) 0"

definition zkeys :: key_fn where
  "zkeys p = Inr (zkey p)"

primrec comb :: "nat \<Rightarrow> nat \<Rightarrow> ctree" where
  "comb 0 i = Rec (of_nat i)"
| "comb (Suc n) i = Br (Rec (of_nat i)) (of_nat (i * 9)) (comb n (Suc i))"

lemma comb_sizes: "nl (ptop (comb n i)) = Suc n" "nl (flat (comb n i)) = Suc n" "pids (comb n i) = []"
  by (induction n arbitrary: i) simp_all

lemma comb_slots: "slots (comb n i) = map (\<lambda>j. Rec (of_nat j)) [i..<Suc (i + n)]"
  by (induction n arbitrary: i) (simp_all add: upt_conv_Cons del: upt_Suc)

lemma comb_leaves: "leaves (flat (comb n i)) = map of_nat [i..<Suc (i + n)]"
  by (induction n arbitrary: i) (simp_all add: upt_conv_Cons del: upt_Suc)

lemma small_pos: "j \<le> 7281 \<Longrightarrow> unat (of_nat j :: u64) = j"
  by (simp add: unat_of_nat)

lemma zkey_bit: "key_bit (replicate j 0) d \<longleftrightarrow> unat d div 9 < j \<and> unat d mod 9 = 0"
  by (auto simp: key_bit_iff)

lemma zkey_diff:
  assumes "i < j" "j \<le> 7281"
  shows "first_diff key_bit (replicate i 0) (replicate j 0) (of_nat (i * 9))" "\<not> key_bit (replicate i 0) (of_nat (i * 9))"
proof -
  have u: "unat (of_nat (i * 9) :: u16) = i * 9"
    using unat_slot [of i 0] assms by simp
  have lt: "unat e div 9 < i" if "e < of_nat (i * 9)" for e :: u16
    using that unfolding word_less_nat_alt u by (simp add: less_mult_imp_div_less)
  then have "unat e div 9 < j" if "e < of_nat (i * 9)" for e :: u16
    using that assms(1) by (meson less_trans)
  with lt show "first_diff key_bit (replicate i 0) (replicate j 0) (of_nat (i * 9))" "\<not> key_bit (replicate i 0) (of_nat (i * 9))"
    using assms(1) u unfolding first_diff_def zkey_bit by simp_all
qed

lemma comb_pat: "i + n \<le> 7281 \<Longrightarrow> pat (ktree zkey (comb n i))"
proof (induction n arbitrary: i)
  case 0
  then show ?case
    by (simp add: zkey_def small_pos key_ok_def)
next
  case (Suc n)
  have "first_diff key_bit (zkey (of_nat i)) (zkey p) (of_nat (i * 9)) \<and> \<not> key_bit (zkey (of_nat i)) (of_nat (i * 9))"
    if p: "p \<in> set (leaves (flat (comb n (Suc i))))" for p
  proof -
    obtain j where "j \<in> set [Suc i..<Suc (Suc i + n)]" "p = of_nat j"
      using p unfolding comb_leaves set_map by blast
    then have "i < j" "j \<le> 7281" "p = of_nat j"
      using Suc.prems by auto
    then show ?thesis
      using zkey_diff [of i j] by (simp add: zkey_def small_pos)
  qed
  moreover have "key_ok (zkey (of_nat i))"
    using Suc.prems by (simp add: zkey_def small_pos key_ok_def)
  ultimately show ?case
    using Suc.IH [of "Suc i"] Suc.prems by simp
qed

lemma comb_keys: "i + n \<le> 7281 \<Longrightarrow> keys_of zkeys zkey (set (leaves (flat (comb n i))))"
  using pat_key_ok [OF comb_pat [of i n]] by (auto simp: keys_of_def zkeys_def)

lemma comb_held: "i + n \<le> 7281 \<Longrightarrow> slots_held g (slots (comb n i))"
  by (auto simp: comb_slots slots_held_def untagged_iff small_pos simp del: upt_Suc)

section \<open>A root page above another page\<close>

definition one_page :: "rep \<Rightarrow> pos \<Rightarrow> node_page" where
  "one_page r q = new_page\<lparr>np_reps := r # replicate 338 0, np_size := 1, np_first := q, np_last := q\<rparr>"

definition two_pages :: heap_node_store where
  "two_pages = \<lparr>hn_nodes = [Some (one_page (kChildTag OR 1) 5), Some (one_page 5 5)], hn_free = [], hn_live = 2\<rparr>"

lemma one_page_ok: "page_ok (one_page (slot_rep t) (minp t)) t" if "ptop t = Lf (slot_rep t)" "minp t = maxp t"
  using that by (simp add: page_ok_def page_rep_def one_page_def new_page_def)

lemma two_pages_of: "page_of two_pages = [0 \<mapsto> one_page (kChildTag OR 1) 5, 1 \<mapsto> one_page 5 5]"
proof
  fix i :: u64
  consider "unat i = 0" | "unat i = 1" | "2 \<le> unat i"
    by linarith
  then show "page_of two_pages i = ([0 \<mapsto> one_page (kChildTag OR 1) 5, 1 \<mapsto> one_page 5 5]) i"
  proof cases
    case 3
    then have "i \<noteq> 0" "i \<noteq> 1"
      by auto
    with 3 show ?thesis
      by (simp add: page_of_def two_pages_def)
  next
    case 2
    then have "i = 1"
      by (simp add: word_unat_eq_iff)
    then show ?thesis
      by (simp add: page_of_def two_pages_def)
  qed (auto simp: page_of_def two_pages_def unat_eq_0)
qed

lemma two_pages_ok: "store_ok two_pages"
proof -
  have "{i. page_of two_pages i \<noteq> None} = {0, 1}"
    unfolding two_pages_of by auto
  then show ?thesis
    by (simp add: store_ok_def two_pages_of) (simp add: two_pages_def)
qed

lemma two_pages_holds: "holds (page_of two_pages) 0 (Sub 1 (Rec 5))" "holds (page_of two_pages) 1 (Rec 5)"
proof -
  have u: "untagged (1 :: u64)" "untagged (5 :: u64)"
    by (simp_all add: untagged_iff)
  show r: "holds (page_of two_pages) 1 (Rec 5)"
    using one_page_ok [of "Rec 5"] u by (intro holds_of_slots) (simp_all add: two_pages_of slots_held_def)
  then show "holds (page_of two_pages) 0 (Sub 1 (Rec 5))"
    using one_page_ok [of "Sub 1 (Rec 5)"] u by (intro holds_of_slots) (simp_all add: two_pages_of slots_held_def)
qed

lemma two_pages_dom: "dom (page_of two_pages) = ids 0 (Sub 1 (Rec 5))"
  unfolding two_pages_of by (auto simp: ids_def)

text \<open>The state after a deletion below the root that left the other page as it is.\<close>

lemma two_pages_child: "child_new (\<lambda>_. [7]) two_pages 0 (Sub 1 (Rec 5)) 0 1 (Rec 5)"
  using two_pages_ok two_pages_holds(2) holds_page [OF two_pages_holds(1)]
  by (auto simp: child_new_def others_def slots_held_def untagged_iff key_ok_def)

section \<open>An index with one entry\<close>

definition one_key :: key_fn where
  "one_key p = (if p = 5 \<or> p = 6 then Inr [7] else Inl kMissingKey)"

lemma single_entry:
  assumes "map_of es = [k \<mapsto> p]" "distinct (map fst es)"
  shows "es = [(k, p)]"
proof -
  have "(x, y) \<in> set es \<longleftrightarrow> x = k \<and> y = p" for x y
    using map_of_eq_Some_iff [OF assms(2), of x y] unfolding assms(1) by (auto split: if_splits)
  then have all: "set es = {(k, p)}"
    by auto
  then obtain e es' where es: "es = e # es'"
    by (cases es) auto
  moreover have "es' = []"
    using all assms(2) es by (cases es') auto
  ultimately show ?thesis
    using all by simp
qed

lemma one_entry:
  "\<exists>x0 x es. NewWithNodes one_key HeapNodeStore = Some (Inr x0) \<and> index_holds one_key x0 [] \<and> has_room (ix_nodes x0) \<and>
    Put one_key [7] 5 x0 = Some (Inr \<lparr>put_old_pos = 0, put_replaced = False\<rparr>, x) \<and> index_holds one_key x es \<and>
    map_of es = [[7] \<mapsto> 5]"
proof -
  obtain x0 where x0: "NewWithNodes one_key HeapNodeStore = Some (Inr x0)" "index_holds one_key x0 []" "has_room (ix_nodes x0)"
    using NewWithNodes_empty by blast
  have "key_ok [7]" "untagged (5 :: pos)" "one_key 5 = Inr [7]"
    by (simp_all add: key_ok_def untagged_iff one_key_def)
  then show ?thesis
    using Put_holds [OF x0(2) _ _ _ x0(3), of "[7]" 5] x0 by auto
qed

end
