(* ===== verification/Codec.thy ===== *)
theory Codec
  imports Diff
begin

text \<open>
  The bottom of the store (\<^verbatim>\<open>minweight_store/status.h\<close>, store.cc): status codes, checked access
  to a byte buffer, little-endian words, CRC-32, record positions and file names, with their round
  trips and the detection of a changed byte by the CRC.
\<close>

section \<open>Status\<close>

datatype ws_code =
    kOk | kInvalidArgument | kClosed | kWalFull | kCorruptWal | kCorruptManifest | kCorruptSnapshot
  | kCorruptIndex | kIoError | kRuntimeError | kFatal

text \<open>A status that is ok is \<open>Inr ()\<close> where a function returns one.\<close>

record status =
  st_code :: ws_code
  st_message :: string

definition Status :: "ws_code \<Rightarrow> string \<Rightarrow> status" where
  "Status c m = \<lparr>st_code = c, st_message = m\<rparr>"

definition CorruptWal :: "string \<Rightarrow> status" where
  "CorruptWal m = Status kCorruptWal m"

definition CorruptManifest :: "string \<Rightarrow> status" where
  "CorruptManifest m = Status kCorruptManifest m"

definition CorruptSnapshot :: "string \<Rightarrow> status" where
  "CorruptSnapshot m = Status kCorruptSnapshot m"

definition FromMinpatriciaStatus :: "mp_status \<Rightarrow> status" where
  "FromMinpatriciaStatus e =
     (case e of
        kKeyTooLarge \<Rightarrow> Status kInvalidArgument ''key too large''
      | kPositionTag \<Rightarrow> Status kCorruptWal ''invalid position tag''
      | _ \<Rightarrow> Status kCorruptIndex ''minpatricia index error'')"

lemma Status_code [simp]: "st_code (Status c m) = c" "st_message (Status c m) = m"
  by (simp_all add: Status_def)

lemma Corrupt_code [simp]:
  "st_code (CorruptWal m) = kCorruptWal" "st_code (CorruptManifest m) = kCorruptManifest"
  "st_code (CorruptSnapshot m) = kCorruptSnapshot"
  by (simp_all add: CorruptWal_def CorruptManifest_def CorruptSnapshot_def)

section \<open>Buffers\<close>

text \<open>\<open>n\<close> bytes at an offset of a buffer, and the copy of bytes to an offset (\<^verbatim>\<open>memcpy\<close>).\<close>

definition peek :: "bytes \<Rightarrow> nat \<Rightarrow> nat \<Rightarrow> bytes option" where
  "peek d i n = (if i + n \<le> length d then Some (take n (drop i d)) else None)"

definition poke :: "bytes \<Rightarrow> nat \<Rightarrow> bytes \<Rightarrow> bytes option" where
  "poke d i bs = (if i + length bs \<le> length d then Some (take i d @ bs @ drop (i + length bs) d) else None)"

named_theorems buf_simps "access to byte buffers"

lemma peek_Some [buf_simps]: "i + n \<le> length d \<Longrightarrow> peek d i n = Some (take n (drop i d))"
  by (simp add: peek_def)

lemma peek_length: "peek d i n = Some bs \<Longrightarrow> length bs = n"
  by (auto simp: peek_def split: if_splits)

lemma poke_length: "poke d i bs = Some d' \<Longrightarrow> length d' = length d"
  by (auto simp: poke_def split: if_splits)

lemma poke_total: "i + length bs \<le> length d \<Longrightarrow> \<exists>d'. poke d i bs = Some d' \<and> length d' = length d"
  by (simp add: poke_def)

text \<open>A read of written bytes, and a read beside them.\<close>

lemma peek_poke: "poke d i bs = Some d' \<Longrightarrow> peek d' i (length bs) = Some bs"
  by (auto simp: peek_def poke_def split: if_splits)

lemma take_drop_eq_nth: "i + n \<le> length d \<Longrightarrow> take n (drop i d) = map (\<lambda>j. d ! (i + j)) [0..<n]"
  by (rule nth_equalityI) simp_all

lemma poke_nth:
  "poke d i bs = Some d' \<Longrightarrow> j < length d \<Longrightarrow>
   d' ! j = (if i \<le> j \<and> j < i + length bs then bs ! (j - i) else d ! j)"
  by (auto simp: poke_def nth_append split: if_splits)

lemma peek_poke_other:
  assumes "poke d i bs = Some d'" "j + n \<le> i \<or> i + length bs \<le> j"
  shows "peek d' j n = peek d j n"
proof (cases "j + n \<le> length d")
  case True
  have "map (\<lambda>l. d' ! (j + l)) [0..<n] = map (\<lambda>l. d ! (j + l)) [0..<n]"
    using assms True by (intro map_cong refl) (auto simp: poke_nth)
  then show ?thesis
    using True poke_length [OF assms(1)] by (simp add: peek_def take_drop_eq_nth del: map_eq_conv)
next
  case False
  then show ?thesis
    using poke_length [OF assms(1)] by (simp add: peek_def)
qed

text \<open>A part of what a read gives.\<close>

lemma peek_part: "peek d i n = Some bs \<Longrightarrow> j + m \<le> n \<Longrightarrow> peek d (i + j) m = Some (take m (drop j bs))"
  by (auto simp: peek_def drop_take add.commute split: if_splits)

lemma peek_append: "peek d i (n + m) = Some bs \<Longrightarrow> peek d i n = Some (take n bs) \<and> peek d (i + n) m = Some (drop n bs)"
  using peek_part [of d i "n + m" bs 0 n] peek_part [of d i "n + m" bs n m]
  by (auto simp: peek_def drop_take split: if_splits)

definition IsZeroBytes :: "bytes \<Rightarrow> bool" where
  "IsZeroBytes bs = list_all (\<lambda>b. b = 0) bs"

lemma IsZeroBytes_replicate [simp]: "IsZeroBytes (replicate n 0)"
  by (simp add: IsZeroBytes_def list_all_iff)

section \<open>Little-endian words\<close>

definition le32 :: "u32 \<Rightarrow> bytes" where
  "le32 v = [ucast v, ucast (drop_bit 8 v), ucast (drop_bit 16 v), ucast (drop_bit 24 v)]"

definition Store32 :: "bytes \<Rightarrow> nat \<Rightarrow> u32 \<Rightarrow> bytes option" where
  "Store32 d i v = poke d i (le32 v)"

definition of_le32 :: "bytes \<Rightarrow> u32" where
  "of_le32 p = ucast (p ! 0) OR push_bit 8 (ucast (p ! 1)) OR push_bit 16 (ucast (p ! 2)) OR push_bit 24 (ucast (p ! 3))"

definition Load32 :: "bytes \<Rightarrow> nat \<Rightarrow> u32 option" where
  "Load32 d i = map_option of_le32 (peek d i 4)"

text \<open>\<^verbatim>\<open>for (int i = 0; i < 8; ++i) p[i] = value >> (i * 8);\<close> and the loop that reads from the last byte on.\<close>

definition le64 :: "u64 \<Rightarrow> bytes" where
  "le64 v = map (\<lambda>i. ucast (drop_bit (i * 8) v)) [0..<8]"

definition Store64 :: "bytes \<Rightarrow> nat \<Rightarrow> u64 \<Rightarrow> bytes option" where
  "Store64 d i v = poke d i (le64 v)"

definition of_le64 :: "bytes \<Rightarrow> u64" where
  "of_le64 p = fold (\<lambda>b value. push_bit 8 value OR ucast b) (rev p) 0"

definition Load64 :: "bytes \<Rightarrow> nat \<Rightarrow> u64 option" where
  "Load64 d i = map_option of_le64 (peek d i 8)"

lemma le32_length [simp]: "length (le32 v) = 4"
  by (simp add: le32_def)

lemma le64_length [simp]: "length (le64 v) = 8"
  by (simp add: le64_def)

lemma of_le32_le32 [simp]: "of_le32 (le32 v) = v"
proof (rule bit_word_eqI)
  fix n
  assume "n < LENGTH(32)"
  then consider "n < 8" | "8 \<le> n \<and> n < 16" | "16 \<le> n \<and> n < 24" | "24 \<le> n \<and> n < 32"
    by fastforce
  then show "bit (of_le32 (le32 v)) n \<longleftrightarrow> bit v n"
  proof cases
    case 1
    then show ?thesis
      by (simp add: of_le32_def le32_def bit_simps)
  next
    case 2
    then have "n - 8 < 8"
      by linarith
    with 2 show ?thesis
      by (simp add: of_le32_def le32_def bit_simps)
  next
    case 3
    then have "\<not> n - 8 < 8" "n - 16 < 8"
      by linarith+
    with 3 show ?thesis
      by (simp add: of_le32_def le32_def bit_simps)
  next
    case 4
    then have "\<not> n - 8 < 8" "\<not> n - 16 < 8" "n - 24 < 8"
      by linarith+
    with 4 show ?thesis
      by (simp add: of_le32_def le32_def bit_simps)
  qed
qed

lemma le_bytes_fold:
  fixes v :: u64
  assumes "k \<le> 8"
  shows "fold (\<lambda>b value. push_bit 8 value OR ucast b) (rev (map (\<lambda>i. ucast (drop_bit (i * 8) v) :: byte) [0..<k])) 0 =
    take_bit (8 * k) v"
  using assms
proof (induction k arbitrary: v)
  case (Suc k)
  have "map (\<lambda>i. ucast (drop_bit (i * 8) v) :: byte) [0..<Suc k] =
      ucast v # map (\<lambda>i. ucast (drop_bit (i * 8) (drop_bit 8 v))) [0..<k]"
    by (simp add: upt_conv_Cons map_Suc_upt[symmetric] add.commute del: upt_Suc)
  moreover have "push_bit 8 (take_bit (8 * k) (drop_bit 8 v)) OR ucast (ucast v :: byte) = take_bit (8 * Suc k) v"
    by (rule bit_eqI) (auto simp: bit_simps)
  moreover have "fold (\<lambda>b value. push_bit 8 value OR ucast b)
      (rev (map (\<lambda>i. ucast (drop_bit (i * 8) (drop_bit 8 v)) :: byte) [0..<k])) 0 = take_bit (8 * k) (drop_bit 8 v)"
    using Suc.IH [of "drop_bit 8 v"] Suc.prems by (simp del: drop_bit_drop_bit)
  ultimately show ?case
    by (simp del: drop_bit_drop_bit upt_Suc)
qed simp

lemma of_le64_le64 [simp]: "of_le64 (le64 v) = v"
  using le_bytes_fold [of 8 v] by (simp add: of_le64_def le64_def take_bit_word_eq_self)

lemma Load32_Store32: "Store32 d i v = Some d' \<Longrightarrow> Load32 d' i = Some v"
  using peek_poke [of d i "le32 v" d'] by (simp add: Store32_def Load32_def)

lemma Load64_Store64: "Store64 d i v = Some d' \<Longrightarrow> Load64 d' i = Some v"
  using peek_poke [of d i "le64 v" d'] by (simp add: Store64_def Load64_def)

section \<open>CRC-32\<close>

definition crc_step :: "u32 \<Rightarrow> u32" where
  "crc_step crc = (if crc AND 1 \<noteq> 0 then drop_bit 1 crc XOR 0xedb88320 else drop_bit 1 crc)"

definition MakeCRC32Table :: "u32 list" where
  "MakeCRC32Table = map (\<lambda>i. (crc_step ^^ 8) (of_nat i)) [0..<256]"

definition crc_byte :: "byte \<Rightarrow> u32 \<Rightarrow> u32" where
  "crc_byte p crc = MakeCRC32Table ! unat ((crc XOR ucast p) AND 0xff) XOR drop_bit 8 crc"

definition CRC32Update :: "u32 \<Rightarrow> bytes \<Rightarrow> u32" where
  "CRC32Update crc data = NOT (fold crc_byte data (NOT crc))"

text \<open>A record is its header of 13 bytes, of which the last 4 are the CRC, and its contents.\<close>

definition kWalRecordHeaderSize :: nat where "kWalRecordHeaderSize = 13"
definition kWalRecordCRCOffset :: nat where "kWalRecordCRCOffset = 9"

definition WalRecordCRC :: "bytes \<Rightarrow> u32" where
  "WalRecordCRC r = CRC32Update (CRC32Update 0 (take kWalRecordCRCOffset r)) (drop kWalRecordHeaderSize r)"

definition BytesCRC :: "bytes \<Rightarrow> u32" where
  "BytesCRC v = CRC32Update 0 v"

text \<open>Checksums of parts that are chained are the checksum of the whole.\<close>

lemma CRC32Update_append: "CRC32Update (CRC32Update c xs) ys = CRC32Update c (xs @ ys)"
  by (simp add: CRC32Update_def)

lemma WalRecordCRC_parts: "WalRecordCRC r = CRC32Update 0 (take kWalRecordCRCOffset r @ drop kWalRecordHeaderSize r)"
  by (simp add: WalRecordCRC_def CRC32Update_append)

text \<open>
  The table computes what feeding the bits of a byte one by one computes; a step is linear and
  injective, so the checksums of strings that differ in up to four consecutive bytes differ.
\<close>

lemma xor_cancel_right: "a XOR c = b XOR c \<longleftrightarrow> a = (b :: u32)"
  by (metis xor.assoc xor_self_eq xor.right_neutral)

lemma xor_cancel_left: "c XOR a = c XOR b \<longleftrightarrow> a = (b :: u32)"
  using xor_cancel_right [of a c b] by (simp add: xor.commute)

lemma crc_step_odd: "crc_step c = (if bit c 0 then drop_bit 1 c XOR 0xedb88320 else drop_bit 1 c)"
  by (simp add: crc_step_def and_one_eq odd_iff_mod_2_eq_one bit_0)

lemma crc_step_xor: "crc_step (a XOR b) = crc_step a XOR crc_step b"
proof -
  have x: "(x XOR p) XOR (y XOR p) = x XOR y" "(x XOR p) XOR y = (x XOR y) XOR p" "x XOR (y XOR p) = (x XOR y) XOR p" "(x XOR p) XOR p = x"
    for x y p :: u32
    by (rule bit_word_eqI, auto simp: bit_simps)+
  show ?thesis
    by (cases "bit a 0"; cases "bit b 0") (simp_all only: crc_step_odd bit_xor_iff drop_bit_xor x if_True if_False simp_thms)
qed

lemma crc_steps_xor: "(crc_step ^^ n) (a XOR b) = (crc_step ^^ n) a XOR (crc_step ^^ n) b"
  by (induction n) (simp_all add: crc_step_xor)

lemma crc_step_low: "\<not> bit c 0 \<Longrightarrow> crc_step c = drop_bit 1 c"
  by (simp add: crc_step_odd)

lemma crc_step_inj: "crc_step a = crc_step b \<Longrightarrow> a = b"
proof -
  assume eq: "crc_step a = crc_step b"
  have top: "bit (crc_step c) 31 \<longleftrightarrow> bit c 0" for c
    by (auto simp: crc_step_odd bit_simps dest: bit_imp_le_length)
  have low: "bit a 0 \<longleftrightarrow> bit b 0"
    using top [of a] top [of b] eq by simp
  then have "drop_bit 1 a = drop_bit 1 b"
    using eq by (auto simp: crc_step_odd xor_cancel_right)
  then have "bit a (Suc n) = bit b (Suc n)" for n
    by (metis bit_drop_bit_eq comp_apply plus_1_eq_Suc)
  then have "bit a n = bit b n" for n
    using low by (cases n) auto
  then show "a = b"
    by (simp add: bit_eq_iff)
qed

lemma crc_steps_inj: "(crc_step ^^ n) a = (crc_step ^^ n) b \<Longrightarrow> a = b"
  by (induction n arbitrary: a b) (auto dest: crc_step_inj)

lemma crc_steps_low: "(\<And>i. i < n \<Longrightarrow> \<not> bit c i) \<Longrightarrow> (crc_step ^^ n) c = drop_bit n c"
proof (induction n arbitrary: c)
  case (Suc n)
  have "(crc_step ^^ n) (drop_bit 1 c) = drop_bit n (drop_bit 1 c)"
    using Suc.prems by (intro Suc.IH) (simp add: bit_drop_bit_eq)
  moreover have "crc_step c = drop_bit 1 c"
    using Suc.prems by (intro crc_step_low) simp
  ultimately show ?case
    by (simp add: funpow_Suc_right del: funpow.simps(2))
qed simp

lemma crc_byte_steps: "crc_byte p crc = (crc_step ^^ 8) (crc XOR ucast p)"
proof -
  let ?x = "crc XOR ucast p"
  have ff: "w AND 0xff = take_bit 8 w" for w :: u32
    by (simp add: take_bit_eq_mask mask_eq_exp_minus_1)
  have lt: "unat (take_bit 8 ?x) < 256"
    using take_bit_nat_less_exp [of 8 "unat ?x"] by (simp add: unsigned_take_bit_eq del: take_bit_xor)
  have "?x = take_bit 8 ?x XOR push_bit 8 (drop_bit 8 ?x)"
  proof (rule bit_eqI)
    show "bit ?x n = bit (take_bit 8 ?x XOR push_bit 8 (drop_bit 8 ?x)) n" for n
      by (cases "n < 8") (auto simp: bit_simps dest: bit_imp_le_length)
  qed
  moreover have "(crc_step ^^ 8) (push_bit 8 (drop_bit 8 ?x)) = drop_bit 8 crc"
  proof (subst crc_steps_low)
    show "drop_bit 8 (push_bit 8 (drop_bit 8 ?x)) = drop_bit 8 crc"
    proof (rule bit_word_eqI)
      show "bit (drop_bit 8 (push_bit 8 (drop_bit 8 ?x))) n = bit (drop_bit 8 crc) n" for n
        using bit_imp_le_length [of crc "8 + n"] bit_imp_le_length [of p "8 + n"]
        by (cases "n < 24") (auto simp: bit_simps)
    qed
  qed (simp_all add: bit_simps)
  moreover have "MakeCRC32Table ! unat (take_bit 8 ?x) = (crc_step ^^ 8) (take_bit 8 ?x)"
    using lt by (simp add: MakeCRC32Table_def)
  ultimately show ?thesis
    unfolding crc_byte_def ff by (metis crc_steps_xor)
qed

text \<open>A string of at most four bytes as the low bytes of a word.\<close>

fun crc_word :: "bytes \<Rightarrow> u32" where
  "crc_word [] = 0"
| "crc_word (b # bs) = ucast b XOR push_bit 8 (crc_word bs)"

lemma crc_word_high: "8 * length bs \<le> i \<Longrightarrow> \<not> bit (crc_word bs) i"
  by (induction bs arbitrary: i) (auto simp: bit_simps dest: bit_imp_le_length)

lemma crc_word_inj: "length xs = length ys \<Longrightarrow> length xs \<le> 4 \<Longrightarrow> crc_word xs = crc_word ys \<Longrightarrow> xs = ys"
proof (induction xs ys rule: list_induct2)
  case (Cons x xs y ys)
  have bits: "bit (crc_word (x # xs)) i = bit (crc_word (y # ys)) i" for i
    using Cons.prems by simp
  have "bit x i = bit y i" for i
    using bits [of i] by (cases "i < 8") (auto simp: bit_simps dest: bit_imp_le_length)
  then have "x = y"
    by (simp add: bit_eq_iff)
  moreover have "bit (crc_word xs) i = bit (crc_word ys) i" for i
  proof (cases "i < 24")
    case True
    then show ?thesis
      using bits [of "i + 8"] by (auto simp: bit_simps dest: bit_imp_le_length)
  next
    case False
    then show ?thesis
      using crc_word_high [of xs i] crc_word_high [of ys i] Cons by simp
  qed
  then have "crc_word xs = crc_word ys"
    by (simp add: bit_eq_iff)
  ultimately show ?case
    using Cons by simp
qed simp

lemma fold_crc_word: "length bs \<le> 4 \<Longrightarrow> fold crc_byte bs c = (crc_step ^^ (8 * length bs)) (c XOR crc_word bs)"
proof (induction bs arbitrary: c)
  case (Cons b bs)
  have high: "\<not> bit (crc_word bs) i" if "24 \<le> i" for i
    using that Cons.prems by (intro crc_word_high) simp
  have "(crc_step ^^ 8) (push_bit 8 (crc_word bs)) = drop_bit 8 (push_bit 8 (crc_word bs))"
    by (rule crc_steps_low) (simp add: bit_simps)
  also have "\<dots> = crc_word bs"
  proof (rule bit_word_eqI)
    show "bit (drop_bit 8 (push_bit 8 (crc_word bs))) i = bit (crc_word bs) i" for i
      using high [of i] by (cases "i < 24") (simp_all add: bit_simps)
  qed
  finally have "(crc_step ^^ 8) (push_bit 8 (crc_word bs)) = crc_word bs" .
  then have "(crc_step ^^ 8) (c XOR crc_word (b # bs)) = (crc_step ^^ 8) (c XOR ucast b) XOR crc_word bs"
    by (simp add: crc_steps_xor xor.assoc del: funpow.simps)
  moreover have "fold crc_byte (b # bs) c = (crc_step ^^ (8 * length bs)) ((crc_step ^^ 8) (c XOR ucast b) XOR crc_word bs)"
    using Cons.IH [of "(crc_step ^^ 8) (c XOR ucast b)"] Cons.prems by (simp add: crc_byte_steps [of b c] del: funpow.simps)
  moreover have "8 * length (b # bs) = 8 * length bs + 8"
    by simp
  ultimately show ?case
    by (simp only: funpow_add comp_apply)
qed simp

lemma fold_crc_inj: "fold crc_byte bs c = fold crc_byte bs d \<Longrightarrow> c = d"
proof (induction bs arbitrary: c d)
  case (Cons b bs)
  then have "c XOR ucast b = d XOR ucast b"
    using crc_steps_inj [of 8 "c XOR ucast b" "d XOR ucast b"] by (simp add: crc_byte_steps)
  then show ?case
    by (simp only: xor_cancel_right)
qed simp

lemma CRC32Update_burst:
  assumes "length bs = length bs'" "length bs \<le> 4" "bs \<noteq> bs'"
  shows "CRC32Update c (xs @ bs @ ys) \<noteq> CRC32Update c (xs @ bs' @ ys)"
proof
  let ?c = "fold crc_byte xs (NOT c)"
  assume "CRC32Update c (xs @ bs @ ys) = CRC32Update c (xs @ bs' @ ys)"
  then have "fold crc_byte bs ?c = fold crc_byte bs' ?c"
    using fold_crc_inj [of ys] by (simp add: CRC32Update_def)
  then have "(crc_step ^^ (8 * length bs)) (?c XOR crc_word bs) = (crc_step ^^ (8 * length bs)) (?c XOR crc_word bs')"
    using assms(1,2) by (simp only: fold_crc_word)
  then have "crc_word bs = crc_word bs'"
    using crc_steps_inj xor_cancel_left by blast
  then show False
    using crc_word_inj assms by blast
qed

end
