(* ===== verification/Names.thy ===== *)
theory Names
  imports Codec Route
begin

text \<open>
  Record positions and file names (store.cc): a position of a record packs the number of its log
  segment and the offset in it, positions below \<open>2 ^ 30\<close> are those of snapshot records; segment,
  generation and snapshot names carry their number in 20 decimal digits.
\<close>

section \<open>Record positions\<close>

definition kRecordOffsetBits :: nat where "kRecordOffsetBits = 30"
definition kRecordOffsetLimit :: u64 where "kRecordOffsetLimit = push_bit kRecordOffsetBits 1"
definition kRecordOffsetMask :: u64 where "kRecordOffsetMask = kRecordOffsetLimit - 1"
definition kRecordFileNoLimit :: u64 where "kRecordFileNoLimit = push_bit (63 - kRecordOffsetBits) 1"

definition MakeRecordPosition :: "u64 \<Rightarrow> u64 \<Rightarrow> status + pos" where
  "MakeRecordPosition file_no offset =
     (if file_no = 0 \<or> file_no \<ge> kRecordFileNoLimit \<or> offset \<ge> kRecordOffsetLimit
      then Inl (Status kCorruptWal ''record position out of range'')
      else
        let pos = push_bit kRecordOffsetBits file_no OR offset in
        if pos AND kChildTag \<noteq> 0 then Inl (Status kCorruptWal ''record position overlaps child tag'')
        else Inr pos)"

definition RecordPositionFileNo :: "pos \<Rightarrow> u64" where
  "RecordPositionFileNo pos = drop_bit kRecordOffsetBits pos"

definition RecordPositionOffset :: "pos \<Rightarrow> u64" where
  "RecordPositionOffset pos = pos AND kRecordOffsetMask"

lemma kRecordOffsetLimit_eq: "kRecordOffsetLimit = 2 ^ 30"
  by (simp add: kRecordOffsetLimit_def kRecordOffsetBits_def)

lemma unat_offset_limit: "unat kRecordOffsetLimit = 2 ^ 30"
  by (simp add: kRecordOffsetLimit_eq)

lemma kRecordFileNoLimit_eq: "kRecordFileNoLimit = 2 ^ 33"
  by (simp add: kRecordFileNoLimit_def kRecordOffsetBits_def)

text \<open>The position of a segment and an offset in range, and what is read back from it.\<close>

definition file_no_ok :: "u64 \<Rightarrow> bool" where
  "file_no_ok n \<longleftrightarrow> n \<noteq> 0 \<and> n < kRecordFileNoLimit"

definition rec_pos :: "u64 \<Rightarrow> u64 \<Rightarrow> pos" where
  "rec_pos n i = push_bit kRecordOffsetBits n OR i"

lemma small_bit: "x < 2 ^ n \<Longrightarrow> n \<le> i \<Longrightarrow> \<not> bit (x :: u64) i"
proof
  assume x: "x < 2 ^ n" and i: "n \<le> i" and b: "bit x i"
  then have "i < 64"
    using bit_imp_le_length [OF b] by simp
  then have n: "n < 64"
    using i by simp
  have "(2 :: u64) ^ n = of_nat (2 ^ n)" "(2 :: nat) ^ n < 2 ^ 64"
    using n by (simp_all only: of_nat_power of_nat_numeral power_strict_increasing)
  then have "unat ((2 :: u64) ^ n) = 2 ^ n"
    by (simp only: unat_of_nat) simp
  then have "unat x < 2 ^ n"
    using x by (simp add: word_less_nat_alt)
  then have "take_bit n x = x"
    by (metis take_bit_nat_eq_self unsigned_take_bit_eq word_unat_eq_iff)
  then show False
    using b i by (metis bit_take_bit_iff not_less)
qed

lemma RecordPosition_rec_pos:
  assumes "n < kRecordFileNoLimit" "i < kRecordOffsetLimit"
  shows "RecordPositionFileNo (rec_pos n i) = n" "RecordPositionOffset (rec_pos n i) = i" "\<not> bit (rec_pos n i) 63"
proof -
  have n: "\<not> bit n j" if "33 \<le> j" for j
    using assms(1) that by (intro small_bit [of n 33]) (simp_all add: kRecordFileNoLimit_eq)
  have i: "\<not> bit i j" if "30 \<le> j" for j
    using assms(2) that by (intro small_bit [of i 30]) (simp_all add: kRecordOffsetLimit_eq)
  show "RecordPositionFileNo (rec_pos n i) = n"
  proof (rule bit_word_eqI)
    show "bit (RecordPositionFileNo (rec_pos n i)) j = bit n j" for j
      using i [of "30 + j"] n [of j] by (cases "j < 33") (auto simp: RecordPositionFileNo_def rec_pos_def kRecordOffsetBits_def bit_simps)
  qed
  have mask: "kRecordOffsetMask = mask 30"
    by (simp add: kRecordOffsetMask_def kRecordOffsetLimit_eq mask_eq_exp_minus_1)
  show "RecordPositionOffset (rec_pos n i) = i"
  proof (rule bit_word_eqI)
    show "bit (RecordPositionOffset (rec_pos n i)) j = bit i j" for j
      using i [of j] by (cases "j < 30") (auto simp: RecordPositionOffset_def rec_pos_def kRecordOffsetBits_def mask bit_simps)
  qed
  show "\<not> bit (rec_pos n i) 63"
    using n [of 33] i [of 63] by (simp add: rec_pos_def kRecordOffsetBits_def bit_simps)
qed

lemma MakeRecordPosition_ok:
  "file_no_ok n \<Longrightarrow> i < kRecordOffsetLimit \<Longrightarrow> MakeRecordPosition n i = Inr (rec_pos n i)"
  using RecordPosition_rec_pos(3) [of n i]
  by (simp add: MakeRecordPosition_def file_no_ok_def Let_def and_kChildTag untagged_def not_le flip: rec_pos_def)

lemma MakeRecordPosition_err:
  "\<not> (file_no_ok n \<and> i < kRecordOffsetLimit) \<Longrightarrow> MakeRecordPosition n i = Inl (Status kCorruptWal ''record position out of range'')"
  by (auto simp: MakeRecordPosition_def file_no_ok_def)

text \<open>Positions of records of the log and of snapshot records are different.\<close>

lemma rec_pos_ge: "file_no_ok n \<Longrightarrow> i < kRecordOffsetLimit \<Longrightarrow> kRecordOffsetLimit \<le> rec_pos n i"
proof -
  assume a: "file_no_ok n" "i < kRecordOffsetLimit"
  then have "RecordPositionFileNo (rec_pos n i) \<noteq> 0"
    by (simp add: RecordPosition_rec_pos file_no_ok_def)
  moreover have "RecordPositionFileNo p = 0" if "unat p < 2 ^ 30" for p
  proof -
    have "unat (RecordPositionFileNo p) = unat p div 2 ^ 30"
      unfolding RecordPositionFileNo_def kRecordOffsetBits_def unat_drop_bit_eq by (rule drop_bit_eq_div)
    then show ?thesis
      using that by (simp add: word_unat_eq_iff)
  qed
  ultimately have "\<not> unat (rec_pos n i) < 2 ^ 30"
    by blast
  then show ?thesis
    by (simp add: word_le_nat_alt unat_offset_limit)
qed

lemma rec_pos_inj:
  "file_no_ok n \<Longrightarrow> file_no_ok m \<Longrightarrow> i < kRecordOffsetLimit \<Longrightarrow> j < kRecordOffsetLimit \<Longrightarrow>
   rec_pos n i = rec_pos m j \<longleftrightarrow> n = m \<and> i = j"
  by (metis RecordPosition_rec_pos(1,2) file_no_ok_def)

section \<open>File names\<close>

definition JoinPath :: "string \<Rightarrow> string \<Rightarrow> string" where
  "JoinPath lhs rhs = (if lhs = [] then rhs else if last lhs = CHR ''/'' then lhs @ rhs else lhs @ ''/'' @ rhs)"

text \<open>\<^verbatim>\<open>out << std::setw(20) << std::setfill('0') << id\<close>.\<close>

fun digits :: "nat \<Rightarrow> string" where
  "digits n = (if n < 10 then [char_of (48 + n)] else digits (n div 10) @ [char_of (48 + n mod 10)])"

declare digits.simps [simp del]

definition FixedWidthID :: "u64 \<Rightarrow> string" where
  "FixedWidthID i = replicate (20 - length (digits (unat i))) CHR ''0'' @ digits (unat i)"

definition kWalSegmentSuffix :: string where "kWalSegmentSuffix = ''.wal''"

definition WalSegmentName :: "u64 \<Rightarrow> string" where
  "WalSegmentName file_no = replicate (20 - length (digits (unat file_no))) CHR ''0'' @ digits (unat file_no) @ kWalSegmentSuffix"

definition WalGenerationName :: "u64 \<Rightarrow> string" where
  "WalGenerationName generation = FixedWidthID generation"

definition kSnapshotName :: string where "kSnapshotName = ''SNAPSHOT''"

definition SnapshotFileName :: "u64 \<Rightarrow> string" where
  "SnapshotFileName generation = kSnapshotName @ ''.'' @ FixedWidthID generation"

definition SnapshotPath :: "string \<Rightarrow> u64 \<Rightarrow> string" where
  "SnapshotPath dir generation = JoinPath dir (SnapshotFileName generation)"

definition kManifestName :: string where "kManifestName = ''MANIFEST''"

definition ManifestPath :: "string \<Rightarrow> string" where
  "ManifestPath dir = JoinPath dir kManifestName"

text \<open>
  The loop over digits that the three parsers share; \<^verbatim>\<open>value * 10 + digit\<close> is computed in 64 bits.
\<close>

fun parse_digits :: "string \<Rightarrow> u64 \<Rightarrow> u64 option" where
  "parse_digits [] v = Some v"
| "parse_digits (c # cs) v =
     (if of_char c < (48 :: nat) \<or> of_char c > (57 :: nat) then None
      else parse_digits cs (v * 10 + of_nat (of_char c - 48)))"

definition ParseWalSegmentName :: "string \<Rightarrow> status + u64" where
  "ParseWalSegmentName name =
     (if length name \<noteq> 20 + length kWalSegmentSuffix \<or> drop (length name - length kWalSegmentSuffix) name \<noteq> kWalSegmentSuffix
      then Inl (Status kInvalidArgument ''not a wal segment'')
      else case parse_digits (take 20 name) 0 of
        None \<Rightarrow> Inl (Status kInvalidArgument ''not a wal segment'')
      | Some v \<Rightarrow> if v = 0 then Inl (Status kInvalidArgument ''invalid wal id'') else Inr v)"

definition ParseSnapshotFileName :: "string \<Rightarrow> status + u64" where
  "ParseSnapshotFileName name =
     (let prefix = kSnapshotName @ ''.'' in
      if length name \<noteq> length prefix + 20 \<or> take (length prefix) name \<noteq> prefix
      then Inl (Status kInvalidArgument ''not a snapshot file'')
      else case parse_digits (drop (length prefix) name) 0 of
        None \<Rightarrow> Inl (Status kInvalidArgument ''not a snapshot file'')
      | Some v \<Rightarrow> if v = 0 then Inl (Status kInvalidArgument ''invalid snapshot generation'') else Inr v)"

text \<open>The body of the loop of \<^verbatim>\<open>ListWalGenerations\<close>: the generation that a name stands for.\<close>

definition wal_generation_of :: "string \<Rightarrow> u64 option" where
  "wal_generation_of name =
     (if name = ''.'' \<or> name = ''..'' \<or> length name \<noteq> 20 then None
      else case parse_digits name 0 of None \<Rightarrow> None | Some v \<Rightarrow> if v > 0 then Some v else None)"

lemma parse_digits_append:
  "parse_digits (xs @ ys) v = Option.bind (parse_digits xs v) (parse_digits ys)"
  by (induction xs arbitrary: v) auto

lemma parse_digit: "d < 10 \<Longrightarrow> parse_digits [char_of (48 + d)] v = Some (v * 10 + of_nat d)"
  by simp

lemma parse_digits_digits: "parse_digits (digits n) v = Some (v * 10 ^ length (digits n) + of_nat n)"
proof (induction n arbitrary: v rule: digits.induct)
  case (1 n)
  show ?case
  proof (cases "n < 10")
    case True
    then show ?thesis
      using parse_digit [of n v] by (simp add: digits.simps [of n])
  next
    case False
    have "of_nat n = (of_nat (n div 10) * 10 + of_nat (n mod 10) :: u64)"
      by (metis (no_types) div_mult_mod_eq of_nat_add of_nat_mult of_nat_numeral)
    then show ?thesis
      using False 1 [OF False] parse_digit [of "n mod 10"]
      by (simp add: digits.simps [of n] parse_digits_append algebra_simps del: parse_digits.simps)
  qed
qed

lemma parse_zeros: "parse_digits (replicate n CHR ''0'') 0 = Some 0"
  by (induction n) simp_all

lemma digits_length: "n < 10 ^ Suc k \<Longrightarrow> length (digits n) \<le> Suc k"
proof (induction k arbitrary: n)
  case (Suc k)
  show ?case
  proof (cases "n < 10")
    case False
    have "n div 10 < 10 ^ Suc k"
      using Suc.prems by (simp add: less_mult_imp_div_less)
    then show ?thesis
      using Suc.IH [of "n div 10"] False by (simp add: digits.simps [of n])
  qed (simp add: digits.simps [of n])
qed (simp add: digits.simps)

lemma digits_u64: "length (digits (unat (i :: u64))) \<le> 20"
  using digits_length [of "unat i" 19] u64_less [of i] by simp

lemma FixedWidthID_length [simp]: "length (FixedWidthID i) = 20"
  using digits_u64 [of i] by (simp add: FixedWidthID_def)

lemma parse_FixedWidthID: "parse_digits (FixedWidthID i) 0 = Some i"
  by (simp add: FixedWidthID_def parse_digits_append parse_zeros parse_digits_digits)

lemma WalSegmentName_eq: "WalSegmentName i = FixedWidthID i @ kWalSegmentSuffix"
  by (simp add: WalSegmentName_def FixedWidthID_def)

lemma FixedWidthID_inj: "FixedWidthID i = FixedWidthID j \<longleftrightarrow> i = j"
  by (metis parse_FixedWidthID option.inject)

lemma ParseWalSegmentName_name: "i \<noteq> 0 \<Longrightarrow> ParseWalSegmentName (WalSegmentName i) = Inr i"
  by (simp add: ParseWalSegmentName_def WalSegmentName_eq parse_FixedWidthID)

lemma ParseSnapshotFileName_name: "i \<noteq> 0 \<Longrightarrow> ParseSnapshotFileName (SnapshotFileName i) = Inr i"
  by (simp add: ParseSnapshotFileName_def SnapshotFileName_def parse_FixedWidthID kSnapshotName_def)

lemma wal_generation_of_name: "i \<noteq> 0 \<Longrightarrow> wal_generation_of (WalGenerationName i) = Some i"
proof -
  assume "i \<noteq> 0"
  moreover have "FixedWidthID i \<noteq> ''.''" "FixedWidthID i \<noteq> ''..''"
    using FixedWidthID_length [of i] by fastforce+
  ultimately show ?thesis
    by (simp add: wal_generation_of_def WalGenerationName_def parse_FixedWidthID word_gt_0)
qed

text \<open>A name with a number that does not fit into 64 bits is taken for another one.\<close>

lemma ParseWalSegmentName_wraps: "ParseWalSegmentName (''18446744073709551617'' @ kWalSegmentSuffix) = Inr 1"
  by (simp add: ParseWalSegmentName_def kWalSegmentSuffix_def)

end
