(* ===== verification/Disk.thy ===== *)
theory Disk
  imports Names
begin

text \<open>
  The file system as the store uses it. \<open>world\<close> is the part of a POSIX system that the calls of
  store.cc read and change: regular files with their contents, directories and open descriptors.
  Every system call consumes one entry of a schedule, which lets it work, fail with an error number
  or transfer fewer bytes than asked for, so a theorem about all worlds covers every failure of
  every call. A file that is mapped is not in the model while it is mapped: its contents are the bytes
  of the mapping, which \<^verbatim>\<open>munmap\<close> puts back. On these calls: the file functions of store.cc
  (\<^verbatim>\<open>WriteAll\<close> to \<^verbatim>\<open>RemoveOldSnapshots\<close>). Not modelled: symbolic links, \<^verbatim>\<open>..\<close>, access
  rights, files that are removed while a descriptor is open, and what survives a power failure.
\<close>

section \<open>The system\<close>

datatype errno = ENOENT | EEXIST | EINTR | EISDIR | ENOTDIR | ENOTEMPTY | EBADF | Errno nat

datatype outcome = Works | Fails errno | Short nat

type_synonym path = "string list"

record world =
  w_files :: "(path \<times> bytes) list"
  w_dirs :: "path list"
  w_fds :: "(nat \<times> path \<times> nat) list"
  w_clock :: nat
  w_sched :: "nat \<Rightarrow> outcome"
  w_strerror :: "errno \<Rightarrow> string"

type_synonym 'a sys = "(world, errno, 'a) op"
type_synonym 'a io = "(world, status, 'a) op"

text \<open>Path resolution: empty components and dots do not count.\<close>

fun split_slash :: "string \<Rightarrow> string list" where
  "split_slash [] = [[]]"
| "split_slash (c # cs) =
     (if c = CHR ''/'' then [] # split_slash cs
      else case split_slash cs of [] \<Rightarrow> [[c]] | p # ps \<Rightarrow> (c # p) # ps)"

definition resolve :: "string \<Rightarrow> path" where
  "resolve p = (if p \<noteq> [] \<and> hd p = CHR ''/'' then [''/''] else []) @ filter (\<lambda>c. c \<noteq> [] \<and> c \<noteq> ''.'') (split_slash p)"

definition file_at :: "world \<Rightarrow> path \<Rightarrow> bytes option" where
  "file_at w p = map_of (w_files w) p"

definition is_dir :: "world \<Rightarrow> path \<Rightarrow> bool" where
  "is_dir w p \<longleftrightarrow> p = [] \<or> p = [''/''] \<or> p \<in> set (w_dirs w)"

definition set_file :: "path \<Rightarrow> bytes \<Rightarrow> world \<Rightarrow> world" where
  "set_file p d w = w\<lparr>w_files := (p, d) # filter (\<lambda>f. fst f \<noteq> p) (w_files w)\<rparr>"

definition del_file :: "path \<Rightarrow> world \<Rightarrow> world" where
  "del_file p w = w\<lparr>w_files := filter (\<lambda>f. fst f \<noteq> p) (w_files w)\<rparr>"

definition names_in :: "world \<Rightarrow> path \<Rightarrow> string list" where
  "names_in w p = ''.'' # ''..'' # map last (filter (\<lambda>q. q \<noteq> [] \<and> butlast q = p) (map fst (w_files w) @ w_dirs w))"

text \<open>A call: it takes one entry of the schedule.\<close>

definition tick :: "world \<Rightarrow> world" where
  "tick w = w\<lparr>w_clock := Suc (w_clock w)\<rparr>"

definition syscall :: "(outcome \<Rightarrow> world \<Rightarrow> (errno + 'a) \<times> world) \<Rightarrow> 'a sys" where
  "syscall f w =
     (case w_sched w (w_clock w) of
        Fails e \<Rightarrow> Some (Inl e, tick w)
      | oc \<Rightarrow> Some (f oc (tick w)))"

definition new_fd :: "path \<Rightarrow> world \<Rightarrow> (errno + nat) \<times> world" where
  "new_fd p w = (let fd = Suc (fold max (map fst (w_fds w)) 2) in (Inr fd, w\<lparr>w_fds := (fd, p, 0) # w_fds w\<rparr>))"

definition set_offset :: "nat \<Rightarrow> path \<Rightarrow> nat \<Rightarrow> world \<Rightarrow> world" where
  "set_offset fd p off w = w\<lparr>w_fds := (fd, p, off) # filter (\<lambda>f. fst f \<noteq> fd) (w_fds w)\<rparr>"

definition sys_open_read :: "string \<Rightarrow> nat sys" where
  "sys_open_read path = syscall (\<lambda>_ w. let p = resolve path in
     if file_at w p \<noteq> None \<or> is_dir w p then new_fd p w else (Inl ENOENT, w))"

definition sys_open_dir :: "string \<Rightarrow> nat sys" where
  "sys_open_dir path = syscall (\<lambda>_ w. let p = resolve path in
     if is_dir w p then new_fd p w else if file_at w p \<noteq> None then (Inl ENOTDIR, w) else (Inl ENOENT, w))"

text \<open>\<^verbatim>\<open>O_CREAT | O_TRUNC | O_WRONLY\<close> and \<^verbatim>\<open>O_RDWR | O_CREAT\<close>.\<close>

definition sys_open_trunc :: "string \<Rightarrow> nat sys" where
  "sys_open_trunc path = syscall (\<lambda>_ w. let p = resolve path in
     if is_dir w p then (Inl EISDIR, w) else if \<not> is_dir w (butlast p) then (Inl ENOENT, w)
     else new_fd p (set_file p [] w))"

definition sys_open_create :: "string \<Rightarrow> nat sys" where
  "sys_open_create path = syscall (\<lambda>_ w. let p = resolve path in
     if is_dir w p then (Inl EISDIR, w) else if \<not> is_dir w (butlast p) then (Inl ENOENT, w)
     else new_fd p (if file_at w p = None then set_file p [] w else w))"

definition transfer :: "outcome \<Rightarrow> nat \<Rightarrow> nat" where
  "transfer oc n = (case oc of Short k \<Rightarrow> min k n | _ \<Rightarrow> n)"

definition sys_read :: "nat \<Rightarrow> nat \<Rightarrow> bytes sys" where
  "sys_read fd n = syscall (\<lambda>oc w.
     case map_of (w_fds w) fd of None \<Rightarrow> (Inl EBADF, w)
     | Some (p, off) \<Rightarrow>
         (case file_at w p of None \<Rightarrow> (Inl EISDIR, w)
          | Some d \<Rightarrow> let bs = take (transfer oc n) (drop off d) in (Inr bs, set_offset fd p (off + length bs) w)))"

definition sys_write :: "nat \<Rightarrow> bytes \<Rightarrow> nat sys" where
  "sys_write fd bs = syscall (\<lambda>oc w.
     case map_of (w_fds w) fd of None \<Rightarrow> (Inl EBADF, w)
     | Some (p, off) \<Rightarrow>
         (case file_at w p of None \<Rightarrow> (Inl EISDIR, w)
          | Some d \<Rightarrow> let b = take (transfer oc (length bs)) bs in
              (Inr (length b), set_offset fd p (off + length b) (set_file p (take off d @ b @ drop (off + length b) d) w))))"

definition sys_ok :: "unit sys" where
  "sys_ok = syscall (\<lambda>_ w. (Inr (), w))"

definition sys_fsync :: "nat \<Rightarrow> unit sys" where
  "sys_fsync fd = sys_ok"

text \<open>A descriptor is gone after \<^verbatim>\<open>close\<close>, also when it fails.\<close>

definition sys_close :: "nat \<Rightarrow> unit sys" where
  "sys_close fd w = (let w' = (tick w)\<lparr>w_fds := filter (\<lambda>f. fst f \<noteq> fd) (w_fds w)\<rparr> in
     case w_sched w (w_clock w) of Fails e \<Rightarrow> Some (Inl e, w') | _ \<Rightarrow> Some (Inr (), w'))"

definition sys_unlink :: "string \<Rightarrow> unit sys" where
  "sys_unlink path = syscall (\<lambda>_ w. let p = resolve path in
     if file_at w p \<noteq> None then (Inr (), del_file p w) else if is_dir w p then (Inl EISDIR, w) else (Inl ENOENT, w))"

definition sys_rename :: "string \<Rightarrow> string \<Rightarrow> unit sys" where
  "sys_rename a b = syscall (\<lambda>_ w.
     case file_at w (resolve a) of None \<Rightarrow> (Inl ENOENT, w)
     | Some d \<Rightarrow>
         if is_dir w (resolve b) then (Inl EISDIR, w)
         else if \<not> is_dir w (butlast (resolve b)) then (Inl ENOENT, w)
         else (Inr (), set_file (resolve b) d (del_file (resolve a) w)))"

definition sys_mkdir :: "string \<Rightarrow> unit sys" where
  "sys_mkdir path = syscall (\<lambda>_ w. let p = resolve path in
     if is_dir w p \<or> file_at w p \<noteq> None then (Inl EEXIST, w)
     else if \<not> is_dir w (butlast p) then (Inl ENOENT, w)
     else (Inr (), w\<lparr>w_dirs := p # w_dirs w\<rparr>))"

definition sys_rmdir :: "string \<Rightarrow> unit sys" where
  "sys_rmdir path = syscall (\<lambda>_ w. let p = resolve path in
     if p \<notin> set (w_dirs w) then (Inl ENOENT, w)
     else if length (names_in w p) > 2 then (Inl ENOTEMPTY, w)
     else (Inr (), w\<lparr>w_dirs := filter (\<lambda>q. q \<noteq> p) (w_dirs w)\<rparr>))"

text \<open>The entries that \<^verbatim>\<open>readdir\<close> gives one by one, in the order of the file system.\<close>

definition sys_opendir :: "string \<Rightarrow> string list sys" where
  "sys_opendir path = syscall (\<lambda>_ w. let p = resolve path in
     if is_dir w p then (Inr (names_in w p), w) else if file_at w p \<noteq> None then (Inl ENOTDIR, w) else (Inl ENOENT, w))"

definition sys_readdir :: "unit sys" where
  "sys_readdir = sys_ok"

definition sys_closedir :: "unit sys" where
  "sys_closedir = sys_ok"

definition sys_fstat_size :: "nat \<Rightarrow> nat sys" where
  "sys_fstat_size fd = syscall (\<lambda>_ w.
     case map_of (w_fds w) fd of None \<Rightarrow> (Inl EBADF, w)
     | Some (p, off) \<Rightarrow> (case file_at w p of None \<Rightarrow> (Inl EISDIR, w) | Some d \<Rightarrow> (Inr (length d), w)))"

definition sys_ftruncate :: "nat \<Rightarrow> nat \<Rightarrow> unit sys" where
  "sys_ftruncate fd n = syscall (\<lambda>_ w.
     case map_of (w_fds w) fd of None \<Rightarrow> (Inl EBADF, w)
     | Some (p, off) \<Rightarrow>
         (case file_at w p of None \<Rightarrow> (Inl EISDIR, w)
          | Some d \<Rightarrow> (Inr (), set_file p (take n d @ replicate (n - length d) 0) w)))"

text \<open>\<^verbatim>\<open>mmap\<close> of the first \<open>n\<close> bytes gives the contents; \<^verbatim>\<open>munmap\<close> gives them back to the file, if it is still there.\<close>

definition sys_mmap :: "nat \<Rightarrow> nat \<Rightarrow> bytes sys" where
  "sys_mmap fd n = syscall (\<lambda>_ w.
     case map_of (w_fds w) fd of None \<Rightarrow> (Inl EBADF, w)
     | Some (p, off) \<Rightarrow> (case file_at w p of None \<Rightarrow> (Inl EISDIR, w) | Some d \<Rightarrow> (Inr (take n d), w)))"

definition put_back :: "path \<Rightarrow> bytes \<Rightarrow> world \<Rightarrow> world" where
  "put_back p m w = (case file_at w p of None \<Rightarrow> w | Some d \<Rightarrow> set_file p (m @ drop (length m) d) w)"

definition sys_munmap :: "path \<Rightarrow> bytes \<Rightarrow> unit sys" where
  "sys_munmap p m w = (let w' = put_back p m (tick w) in
     case w_sched w (w_clock w) of Fails e \<Rightarrow> Some (Inl e, w') | _ \<Rightarrow> Some (Inr (), w'))"

section \<open>Results of several calls\<close>

text \<open>The result as a value; a call whose result is ignored.\<close>

definition attempt :: "('s, 'e, 'a) op \<Rightarrow> ('s, 'f, 'e + 'a) op" where
  "attempt m s = map_option (\<lambda>(r, s'). (Inr r, s')) (m s)"

definition ignored :: "('s, 'e, 'a) op \<Rightarrow> ('s, 'f, unit) op" where
  "ignored m = bindM (attempt m) (\<lambda>_. ret ())"

lemma attempt_eq [op_simps]: "m s = Some (r, s') \<Longrightarrow> attempt m s = Some (Inr r, s')"
  by (simp add: attempt_def)

lemma attempt_mono [partial_function_mono]:
  fixes B :: "('x \<Rightarrow> 'y option) \<Rightarrow> ('a, 'b, 'c) op"
  assumes "\<And>s. monotone (fun_ord option_ord) option_ord (\<lambda>f. B f s)"
  shows "monotone (fun_ord option_ord) option_ord (\<lambda>f. attempt (B f) s)"
proof -
  have eq: "attempt m s = Option.bind (m s) (\<lambda>(r, s'). Some (Inr r, s'))" for m :: "('a, 'b, 'c) op"
    by (cases "m s") (auto simp: attempt_def)
  show ?thesis
    unfolding eq by (intro bind_mono assms) (simp add: monotoneI option.leq_refl)
qed

text \<open>\<^verbatim>\<open>if (c() != 0 && status.ok()) status = ...\<close> and \<^verbatim>\<open>if (!status.ok()) { (void)c(); return status; }\<close>.\<close>

definition both :: "('s, 'e, 'a) op \<Rightarrow> ('s, 'e, unit) op \<Rightarrow> ('s, 'e, 'a) op" where
  "both m c =
     bindM (attempt m) (\<lambda>r.
     bindM (attempt c) (\<lambda>rc.
       case r of Inl e \<Rightarrow> err e | Inr a \<Rightarrow> (case rc of Inl e \<Rightarrow> err e | Inr _ \<Rightarrow> ret a)))"

definition on_error :: "('s, 'e, 'a) op \<Rightarrow> ('s, 'f, unit) op \<Rightarrow> ('s, 'e, 'a) op" where
  "on_error m c =
     bindM (attempt m) (\<lambda>r. case r of Inl e \<Rightarrow> bindM (ignored c) (\<lambda>_. err e) | Inr a \<Rightarrow> ret a)"

text \<open>\<^verbatim>\<open>if (!status.ok() && first.ok()) first = status;\<close>\<close>

definition first_error :: "'e + unit \<Rightarrow> 'e + 'a \<Rightarrow> 'e + unit" where
  "first_error first r = (case first of Inl e \<Rightarrow> Inl e | Inr _ \<Rightarrow> (case r of Inl e \<Rightarrow> Inl e | Inr _ \<Rightarrow> Inr ()))"

text \<open>A loop over a list with a state.\<close>

fun fold_op :: "('x \<Rightarrow> 'a \<Rightarrow> ('s, 'e, 'a) op) \<Rightarrow> 'x list \<Rightarrow> 'a \<Rightarrow> ('s, 'e, 'a) op" where
  "fold_op f [] a = ret a"
| "fold_op f (x # xs) a = bindM (f x a) (fold_op f xs)"

lemma fold_op_mono [partial_function_mono]:
  assumes "\<And>x a s. monotone (fun_ord option_ord) option_ord (\<lambda>g. F g x a s)"
  shows "monotone (fun_ord option_ord) option_ord (\<lambda>g. fold_op (F g) xs a s)"
proof (induction xs arbitrary: a s)
  case (Cons x xs)
  show ?case
    unfolding fold_op.simps by (intro bindM_mono assms Cons.IH)
qed (simp add: monotoneI option.leq_refl)

definition IoError :: "errno \<Rightarrow> string \<Rightarrow> string \<Rightarrow> 'a io" where
  "IoError e what path w = err (Status kIoError (what @ '' '' @ path @ '': '' @ w_strerror w e)) w"

definition io :: "string \<Rightarrow> string \<Rightarrow> 'a sys \<Rightarrow> 'a io" where
  "io what path m = bindM (attempt m) (\<lambda>r. case r of Inl e \<Rightarrow> IoError e what path | Inr a \<Rightarrow> ret a)"

section \<open>Files\<close>

text \<open>\<open>written\<close> and \<open>acc\<close> are the bytes written and read so far.\<close>

partial_function (option) WriteAll :: "nat \<Rightarrow> bytes \<Rightarrow> string \<Rightarrow> nat \<Rightarrow> world \<Rightarrow> ((status + unit) \<times> world) option" where
  "WriteAll fd data path written w =
     (if written < length data
      then
        bindM (attempt (sys_write fd (drop written data))) (\<lambda>r.
          case r of
            Inl e \<Rightarrow> if e = EINTR then WriteAll fd data path written else IoError e ''write'' path
          | Inr n \<Rightarrow>
              if n = 0 then err (Status kIoError (''short write '' @ path))
              else WriteAll fd data path (written + n)) w
      else ret () w)"

partial_function (option) ReadAll :: "nat \<Rightarrow> nat \<Rightarrow> string \<Rightarrow> bytes \<Rightarrow> world \<Rightarrow> ((status + bytes) \<times> world) option" where
  "ReadAll fd want path acc w =
     (if length acc < want
      then
        bindM (attempt (sys_read fd (want - length acc))) (\<lambda>r.
          case r of
            Inl e \<Rightarrow> if e = EINTR then ReadAll fd want path acc else IoError e ''read'' path
          | Inr bs \<Rightarrow>
              if bs = [] then err (Status kIoError (''short read '' @ path))
              else ReadAll fd want path (acc @ bs)) w
      else ret acc w)"

definition SyncDir :: "string \<Rightarrow> unit io" where
  "SyncDir path =
     bindM (io ''open_dir'' path (sys_open_dir path)) (\<lambda>fd.
       both (io ''fsync_dir'' path (sys_fsync fd)) (io ''close_dir'' path (sys_close fd)))"

definition CreateDirIfMissing :: "string \<Rightarrow> unit io" where
  "CreateDirIfMissing path =
     bindM (attempt (sys_mkdir path)) (\<lambda>r.
       case r of Inr _ \<Rightarrow> ret () | Inl e \<Rightarrow> if e = EEXIST then ret () else IoError e ''mkdir'' path)"

text \<open>The loop of \<^verbatim>\<open>CreateDirs\<close> on the part of the path from \<open>start\<close> on.\<close>

function create_dirs :: "string \<Rightarrow> string \<Rightarrow> unit io" where
  "create_dirs rest current =
     (let part = takeWhile (\<lambda>c. c \<noteq> CHR ''/'') rest;
          next_dir = (if current \<noteq> [] \<and> last current \<noteq> CHR ''/'' then current @ ''/'' else current) @ part
      in
        bindM (if part \<noteq> [] then bindM (CreateDirIfMissing next_dir) (\<lambda>_. ret next_dir) else ret current) (\<lambda>cur.
          if CHR ''/'' \<in> set rest then create_dirs (tl (dropWhile (\<lambda>c. c \<noteq> CHR ''/'') rest)) cur else ret ()))"
  by pat_completeness auto
termination
proof (relation "measure (\<lambda>(rest, current). length rest)")
  fix rest :: string
  assume "CHR ''/'' \<in> set rest"
  then have "dropWhile (\<lambda>c. c \<noteq> CHR ''/'') rest \<noteq> []"
    by (auto simp: dropWhile_eq_Nil_conv)
  then have "length (tl (dropWhile (\<lambda>c. c \<noteq> CHR ''/'') rest)) < length (dropWhile (\<lambda>c. c \<noteq> CHR ''/'') rest)"
    by simp
  also have "\<dots> \<le> length rest"
    by (rule length_dropWhile_le)
  finally show "((tl (dropWhile (\<lambda>c. c \<noteq> CHR ''/'') rest), x), (rest, y)) \<in> measure (\<lambda>(rest, current). length rest)" for x y :: string
    by simp
qed simp

declare create_dirs.simps [simp del]

definition CreateDirs :: "string \<Rightarrow> unit io" where
  "CreateDirs path =
     (if path = [] then ret ()
      else if hd path = CHR ''/'' then create_dirs (tl path) ''/''
      else create_dirs path [])"

section \<open>Directories\<close>

text \<open>The loop over the entries, and the lists of the numbers in their names.\<close>

definition list_loop :: "(string \<Rightarrow> u64 option) \<Rightarrow> string \<Rightarrow> string list \<Rightarrow> u64 list io" where
  "list_loop f path names =
     bindM (fold_op (\<lambda>name nos. bindM (io ''readdir'' path sys_readdir) (\<lambda>_.
              ret (case f name of None \<Rightarrow> nos | Some i \<Rightarrow> nos @ [i]))) names []) (\<lambda>nos.
     bindM (io ''readdir'' path sys_readdir) (\<lambda>_. ret nos))"

definition list_dir :: "(string \<Rightarrow> u64 option) \<Rightarrow> string \<Rightarrow> string list \<Rightarrow> u64 list io" where
  "list_dir f path names =
     bindM (on_error (list_loop f path names) sys_closedir) (\<lambda>nos.
     bindM (io ''closedir'' path sys_closedir) (\<lambda>_. ret (sort nos)))"

definition parsed :: "status + u64 \<Rightarrow> u64 option" where
  "parsed r = (case r of Inl _ \<Rightarrow> None | Inr i \<Rightarrow> Some i)"

definition ListWalSegmentIDs :: "string \<Rightarrow> u64 list io" where
  "ListWalSegmentIDs wal_dir =
     bindM (io ''opendir'' wal_dir (sys_opendir wal_dir)) (list_dir (\<lambda>n. parsed (ParseWalSegmentName n)) wal_dir)"

definition ListWalGenerations :: "string \<Rightarrow> u64 list io" where
  "ListWalGenerations wal_root =
     bindM (attempt (sys_opendir wal_root)) (\<lambda>r.
       case r of
         Inl e \<Rightarrow> if e = ENOENT then ret [] else IoError e ''opendir'' wal_root
       | Inr names \<Rightarrow> list_dir wal_generation_of wal_root names)"

definition ListSnapshotGenerations :: "string \<Rightarrow> u64 list io" where
  "ListSnapshotGenerations dir =
     bindM (attempt (sys_opendir dir)) (\<lambda>r.
       case r of
         Inl e \<Rightarrow> if e = ENOENT then ret [] else IoError e ''opendir'' dir
       | Inr names \<Rightarrow> list_dir (\<lambda>n. parsed (ParseSnapshotFileName n)) dir names)"

text \<open>
  \<^verbatim>\<open>RemoveTree\<close>. The loop over the entries ends early, with the first error so far, when
  \<^verbatim>\<open>readdir\<close> fails.
\<close>

partial_function (option) RemoveTree :: "string \<Rightarrow> world \<Rightarrow> ((status + unit) \<times> world) option" where
  "RemoveTree path w =
     bindM (attempt (sys_opendir path)) (\<lambda>r.
       case r of
         Inl e \<Rightarrow>
           if e = ENOENT then ret ()
           else
             bindM (attempt (sys_unlink path)) (\<lambda>u.
               case u of Inr _ \<Rightarrow> ret () | Inl e' \<Rightarrow> if e' = ENOENT then ret () else IoError e' ''remove'' path)
       | Inr names \<Rightarrow>
           bindM (fold_op (\<lambda>name loop.
               if snd loop then ret loop
               else
                 bindM (attempt (io ''readdir'' path sys_readdir)) (\<lambda>d.
                   case d of
                     Inl e \<Rightarrow> ret (first_error (fst loop) (Inl e :: status + unit), True)
                   | Inr _ \<Rightarrow>
                       if name = ''.'' \<or> name = ''..'' then ret loop
                       else
                         bindM (attempt (RemoveTree (JoinPath path name))) (\<lambda>status.
                           ret (first_error (fst loop) status, False)))) names (Inr (), False)) (\<lambda>loop.
           bindM (if snd loop then ret (fst loop)
                  else bindM (attempt (io ''readdir'' path sys_readdir)) (\<lambda>d. ret (first_error (fst loop) d))) (\<lambda>first.
           bindM (attempt (io ''closedir'' path sys_closedir)) (\<lambda>c.
           bindM (attempt (sys_rmdir path)) (\<lambda>d.
             case first_error first c of
               Inl e \<Rightarrow> err e
             | Inr _ \<Rightarrow>
                 (case d of Inr _ \<Rightarrow> ret () | Inl e \<Rightarrow> if e = ENOENT then ret () else IoError e ''rmdir'' path)))))) w"

definition kWalDirName :: string where "kWalDirName = ''wal''"

definition RemoveOldWalGenerations :: "string \<Rightarrow> u64 \<Rightarrow> unit io" where
  "RemoveOldWalGenerations dir keep_generation =
     (let wal_root = JoinPath dir kWalDirName in
      bindM (ListWalGenerations wal_root) (\<lambda>generations.
      bindM (fold_op (\<lambda>generation first.
          if generation = keep_generation then ret first
          else
            bindM (attempt (RemoveTree (JoinPath wal_root (WalGenerationName generation)))) (\<lambda>status.
              ret (first_error first status))) generations (Inr ())) res))"

definition RemoveOldSnapshots :: "string \<Rightarrow> u64 \<Rightarrow> unit io" where
  "RemoveOldSnapshots dir keep_generation =
     bindM (ListSnapshotGenerations dir) (\<lambda>generations.
     bindM (fold_op (\<lambda>generation first.
         if generation = keep_generation then ret first
         else
           let path = SnapshotPath dir generation in
           bindM (attempt (sys_unlink path)) (\<lambda>r.
             case r of
               Inr _ \<Rightarrow> ret first
             | Inl e \<Rightarrow>
                 if e = ENOENT then ret first
                 else bindM (attempt (IoError e ''unlink'' path)) (\<lambda>status. ret (first_error first (status :: status + unit)))))
       generations (Inr ())) res)"

end
