(* ===== verification/Wal.thy ===== *)
theory Wal
  imports Disk
begin

text \<open>
  \<^verbatim>\<open>class WalSegment\<close> (store.cc): a mapped file that holds a header and, from byte 4096 up to the
  offset \<^verbatim>\<open>used_\<close>, log records one behind the other. A null \<^verbatim>\<open>data_\<close> or an access outside the
  mapping is \<open>None\<close>.
\<close>

section \<open>The code\<close>

definition kWalHeaderSize :: u64 where "kWalHeaderSize = 4096"
definition kWalVersion :: u32 where "kWalVersion = 1"
definition kWalHeaderVersionOffset :: nat where "kWalHeaderVersionOffset = 8"
definition kWalHeaderUsedOffset :: nat where "kWalHeaderUsedOffset = 16"
definition kWalRecordOpOffset :: nat where "kWalRecordOpOffset = 0"
definition kWalRecordKeyOffset :: nat where "kWalRecordKeyOffset = 1"
definition kWalRecordValueOffset :: nat where "kWalRecordValueOffset = 5"
definition kWalOpPut :: byte where "kWalOpPut = 1"
definition kWalOpDelete :: byte where "kWalOpDelete = 2"

definition kWalHeaderMagic :: bytes where
  "kWalHeaderMagic = [0x4d, 0x57, 0x57, 0x41, 0x4c, 0x30, 0x31, 0]"

datatype replay_policy = kPointInTime | kStrict

record wal_record =
  wr_op :: byte
  wr_key :: bytes
  wr_value :: bytes
  wr_end :: u64

record wal_segment =
  ws_path :: string
  ws_fd :: "nat option"
  ws_data :: "bytes option"
  ws_size :: u64
  ws_used :: u64
  ws_file_no :: u64
  ws_sealed :: bool
  ws_data_dirty :: bool
  ws_metadata_dirty :: bool

type_synonym 'a wal = "(wal_segment, status, 'a) op"

definition wal_empty :: "wal_segment \<Rightarrow> bool" where
  "wal_empty s \<longleftrightarrow> ws_used s = kWalHeaderSize"

definition set_sealed :: "bool \<Rightarrow> wal_segment \<Rightarrow> wal_segment" where
  "set_sealed b s = s\<lparr>ws_sealed := b\<rparr>"

definition WriteUsed :: "wal_segment \<Rightarrow> wal_segment option" where
  "WriteUsed s =
     do { d \<leftarrow> ws_data s; d' \<leftarrow> Store64 d kWalHeaderUsedOffset (ws_used s);
          Some (s\<lparr>ws_data := Some d', ws_data_dirty := True\<rparr>) }"

definition WalTruncate :: "u64 \<Rightarrow> wal_segment \<Rightarrow> wal_segment option" where
  "WalTruncate used s = WriteUsed (s\<lparr>ws_used := used\<rparr>)"

definition InitHeader :: "wal_segment \<Rightarrow> wal_segment option" where
  "InitHeader s =
     do { d \<leftarrow> ws_data s; d1 \<leftarrow> poke d 0 kWalHeaderMagic; d2 \<leftarrow> Store32 d1 kWalHeaderVersionOffset kWalVersion;
          WriteUsed (s\<lparr>ws_data := Some d2, ws_used := kWalHeaderSize\<rparr>) }"

definition LoadHeader :: "unit wal" where
  "LoadHeader s =
     do { d \<leftarrow> ws_data s; magic \<leftarrow> peek d 0 (length kWalHeaderMagic);
          if magic \<noteq> kWalHeaderMagic then err (CorruptWal ''invalid WAL magic'') s
          else do {
            version \<leftarrow> Load32 d kWalHeaderVersionOffset;
            if version \<noteq> kWalVersion then err (CorruptWal ''unsupported WAL version'') s
            else do {
              used \<leftarrow> Load64 d kWalHeaderUsedOffset;
              if used < kWalHeaderSize \<or> used > ws_size s then err (CorruptWal ''invalid WAL used offset'') s
              else ret () (s\<lparr>ws_used := used\<rparr>) } } }"

text \<open>The bytes of a record, written part by part.\<close>

definition write_record :: "bytes \<Rightarrow> nat \<Rightarrow> byte \<Rightarrow> bytes \<Rightarrow> bytes \<Rightarrow> u64 \<Rightarrow> bytes option" where
  "write_record d start opc key val total_size =
     do { d1 \<leftarrow> poke d (start + kWalRecordOpOffset) [opc];
          d2 \<leftarrow> Store32 d1 (start + kWalRecordKeyOffset) (of_nat (length key));
          d3 \<leftarrow> Store32 d2 (start + kWalRecordValueOffset) (of_nat (length val));
          d4 \<leftarrow> poke d3 (start + kWalRecordHeaderSize) key;
          d5 \<leftarrow> poke d4 (start + kWalRecordHeaderSize + length key) val;
          record \<leftarrow> peek d5 start (unat total_size);
          Store32 d5 (start + kWalRecordCRCOffset) (WalRecordCRC record) }"

definition WalAppend :: "byte \<Rightarrow> bytes \<Rightarrow> bytes \<Rightarrow> pos wal" where
  "WalAppend opc key val s =
     (if ws_sealed s then err (Status kWalFull ''WAL segment is sealed'') s
      else if length key > 4294967295 \<or> length val > 4294967295 then err (Status kWalFull ''WAL record is too large'') s
      else
        let total_size = of_nat kWalRecordHeaderSize + of_nat (length key) + of_nat (length val) in
        if total_size > ws_size s - ws_used s \<or> ws_used s + total_size > kRecordOffsetLimit
        then err (Status kWalFull ''WAL segment is full'') s
        else
          do { d \<leftarrow> ws_data s; d' \<leftarrow> write_record d (unat (ws_used s)) opc key val total_size;
               s' \<leftarrow> WriteUsed (s\<lparr>ws_data := Some d', ws_used := ws_used s + total_size\<rparr>);
               res (MakeRecordPosition (ws_file_no s) (ws_used s)) s' })"

definition RecordAtOffset :: "wal_segment \<Rightarrow> u64 \<Rightarrow> bool \<Rightarrow> (status + wal_record) option" where
  "RecordAtOffset s offset verify_crc =
     (if offset < kWalHeaderSize \<or> offset + of_nat kWalRecordHeaderSize > ws_used s
      then Some (Inl (CorruptWal ''WAL record offset out of range''))
      else
        do { d \<leftarrow> ws_data s; let i = unat offset;
             opc \<leftarrow> map_option hd (peek d (i + kWalRecordOpOffset) 1);
             if opc \<noteq> kWalOpPut \<and> opc \<noteq> kWalOpDelete then Some (Inl (CorruptWal ''invalid WAL op''))
             else do {
               klen \<leftarrow> Load32 d (i + kWalRecordKeyOffset); vlen \<leftarrow> Load32 d (i + kWalRecordValueOffset);
               let key_len = (ucast klen :: u64); let value_len = (ucast vlen :: u64);
               if opc = kWalOpDelete \<and> value_len \<noteq> 0 then Some (Inl (CorruptWal ''delete WAL record has a value''))
               else if key_len > of_nat kMaxKeySize then Some (Inl (CorruptWal ''WAL key is too large''))
               else
                 let fin = offset + of_nat kWalRecordHeaderSize + key_len + value_len in
                 if fin < offset \<or> fin > ws_used s then Some (Inl (CorruptWal ''WAL record extends past used offset''))
                 else do {
                   record \<leftarrow> peek d i (unat (fin - offset)); crc \<leftarrow> Load32 d (i + kWalRecordCRCOffset);
                   if verify_crc \<and> WalRecordCRC record \<noteq> crc then Some (Inl (CorruptWal ''WAL CRC mismatch''))
                   else do {
                     key \<leftarrow> peek d (i + kWalRecordHeaderSize) (unat key_len);
                     val \<leftarrow> peek d (i + kWalRecordHeaderSize + unat key_len) (unat value_len);
                     Some (Inr \<lparr>wr_op = opc, wr_key = key, wr_value = val, wr_end = fin\<rparr>) } } } })"

definition RecordAt :: "wal_segment \<Rightarrow> pos \<Rightarrow> bool \<Rightarrow> (status + wal_record) option" where
  "RecordAt s pos verify_crc =
     (if RecordPositionFileNo pos \<noteq> ws_file_no s
      then Some (Inl (CorruptWal ''record position points at a different WAL segment''))
      else RecordAtOffset s (RecordPositionOffset pos) verify_crc)"

text \<open>
  \<^verbatim>\<open>Replay\<close>: the state is the segment and that of the callback, the value is \<^verbatim>\<open>*truncated\<close>.
\<close>

type_synonym 'c replay_fn = "wal_record \<Rightarrow> pos \<Rightarrow> ('c, status, unit) op"

definition cut :: "u64 \<Rightarrow> (wal_segment \<times> 'c, status, bool) op" where
  "cut last_good = (\<lambda>(s, c). map_option (\<lambda>s'. (Inr True, s', c)) (WalTruncate last_good s))"

definition on_snd :: "('c, 'e, 'a) op \<Rightarrow> ('s \<times> 'c, 'e, 'a) op" where
  "on_snd m = (\<lambda>(s, c). map_option (\<lambda>(r, c'). (r, s, c')) (m c))"

partial_function (option) replay_loop ::
  "replay_policy \<Rightarrow> 'c replay_fn \<Rightarrow> u64 \<Rightarrow> u64 \<Rightarrow> wal_segment \<times> 'c \<Rightarrow> ((status + bool) \<times> wal_segment \<times> 'c) option" where
  "replay_loop policy fn offset last_good sc =
     (if offset < ws_used (fst sc)
      then
        bindM (chk (RecordAtOffset (fst sc) offset True)) (\<lambda>record.
          case record of
            Inl e \<Rightarrow> if policy = kStrict then err e else cut last_good
          | Inr rec \<Rightarrow>
              bindM (res (MakeRecordPosition (ws_file_no (fst sc)) offset)) (\<lambda>pos.
              bindM (on_snd (fn rec pos)) (\<lambda>_.
                replay_loop policy fn (wr_end rec) (wr_end rec)))) sc
      else if offset \<noteq> ws_used (fst sc)
      then (if policy = kStrict then err (CorruptWal ''WAL replay ended off the used offset'') else cut last_good) sc
      else ret False sc)"

definition Replay :: "replay_policy \<Rightarrow> 'c replay_fn \<Rightarrow> (wal_segment \<times> 'c, status, bool) op" where
  "Replay policy fn = replay_loop policy fn kWalHeaderSize kWalHeaderSize"

section \<open>Opening, syncing and closing\<close>

type_synonym 'a walio = "(wal_segment \<times> world, status, 'a) op"

text \<open>An update of the first part of the state.\<close>

definition upd_fst :: "('s \<Rightarrow> 's) \<Rightarrow> ('s \<times> 'c, 'e, unit) op" where
  "upd_fst f = (\<lambda>(s, c). Some (Inr (), f s, c))"

definition CloseAfterSync :: "unit walio" where
  "CloseAfterSync sw =
     (let s = fst sw in
      bindM (attempt (case ws_data s of None \<Rightarrow> ret ()
                      | Some d \<Rightarrow> on_snd (io ''munmap'' (ws_path s) (sys_munmap (resolve (ws_path s)) d)))) (\<lambda>r1.
      bindM (attempt (case ws_fd s of None \<Rightarrow> ret () | Some fd \<Rightarrow> on_snd (io ''close'' (ws_path s) (sys_close fd)))) (\<lambda>r2.
      bindM (upd_fst (\<lambda>s. s\<lparr>ws_data := None, ws_fd := None\<rparr>)) (\<lambda>_.
        res (first_error r1 (r2 :: status + unit))))) sw)"

definition WalSync :: "unit walio" where
  "WalSync sw =
     (let s = fst sw in
      bindM (if ws_data_dirty s
             then bindM (on_snd (io ''msync'' (ws_path s) sys_ok)) (\<lambda>_. upd_fst (\<lambda>s. s\<lparr>ws_data_dirty := False\<rparr>))
             else ret ()) (\<lambda>_.
        if ws_metadata_dirty s
        then bindM (on_snd (io ''fsync'' (ws_path s) sys_ok)) (\<lambda>_. upd_fst (\<lambda>s. s\<lparr>ws_metadata_dirty := False\<rparr>))
        else ret ()) sw)"

definition WalClose :: "bool \<Rightarrow> unit walio" where
  "WalClose sync =
     bindM (attempt (if sync then WalSync else ret ())) (\<lambda>first.
     bindM (attempt CloseAfterSync) (\<lambda>r. res (first_error first (r :: status + unit))))"

text \<open>
  \<^verbatim>\<open>WalSegment::Open\<close>. The file is created and filled with zeros when it is new; a file of
  another size is refused. What was acquired is released when a later step fails.
\<close>

definition wal_map :: "string \<Rightarrow> u64 \<Rightarrow> u64 \<Rightarrow> nat \<Rightarrow> wal_segment io" where
  "wal_map path sz file_no fd =
     bindM (io ''fstat'' path (sys_fstat_size fd)) (\<lambda>st_size.
     bindM (if st_size = 0 then bindM (io ''ftruncate'' path (sys_ftruncate fd (unat sz))) (\<lambda>_. ret True)
            else if st_size \<noteq> unat sz then err (Status kCorruptWal ''WAL segment size mismatch'')
            else ret False) (\<lambda>metadata_dirty.
     bindM (io ''mmap'' path (sys_mmap fd (unat sz))) (\<lambda>data.
       ret \<lparr>ws_path = path, ws_fd = Some fd, ws_data = Some data, ws_size = sz, ws_used = 0, ws_file_no = file_no,
            ws_sealed = False, ws_data_dirty = False, ws_metadata_dirty = metadata_dirty\<rparr>)))"

definition wal_header :: "wal_segment \<Rightarrow> (status + wal_segment) option" where
  "wal_header s =
     do { d \<leftarrow> ws_data s; h \<leftarrow> peek d 0 (unat kWalHeaderSize);
          if IsZeroBytes h then map_option Inr (InitHeader s)
          else map_option (\<lambda>(r, s'). map_sum id (\<lambda>_. s') r) (LoadHeader s) }"

definition WalOpen :: "string \<Rightarrow> u64 \<Rightarrow> u64 \<Rightarrow> wal_segment io" where
  "WalOpen path sz file_no =
     (if sz < kWalHeaderSize + of_nat kWalRecordHeaderSize \<or> sz > kRecordOffsetLimit
      then err (Status kWalFull ''invalid WAL segment size'')
      else case MakeRecordPosition file_no kWalHeaderSize of
        Inl _ \<Rightarrow> err (Status kCorruptWal ''invalid WAL file number'')
      | Inr _ \<Rightarrow>
          bindM (io ''open'' path (sys_open_create path)) (\<lambda>fd.
          bindM (on_error (wal_map path sz file_no fd) (sys_close fd)) (\<lambda>s.
          bindM (chk (wal_header s)) (\<lambda>r.
            case r of
              Inr s' \<Rightarrow> ret s'
            | Inl e \<Rightarrow>
                bindM (ignored (case ws_data s of None \<Rightarrow> ret () | Some d \<Rightarrow> sys_munmap (resolve path) d)) (\<lambda>_.
                bindM (ignored (sys_close fd)) (\<lambda>_. err e))))))"

end
