(* ===== verification/Segments.thy ===== *)
theory Segments
  imports Wal DeleteCode
begin

text \<open>
  \<^verbatim>\<open>class SegmentedRecordStore\<close> (store.cc): the log of one generation as segments by number, of
  which the active one takes the new records, and the records of the snapshot in memory. It is the
  record store of the index: a position leads to a snapshot record or to a record of a segment.
\<close>

record owned_record =
  or_key :: bytes
  or_value :: bytes
  or_live :: bool

record seg_store =
  ss_dir :: string
  ss_wal_size :: u64
  ss_generation :: u64
  ss_active :: u64
  ss_next :: u64
  ss_snapshot :: "owned_record list"
  ss_segments :: "(u64 \<times> wal_segment) list"

type_synonym 'a seg = "(seg_store \<times> world, status, 'a) op"

definition kFirstWalSegmentNo :: u64 where "kFirstWalSegmentNo = 1"

definition no_owned :: owned_record where
  "no_owned = \<lparr>or_key = [], or_value = [], or_live = False\<rparr>"

definition WalGenerationPath :: "string \<Rightarrow> u64 \<Rightarrow> string" where
  "WalGenerationPath dir generation = JoinPath (JoinPath dir kWalDirName) (WalGenerationName generation)"

definition WalPath :: "seg_store \<Rightarrow> u64 \<Rightarrow> string" where
  "WalPath ss i = JoinPath (WalGenerationPath (ss_dir ss) (ss_generation ss)) (WalSegmentName i)"

section \<open>Segments\<close>

definition Segment :: "seg_store \<Rightarrow> u64 \<Rightarrow> wal_segment option" where
  "Segment ss file_no = map_of (ss_segments ss) file_no"

definition Active :: "seg_store \<Rightarrow> wal_segment option" where
  "Active ss = Segment ss (ss_active ss)"

text \<open>A change of one segment; a method call on the segment of a number, which must be there.\<close>

definition change_segment :: "u64 \<Rightarrow> (wal_segment \<Rightarrow> wal_segment) \<Rightarrow> seg_store \<Rightarrow> seg_store" where
  "change_segment i f ss = ss\<lparr>ss_segments := map (\<lambda>(j, t). (j, if j = i then f t else t)) (ss_segments ss)\<rparr>"

definition on_segment :: "u64 \<Rightarrow> (wal_segment \<times> 'c, 'e, 'a) op \<Rightarrow> (seg_store \<times> 'c, 'e, 'a) op" where
  "on_segment i m = (\<lambda>(ss, c).
     case Segment ss i of None \<Rightarrow> None
     | Some s \<Rightarrow> map_option (\<lambda>(r, s', c'). (r, change_segment i (\<lambda>_. s') ss, c')) (m (s, c)))"

definition on_fst :: "('s, 'e, 'a) op \<Rightarrow> ('s \<times> 'c, 'e, 'a) op" where
  "on_fst m = (\<lambda>(s, c). map_option (\<lambda>(r, s'). (r, s', c)) (m s))"

text \<open>The destructor of a segment; \<^verbatim>\<open>emplace\<close>, which destroys the new segment when the number is taken.\<close>

definition destroy_segment :: "wal_segment \<Rightarrow> world \<Rightarrow> ((status + unit) \<times> world) option" where
  "destroy_segment s w = map_option (\<lambda>(_, _, w'). (Inr (), w')) (CloseAfterSync (s, w))"

definition emplace :: "u64 \<Rightarrow> wal_segment \<Rightarrow> unit seg" where
  "emplace i s = (\<lambda>(ss, w).
     if Segment ss i = None then Some (Inr (), ss\<lparr>ss_segments := (i, s) # ss_segments ss\<rparr>, w)
     else on_snd (destroy_segment s) (ss, w))"

definition erase :: "u64 \<Rightarrow> unit seg" where
  "erase i = (\<lambda>(ss, w).
     let ss' = ss\<lparr>ss_segments := filter (\<lambda>e. fst e \<noteq> i) (ss_segments ss)\<rparr> in
     case Segment ss i of None \<Rightarrow> Some (Inr (), ss', w) | Some s \<Rightarrow> on_snd (destroy_segment s) (ss', w))"

text \<open>The destructor of the store.\<close>

definition destroy_store :: "seg_store \<Rightarrow> unit io" where
  "destroy_store ss = fold_op (\<lambda>e _. destroy_segment (snd e)) (ss_segments ss) ()"

section \<open>Open\<close>

definition open_segments :: "u64 list \<Rightarrow> unit seg" where
  "open_segments ids =
     fold_op (\<lambda>i _ ssw. (
       bindM (on_snd (WalOpen (WalPath (fst ssw) i) (ss_wal_size (fst ssw)) i)) (\<lambda>s.
         emplace i (set_sealed (i \<noteq> ss_active (fst ssw)) s))) ssw) ids ()"

text \<open>When a segment cannot be opened the store under construction is destroyed.\<close>

definition SegOpen :: "string \<Rightarrow> u64 \<Rightarrow> u64 \<Rightarrow> seg_store io" where
  "SegOpen dir wal_size generation =
     (if wal_size < kWalHeaderSize + of_nat kWalRecordHeaderSize \<or> wal_size > kRecordOffsetLimit
      then err (Status kInvalidArgument ''invalid WAL segment size'')
      else if generation = 0 then err (CorruptManifest ''invalid WAL generation'')
      else
        bindM (CreateDirs (WalGenerationPath dir generation)) (\<lambda>_.
        bindM (ListWalSegmentIDs (WalGenerationPath dir generation)) (\<lambda>listed w.
          let ids = (if listed = [] then [kFirstWalSegmentNo] else listed);
              ss = \<lparr>ss_dir = dir, ss_wal_size = wal_size, ss_generation = generation, ss_active = last ids,
                    ss_next = last ids + 1, ss_snapshot = [no_owned], ss_segments = []\<rparr>
          in
            case open_segments ids (ss, w) of
              None \<Rightarrow> None
            | Some (Inr _, ss', w') \<Rightarrow> Some (Inr ss', w')
            | Some (Inl e, ss', w') \<Rightarrow> bindM (destroy_store ss') (\<lambda>_. err e) w')))"

section \<open>Records\<close>

definition Rollover :: "unit seg" where
  "Rollover = (\<lambda>(ss, w).
     case Active ss of
       None \<Rightarrow> err (Status kClosed ''WAL is closed'') (ss, w)
     | Some _ \<Rightarrow>
         let i = ss_next ss; sealed = (change_segment (ss_active ss) (set_sealed True) ss)\<lparr>ss_next := i + 1\<rparr> in
         case WalOpen (WalPath ss i) (ss_wal_size ss) i w of
           None \<Rightarrow> None
         | Some (Inl e, w') \<Rightarrow>
             Some (Inl e, (change_segment (ss_active ss) (set_sealed False) sealed)\<lparr>ss_next := i\<rparr>, w')
         | Some (Inr s, w') \<Rightarrow> emplace i (set_sealed False s) (sealed\<lparr>ss_active := i\<rparr>, w'))"

definition append_active :: "byte \<Rightarrow> bytes \<Rightarrow> bytes \<Rightarrow> pos seg" where
  "append_active opc key val = (\<lambda>(ss, w). on_segment (ss_active ss) (on_fst (WalAppend opc key val)) (ss, w))"

definition append_record :: "byte \<Rightarrow> bytes \<Rightarrow> bytes \<Rightarrow> pos seg" where
  "append_record opc key val =
     bindM (attempt (append_active opc key val)) (\<lambda>r.
       case r of
         Inr p \<Rightarrow> ret p
       | Inl e \<Rightarrow>
           if st_code e \<noteq> kWalFull then err e
           else bindM Rollover (\<lambda>_. append_active opc key val))"

definition SegAppend :: "bytes \<Rightarrow> bytes \<Rightarrow> pos seg" where
  "SegAppend key val = append_record kWalOpPut key val"

definition DeleteRecord :: "bytes \<Rightarrow> pos seg" where
  "DeleteRecord key = append_record kWalOpDelete key []"

definition AddSnapshotRecord :: "bytes \<Rightarrow> bytes \<Rightarrow> (seg_store, status, pos) op" where
  "AddSnapshotRecord key val ss =
     (if length (ss_snapshot ss) \<ge> unat kRecordOffsetLimit then err (CorruptSnapshot ''too many snapshot records'') ss
      else Some (Inr (of_nat (length (ss_snapshot ss))),
             ss\<lparr>ss_snapshot := ss_snapshot ss @ [\<lparr>or_key = key, or_value = val, or_live = True\<rparr>]\<rparr>))"

definition IsSnapshotPosition :: "pos \<Rightarrow> bool" where
  "IsSnapshotPosition p \<longleftrightarrow> p > 0 \<and> p < kRecordOffsetLimit"

definition SnapshotRecord :: "seg_store \<Rightarrow> pos \<Rightarrow> owned_record option" where
  "SnapshotRecord ss p =
     (if p = 0 \<or> unat p \<ge> length (ss_snapshot ss) then None
      else let r = ss_snapshot ss ! unat p in if or_live r then Some r else None)"

definition SegKey_at :: "seg_store \<Rightarrow> pos \<Rightarrow> (mp_status + key) option" where
  "SegKey_at ss p =
     (if IsSnapshotPosition p
      then Some (case SnapshotRecord ss p of None \<Rightarrow> Inl kMissingKey | Some r \<Rightarrow> Inr (or_key r))
      else case Segment ss (RecordPositionFileNo p) of
        None \<Rightarrow> Some (Inl kMissingKey)
      | Some s \<Rightarrow> map_option (\<lambda>r. case r of
            Inl _ \<Rightarrow> Inl kMissingKey
          | Inr rec \<Rightarrow> if wr_op rec \<noteq> kWalOpPut then Inl kMissingKey else Inr (wr_key rec)) (RecordAt s p False))"

text \<open>As the argument of the index; \<open>SegKey_at\<close> is never \<open>None\<close> on a store whose mappings have their size.\<close>

definition SegKey :: "seg_store \<Rightarrow> key_fn" where
  "SegKey ss p = (case SegKey_at ss p of None \<Rightarrow> Inl kMissingKey | Some r \<Rightarrow> r)"

definition ValueView :: "seg_store \<Rightarrow> pos \<Rightarrow> (status + bytes) option" where
  "ValueView ss p =
     (if IsSnapshotPosition p
      then Some (case SnapshotRecord ss p of
          None \<Rightarrow> Inl (Status kCorruptIndex ''snapshot record not found'') | Some r \<Rightarrow> Inr (or_value r))
      else case Segment ss (RecordPositionFileNo p) of
        None \<Rightarrow> Some (Inl (Status kCorruptIndex ''record segment not found''))
      | Some s \<Rightarrow> map_option (\<lambda>r. case r of
            Inl e \<Rightarrow> Inl e
          | Inr rec \<Rightarrow>
              if wr_op rec \<noteq> kWalOpPut then Inl (Status kCorruptIndex ''index points to a non-put record'')
              else Inr (wr_value rec)) (RecordAt s p False))"

definition OwnedValue :: "seg_store \<Rightarrow> pos \<Rightarrow> (status + bytes) option" where
  "OwnedValue ss p = ValueView ss p"

section \<open>Replay\<close>

definition from_mp :: "('s, mp_status, 'a) op \<Rightarrow> ('s, status, 'a) op" where
  "from_mp m = bindM (attempt m) (\<lambda>r. case r of Inl e \<Rightarrow> err (FromMinpatriciaStatus e) | Inr a \<Rightarrow> ret a)"

definition replay_record :: "key_fn \<Rightarrow> index replay_fn" where
  "replay_record K rec pos =
     (if wr_op rec = kWalOpPut then bindM (from_mp (Put K (wr_key rec) pos)) (\<lambda>_. ret ())
      else if wr_op rec = kWalOpDelete then bindM (from_mp (Delete K (wr_key rec))) (\<lambda>_. ret ())
      else err (CorruptWal ''unsupported WAL op''))"

text \<open>The state of the loop: whether the remaining segments are dropped, and the last one kept.\<close>

type_synonym 'a replay = "(seg_store \<times> index \<times> world, status, 'a) op"

definition drop_segment :: "u64 \<Rightarrow> unit replay" where
  "drop_segment i = (\<lambda>(ss, x, w).
     map_option (\<lambda>(r, ss', w'). (r, ss', x, w'))
       (bindM (on_snd (ignored (sys_unlink (WalPath ss i)))) (\<lambda>_. erase i) (ss, w)))"

definition replay_segment :: "replay_policy \<Rightarrow> u64 \<Rightarrow> bool replay" where
  "replay_segment policy i = (\<lambda>(ss, x, w).
     map_option (\<lambda>(r, ss', x'). (r, ss', x', w))
       (on_segment i (Replay policy (replay_record (SegKey ss))) (ss, x)))"

definition ReplayAll :: "replay_policy \<Rightarrow> unit replay" where
  "ReplayAll policy = (\<lambda>(ss, x, w).
     bindM (fold_op (\<lambda>i (drop_remaining, last_kept).
         if drop_remaining then bindM (drop_segment i) (\<lambda>_. ret (drop_remaining, last_kept))
         else bindM (replay_segment policy i) (\<lambda>truncated. ret (truncated, i)))
       (sort (map fst (ss_segments ss))) (False, ss_active ss)) (\<lambda>(drop_remaining, last_kept).
       if drop_remaining
       then upd_fst (\<lambda>ss. ss\<lparr>ss_active := last_kept, ss_next := last_kept + 1,
                ss_segments := map (\<lambda>(j, t). (j, set_sealed (j \<noteq> last_kept) t)) (ss_segments ss)\<rparr>)
       else ret ()) (ss, x, w))"

section \<open>Sync, close, reset\<close>

definition SegSync :: "unit seg" where
  "SegSync = (\<lambda>(ss, w).
     bindM (fold_op (\<lambda>e first.
         bindM (attempt (on_segment (fst e) WalSync)) (\<lambda>r. ret (first_error first (r :: status + unit))))
       (ss_segments ss) (Inr ())) res (ss, w))"

definition SegmentCount :: "seg_store \<Rightarrow> nat" where
  "SegmentCount ss = length (ss_segments ss)"

definition SegClose :: "bool \<Rightarrow> unit seg" where
  "SegClose sync = (\<lambda>(ss, w).
     bindM (fold_op (\<lambda>e first.
         bindM (attempt (on_segment (fst e) (WalClose sync))) (\<lambda>r. ret (first_error first (r :: status + unit))))
       (ss_segments ss) (Inr ())) (\<lambda>first.
     bindM (upd_fst (\<lambda>ss. ss\<lparr>ss_segments := []\<rparr>)) (\<lambda>_. res first)) (ss, w))"

definition ResetToSnapshot :: "u64 \<Rightarrow> unit seg" where
  "ResetToSnapshot generation =
     (if generation = 0 then err (CorruptManifest ''invalid WAL generation'')
      else
        bindM (SegClose False) (\<lambda>_ ssw. (
        bindM (on_snd (CreateDirs (WalGenerationPath (ss_dir (fst ssw)) generation))) (\<lambda>_.
        bindM (upd_fst (\<lambda>ss. ss\<lparr>ss_snapshot := [no_owned], ss_generation := generation,
                 ss_active := kFirstWalSegmentNo, ss_next := kFirstWalSegmentNo + 1\<rparr>)) (\<lambda>_ ssw. (
        bindM (on_snd (WalOpen (WalPath (fst ssw) kFirstWalSegmentNo) (ss_wal_size (fst ssw)) kFirstWalSegmentNo)) (\<lambda>s.
          emplace kFirstWalSegmentNo (set_sealed False s))) ssw))) ssw))"

end
