(* ===== verification/Checkpoint.thy ===== *)
theory Checkpoint
  imports Disk
begin

text \<open>
  The two files of a checkpoint (store.cc): the manifest, 32 bytes that name the current
  generation of the log, and the snapshot of a generation, a header of 32 bytes and one record for
  every item. Both are written beside their final name and renamed into place.
\<close>

section \<open>The code\<close>

record item =
  it_key :: bytes
  it_value :: bytes

record manifest_state =
  ms_valid :: bool
  ms_wal_generation :: u64

definition kFirstWalGeneration :: u64 where "kFirstWalGeneration = 1"
definition kTmpSuffix :: string where "kTmpSuffix = ''.tmp''"
definition kManifestVersion :: u32 where "kManifestVersion = 1"
definition kSnapshotVersion :: u32 where "kSnapshotVersion = 1"

definition kManifestMagic :: bytes where
  "kManifestMagic = [0x4d, 0x57, 0x4d, 0x41, 0x4e, 0x30, 0x31, 0]"

definition kSnapshotMagic :: bytes where
  "kSnapshotMagic = [0x4d, 0x57, 0x53, 0x4e, 0x41, 0x50, 0x31, 0]"

text \<open>
  The frame of both writers: write to a temporary file, sync, close, rename, sync the directory. When
  the renaming fails, the error number that is reported is the one \<^verbatim>\<open>unlink\<close> leaves.
\<close>

definition write_file :: "string \<Rightarrow> string \<Rightarrow> (string \<Rightarrow> nat \<Rightarrow> unit io) \<Rightarrow> unit io" where
  "write_file dir path body =
     (let tmp = path @ kTmpSuffix in
      bindM (io ''open'' tmp (sys_open_trunc tmp)) (\<lambda>fd.
      bindM (on_error
              (both (bindM (body tmp fd) (\<lambda>_. io ''fsync'' tmp (sys_fsync fd))) (io ''close'' tmp (sys_close fd)))
              (sys_unlink tmp)) (\<lambda>_.
      bindM (attempt (sys_rename tmp path)) (\<lambda>r.
        case r of
          Inr _ \<Rightarrow> SyncDir dir
        | Inl e \<Rightarrow>
            bindM (attempt (sys_unlink tmp)) (\<lambda>u.
              IoError (case u of Inl e' \<Rightarrow> e' | Inr _ \<Rightarrow> e) ''rename'' path)))))"

section \<open>Manifest\<close>

definition encode_manifest :: "u64 \<Rightarrow> bytes option" where
  "encode_manifest wal_generation =
     do { d1 \<leftarrow> poke (replicate 32 0) 0 kManifestMagic;
          d2 \<leftarrow> Store32 d1 8 kManifestVersion;
          d3 \<leftarrow> Store64 d2 16 wal_generation;
          d4 \<leftarrow> Store32 d3 28 0;
          Store32 d4 28 (BytesCRC d4) }"

definition decode_manifest :: "bytes \<Rightarrow> (status + manifest_state) option" where
  "decode_manifest data =
     do { magic \<leftarrow> peek data 0 8;
          if magic \<noteq> kManifestMagic then Some (Inl (CorruptManifest ''invalid manifest magic''))
          else do {
            version \<leftarrow> Load32 data 8;
            if version \<noteq> kManifestVersion then Some (Inl (CorruptManifest ''unsupported manifest version''))
            else do {
              wal_generation \<leftarrow> Load64 data 16;
              if wal_generation = 0 then Some (Inl (CorruptManifest ''invalid WAL generation''))
              else do {
                want \<leftarrow> Load32 data 28;
                d' \<leftarrow> Store32 data 28 0;
                if BytesCRC d' \<noteq> want then Some (Inl (CorruptManifest ''manifest CRC mismatch''))
                else Some (Inr \<lparr>ms_valid = True, ms_wal_generation = wal_generation\<rparr>) } } } }"

definition ReadManifest :: "string \<Rightarrow> manifest_state io" where
  "ReadManifest dir =
     (let path = ManifestPath dir in
      bindM (attempt (sys_open_read path)) (\<lambda>r.
        case r of
          Inl e \<Rightarrow>
            if e = ENOENT then ret \<lparr>ms_valid = False, ms_wal_generation = kFirstWalGeneration\<rparr>
            else IoError e ''open'' path
        | Inr fd \<Rightarrow>
            bindM (both (ReadAll fd 32 path []) (io ''close'' path (sys_close fd))) (\<lambda>data.
              chkres (decode_manifest data))))"

definition WriteManifest :: "string \<Rightarrow> u64 \<Rightarrow> unit io" where
  "WriteManifest dir wal_generation =
     (if wal_generation = 0 then err (CorruptManifest ''invalid WAL generation'')
      else
        bindM (chk (encode_manifest wal_generation)) (\<lambda>data.
          write_file dir (ManifestPath dir) (\<lambda>tmp fd. WriteAll fd data tmp 0)))"

section \<open>Snapshot\<close>

definition encode_snapshot_header :: "u64 \<Rightarrow> u64 \<Rightarrow> bytes option" where
  "encode_snapshot_header count generation =
     do { d1 \<leftarrow> poke (replicate 32 0) 0 kSnapshotMagic;
          d2 \<leftarrow> Store32 d1 8 kSnapshotVersion;
          d3 \<leftarrow> Store64 d2 16 count;
          Store64 d3 24 generation }"

definition item_crc :: "bytes \<Rightarrow> item \<Rightarrow> u32" where
  "item_crc record_header item =
     CRC32Update (CRC32Update (CRC32Update 0 (take 8 record_header)) (it_key item)) (it_value item)"

definition encode_item_header :: "item \<Rightarrow> bytes option" where
  "encode_item_header item =
     do { d1 \<leftarrow> Store32 (replicate 12 0) 0 (of_nat (length (it_key item)));
          d2 \<leftarrow> Store32 d1 4 (of_nat (length (it_value item)));
          Store32 d2 8 (item_crc d2 item) }"

definition write_item :: "string \<Rightarrow> nat \<Rightarrow> item \<Rightarrow> unit io" where
  "write_item tmp fd item =
     (if length (it_key item) > 4294967295 \<or> length (it_value item) > 4294967295
      then err (CorruptSnapshot ''snapshot item is too large'')
      else
        bindM (chk (encode_item_header item)) (\<lambda>header.
        bindM (WriteAll fd header tmp 0) (\<lambda>_.
        bindM (WriteAll fd (it_key item) tmp 0) (\<lambda>_.
          WriteAll fd (it_value item) tmp 0))))"

definition WriteSnapshot :: "string \<Rightarrow> u64 \<Rightarrow> item list \<Rightarrow> unit io" where
  "WriteSnapshot dir generation entries =
     (if generation = 0 then err (CorruptSnapshot ''invalid snapshot generation'')
      else
        write_file dir (SnapshotPath dir generation) (\<lambda>tmp fd.
          bindM (chk (encode_snapshot_header (of_nat (length entries)) generation)) (\<lambda>header.
          bindM (WriteAll fd header tmp 0) (\<lambda>_.
            fold_op (\<lambda>item _. write_item tmp fd item) entries ()))))"

text \<open>The header: the number of records.\<close>

definition decode_snapshot_header :: "bytes \<Rightarrow> u64 \<Rightarrow> (status + u64) option" where
  "decode_snapshot_header header generation =
     do { magic \<leftarrow> peek header 0 8;
          if magic \<noteq> kSnapshotMagic then Some (Inl (CorruptSnapshot ''invalid snapshot magic''))
          else do {
            version \<leftarrow> Load32 header 8;
            if version \<noteq> kSnapshotVersion then Some (Inl (CorruptSnapshot ''unsupported snapshot version''))
            else do {
              count \<leftarrow> Load64 header 16;
              snapshot_generation \<leftarrow> Load64 header 24;
              if snapshot_generation \<noteq> generation then Some (Inl (CorruptSnapshot ''snapshot generation mismatch''))
              else if count > kRecordOffsetLimit - 1 then Some (Inl (CorruptSnapshot ''snapshot has too many records''))
              else Some (Inr count) } } }"

definition read_item :: "nat \<Rightarrow> string \<Rightarrow> item io" where
  "read_item fd path =
     bindM (ReadAll fd 12 path []) (\<lambda>record_header.
     bindM (chk (Load32 record_header 0)) (\<lambda>key_size.
     bindM (chk (Load32 record_header 4)) (\<lambda>value_size.
     bindM (chk (Load32 record_header 8)) (\<lambda>want_crc.
       if unat key_size > kMaxKeySize then err (CorruptSnapshot ''snapshot key is too large'')
       else
         bindM (if key_size \<noteq> 0 then ReadAll fd (unat key_size) path [] else ret []) (\<lambda>key.
         bindM (if value_size \<noteq> 0 then ReadAll fd (unat value_size) path [] else ret []) (\<lambda>val.
         bindM (chk (Store32 record_header 8 0)) (\<lambda>h.
           let item = \<lparr>it_key = key, it_value = val\<rparr> in
           if item_crc h item \<noteq> want_crc then err (CorruptSnapshot ''snapshot record CRC mismatch'')
           else ret item)))))))"

definition ReadSnapshot :: "string \<Rightarrow> u64 \<Rightarrow> item list io" where
  "ReadSnapshot dir generation =
     (if generation = 0 then err (CorruptSnapshot ''invalid snapshot generation'')
      else
        let path = SnapshotPath dir generation in
        bindM (attempt (sys_open_read path)) (\<lambda>r.
          case r of
            Inl e \<Rightarrow>
              if e = ENOENT then err (CorruptSnapshot ''snapshot missing for manifest generation'')
              else IoError e ''open'' path
          | Inr fd \<Rightarrow>
              bindM (on_error
                (bindM (ReadAll fd 32 path []) (\<lambda>header.
                 bindM (chkres (decode_snapshot_header header generation)) (\<lambda>count.
                   fold_op (\<lambda>_ entries. bindM (read_item fd path) (\<lambda>item. ret (entries @ [item])))
                     [0..<unat count] [])))
                (sys_close fd)) (\<lambda>entries.
              bindM (io ''close'' path (sys_close fd)) (\<lambda>_. ret entries))))"

end
