(* ===== verification/IterCode.thy ===== *)
theory IterCode
  imports InsertCode
begin

text \<open>
  \<^verbatim>\<open>class Index\<close> (\<^verbatim>\<open>index.h\<close>), fourth part: ordered iteration. \<^verbatim>\<open>IterPath\<close> is a stack
  of frames, the first sixteen in an array and the others in a vector; the seeks position it,
  \<^verbatim>\<open>NextPath\<close> and \<^verbatim>\<open>PrevPath\<close> move it. The callback is a function on a state of its own
  that says whether to go on.
\<close>

section \<open>IterPath\<close>

record iter_path =
  ip_stack :: "put_frame list"
  ip_overflow :: "put_frame list"
  ip_len :: int

definition kIterStackDepth :: nat where "kIterStackDepth = 16"

definition zero_frame :: put_frame where
  "zero_frame = \<lparr>pf_id = 0, pf_node = None, pf_leaf = 0\<rparr>"

definition IterPath :: iter_path where
  "IterPath = \<lparr>ip_stack = replicate kIterStackDepth zero_frame, ip_overflow = [], ip_len = 0\<rparr>"

definition Reset :: "iter_path \<Rightarrow> iter_path" where
  "Reset ip = ip\<lparr>ip_len := 0, ip_overflow := []\<rparr>"

definition PushNode :: "u64 \<Rightarrow> u64 \<Rightarrow> int \<Rightarrow> iter_path \<Rightarrow> iter_path option" where
  "PushNode i node leaf ip =
     (let frame = \<lparr>pf_id = i, pf_node = Some node, pf_leaf = leaf\<rparr> in
      if ip_len ip < int (length (ip_stack ip))
      then do { st \<leftarrow> put_at (ip_stack ip) (ip_len ip) frame;
                Some (ip\<lparr>ip_stack := st, ip_len := ip_len ip + 1\<rparr>) }
      else Some (ip\<lparr>ip_overflow := ip_overflow ip @ [frame], ip_len := ip_len ip + 1\<rparr>))"

definition At :: "iter_path \<Rightarrow> int \<Rightarrow> put_frame option" where
  "At ip i =
     (if i < int (length (ip_stack ip)) then at (ip_stack ip) i
      else at (ip_overflow ip) (i - int (length (ip_stack ip))))"

text \<open>An assignment to \<^verbatim>\<open>path->At(i)->leaf\<close>.\<close>

definition SetLeaf :: "int \<Rightarrow> int \<Rightarrow> iter_path \<Rightarrow> iter_path option" where
  "SetLeaf i leaf ip =
     do { frame \<leftarrow> At ip i;
          if i < int (length (ip_stack ip))
          then do { st \<leftarrow> put_at (ip_stack ip) i (frame\<lparr>pf_leaf := leaf\<rparr>); Some (ip\<lparr>ip_stack := st\<rparr>) }
          else do { ov \<leftarrow> put_at (ip_overflow ip) (i - int (length (ip_stack ip))) (frame\<lparr>pf_leaf := leaf\<rparr>);
                    Some (ip\<lparr>ip_overflow := ov\<rparr>) } }"

text \<open>\<^verbatim>\<open>overflow.resize(n)\<close> with an \<open>n\<close> that does not exceed the size.\<close>

definition Truncate :: "int \<Rightarrow> iter_path \<Rightarrow> iter_path option" where
  "Truncate new_len ip =
     (if new_len \<le> int (length (ip_stack ip))
      then Some (ip\<lparr>ip_overflow := [], ip_len := new_len\<rparr>)
      else do { ov \<leftarrow> slice (ip_overflow ip) 0 (new_len - int (length (ip_stack ip)));
                Some (ip\<lparr>ip_overflow := ov, ip_len := new_len\<rparr>) })"

definition FramesForInsert :: "iter_path \<Rightarrow> put_frame list option" where
  "FramesForInsert ip =
     (let stack_count = min (ip_len ip) (int (length (ip_stack ip))) in
      do { a \<leftarrow> slice (ip_stack ip) 0 stack_count;
           b \<leftarrow> slice (ip_overflow ip) 0 (ip_len ip - stack_count);
           Some (a @ b) })"

section \<open>Moving\<close>

definition NodeForFrame :: "put_frame \<Rightarrow> u64 iop" where
  "NodeForFrame frame = (case pf_node frame of Some node \<Rightarrow> ret node | None \<Rightarrow> NodeByID (pf_id frame))"

text \<open>The functions that return \<^verbatim>\<open>Result<bool>\<close> also return the path they leave.\<close>

partial_function (option) LeftmostRecord ::
  "iter_path \<Rightarrow> u64 \<Rightarrow> heap_node_store \<Rightarrow> ((mp_status + bool \<times> iter_path) \<times> heap_node_store) option" where
  "LeftmostRecord path i s =
     bindM (NodeByID i) (\<lambda>node.
     bindM (deref node) (\<lambda>p.
       if np_size p = 0 then err kCorruptLayout
       else
         bindM (chk (PushNode i node 0 path)) (\<lambda>path'.
         bindM (chk (at (np_reps p) 0)) (\<lambda>r.
           if is_child r then LeftmostRecord path' (child_id r) else ret (True, path'))))) s"

partial_function (option) RightmostRecord ::
  "iter_path \<Rightarrow> u64 \<Rightarrow> heap_node_store \<Rightarrow> ((mp_status + bool \<times> iter_path) \<times> heap_node_store) option" where
  "RightmostRecord path i s =
     bindM (NodeByID i) (\<lambda>node.
     bindM (deref node) (\<lambda>p.
       if np_size p = 0 then err kCorruptLayout
       else
         bindM (chk (PushNode i node (page_size p - 1) path)) (\<lambda>path'.
         bindM (chk (at (np_reps p) (page_size p - 1))) (\<lambda>r.
           if is_child r then RightmostRecord path' (child_id r) else ret (True, path'))))) s"

definition LeftmostRoot :: "u64 \<Rightarrow> iter_path \<Rightarrow> (bool \<times> iter_path) iop" where
  "LeftmostRoot root path =
     bindM (node_at root) (\<lambda>p.
       if np_size p = 0 then ret (False, Reset path) else LeftmostRecord (Reset path) root)"

definition RightmostRoot :: "u64 \<Rightarrow> iter_path \<Rightarrow> (bool \<times> iter_path) iop" where
  "RightmostRoot root path =
     bindM (node_at root) (\<lambda>p.
       if np_size p = 0 then ret (False, Reset path) else RightmostRecord (Reset path) root)"

partial_function (option) after_loop ::
  "iter_path \<Rightarrow> int \<Rightarrow> heap_node_store \<Rightarrow> ((mp_status + bool \<times> iter_path) \<times> heap_node_store) option" where
  "after_loop path slot s =
     bindM (chk (At path (ip_len path - 1))) (\<lambda>frame.
     bindM (NodeForFrame frame) (\<lambda>node.
     bindM (deref node) (\<lambda>p.
       if slot < 0 \<or> slot > page_size p then err kCorruptLayout
       else if slot < page_size p
       then
         bindM (chk (SetLeaf (ip_len path - 1) slot path)) (\<lambda>path'.
         bindM (chk (at (np_reps p) slot)) (\<lambda>r.
           if is_child r then LeftmostRecord path' (child_id r) else ret (True, path')))
       else if ip_len path = 1 then ret (False, path)
       else
         bindM (chk (Truncate (ip_len path - 1) path)) (\<lambda>path'.
         bindM (chk (At path' (ip_len path' - 1))) (\<lambda>above.
           after_loop path' (pf_leaf above + 1)))))) s"

definition PositionAtOrAfter :: "iter_path \<Rightarrow> int \<Rightarrow> int \<Rightarrow> (bool \<times> iter_path) iop" where
  "PositionAtOrAfter path target slot =
     (if target < 0 \<or> target \<ge> ip_len path then err kCorruptLayout
      else bindM (chk (Truncate (target + 1) path)) (\<lambda>path'. after_loop path' slot))"

partial_function (option) before_loop ::
  "iter_path \<Rightarrow> int \<Rightarrow> heap_node_store \<Rightarrow> ((mp_status + bool \<times> iter_path) \<times> heap_node_store) option" where
  "before_loop path slot s =
     bindM (chk (At path (ip_len path - 1))) (\<lambda>frame.
     bindM (NodeForFrame frame) (\<lambda>node.
     bindM (deref node) (\<lambda>p.
       if slot < 0 \<or> slot > page_size p then err kCorruptLayout
       else if slot > 0
       then
         bindM (chk (SetLeaf (ip_len path - 1) (slot - 1) path)) (\<lambda>path'.
         bindM (chk (at (np_reps p) (slot - 1))) (\<lambda>r.
           if is_child r then RightmostRecord path' (child_id r) else ret (True, path')))
       else if ip_len path = 1 then ret (False, path)
       else
         bindM (chk (Truncate (ip_len path - 1) path)) (\<lambda>path'.
         bindM (chk (At path' (ip_len path' - 1))) (\<lambda>above.
           before_loop path' (pf_leaf above)))))) s"

definition PositionAtOrBefore :: "iter_path \<Rightarrow> int \<Rightarrow> int \<Rightarrow> (bool \<times> iter_path) iop" where
  "PositionAtOrBefore path target slot =
     (if target < 0 \<or> target \<ge> ip_len path then err kCorruptLayout
      else bindM (chk (Truncate (target + 1) path)) (\<lambda>path'. before_loop path' slot))"

text \<open>
  The descent that \<^verbatim>\<open>SeekGreaterOrEqual\<close> and \<^verbatim>\<open>SeekLessOrEqual\<close> share; \<open>position_at\<close>
  is the positioning in which they differ.
\<close>

partial_function (option) seek_loop ::
  "(iter_path \<Rightarrow> int \<Rightarrow> int \<Rightarrow> (bool \<times> iter_path) iop) \<Rightarrow> key_fn \<Rightarrow> key \<Rightarrow> iter_path \<Rightarrow> u64 \<Rightarrow>
   heap_node_store \<Rightarrow> ((mp_status + bool \<times> iter_path) \<times> heap_node_store) option" where
  "seek_loop position_at K key path i s =
     bindM (NodeByID i) (\<lambda>node.
     bindM (deref node) (\<lambda>p.
       if np_size p = 0 then ret (False, path)
       else
         bindM (chk (Lookup p key)) (\<lambda>leaf_ok.
           if \<not> snd leaf_ok then err kCorruptLayout
           else
             bindM (chk (PushNode i node (fst leaf_ok) path)) (\<lambda>path'.
             bindM (chk (at (np_reps p) (fst leaf_ok))) (\<lambda>r.
               if is_child r then seek_loop position_at K key path' (child_id r)
               else
                 bindM (res (Key K (position r))) (\<lambda>record_key.
                 bindM (chk (CompareAndDiffBit key record_key)) (\<lambda>cmp.
                   case cmp of
                     Inl e \<Rightarrow> if e = kEqualKeys then ret (True, path') else err e
                   | Inr cd \<Rightarrow>
                       bindM (chk (FramesForInsert path')) (\<lambda>frames.
                       bindM (InsertSlotFromPath frames key (cd_compare cd) (cd_diff cd)) (\<lambda>slot.
                         position_at path' (is_target slot) (is_slot slot)))))))))) s"

definition SeekGreaterOrEqual :: "key_fn \<Rightarrow> u64 \<Rightarrow> key \<Rightarrow> iter_path \<Rightarrow> (bool \<times> iter_path) iop" where
  "SeekGreaterOrEqual K root key path = seek_loop PositionAtOrAfter K key (Reset path) root"

definition SeekLessOrEqual :: "key_fn \<Rightarrow> u64 \<Rightarrow> key \<Rightarrow> iter_path \<Rightarrow> (bool \<times> iter_path) iop" where
  "SeekLessOrEqual K root key path = seek_loop PositionAtOrBefore K key (Reset path) root"

partial_function (option) NextPath ::
  "iter_path \<Rightarrow> heap_node_store \<Rightarrow> ((mp_status + bool \<times> iter_path) \<times> heap_node_store) option" where
  "NextPath path s =
     (if ip_len path > 0
      then
        bindM (chk (At path (ip_len path - 1))) (\<lambda>frame.
        bindM (NodeForFrame frame) (\<lambda>node.
        bindM (deref node) (\<lambda>p.
          if pf_leaf frame + 1 < page_size p
          then
            bindM (chk (SetLeaf (ip_len path - 1) (pf_leaf frame + 1) path)) (\<lambda>path'.
            bindM (chk (at (np_reps p) (pf_leaf frame + 1))) (\<lambda>r.
              if is_child r then LeftmostRecord path' (child_id r) else ret (True, path')))
          else
            bindM (chk (Truncate (ip_len path - 1) path)) NextPath))) s
      else ret (False, path) s)"

partial_function (option) PrevPath ::
  "iter_path \<Rightarrow> heap_node_store \<Rightarrow> ((mp_status + bool \<times> iter_path) \<times> heap_node_store) option" where
  "PrevPath path s =
     (if ip_len path > 0
      then
        bindM (chk (At path (ip_len path - 1))) (\<lambda>frame.
        bindM (NodeForFrame frame) (\<lambda>node.
        bindM (deref node) (\<lambda>p.
          if pf_leaf frame - 1 \<ge> 0
          then
            bindM (chk (SetLeaf (ip_len path - 1) (pf_leaf frame - 1) path)) (\<lambda>path'.
            bindM (chk (at (np_reps p) (pf_leaf frame - 1))) (\<lambda>r.
              if is_child r then RightmostRecord path' (child_id r) else ret (True, path')))
          else
            bindM (chk (Truncate (ip_len path - 1) path)) PrevPath))) s
      else ret (False, path) s)"

section \<open>Visiting\<close>

definition CurrentRecord :: "key_fn \<Rightarrow> iter_path \<Rightarrow> (key \<times> pos) iop" where
  "CurrentRecord K path =
     (if ip_len path = 0 then err kCorruptLayout
      else
        bindM (chk (At path (ip_len path - 1))) (\<lambda>frame.
        bindM (NodeForFrame frame) (\<lambda>node.
        bindM (deref node) (\<lambda>p.
          if pf_leaf frame < 0 \<or> pf_leaf frame \<ge> page_size p then err kCorruptLayout
          else
            bindM (chk (at (np_reps p) (pf_leaf frame))) (\<lambda>r.
              if is_child r then err kCorruptLayout
              else
                bindM (res (Key K (position r))) (\<lambda>key. ret (key, position r)))))))"

text \<open>
  \<^verbatim>\<open>AscendFromPath\<close> and \<^verbatim>\<open>DescendFromPath\<close>; \<open>bound\<close> is \<open>None\<close> for an
  \<^verbatim>\<open>IterBound\<close> that is not set. The value is the state of the callback at the end.
\<close>

partial_function (option) AscendFromPath ::
  "key_fn \<Rightarrow> key option \<Rightarrow> ('c \<Rightarrow> key \<Rightarrow> pos \<Rightarrow> bool \<times> 'c) \<Rightarrow> 'c \<Rightarrow> iter_path \<Rightarrow> heap_node_store \<Rightarrow>
   ((mp_status + 'c) \<times> heap_node_store) option" where
  "AscendFromPath K bound fn c path s =
     (if ip_len path > 0
      then
        bindM (CurrentRecord K path) (\<lambda>item.
          if (case bound of None \<Rightarrow> False | Some b \<Rightarrow> CompareKeys (fst item) b \<ge> 0) then ret c
          else if \<not> fst (fn c (fst item) (snd item)) then ret (snd (fn c (fst item) (snd item)))
          else
            bindM (NextPath path) (\<lambda>next.
              if \<not> fst next then ret (snd (fn c (fst item) (snd item)))
              else AscendFromPath K bound fn (snd (fn c (fst item) (snd item))) (snd next))) s
      else ret c s)"

partial_function (option) DescendFromPath ::
  "key_fn \<Rightarrow> key option \<Rightarrow> ('c \<Rightarrow> key \<Rightarrow> pos \<Rightarrow> bool \<times> 'c) \<Rightarrow> 'c \<Rightarrow> iter_path \<Rightarrow> heap_node_store \<Rightarrow>
   ((mp_status + 'c) \<times> heap_node_store) option" where
  "DescendFromPath K bound fn c path s =
     (if ip_len path > 0
      then
        bindM (CurrentRecord K path) (\<lambda>item.
          if (case bound of None \<Rightarrow> False | Some b \<Rightarrow> CompareKeys (fst item) b \<le> 0) then ret c
          else if \<not> fst (fn c (fst item) (snd item)) then ret (snd (fn c (fst item) (snd item)))
          else
            bindM (PrevPath path) (\<lambda>next.
              if \<not> fst next then ret (snd (fn c (fst item) (snd item)))
              else DescendFromPath K bound fn (snd (fn c (fst item) (snd item))) (snd next))) s
      else ret c s)"

type_synonym 'c visitor = "'c \<Rightarrow> key \<Rightarrow> pos \<Rightarrow> bool \<times> 'c"

definition Ascend :: "key_fn \<Rightarrow> 'c visitor \<Rightarrow> 'c \<Rightarrow> (index, mp_status, 'c) op" where
  "Ascend K fn c =
     on_nodes (\<lambda>root.
       bindM (LeftmostRoot root IterPath) (\<lambda>r.
         if \<not> fst r then ret c else AscendFromPath K None fn c (snd r)))"

definition Visit :: "key_fn \<Rightarrow> 'c visitor \<Rightarrow> 'c \<Rightarrow> (index, mp_status, 'c) op" where
  "Visit K fn c = Ascend K fn c"

definition AscendRange :: "key_fn \<Rightarrow> key \<Rightarrow> key \<Rightarrow> 'c visitor \<Rightarrow> 'c \<Rightarrow> (index, mp_status, 'c) op" where
  "AscendRange K greater_or_equal upper fn c =
     bindM (res (CheckKeySize greater_or_equal)) (\<lambda>_.
     bindM (res (CheckKeySize upper)) (\<lambda>_.
       on_nodes (\<lambda>root.
         bindM (SeekGreaterOrEqual K root greater_or_equal IterPath) (\<lambda>r.
           if \<not> fst r then ret c else AscendFromPath K (Some upper) fn c (snd r)))))"

definition AscendLessThan :: "key_fn \<Rightarrow> key \<Rightarrow> 'c visitor \<Rightarrow> 'c \<Rightarrow> (index, mp_status, 'c) op" where
  "AscendLessThan K pivot fn c =
     bindM (res (CheckKeySize pivot)) (\<lambda>_.
       on_nodes (\<lambda>root.
         bindM (LeftmostRoot root IterPath) (\<lambda>r.
           if \<not> fst r then ret c else AscendFromPath K (Some pivot) fn c (snd r))))"

definition AscendGreaterOrEqual :: "key_fn \<Rightarrow> key \<Rightarrow> 'c visitor \<Rightarrow> 'c \<Rightarrow> (index, mp_status, 'c) op" where
  "AscendGreaterOrEqual K pivot fn c =
     bindM (res (CheckKeySize pivot)) (\<lambda>_.
       on_nodes (\<lambda>root.
         bindM (SeekGreaterOrEqual K root pivot IterPath) (\<lambda>r.
           if \<not> fst r then ret c else AscendFromPath K None fn c (snd r))))"

definition Descend :: "key_fn \<Rightarrow> 'c visitor \<Rightarrow> 'c \<Rightarrow> (index, mp_status, 'c) op" where
  "Descend K fn c =
     on_nodes (\<lambda>root.
       bindM (RightmostRoot root IterPath) (\<lambda>r.
         if \<not> fst r then ret c else DescendFromPath K None fn c (snd r)))"

definition DescendRange :: "key_fn \<Rightarrow> key \<Rightarrow> key \<Rightarrow> 'c visitor \<Rightarrow> 'c \<Rightarrow> (index, mp_status, 'c) op" where
  "DescendRange K less_or_equal greater_than fn c =
     bindM (res (CheckKeySize less_or_equal)) (\<lambda>_.
     bindM (res (CheckKeySize greater_than)) (\<lambda>_.
       on_nodes (\<lambda>root.
         bindM (SeekLessOrEqual K root less_or_equal IterPath) (\<lambda>r.
           if \<not> fst r then ret c else DescendFromPath K (Some greater_than) fn c (snd r)))))"

definition DescendLessOrEqual :: "key_fn \<Rightarrow> key \<Rightarrow> 'c visitor \<Rightarrow> 'c \<Rightarrow> (index, mp_status, 'c) op" where
  "DescendLessOrEqual K pivot fn c =
     bindM (res (CheckKeySize pivot)) (\<lambda>_.
       on_nodes (\<lambda>root.
         bindM (SeekLessOrEqual K root pivot IterPath) (\<lambda>r.
           if \<not> fst r then ret c else DescendFromPath K None fn c (snd r))))"

definition DescendGreaterThan :: "key_fn \<Rightarrow> key \<Rightarrow> 'c visitor \<Rightarrow> 'c \<Rightarrow> (index, mp_status, 'c) op" where
  "DescendGreaterThan K pivot fn c =
     bindM (res (CheckKeySize pivot)) (\<lambda>_.
       on_nodes (\<lambda>root.
         bindM (RightmostRoot root IterPath) (\<lambda>r.
           if \<not> fst r then ret c else DescendFromPath K (Some pivot) fn c (snd r))))"

end
