(* ===== verification/StoreCode.thy ===== *)
theory StoreCode
  imports Segments Checkpoint IterCode
begin

text \<open>
  \<^verbatim>\<open>class Store\<close> and \<^verbatim>\<open>Store::Impl\<close> (store.h, store.cc): the operations of the store over the
  log, the snapshot and the index. Each operation holds the lock of the store while it runs, so an
  operation is one step on the store and the world. The runtime is \<^verbatim>\<open>StdRuntime\<close>, whose
  \<^verbatim>\<open>BlockingIO\<close> runs the task in place.
\<close>

section \<open>Options and results\<close>

record options =
  op_wal_size :: u64
  op_wal_replay_policy :: replay_policy
  op_verify_index_on_read :: bool
  op_sync_on_close :: bool

definition Options :: options where
  "Options = \<lparr>op_wal_size = 128 * 1024 * 1024, op_wal_replay_policy = kPointInTime,
     op_verify_index_on_read = False, op_sync_on_close = True\<rparr>"

record get_result =
  gr_value :: bytes
  gr_found :: bool

record seek_result =
  sk_item :: item
  sk_found :: bool

definition BlockingIO :: "string \<Rightarrow> unit io option \<Rightarrow> unit io" where
  "BlockingIO name task = (case task of None \<Rightarrow> ret () | Some t \<Rightarrow> t)"

section \<open>The state\<close>

text \<open>\<open>im_fatal\<close> is the status \<^verbatim>\<open>fatal_\<close>; the node store is part of the index.\<close>

record impl =
  im_dir :: string
  im_wal_size :: u64
  im_records :: "seg_store option"
  im_index :: "index option"
  im_verify :: bool
  im_sync_on_close :: bool
  im_open :: bool
  im_fatal :: "status + unit"

type_synonym 'a st = "(impl \<times> world, status, 'a) op"

definition kCheckpointWalSegmentThreshold :: nat where "kCheckpointWalSegmentThreshold = 4"

definition CheckOpen :: "impl \<Rightarrow> status + unit" where
  "CheckOpen im =
     (if \<not> im_open im \<or> im_records im = None \<or> im_index im = None then Inl (Status kClosed ''store is closed'')
      else case im_fatal im of Inl e \<Rightarrow> Inl e | Inr _ \<Rightarrow> Inr ())"

definition MarkFatal :: "status \<Rightarrow> 'a st" where
  "MarkFatal cause = (\<lambda>(im, w).
     case im_fatal im of
       Inl e \<Rightarrow> err e (im, w)
     | Inr _ \<Rightarrow>
         if st_code cause = kClosed then err cause (im, w)
         else
           let e = Status kFatal (''store is fatal'' @ (if st_message cause \<noteq> [] then '': '' @ st_message cause else [])) in
           err e (im\<lparr>im_fatal := Inl e\<rparr>, w))"

text \<open>A use of \<^verbatim>\<open>records_\<close> and of \<^verbatim>\<open>index_\<close>, which must not be null.\<close>

definition on_records :: "'a seg \<Rightarrow> 'a st" where
  "on_records m = (\<lambda>(im, w).
     case im_records im of None \<Rightarrow> None
     | Some ss \<Rightarrow> map_option (\<lambda>(r, ss', w'). (r, im\<lparr>im_records := Some ss'\<rparr>, w')) (m (ss, w)))"

definition on_index :: "(key_fn \<Rightarrow> (index, 'e, 'a) op) \<Rightarrow> (impl \<times> world, 'e, 'a) op" where
  "on_index f = (\<lambda>(im, w).
     case (im_records im, im_index im) of
       (Some ss, Some x) \<Rightarrow> map_option (\<lambda>(r, x'). (r, im\<lparr>im_index := Some x'\<rparr>, w)) (f (SegKey ss) x)
     | _ \<Rightarrow> None)"

definition checked :: "'a st \<Rightarrow> 'a st" where
  "checked m = (\<lambda>(im, w). bindM (res (CheckOpen im)) (\<lambda>_. m) (im, w))"

section \<open>Reading\<close>

definition verify_position :: "bool \<Rightarrow> index \<Rightarrow> key \<Rightarrow> pos \<Rightarrow> (status + unit) option" where
  "verify_position verify x key pos =
     (if \<not> verify then Some (Inr ())
      else map_option (\<lambda>(r, _). case r of
          Inl e \<Rightarrow> Inl (FromMinpatriciaStatus e)
        | Inr probe \<Rightarrow>
            if \<not> pb_found probe \<or> pb_pos probe \<noteq> pos then Inl (Status kCorruptIndex ''index verification failed'')
            else Inr ()) (Probe key x))"

text \<open>\<^verbatim>\<open>MakeItem\<close>.\<close>

definition MakeItem :: "seg_store \<Rightarrow> bool \<Rightarrow> index \<Rightarrow> key \<Rightarrow> pos \<Rightarrow> (status + item) option" where
  "MakeItem ss verify x key pos =
     do { v \<leftarrow> verify_position verify x key pos;
          case v of
            Inl e \<Rightarrow> Some (Inl e)
          | Inr _ \<Rightarrow> map_option (map_sum id (\<lambda>val. \<lparr>it_key = key, it_value = val\<rparr>)) (OwnedValue ss pos) }"

definition ImplLen :: "int st" where
  "ImplLen = checked (\<lambda>(im, w). case im_index im of None \<Rightarrow> None | Some x \<Rightarrow> Some (Inr (Len x), im, w))"

definition VerifyReadPosition :: "key \<Rightarrow> pos \<Rightarrow> unit st" where
  "VerifyReadPosition key pos = (\<lambda>(im, w).
     case im_index im of None \<Rightarrow> None
     | Some x \<Rightarrow> chkres (verify_position (im_verify im) x key pos) (im, w))"

definition read_value :: "pos \<Rightarrow> bytes st" where
  "read_value pos = (\<lambda>(im, w).
     case im_records im of None \<Rightarrow> None | Some ss \<Rightarrow> chkres (OwnedValue ss pos) (im, w))"

definition ImplGet :: "key \<Rightarrow> get_result st" where
  "ImplGet key =
     checked (
       bindM (from_mp (on_index (\<lambda>K. IndexGet K key))) (\<lambda>pos.
         if \<not> pb_found pos then ret \<lparr>gr_value = [], gr_found = False\<rparr>
         else
           bindM (VerifyReadPosition key (pb_pos pos)) (\<lambda>_.
           bindM (read_value (pb_pos pos)) (\<lambda>val.
             ret \<lparr>gr_value = val, gr_found = True\<rparr>))))"

text \<open>
  \<^verbatim>\<open>VisitIndex\<close>. The state of the visit is that of the callback and the status of the visit, which is
  \<open>None\<close> after a read outside a mapping.
\<close>

type_synonym 'c visit_state = "'c \<times> (status + unit) option"
type_synonym 'c visit_fn = "'c \<Rightarrow> item \<Rightarrow> bool \<times> 'c"

definition visit_item :: "(key \<Rightarrow> pos \<Rightarrow> (status + item) option) \<Rightarrow> 'c visit_fn \<Rightarrow> 'c visit_state visitor" where
  "visit_item mk_item fn = (\<lambda>(c, vs) key pos.
     case mk_item key pos of
       None \<Rightarrow> (False, c, None)
     | Some (Inl e) \<Rightarrow> (False, c, Some (Inl e))
     | Some (Inr it) \<Rightarrow> (fst (fn c it), snd (fn c it), vs))"

definition VisitIndex ::
  "(key_fn \<Rightarrow> 'c visit_state visitor \<Rightarrow> 'c visit_state \<Rightarrow> (index, mp_status, 'c visit_state) op) \<Rightarrow> 'c visit_fn \<Rightarrow> 'c \<Rightarrow> 'c st" where
  "VisitIndex index_visit fn c = (\<lambda>(im, w).
     case (im_records im, im_index im) of
       (Some ss, Some x) \<Rightarrow>
         bindM (from_mp (on_index (\<lambda>K. index_visit K (visit_item (MakeItem ss (im_verify im) x) fn) (c, Some (Inr ()))))) (\<lambda>(c', vs).
           bindM (chkres vs) (\<lambda>_. ret c')) (im, w)
     | _ \<Rightarrow> None)"

definition ImplScan :: "'c visit_fn \<Rightarrow> 'c \<Rightarrow> 'c st" where
  "ImplScan fn c = checked (VisitIndex Ascend fn c)"

definition ImplScanRange :: "key \<Rightarrow> key \<Rightarrow> 'c visit_fn \<Rightarrow> 'c \<Rightarrow> 'c st" where
  "ImplScanRange ge lt fn c =
     (if CompareKeys ge lt > 0 then err (Status kInvalidArgument ''invalid scan range'')
      else checked (VisitIndex (\<lambda>K. AscendRange K ge lt) fn c))"

definition ImplReverseScan :: "'c visit_fn \<Rightarrow> 'c \<Rightarrow> 'c st" where
  "ImplReverseScan fn c = checked (VisitIndex Descend fn c)"

definition ImplReverseScanRange :: "key \<Rightarrow> key \<Rightarrow> 'c visit_fn \<Rightarrow> 'c \<Rightarrow> 'c st" where
  "ImplReverseScanRange le gt fn c =
     (if CompareKeys gt le > 0 then err (Status kInvalidArgument ''invalid reverse scan range'')
      else checked (VisitIndex (\<lambda>K. DescendRange K le gt) fn c))"

definition not_sought :: seek_result where
  "not_sought = \<lparr>sk_item = \<lparr>it_key = [], it_value = []\<rparr>, sk_found = False\<rparr>"

definition take_first :: "seek_result visit_fn" where
  "take_first r it = (False, \<lparr>sk_item = it, sk_found = True\<rparr>)"

definition ImplSeekGE :: "key \<Rightarrow> seek_result st" where
  "ImplSeekGE key = checked (VisitIndex (\<lambda>K. AscendGreaterOrEqual K key) take_first not_sought)"

definition ImplSeekLE :: "key \<Rightarrow> seek_result st" where
  "ImplSeekLE key = checked (VisitIndex (\<lambda>K. DescendLessOrEqual K key) take_first not_sought)"

section \<open>Checkpoints\<close>

definition CollectLiveItemsLocked :: "item list st" where
  "CollectLiveItemsLocked = VisitIndex Ascend (\<lambda>entries it. (True, entries @ [it])) []"

text \<open>On the records and an index.\<close>

definition LoadSnapshotRecords :: "item list \<Rightarrow> (seg_store \<times> index, status, unit) op" where
  "LoadSnapshotRecords entries =
     fold_op (\<lambda>it _.
       bindM (on_fst (AddSnapshotRecord (it_key it) (it_value it))) (\<lambda>pos (ss, x).
         bindM (from_mp (on_snd (Put (SegKey ss) (it_key it) pos))) (\<lambda>_. ret ()) (ss, x))) entries ()"

definition RebuildIndexFromSnapshotLocked :: "item list \<Rightarrow> unit st" where
  "RebuildIndexFromSnapshotLocked entries = (\<lambda>(im, w).
     case im_records im of None \<Rightarrow> None
     | Some ss \<Rightarrow>
         (case NewWithNodes (SegKey ss) HeapNodeStore of
            None \<Rightarrow> None
          | Some (Inl e) \<Rightarrow> err (FromMinpatriciaStatus e) (im, w)
          | Some (Inr x) \<Rightarrow>
              (case LoadSnapshotRecords entries (ss, x) of
                 None \<Rightarrow> None
               | Some (Inl e, ss', _) \<Rightarrow> err e (im\<lparr>im_records := Some ss'\<rparr>, w)
               | Some (Inr _, ss', x') \<Rightarrow> ret () (im\<lparr>im_records := Some ss', im_index := Some x'\<rparr>, w))))"

definition write_checkpoint :: "string \<Rightarrow> u64 \<Rightarrow> item list \<Rightarrow> unit io" where
  "write_checkpoint dir next_generation entries =
     bindM (WriteSnapshot dir next_generation entries) (\<lambda>_.
     bindM (CreateDirs (JoinPath (JoinPath dir kWalDirName) (WalGenerationName next_generation))) (\<lambda>_.
       WriteManifest dir next_generation))"

definition cleanup_old :: "string \<Rightarrow> u64 \<Rightarrow> unit io" where
  "cleanup_old dir generation =
     bindM (attempt (RemoveOldWalGenerations dir generation)) (\<lambda>wal.
     bindM (attempt (RemoveOldSnapshots dir generation)) (\<lambda>snapshot.
       res (first_error wal (snapshot :: status + unit))))"

definition CheckpointLocked :: "unit st" where
  "CheckpointLocked =
     bindM CollectLiveItemsLocked (\<lambda>entries (im, w).
       (case im_records im of None \<Rightarrow> None
        | Some ss \<Rightarrow>
            (let next_generation = ss_generation ss + 1; dir = im_dir im in
             bindM (on_snd (BlockingIO ''write_checkpoint'' (Some (write_checkpoint dir next_generation entries)))) (\<lambda>_.
             bindM (on_records (ResetToSnapshot next_generation)) (\<lambda>_.
             bindM (RebuildIndexFromSnapshotLocked entries) (\<lambda>_.
               on_snd (BlockingIO ''cleanup_checkpoint'' (Some (cleanup_old dir next_generation)))))) (im, w))))"

definition CheckpointIfNeededLocked :: "unit st" where
  "CheckpointIfNeededLocked = (\<lambda>(im, w).
     case im_records im of None \<Rightarrow> None
     | Some ss \<Rightarrow>
         if SegmentCount ss \<le> kCheckpointWalSegmentThreshold then ret () (im, w) else CheckpointLocked (im, w))"

section \<open>Writing\<close>

definition ImplPut :: "key \<Rightarrow> bytes \<Rightarrow> unit st" where
  "ImplPut key val =
     checked (
       if length key > kMaxKeySize then err (Status kInvalidArgument ''key too large'')
       else
         bindM (on_records (SegAppend key val)) (\<lambda>pos.
         bindM (attempt (on_index (\<lambda>K. Put K key pos))) (\<lambda>put.
           case put of
             Inl e \<Rightarrow> MarkFatal (FromMinpatriciaStatus e)
           | Inr _ \<Rightarrow> CheckpointIfNeededLocked)))"

definition ImplDelete :: "key \<Rightarrow> bool st" where
  "ImplDelete key =
     checked (
       bindM (from_mp (on_index (\<lambda>K. IndexGet K key))) (\<lambda>pos.
         if \<not> pb_found pos then ret False
         else if length key > kMaxKeySize then err (Status kInvalidArgument ''key too large'')
         else
           bindM (attempt (on_index (\<lambda>K. Delete K key))) (\<lambda>deleted.
             case deleted of
               Inl e \<Rightarrow> MarkFatal (FromMinpatriciaStatus e)
             | Inr d \<Rightarrow>
                 if \<not> del_deleted d \<or> del_pos d \<noteq> pb_pos pos
                 then MarkFatal (Status kCorruptIndex ''delete position mismatch'')
                 else
                   bindM (attempt (on_records (DeleteRecord key))) (\<lambda>tombstone.
                     case tombstone of
                       Inl e \<Rightarrow>
                         bindM (attempt (on_index (\<lambda>K. Put K key (pb_pos pos)))) (\<lambda>restore.
                           case restore of
                             Inl e' \<Rightarrow> MarkFatal (FromMinpatriciaStatus e')
                           | Inr _ \<Rightarrow> err e)
                     | Inr _ \<Rightarrow> bindM CheckpointIfNeededLocked (\<lambda>_. ret True)))))"

section \<open>Opening and closing\<close>

definition ImplClose :: "unit st" where
  "ImplClose = (\<lambda>(im, w).
     if \<not> im_open im then ret () (im, w)
     else
       bindM (attempt (if im_sync_on_close im then CheckpointLocked else ret ())) (\<lambda>checkpoint_status (im1, w1).
         let im2 = im1\<lparr>im_open := False, im_records := None, im_index := None\<rparr> in
         case im_records im1 of
           None \<Rightarrow> ret () (im2, w1)
         | Some ss \<Rightarrow>
             map_option (\<lambda>(r, _, w2). (map_sum id (\<lambda>_. ()) (first_error checkpoint_status r), im2, w2))
               (SegClose (im_sync_on_close im1) (ss, w1))) (im, w))"

definition new_impl :: "string \<Rightarrow> options \<Rightarrow> seg_store \<Rightarrow> index \<Rightarrow> impl" where
  "new_impl dir opts ss x =
     \<lparr>im_dir = dir, im_wal_size = op_wal_size opts, im_records = Some ss, im_index = Some x,
      im_verify = op_verify_index_on_read opts, im_sync_on_close = op_sync_on_close opts,
      im_open = True, im_fatal = Inr ()\<rparr>"

text \<open>On the opened records and the new index: the snapshot, the log, the removal of old files.\<close>

definition on_pair :: "('a \<times> 'b, 'e, 'x) op \<Rightarrow> ('a \<times> 'b \<times> 'c, 'e, 'x) op" where
  "on_pair m = (\<lambda>(a, b, c). map_option (\<lambda>(r, a', b'). (r, a', b', c)) (m (a, b)))"

definition recover :: "string \<Rightarrow> replay_policy \<Rightarrow> manifest_state \<Rightarrow> unit replay" where
  "recover dir policy manifest =
     bindM (if ms_valid manifest
            then bindM (on_snd (on_snd (ReadSnapshot dir (ms_wal_generation manifest)))) (\<lambda>entries.
                   on_pair (LoadSnapshotRecords entries))
            else ret ()) (\<lambda>_.
     bindM (ReplayAll policy) (\<lambda>_.
       if ms_valid manifest
       then on_snd (on_snd (BlockingIO ''cleanup_old_checkpoints'' (Some (cleanup_old dir (ms_wal_generation manifest)))))
       else ret ()))"

text \<open>The records are destroyed when a step after their opening fails.\<close>

definition with_index :: "string \<Rightarrow> options \<Rightarrow> (seg_store \<times> index \<times> world, status, unit) op \<Rightarrow> seg_store \<Rightarrow> impl io" where
  "with_index dir opts m ss w =
     (case NewWithNodes (SegKey ss) HeapNodeStore of
        None \<Rightarrow> None
      | Some (Inl e) \<Rightarrow> bindM (destroy_store ss) (\<lambda>_. err (FromMinpatriciaStatus e)) w
      | Some (Inr x) \<Rightarrow>
          (case m (ss, x, w) of
             None \<Rightarrow> None
           | Some (Inl e, ss', x', w') \<Rightarrow> bindM (destroy_store ss') (\<lambda>_. err e) w'
           | Some (Inr _, ss', x', w') \<Rightarrow> ret (new_impl dir opts ss' x') w'))"

definition ImplOpen :: "string \<Rightarrow> options \<Rightarrow> impl io" where
  "ImplOpen dir opts =
     (if op_wal_size opts < kWalHeaderSize + of_nat kWalRecordHeaderSize \<or> op_wal_size opts > kRecordOffsetLimit
      then err (Status kInvalidArgument ''invalid WAL size'')
      else
        bindM (BlockingIO ''open_store_dirs'' (Some (CreateDirs dir))) (\<lambda>_.
        bindM (ReadManifest dir) (\<lambda>manifest.
        bindM (SegOpen dir (op_wal_size opts) (ms_wal_generation manifest)) (\<lambda>ss.
          with_index dir opts (recover dir (op_wal_replay_policy opts) manifest) ss))))"

text \<open>The process id, the time and the counter are arguments.\<close>

definition InMemoryTempPath :: "nat \<Rightarrow> nat \<Rightarrow> nat \<Rightarrow> string" where
  "InMemoryTempPath pid now counter =
     ''.runtime/minweight_store_new_'' @ digits pid @ ''_'' @ digits now @ ''_'' @ digits counter"

definition ImplNew :: "string \<Rightarrow> options \<Rightarrow> impl io" where
  "ImplNew dir opts =
     bindM (SegOpen dir (op_wal_size opts) kFirstWalGeneration) (\<lambda>ss. with_index dir opts (ret ()) ss)"

section \<open>The public class\<close>

text \<open>A \<^verbatim>\<open>Store\<close> is its \<^verbatim>\<open>impl_\<close>, which is null for a default-constructed one.\<close>

type_synonym store = "impl option"

definition with_impl :: "'a st \<Rightarrow> (store \<times> world, status, 'a) op" where
  "with_impl m = (\<lambda>(s, w).
     case s of
       None \<Rightarrow> err (Status kClosed ''store is closed'') (s, w)
     | Some im \<Rightarrow> map_option (\<lambda>(r, im', w'). (r, Some im', w')) (m (im, w)))"

definition StoreOpen :: "string \<Rightarrow> options \<Rightarrow> store io" where
  "StoreOpen dir opts = bindM (ImplOpen dir opts) (\<lambda>im. ret (Some im))"

definition StoreNew :: "string \<Rightarrow> options \<Rightarrow> store io" where
  "StoreNew dir opts = bindM (ImplNew dir opts) (\<lambda>im. ret (Some im))"

definition StoreClose :: "(store \<times> world, status, unit) op" where
  "StoreClose = (\<lambda>(s, w). case s of None \<Rightarrow> ret () (s, w) | Some _ \<Rightarrow> with_impl ImplClose (s, w))"

definition StoreLen :: "(store \<times> world, status, int) op" where
  "StoreLen = with_impl ImplLen"

definition StorePut :: "key \<Rightarrow> bytes \<Rightarrow> (store \<times> world, status, unit) op" where
  "StorePut key val = with_impl (ImplPut key val)"

definition StoreGet :: "key \<Rightarrow> (store \<times> world, status, get_result) op" where
  "StoreGet key = with_impl (ImplGet key)"

definition StoreDelete :: "key \<Rightarrow> (store \<times> world, status, bool) op" where
  "StoreDelete key = with_impl (ImplDelete key)"

definition StoreScan :: "'c visit_fn \<Rightarrow> 'c \<Rightarrow> (store \<times> world, status, 'c) op" where
  "StoreScan fn c = with_impl (ImplScan fn c)"

definition StoreScanRange :: "key \<Rightarrow> key \<Rightarrow> 'c visit_fn \<Rightarrow> 'c \<Rightarrow> (store \<times> world, status, 'c) op" where
  "StoreScanRange ge lt fn c = with_impl (ImplScanRange ge lt fn c)"

definition StoreReverseScan :: "'c visit_fn \<Rightarrow> 'c \<Rightarrow> (store \<times> world, status, 'c) op" where
  "StoreReverseScan fn c = with_impl (ImplReverseScan fn c)"

definition StoreReverseScanRange :: "key \<Rightarrow> key \<Rightarrow> 'c visit_fn \<Rightarrow> 'c \<Rightarrow> (store \<times> world, status, 'c) op" where
  "StoreReverseScanRange le gt fn c = with_impl (ImplReverseScanRange le gt fn c)"

definition StoreSeekGE :: "key \<Rightarrow> (store \<times> world, status, seek_result) op" where
  "StoreSeekGE key = with_impl (ImplSeekGE key)"

definition StoreSeekLE :: "key \<Rightarrow> (store \<times> world, status, seek_result) op" where
  "StoreSeekLE key = with_impl (ImplSeekLE key)"

end
