(* ===== verification/WalFacts.thy ===== *)
theory WalFacts
  imports Wal
begin

text \<open>
  What a log segment holds: \<open>wal_holds s rs\<close> says that the mapping of \<open>s\<close> has its header and, up
  to the used offset, the bytes of the records \<open>rs\<close>. Appending extends \<open>rs\<close>, reading at the
  offset of a record gives it back, replaying visits the records in order, and a replay that meets
  other bytes cuts the log there.
\<close>

section \<open>Buffers\<close>

lemma poke_append: "poke d i a = Some d1 \<Longrightarrow> poke d1 (i + length a) b = poke d i (a @ b)"
  by (auto simp: poke_def ac_simps split: if_splits)

lemma unat_of_nat64: "n < 2 ^ 64 \<Longrightarrow> unat (of_nat n :: u64) = n"
  by (simp add: unat_of_nat)

lemma poke_same: "i + n \<le> length d \<Longrightarrow> poke d i (take n (drop i d)) = Some d"
  by (auto simp: poke_def) (metis append_assoc append_take_drop_id drop_drop add.commute take_add)

lemma poke_overwrite:
  assumes "poke d i (a @ x @ b) = Some d1" "length y = length x"
  shows "poke d1 (i + length a) y = poke d i (a @ y @ b)"
  using assms by (auto simp: poke_def add.assoc split: if_splits)

lemma poke_Some: "i + length bs \<le> length d \<Longrightarrow> poke d i bs = Some (take i d @ bs @ drop (i + length bs) d)"
  by (simp add: poke_def)

section \<open>The bytes of a record\<close>

text \<open>A log entry: operation, key and value.\<close>

type_synonym entry = "byte \<times> bytes \<times> bytes"

definition entry_ok :: "entry \<Rightarrow> bool" where
  "entry_ok = (\<lambda>(opc, key, val). (opc = kWalOpPut \<or> opc = kWalOpDelete) \<and> key_ok key \<and>
     length val < 2 ^ 32 \<and> (opc = kWalOpDelete \<longrightarrow> val = []))"

definition entry_head :: "entry \<Rightarrow> bytes" where
  "entry_head = (\<lambda>(opc, key, val). opc # le32 (of_nat (length key)) @ le32 (of_nat (length val)))"

definition entry_crc :: "entry \<Rightarrow> u32" where
  "entry_crc e = CRC32Update 0 (entry_head e @ fst (snd e) @ snd (snd e))"

definition encode_entry :: "entry \<Rightarrow> bytes" where
  "encode_entry e = entry_head e @ le32 (entry_crc e) @ fst (snd e) @ snd (snd e)"

lemma entry_head_length [simp]: "length (entry_head e) = 9"
  by (simp add: entry_head_def split: prod.split)

lemma encode_entry_length: "length (encode_entry e) = 13 + length (fst (snd e)) + length (snd (snd e))"
  by (simp add: encode_entry_def)

lemma write_record_encode:
  assumes "start + length (encode_entry (opc, key, val)) \<le> length d" "length (encode_entry (opc, key, val)) < 2 ^ 64"
  shows "write_record d start opc key val (of_nat (length (encode_entry (opc, key, val)))) = poke d start (encode_entry (opc, key, val))"
proof -
  let ?e = "(opc, key, val)" and ?n = "length key"
  have len: "start + 13 + ?n + length val \<le> length d"
    using assms by (simp add: encode_entry_length)
  obtain d1 where d1: "poke d start [opc] = Some d1" "length d1 = length d"
    using poke_total [of start "[opc]" d] len by auto
  obtain d3 where d3: "poke d start (entry_head ?e) = Some d3" "length d3 = length d"
    using poke_total [of start "entry_head ?e" d] len by auto
  have s2: "Option.bind (Store32 d1 (start + 1) (of_nat ?n)) (\<lambda>d2. Store32 d2 (start + 5) (of_nat (length val))) = Some d3"
  proof -
    have "Store32 d1 (start + 1) (of_nat ?n) = poke d start (opc # le32 (of_nat ?n))"
      using poke_append [OF d1(1), of "le32 (of_nat ?n)"] by (simp add: Store32_def)
    moreover obtain d2 where d2: "poke d start (opc # le32 (of_nat ?n)) = Some d2"
      using poke_total [of start "opc # le32 (of_nat ?n)" d] len by auto
    ultimately show ?thesis
      using poke_append [OF d2, of "le32 (of_nat (length val))"] d3(1) by (simp add: Store32_def entry_head_def)
  qed
  define x where "x = take 4 (drop (start + 9) d3)"
  have x: "length x = 4"
    using len d3(2) by (simp add: x_def)
  have "poke d3 (start + 9) x = Some d3"
    using poke_same [of "start + 9" 4 d3] len d3(2) by (simp add: x_def)
  then have 4: "poke d start (entry_head ?e @ x) = Some d3"
    using poke_append [OF d3(1), of x] by simp
  obtain d4 where d4: "poke d start (entry_head ?e @ x @ key) = Some d4"
    using poke_total [of start "entry_head ?e @ x @ key" d] len x by auto
  obtain d5 where d5: "poke d start (entry_head ?e @ x @ key @ val) = Some d5"
    using poke_total [of start "entry_head ?e @ x @ key @ val" d] len x by auto
  have s4: "poke d3 (start + 13) key = Some d4" "poke d4 (start + 13 + ?n) val = Some d5"
    using poke_append [OF 4, of key] poke_append [OF d4, of val] d4 d5 x by (simp_all add: add.assoc)
  have u: "unat (of_nat (length (encode_entry ?e)) :: u64) = 13 + ?n + length val"
    using unat_of_nat64 [OF assms(2)] by (simp only: encode_entry_length fst_conv snd_conv)
  have rec: "peek d5 start (13 + ?n + length val) = Some (entry_head ?e @ x @ key @ val)"
    using peek_poke [OF d5] x by (simp add: add.assoc)
  have crc: "WalRecordCRC (entry_head ?e @ x @ key @ val) = entry_crc ?e"
    using x by (simp add: WalRecordCRC_parts kWalRecordCRCOffset_def kWalRecordHeaderSize_def entry_crc_def)
  have "poke d5 (start + 9) (le32 (entry_crc ?e)) = poke d start (encode_entry ?e)"
    using poke_overwrite [of d start "entry_head ?e" x "key @ val" d5 "le32 (entry_crc ?e)"] d5 x
    by (simp add: encode_entry_def)
  then show ?thesis
    using d1(1) s2 s4 rec crc u
    by (auto simp: write_record_def kWalRecordOpOffset_def kWalRecordKeyOffset_def kWalRecordValueOffset_def
        kWalRecordHeaderSize_def kWalRecordCRCOffset_def Store32_def bind_eq_Some_conv simp del: of_nat_add)
qed

section \<open>The records of a segment\<close>

definition log_bytes :: "entry list \<Rightarrow> bytes" where
  "log_bytes rs = concat (map encode_entry rs)"

lemma log_bytes_simps [simp]:
  "log_bytes [] = []" "log_bytes (r # rs) = encode_entry r @ log_bytes rs" "log_bytes (rs @ rs') = log_bytes rs @ log_bytes rs'"
  by (simp_all add: log_bytes_def)

text \<open>The mapping has the size of the file, and the size and the number of the segment are in range.\<close>

definition wal_mapped :: "wal_segment \<Rightarrow> bytes \<Rightarrow> bool" where
  "wal_mapped s d \<longleftrightarrow> ws_data s = Some d \<and> length d = unat (ws_size s) \<and> ws_used s \<le> ws_size s \<and>
     kWalHeaderSize \<le> ws_used s \<and> ws_size s \<le> kRecordOffsetLimit \<and> file_no_ok (ws_file_no s)"

definition header_ok :: "bytes \<Rightarrow> u64 \<Rightarrow> bool" where
  "header_ok d used \<longleftrightarrow> peek d 0 8 = Some kWalHeaderMagic \<and> Load32 d 8 = Some kWalVersion \<and> Load64 d 16 = Some used"

definition wal_holds :: "wal_segment \<Rightarrow> entry list \<Rightarrow> bool" where
  "wal_holds s rs \<longleftrightarrow> (\<exists>d. wal_mapped s d \<and> header_ok d (ws_used s) \<and> list_all entry_ok rs \<and>
     unat (ws_used s) = 4096 + length (log_bytes rs) \<and> peek d 4096 (length (log_bytes rs)) = Some (log_bytes rs))"

lemma wal_mapped_bounds:
  assumes "wal_mapped s d"
  shows "unat (ws_used s) \<le> unat (ws_size s)" "4096 \<le> unat (ws_used s)" "unat (ws_size s) \<le> 2 ^ 30"
  using assms by (simp_all add: wal_mapped_def word_le_nat_alt kWalHeaderSize_def unat_offset_limit)

lemma Load32_other: "poke d i bs = Some d' \<Longrightarrow> j + 4 \<le> i \<or> i + length bs \<le> j \<Longrightarrow> Load32 d' j = Load32 d j"
  by (simp add: Load32_def peek_poke_other)

lemma WriteUsed_run:
  assumes "ws_data s = Some d" "24 \<le> length d"
  shows "\<exists>d'. poke d 16 (le64 (ws_used s)) = Some d' \<and> WriteUsed s = Some (s\<lparr>ws_data := Some d', ws_data_dirty := True\<rparr>)"
  using poke_total [of 16 "le64 (ws_used s)" d] assms by (auto simp: WriteUsed_def Store64_def kWalHeaderUsedOffset_def)

lemma header_ok_used:
  assumes "header_ok d u" "poke d 16 (le64 v) = Some d'"
  shows "header_ok d' v"
  using assms(1) peek_poke_other [OF assms(2), of 0 8] Load32_other [OF assms(2), of 8] peek_poke [OF assms(2)]
  by (simp add: header_ok_def Load64_def)

lemma header_ok_poke:
  assumes "header_ok d u" "poke d i bs = Some d'" "4096 \<le> i"
  shows "header_ok d' u"
  using assms(1) peek_poke_other [OF assms(2), of 0 8] Load32_other [OF assms(2), of 8] peek_poke_other [OF assms(2), of 16 8] assms(3)
  by (simp add: header_ok_def Load64_def)

lemma magic_length [simp]: "length kWalHeaderMagic = 8"
  by (simp add: kWalHeaderMagic_def)

text \<open>A new segment.\<close>

lemma InitHeader_holds:
  assumes "ws_data s = Some d" "length d = unat (ws_size s)" "kWalHeaderSize \<le> ws_size s" "ws_size s \<le> kRecordOffsetLimit"
    "file_no_ok (ws_file_no s)"
  shows "\<exists>s'. InitHeader s = Some s' \<and> wal_holds s' [] \<and> ws_size s' = ws_size s \<and> ws_file_no s' = ws_file_no s \<and>
    ws_path s' = ws_path s \<and> ws_fd s' = ws_fd s \<and> ws_sealed s' = ws_sealed s"
proof -
  have sz: "4096 \<le> length d"
    using assms(2,3) by (simp add: word_le_nat_alt kWalHeaderSize_def)
  obtain d1 where d1: "poke d 0 kWalHeaderMagic = Some d1" "length d1 = length d"
    using poke_total [of 0 kWalHeaderMagic d] sz by auto
  obtain d2 where d2: "poke d1 8 (le32 kWalVersion) = Some d2" "length d2 = length d"
    using poke_total [of 8 "le32 kWalVersion" d1] sz d1(2) by auto
  let ?s2 = "s\<lparr>ws_data := Some d2, ws_used := kWalHeaderSize\<rparr>"
  obtain d3 where d3: "poke d2 16 (le64 kWalHeaderSize) = Some d3" "WriteUsed ?s2 = Some (?s2\<lparr>ws_data := Some d3, ws_data_dirty := True\<rparr>)"
    using WriteUsed_run [of ?s2 d2] sz d2(2) by auto
  have "peek d2 0 8 = Some kWalHeaderMagic"
    using peek_poke [OF d1(1)] peek_poke_other [OF d2(1), of 0 8] by simp
  moreover have "Load32 d2 8 = Some kWalVersion"
    using peek_poke [OF d2(1)] by (simp add: Load32_def)
  ultimately have "header_ok d3 kWalHeaderSize"
    using peek_poke_other [OF d3(1), of 0 8] Load32_other [OF d3(1), of 8] peek_poke [OF d3(1)]
    by (simp add: header_ok_def Load64_def)
  moreover have "InitHeader s = Some (?s2\<lparr>ws_data := Some d3, ws_data_dirty := True\<rparr>)"
    using assms(1) d1(1) d2(1) d3(2) by (simp add: InitHeader_def Store32_def kWalHeaderVersionOffset_def)
  ultimately show ?thesis
    using assms poke_length [OF d3(1)] d2(2) sz
    by (auto simp: wal_holds_def wal_mapped_def kWalHeaderSize_def peek_def)
qed

text \<open>An append that finds room.\<close>

definition fits :: "wal_segment \<Rightarrow> entry \<Rightarrow> bool" where
  "fits s e \<longleftrightarrow> unat (ws_used s) + length (encode_entry e) \<le> unat (ws_size s)"

lemma append_size:
  assumes "wal_mapped s d" "length key \<le> 4294967295" "length val \<le> 4294967295"
  shows "(of_nat kWalRecordHeaderSize + of_nat (length key) + of_nat (length val) > ws_size s - ws_used s \<or>
      ws_used s + (of_nat kWalRecordHeaderSize + of_nat (length key) + of_nat (length val)) > kRecordOffsetLimit) =
    (\<not> fits s (opc, key, val))"
proof -
  let ?t = "of_nat (13 + length key + length val) :: u64"
  have t: "of_nat kWalRecordHeaderSize + of_nat (length key) + of_nat (length val) = ?t"
    by (simp add: kWalRecordHeaderSize_def)
  have u: "unat ?t = 13 + length key + length val"
    by (rule unat_of_nat64) (use assms in simp)
  note b = wal_mapped_bounds [OF assms(1)]
  have "ws_used s \<le> ws_size s"
    using assms(1) by (simp add: wal_mapped_def)
  then have d: "unat (ws_size s - ws_used s) = unat (ws_size s) - unat (ws_used s)"
    by (rule unat_sub)
  have "unat (ws_used s + ?t) = unat (ws_used s) + unat ?t"
    by (rule unat_add_lem [THEN iffD1]) (use b u assms(2,3) in simp)
  then show ?thesis
    unfolding t fits_def encode_entry_length using b d u
    by (auto simp: word_less_nat_alt unat_offset_limit)
qed

lemma WalAppend_holds:
  assumes "wal_holds s rs" "entry_ok (opc, key, val)" "\<not> ws_sealed s" "fits s (opc, key, val)"
  shows "\<exists>s'. WalAppend opc key val s = Some (Inr (rec_pos (ws_file_no s) (ws_used s)), s') \<and>
    wal_holds s' (rs @ [(opc, key, val)]) \<and> ws_size s' = ws_size s \<and> ws_file_no s' = ws_file_no s \<and>
    ws_path s' = ws_path s \<and> ws_fd s' = ws_fd s \<and> ws_sealed s' = ws_sealed s \<and>
    unat (ws_used s') = unat (ws_used s) + length (encode_entry (opc, key, val))"
proof -
  let ?e = "(opc, key, val)"
  obtain d where d: "wal_mapped s d" "header_ok d (ws_used s)" "unat (ws_used s) = 4096 + length (log_bytes rs)"
    "peek d 4096 (length (log_bytes rs)) = Some (log_bytes rs)" "list_all entry_ok rs"
    using assms(1) unfolding wal_holds_def by blast
  note b = wal_mapped_bounds [OF d(1)]
  have lens: "length key \<le> 4294967295" "length val \<le> 4294967295"
    using assms(2) by (auto simp: entry_ok_def key_ok_def)
  have dl: "length d = unat (ws_size s)" "ws_data s = Some d" "file_no_ok (ws_file_no s)" "ws_size s \<le> kRecordOffsetLimit"
    using d(1) by (simp_all add: wal_mapped_def)
  let ?n = "length (encode_entry ?e)"
  have room: "unat (ws_used s) + ?n \<le> length d"
    using assms(4) dl(1) by (simp add: fits_def)
  then have n: "?n < 2 ^ 64"
    using b dl(1) by simp
  have t: "of_nat kWalRecordHeaderSize + of_nat (length key) + of_nat (length val) = (of_nat ?n :: u64)"
    by (simp add: encode_entry_length kWalRecordHeaderSize_def)
  obtain d1 where d1: "poke d (unat (ws_used s)) (encode_entry ?e) = Some d1" "length d1 = length d"
    using poke_total [OF room] by blast
  let ?s1 = "s\<lparr>ws_data := Some d1, ws_used := ws_used s + of_nat ?n\<rparr>"
  obtain d2 where d2: "poke d1 16 (le64 (ws_used s + of_nat ?n)) = Some d2"
    "WriteUsed ?s1 = Some (?s1\<lparr>ws_data := Some d2, ws_data_dirty := True\<rparr>)"
    using WriteUsed_run [of ?s1 d1] b d1(2) dl(1) by auto
  let ?s2 = "?s1\<lparr>ws_data := Some d2, ws_data_dirty := True\<rparr>"
  have u: "unat (ws_used s + of_nat ?n) = unat (ws_used s) + ?n"
    using unat_of_nat64 [OF n] room dl(1) b by (subst unat_add_lem [THEN iffD1]) simp_all
  have "ws_used s < kRecordOffsetLimit"
    using room b by (simp add: word_less_nat_alt unat_offset_limit encode_entry_length dl(1))
  then have "MakeRecordPosition (ws_file_no s) (ws_used s) = Inr (rec_pos (ws_file_no s) (ws_used s))"
    using dl(3) by (intro MakeRecordPosition_ok)
  then have run: "WalAppend opc key val s = Some (Inr (rec_pos (ws_file_no s) (ws_used s)), ?s2)"
    using assms(3,4) lens append_size [OF d(1) lens, of opc] write_record_encode [OF room n] d1(1) d2(2) dl(2)
    by (simp add: WalAppend_def Let_def t res_apply)
  have p: "peek d2 4096 (length (log_bytes rs)) = Some (log_bytes rs)"
    using d(3,4) peek_poke_other [OF d1(1), of 4096] peek_poke_other [OF d2(1), of 4096] by simp
  have q: "peek d2 (4096 + length (log_bytes rs)) ?n = Some (encode_entry ?e)"
    using d(3) peek_poke [OF d1(1)] peek_poke_other [OF d2(1), of "4096 + length (log_bytes rs)"] by simp
  have "peek d2 4096 (length (log_bytes (rs @ [?e]))) = Some (log_bytes (rs @ [?e]))"
  proof -
    have "take ?n (drop (length (log_bytes rs)) (drop 4096 d2)) = encode_entry ?e" "take (length (log_bytes rs)) (drop 4096 d2) = log_bytes rs"
      "4096 + length (log_bytes rs) + ?n \<le> length d2"
      using p q by (simp_all add: peek_def add.commute split: if_splits)
    then show ?thesis
      by (simp add: peek_def take_add)
  qed
  moreover have "header_ok d2 (ws_used s + of_nat ?n)"
    using header_ok_used [OF header_ok_poke [OF d(2) d1(1)] d2(1)] b by simp
  moreover have "wal_mapped ?s2 d2"
    using d(1) u room b poke_length [OF d2(1)] d1(2) by (simp add: wal_mapped_def word_le_nat_alt kWalHeaderSize_def)
  ultimately have "wal_holds ?s2 (rs @ [?e])"
    unfolding wal_holds_def using d(3,5) u assms(2) by (intro exI [of _ d2]) simp
  then show ?thesis
    using run u by (intro exI [of _ ?s2]) simp
qed

lemma WalAppend_full:
  assumes "wal_holds s rs" "entry_ok (opc, key, val)" "ws_sealed s \<or> \<not> fits s (opc, key, val)"
  shows "\<exists>m. WalAppend opc key val s = Some (Inl (Status kWalFull m), s)"
proof -
  obtain d where d: "wal_mapped s d"
    using assms(1) unfolding wal_holds_def by blast
  have lens: "length key \<le> 4294967295" "length val \<le> 4294967295"
    using assms(2) by (auto simp: entry_ok_def key_ok_def)
  show ?thesis
    using assms(3) lens append_size [OF d lens, of opc] by (auto simp: WalAppend_def Let_def err_apply)
qed

section \<open>Reading\<close>

text \<open>A read of a record inside the mapping.\<close>

definition as_record :: "entry \<Rightarrow> u64 \<Rightarrow> wal_record" where
  "as_record e fin = \<lparr>wr_op = fst e, wr_key = fst (snd e), wr_value = snd (snd e), wr_end = fin\<rparr>"

lemma peek_concat:
  assumes "peek d i (length (a @ b)) = Some (a @ b)"
  shows "peek d i (length a) = Some a" "peek d (i + length a) (length b) = Some b"
  using peek_append [of d i "length a" "length b" "a @ b"] assms by simp_all

lemma RecordAtOffset_bytes:
  assumes "wal_mapped s d" "entry_ok e" "peek d (unat i) (length (encode_entry e)) = Some (entry_head e @ le32 c @ fst (snd e) @ snd (snd e))"
    "4096 \<le> unat i" "unat i + length (encode_entry e) \<le> unat (ws_used s)"
  shows "RecordAtOffset s i v = Some (if v \<and> entry_crc e \<noteq> c then Inl (CorruptWal ''WAL CRC mismatch'')
    else Inr (as_record e (i + of_nat (length (encode_entry e)))))"
proof -
  obtain opc key val where e: "e = (opc, key, val)"
    by (cases e)
  have ok: "opc = kWalOpPut \<or> opc = kWalOpDelete" "length key \<le> 7281" "length val < 2 ^ 32" "opc = kWalOpDelete \<Longrightarrow> val = []"
    using assms(2) by (auto simp: e entry_ok_def key_ok_def)
  let ?n = "length (encode_entry e)" and ?i = "unat i"
  have n: "?n = 13 + length key + length val"
    by (simp add: e encode_entry_length)
  note b = wal_mapped_bounds [OF assms(1)]
  have used: "?i + ?n \<le> 2 ^ 30"
    using assms(5) b by simp
  have add: "unat (i + of_nat m) = ?i + m" if "m \<le> ?n" for m
  proof -
    have "unat (of_nat m :: u64) = m"
      using that used by (intro unat_of_nat64) simp
    then show ?thesis
      using that used by (subst unat_add_lem [THEN iffD1]) simp_all
  qed
  have range: "\<not> (i < kWalHeaderSize \<or> i + of_nat kWalRecordHeaderSize > ws_used s)"
    using add [of 13] n assms(4,5) by (simp add: word_less_nat_alt kWalHeaderSize_def kWalRecordHeaderSize_def)
  let ?b = "[opc] @ le32 (of_nat (length key)) @ le32 (of_nat (length val)) @ le32 c @ key @ val"
  have bytes: "entry_head e @ le32 c @ fst (snd e) @ snd (snd e) = ?b" "?n = length ?b"
    by (simp_all add: e encode_entry_length entry_head_def)
  note p = assms(3) [unfolded bytes]
  note p1 = peek_concat [OF p]
  note p2 = peek_concat [OF p1(2)]
  note p3 = peek_concat [OF p2(2)]
  note p4 = peek_concat [OF p3(2)]
  note p5 = peek_concat [OF p4(2)]
  have parts: "peek d ?i 1 = Some [opc]" "Load32 d (?i + 1) = Some (of_nat (length key))" "Load32 d (?i + 5) = Some (of_nat (length val))"
    "Load32 d (?i + 9) = Some c" "peek d (?i + 13) (length key) = Some key" "peek d (?i + 13 + length key) (length val) = Some val"
    using p1(1) p2(1) p3(1) p4(1) p5 by (simp_all add: Load32_def add.assoc add.commute add.left_commute)
  have lens: "unat (of_nat (length key) :: u64) = length key" "unat (of_nat (length val) :: u64) = length val"
    using ok(2,3) by (auto intro!: unat_of_nat64)
  have casts: "(ucast (of_nat (length key) :: u32) :: u64) = of_nat (length key)" "(ucast (of_nat (length val) :: u32) :: u64) = of_nat (length val)"
    using ok(2,3) by (simp_all add: word_unat_eq_iff unsigned_ucast_eq lens unat_of_nat take_bit_nat_eq_self)
  have fin: "i + of_nat kWalRecordHeaderSize + of_nat (length key) + of_nat (length val) = i + of_nat ?n"
    by (simp add: n kWalRecordHeaderSize_def)
  have crc: "WalRecordCRC (entry_head e @ le32 c @ fst (snd e) @ snd (snd e)) = entry_crc e"
    by (simp add: WalRecordCRC_parts kWalRecordCRCOffset_def kWalRecordHeaderSize_def entry_crc_def)
  have small: "\<not> of_nat kMaxKeySize < (of_nat (length key) :: u64)"
    using ok(2) lens by (simp add: word_less_nat_alt)
  have end_ok: "\<not> (i + of_nat ?n < i \<or> i + of_nat ?n > ws_used s)" "unat (i + of_nat ?n - i) = ?n"
    using add [of ?n] assms(5) used by (simp_all add: word_less_nat_alt unat_of_nat64)
  have data: "ws_data s = Some d"
    using assms(1) by (simp add: wal_mapped_def)
  have del: "\<not> (opc = kWalOpDelete \<and> (of_nat (length val) :: u64) \<noteq> 0)"
    using ok(4) by auto
  show ?thesis
  proof (cases "v \<and> entry_crc e \<noteq> c")
    case True
    then show ?thesis
      using range data parts end_ok small del ok(1) crc assms(3) lens
      by (simp add: RecordAtOffset_def Let_def kWalRecordOpOffset_def kWalRecordKeyOffset_def kWalRecordValueOffset_def
          kWalRecordCRCOffset_def casts fin e flip: One_nat_def) blast
  next
    case False
    then show ?thesis
      using range data parts end_ok small del ok(1) crc assms(3) lens
      by (simp add: RecordAtOffset_def Let_def kWalRecordOpOffset_def kWalRecordKeyOffset_def kWalRecordValueOffset_def
          kWalRecordCRCOffset_def casts fin as_record_def e flip: One_nat_def)
        (auto simp: kWalRecordHeaderSize_def)
  qed
qed

lemma RecordAtOffset_entry:
  assumes "wal_mapped s d" "entry_ok e" "peek d (unat i) (length (encode_entry e)) = Some (encode_entry e)"
    "4096 \<le> unat i" "unat i + length (encode_entry e) \<le> unat (ws_used s)"
  shows "RecordAtOffset s i v = Some (Inr (as_record e (i + of_nat (length (encode_entry e)))))"
  using RecordAtOffset_bytes [OF assms(1,2), of i "entry_crc e" v] assms(3-5) by (simp add: encode_entry_def)

text \<open>Key and value bytes that differ in up to four consecutive bytes from those of the record are detected.\<close>

lemma RecordAtOffset_burst:
  assumes "wal_mapped s d" "entry_ok (opc, key', val')" "length key' = length key" "length val' = length val"
    "peek d (unat i) (length (encode_entry (opc, key, val))) = Some (take 13 (encode_entry (opc, key, val)) @ key' @ val')"
    "4096 \<le> unat i" "unat i + length (encode_entry (opc, key, val)) \<le> unat (ws_used s)"
    "key @ val = xs @ bs @ ys" "key' @ val' = xs @ bs' @ ys" "length bs = length bs'" "length bs \<le> 4" "bs \<noteq> bs'"
  shows "RecordAtOffset s i True = Some (Inl (CorruptWal ''WAL CRC mismatch''))"
proof -
  let ?e = "(opc, key, val)" and ?e' = "(opc, key', val')"
  have h: "entry_head ?e' = entry_head ?e" "length (encode_entry ?e') = length (encode_entry ?e)"
    using assms(3,4) by (simp_all add: entry_head_def encode_entry_length)
  have "CRC32Update 0 ((entry_head ?e @ xs) @ bs @ ys) \<noteq> CRC32Update 0 ((entry_head ?e @ xs) @ bs' @ ys)"
    by (rule CRC32Update_burst [OF assms(10-12)])
  then have "entry_crc ?e' \<noteq> entry_crc ?e"
    using assms(8,9) by (simp add: entry_crc_def h(1))
  moreover have "take 13 (encode_entry ?e) = entry_head ?e' @ le32 (entry_crc ?e)"
    by (simp add: encode_entry_def h(1))
  ultimately show ?thesis
    using RecordAtOffset_bytes [OF assms(1,2), of i "entry_crc ?e" True] assms(5-7) h(2) by simp
qed

text \<open>The records of a segment with their offsets.\<close>

fun placed :: "nat \<Rightarrow> entry list \<Rightarrow> (nat \<times> entry) list" where
  "placed i [] = []"
| "placed i (e # es) = (i, e) # placed (i + length (encode_entry e)) es"

lemma placed_append: "placed i (es @ es') = placed i es @ placed (i + length (log_bytes es)) es'"
  by (induction es arbitrary: i) (simp_all add: add.assoc)

lemma placed_entries [simp]: "map snd (placed i es) = es"
  by (induction es arbitrary: i) simp_all

lemma placed_split:
  assumes "(j, e) \<in> set (placed i es)"
  shows "\<exists>es1 es2. es = es1 @ e # es2 \<and> j = i + length (log_bytes es1)"
  using assms
proof (induction es arbitrary: i)
  case (Cons f es)
  show ?case
  proof (cases "(j, e) = (i, f)")
    case True
    then show ?thesis
      by (intro exI [of _ "[]"] exI [of _ es]) simp
  next
    case False
    then have "(j, e) \<in> set (placed (i + length (encode_entry f)) es)"
      using Cons.prems by auto
    then obtain es1 es2 where "es = es1 @ e # es2" "j = i + length (encode_entry f) + length (log_bytes es1)"
      using Cons.IH by blast
    then show ?thesis
      by (intro exI [of _ "f # es1"] exI [of _ es2]) simp
  qed
qed simp

lemma placed_ge: "(j, e) \<in> set (placed i es) \<Longrightarrow> i \<le> j \<and> j + length (encode_entry e) \<le> i + length (log_bytes es)"
  by (induction es arbitrary: i) fastforce+

lemma placed_distinct: "distinct (map fst (placed i es))"
proof (induction es arbitrary: i)
  case (Cons e es)
  have "i \<notin> fst ` set (placed (i + length (encode_entry e)) es)"
    using placed_ge [where es = es] by (fastforce simp: encode_entry_length)
  then show ?case
    using Cons by simp
qed simp

lemma encode_entry_nonempty [simp]: "encode_entry e \<noteq> []" "0 < length (encode_entry e)"
  by (simp_all add: encode_entry_def flip: length_greater_0_conv)

lemma wal_holds_read:
  assumes "wal_holds s rs" "(j, e) \<in> set (placed 4096 rs)"
  shows "j < 2 ^ 30" "RecordAtOffset s (of_nat j) v = Some (Inr (as_record e (of_nat (j + length (encode_entry e)))))"
    "RecordAt s (rec_pos (ws_file_no s) (of_nat j)) v = Some (Inr (as_record e (of_nat (j + length (encode_entry e)))))"
proof -
  obtain d where d: "wal_mapped s d" "list_all entry_ok rs" "unat (ws_used s) = 4096 + length (log_bytes rs)"
    "peek d 4096 (length (log_bytes rs)) = Some (log_bytes rs)"
    using assms(1) unfolding wal_holds_def by blast
  note b = wal_mapped_bounds [OF d(1)]
  have ge: "4096 \<le> j" "j + length (encode_entry e) \<le> unat (ws_used s)"
    using placed_ge [OF assms(2)] d(3) by simp_all
  then show lt: "j < 2 ^ 30"
    using b by (auto simp: encode_entry_length)
  obtain rs1 rs2 where rs: "rs = rs1 @ e # rs2" "j = 4096 + length (log_bytes rs1)"
    using placed_split [OF assms(2)] by blast
  have "peek d j (length (encode_entry e @ log_bytes rs2)) = Some (encode_entry e @ log_bytes rs2)"
    using d(4) peek_concat(2) [of d 4096 "log_bytes rs1" "encode_entry e @ log_bytes rs2"] by (simp add: rs add.assoc)
  then have p: "peek d j (length (encode_entry e)) = Some (encode_entry e)"
    by (rule peek_concat)
  have u: "unat (of_nat j :: u64) = j"
    using lt by (intro unat_of_nat64) simp
  show 1: "RecordAtOffset s (of_nat j) v = Some (Inr (as_record e (of_nat (j + length (encode_entry e)))))"
    using RecordAtOffset_entry [OF d(1), of e "of_nat j" v] d(2) p ge u by (simp add: rs)
  have "RecordPositionFileNo (rec_pos (ws_file_no s) (of_nat j)) = ws_file_no s"
    "RecordPositionOffset (rec_pos (ws_file_no s) (of_nat j)) = of_nat j"
    using d(1) lt by (auto simp: wal_mapped_def file_no_ok_def word_less_nat_alt unat_offset_limit u intro!: RecordPosition_rec_pos)
  then show "RecordAt s (rec_pos (ws_file_no s) (of_nat j)) v = Some (Inr (as_record e (of_nat (j + length (encode_entry e)))))"
    using 1 by (simp add: RecordAt_def)
qed

section \<open>Replay\<close>

lemma bindM_pure [simp]:
  "bindM (chk (Some a)) f s = f a s" "bindM (res (Inr a)) f s = f a s" "bindM (res (Inl e)) f s = Some (Inl e, s)"
  "bindM (ret a) f s = f a s" "bindM (err e) f s = Some (Inl e, s)" "bindM (chkres (Some (Inr a))) f s = f a s"
  "bindM (chkres (Some (Inl e))) f s = Some (Inl e, s)"
  by (simp_all add: bindM_def chk_def res_def ret_def err_def chkres_def)

lemma bindM_assoc: "bindM (bindM m f) g = bindM m (\<lambda>a. bindM (f a) g)"
  by (rule ext) (auto simp: bindM_def bind_eq_Some_conv split: option.splits sum.splits Option.bind_split)

lemma on_snd_bindM: "on_snd (bindM m f) = bindM (on_snd m) (\<lambda>a. on_snd (f a))"
  by (rule ext) (auto simp: bindM_def on_snd_def split: option.splits sum.splits Option.bind_split)

lemma bindM_on_snd_cong:
  "(\<And>a c'. F a (s, c') = G a (s, c')) \<Longrightarrow> bindM (on_snd m) F (s, c) = bindM (on_snd m) G (s, c)"
  by (cases "m c") (auto simp: bindM_def on_snd_def split: sum.splits)

text \<open>The calls that a replay makes, in the order of the records.\<close>

definition replay_calls :: "'c replay_fn \<Rightarrow> u64 \<Rightarrow> (nat \<times> entry) list \<Rightarrow> ('c, status, unit) op" where
  "replay_calls fn file_no ps =
     fold_op (\<lambda>(j, e) _. fn (as_record e (of_nat (j + length (encode_entry e)))) (rec_pos file_no (of_nat j))) ps ()"

lemma replay_calls_simps [simp]:
  "replay_calls fn n [] = ret ()"
  "replay_calls fn n ((j, e) # ps) =
     bindM (fn (as_record e (of_nat (j + length (encode_entry e)))) (rec_pos n (of_nat j))) (\<lambda>_. replay_calls fn n ps)"
  by (simp_all add: replay_calls_def)

text \<open>
  The records \<open>rs\<close> are the readable ones: after them the log ends, or the read at the next offset
  fails.
\<close>

definition readable :: "wal_segment \<Rightarrow> entry list \<Rightarrow> status option \<Rightarrow> bool" where
  "readable s rs bad \<longleftrightarrow> (\<exists>d. wal_mapped s d \<and> header_ok d (ws_used s)) \<and> list_all entry_ok rs \<and>
     4096 + length (log_bytes rs) \<le> unat (ws_used s) \<and>
     (\<exists>d. ws_data s = Some d \<and> peek d 4096 (length (log_bytes rs)) = Some (log_bytes rs)) \<and>
     (case bad of
        None \<Rightarrow> unat (ws_used s) = 4096 + length (log_bytes rs)
      | Some e \<Rightarrow> 4096 + length (log_bytes rs) < unat (ws_used s) \<and>
          RecordAtOffset s (of_nat (4096 + length (log_bytes rs))) True = Some (Inl e))"

lemma wal_holds_readable: "wal_holds s rs \<Longrightarrow> readable s rs None"
  by (auto simp: wal_holds_def readable_def wal_mapped_def)

lemma readable_read:
  assumes "readable s (rs1 @ e # rs2) bad"
  shows "RecordAtOffset s (of_nat (4096 + length (log_bytes rs1))) v =
    Some (Inr (as_record e (of_nat (4096 + length (log_bytes rs1) + length (encode_entry e)))))"
    "4096 + length (log_bytes rs1) + length (encode_entry e) \<le> unat (ws_used s)" "unat (ws_used s) \<le> 2 ^ 30" "file_no_ok (ws_file_no s)"
proof -
  let ?j = "4096 + length (log_bytes rs1)"
  obtain d where d: "wal_mapped s d" "entry_ok e" "peek d 4096 (length (log_bytes (rs1 @ e # rs2))) = Some (log_bytes (rs1 @ e # rs2))"
    "4096 + length (log_bytes (rs1 @ e # rs2)) \<le> unat (ws_used s)"
    using assms unfolding readable_def wal_mapped_def by auto
  note b = wal_mapped_bounds [OF d(1)]
  show le: "?j + length (encode_entry e) \<le> unat (ws_used s)" and u30: "unat (ws_used s) \<le> 2 ^ 30"
    using d(4) b by simp_all
  show "file_no_ok (ws_file_no s)"
    using d(1) by (simp add: wal_mapped_def)
  have "peek d ?j (length (encode_entry e @ log_bytes rs2)) = Some (encode_entry e @ log_bytes rs2)"
    using d(3) peek_concat(2) [of d 4096 "log_bytes rs1" "encode_entry e @ log_bytes rs2"] by (simp add: add.assoc)
  then have p: "peek d ?j (length (encode_entry e)) = Some (encode_entry e)"
    by (rule peek_concat)
  have u: "unat (of_nat ?j :: u64) = ?j"
    by (rule unat_of_nat64) (use le u30 in simp)
  show "RecordAtOffset s (of_nat ?j) v = Some (Inr (as_record e (of_nat (?j + length (encode_entry e)))))"
    using RecordAtOffset_entry [OF d(1,2), of "of_nat ?j" v] p le u by simp
qed

lemma replay_step:
  assumes "readable s (rs1 @ e # rs2) bad"
  shows "replay_loop policy fn (of_nat (4096 + length (log_bytes rs1))) (of_nat (4096 + length (log_bytes rs1))) (s, c) =
    bindM (on_snd (fn (as_record e (of_nat (4096 + length (log_bytes (rs1 @ [e]))))) (rec_pos (ws_file_no s) (of_nat (4096 + length (log_bytes rs1))))))
      (\<lambda>_. replay_loop policy fn (of_nat (4096 + length (log_bytes (rs1 @ [e])))) (of_nat (4096 + length (log_bytes (rs1 @ [e]))))) (s, c)"
proof -
  let ?j = "4096 + length (log_bytes rs1)"
  note r = readable_read [OF assms]
  have pos: "0 < length (encode_entry e)"
    by simp
  have u: "unat (of_nat ?j :: u64) = ?j"
    by (rule unat_of_nat64) (use r(2,3) in simp)
  have lt: "(of_nat ?j :: u64) < ws_used s"
    unfolding word_less_nat_alt u using r(2) pos by linarith
  have "(of_nat ?j :: u64) < kRecordOffsetLimit"
    unfolding word_less_nat_alt u unat_offset_limit using r(2,3) pos by linarith
  then have mk: "MakeRecordPosition (ws_file_no s) (of_nat ?j) = Inr (rec_pos (ws_file_no s) (of_nat ?j))"
    by (rule MakeRecordPosition_ok [OF r(4)])
  have j': "4096 + length (log_bytes (rs1 @ [e])) = ?j + length (encode_entry e)"
    by simp
  have "wr_end (as_record e x) = x" for x
    by (simp add: as_record_def)
  then show ?thesis
    unfolding j' by (subst replay_loop.simps) (simp only: fst_conv lt if_True r(1) bindM_pure sum.case mk)
qed

lemma replay_all:
  assumes "readable s (rs1 @ rs2) bad"
  shows "replay_loop policy fn (of_nat (4096 + length (log_bytes rs1))) (of_nat (4096 + length (log_bytes rs1))) (s, c) =
    bindM (on_snd (replay_calls fn (ws_file_no s) (placed (4096 + length (log_bytes rs1)) rs2)))
      (\<lambda>_. replay_loop policy fn (of_nat (4096 + length (log_bytes (rs1 @ rs2)))) (of_nat (4096 + length (log_bytes (rs1 @ rs2))))) (s, c)"
  using assms
proof (induction rs2 arbitrary: rs1 c)
  case Nil
  then show ?case
    by (simp add: on_snd_def ret_def bindM_def)
next
  case (Cons e rs2)
  let ?j = "4096 + length (log_bytes rs1)"
  let ?fn = "fn (as_record e (of_nat (4096 + length (log_bytes (rs1 @ [e]))))) (rec_pos (ws_file_no s) (of_nat ?j))"
  have IH: "replay_loop policy fn (of_nat (4096 + length (log_bytes (rs1 @ [e])))) (of_nat (4096 + length (log_bytes (rs1 @ [e])))) (s, c') =
      bindM (on_snd (replay_calls fn (ws_file_no s) (placed (4096 + length (log_bytes (rs1 @ [e]))) rs2)))
        (\<lambda>_. replay_loop policy fn (of_nat (4096 + length (log_bytes (rs1 @ e # rs2)))) (of_nat (4096 + length (log_bytes (rs1 @ e # rs2))))) (s, c')" for c'
    using Cons.IH [of "rs1 @ [e]" c'] Cons.prems by simp
  have pl: "placed ?j (e # rs2) = (?j, e) # placed (4096 + length (log_bytes (rs1 @ [e]))) rs2"
    by (simp add: add.assoc)
  have j: "?j + length (encode_entry e) = 4096 + length (log_bytes (rs1 @ [e]))"
    by simp
  show ?case
    unfolding replay_step [OF Cons.prems] pl replay_calls_simps j on_snd_bindM bindM_assoc
    by (rule bindM_on_snd_cong) (rule IH)
qed

text \<open>What the callback leaves when a replay is done, and whether the log was cut.\<close>

definition replay_result :: "((status + unit) \<times> 'c) option \<Rightarrow> wal_segment \<Rightarrow> bool \<Rightarrow> ((status + bool) \<times> wal_segment \<times> 'c) option" where
  "replay_result r s' b = map_option (\<lambda>(x, c'). case x of Inl e \<Rightarrow> (Inl e, s', c') | Inr _ \<Rightarrow> (Inr b, s', c')) r"

lemma Replay_complete:
  assumes "wal_holds s rs"
  shows "Replay policy fn (s, c) = replay_result (replay_calls fn (ws_file_no s) (placed 4096 rs) c) s False"
proof -
  have r: "readable s ([] @ rs) None"
    using wal_holds_readable [OF assms] by simp
  have u: "unat (ws_used s) = 4096 + length (log_bytes rs)"
    using r by (simp add: readable_def)
  then have eq: "of_nat (4096 + length (log_bytes rs)) = ws_used s"
    by (metis of_nat_unat ucast_id)
  have loop: "replay_loop policy fn (ws_used s) (ws_used s) (s, c') = Some (Inr False, s, c')" for c'
    by (subst replay_loop.simps) (simp add: ret_def)
  have k: "kWalHeaderSize = of_nat (4096 + length (log_bytes []))"
    by (simp add: kWalHeaderSize_def)
  have "Replay policy fn (s, c) = bindM (on_snd (replay_calls fn (ws_file_no s) (placed 4096 rs))) (\<lambda>_. replay_loop policy fn (ws_used s) (ws_used s)) (s, c)"
    unfolding Replay_def k replay_all [OF r] by (simp add: eq flip: of_nat_add)
  also have "\<dots> = replay_result (replay_calls fn (ws_file_no s) (placed 4096 rs) c) s False"
    by (cases "replay_calls fn (ws_file_no s) (placed 4096 rs) c")
      (auto simp: bindM_def on_snd_def replay_result_def loop split: sum.splits)
  finally show ?thesis .
qed

text \<open>A log whose next record is unreadable is cut behind the readable records, or refused.\<close>

lemma WalTruncate_holds:
  assumes "readable s rs bad"
  shows "\<exists>s'. WalTruncate (of_nat (4096 + length (log_bytes rs))) s = Some s' \<and> wal_holds s' rs \<and> ws_size s' = ws_size s \<and>
    ws_file_no s' = ws_file_no s \<and> ws_path s' = ws_path s \<and> ws_fd s' = ws_fd s \<and> ws_sealed s' = ws_sealed s"
proof -
  obtain d where d: "wal_mapped s d" "header_ok d (ws_used s)" "list_all entry_ok rs" "4096 + length (log_bytes rs) \<le> unat (ws_used s)"
    "peek d 4096 (length (log_bytes rs)) = Some (log_bytes rs)"
    using assms unfolding readable_def wal_mapped_def by auto
  note b = wal_mapped_bounds [OF d(1)]
  let ?u = "of_nat (4096 + length (log_bytes rs)) :: u64"
  have u: "unat ?u = 4096 + length (log_bytes rs)"
    by (rule unat_of_nat64) (use d(4) b in simp)
  have dl: "ws_data s = Some d" "length d = unat (ws_size s)"
    using d(1) by (simp_all add: wal_mapped_def)
  obtain d' where d': "poke d 16 (le64 ?u) = Some d'" "WriteUsed (s\<lparr>ws_used := ?u\<rparr>) = Some (s\<lparr>ws_used := ?u, ws_data := Some d', ws_data_dirty := True\<rparr>)"
    using WriteUsed_run [of "s\<lparr>ws_used := ?u\<rparr>" d] dl b by auto
  have "wal_mapped (s\<lparr>ws_used := ?u, ws_data := Some d', ws_data_dirty := True\<rparr>) d'"
    using d(1,4) b u poke_length [OF d'(1)] by (simp add: wal_mapped_def word_le_nat_alt kWalHeaderSize_def)
  moreover have "peek d' 4096 (length (log_bytes rs)) = Some (log_bytes rs)"
    using d(5) peek_poke_other [OF d'(1), of 4096] by simp
  ultimately have "wal_holds (s\<lparr>ws_used := ?u, ws_data := Some d', ws_data_dirty := True\<rparr>) rs"
    unfolding wal_holds_def using header_ok_used [OF d(2) d'(1)] d(3) u by (intro exI [of _ d']) simp
  then show ?thesis
    using d'(2) unfolding WalTruncate_def by (intro exI [of _ "s\<lparr>ws_used := ?u, ws_data := Some d', ws_data_dirty := True\<rparr>"]) simp
qed

lemma Replay_cut:
  assumes "readable s rs (Some e)"
  shows "\<exists>s'. wal_holds s' rs \<and> ws_size s' = ws_size s \<and> ws_file_no s' = ws_file_no s \<and> ws_path s' = ws_path s \<and>
      ws_fd s' = ws_fd s \<and> ws_sealed s' = ws_sealed s \<and>
    (\<forall>c. Replay kPointInTime fn (s, c) =
       (case replay_calls fn (ws_file_no s) (placed 4096 rs) c of
          Some (Inr _, c') \<Rightarrow> Some (Inr True, s', c') | Some (Inl e, c') \<Rightarrow> Some (Inl e, s, c') | None \<Rightarrow> None)) \<and>
    (\<forall>c. Replay kStrict fn (s, c) =
       (case replay_calls fn (ws_file_no s) (placed 4096 rs) c of
          Some (Inr _, c') \<Rightarrow> Some (Inl e, s, c') | Some (Inl e, c') \<Rightarrow> Some (Inl e, s, c') | None \<Rightarrow> None))"
proof -
  define u :: u64 where "u = of_nat (4096 + length (log_bytes rs))"
  obtain s' where s': "WalTruncate u s = Some s'" "wal_holds s' rs" "ws_size s' = ws_size s" "ws_file_no s' = ws_file_no s"
    "ws_path s' = ws_path s" "ws_fd s' = ws_fd s" "ws_sealed s' = ws_sealed s"
    using WalTruncate_holds [OF assms] unfolding u_def by blast
  obtain d where "wal_mapped s d"
    using assms by (auto simp: readable_def)
  note b = wal_mapped_bounds [OF this]
  have bad: "4096 + length (log_bytes rs) < unat (ws_used s)" "RecordAtOffset s u True = Some (Inl e)"
    using assms by (simp_all add: readable_def u_def)
  have "unat u = 4096 + length (log_bytes rs)"
    unfolding u_def by (rule unat_of_nat64) (use bad(1) b in simp)
  then have lt: "u < ws_used s"
    using bad(1) by (simp add: word_less_nat_alt)
  have loop: "replay_loop policy fn u u (s, c') = (if policy = kStrict then Some (Inl e, s, c') else Some (Inr True, s', c'))" for policy c'
    using lt bad(2) s'(1) by (subst replay_loop.simps) (simp add: err_def cut_def)
  have k: "kWalHeaderSize = of_nat (4096 + length (log_bytes []))"
    by (simp add: kWalHeaderSize_def)
  have r: "readable s ([] @ rs) (Some e)"
    using assms by simp
  have run: "Replay policy fn (s, c) = bindM (on_snd (replay_calls fn (ws_file_no s) (placed 4096 rs))) (\<lambda>_. replay_loop policy fn u u) (s, c)" for policy c
    unfolding Replay_def k replay_all [OF r] by (simp add: u_def)
  show ?thesis
    using s' by (intro exI [of _ s']) (auto simp: run bindM_def on_snd_def loop split: option.splits sum.splits)
qed

text \<open>
  Whatever the mapping holds, a record is read without leaving it, and a replay ends: every record
  that is read moves the offset on.
\<close>

lemma Load32_total: "i + 4 \<le> length d \<Longrightarrow> \<exists>v. Load32 d i = Some v"
  by (simp add: Load32_def peek_def)

text \<open>The last step of a read, and a read whose header is inside the mapping.\<close>

definition read_body :: "bytes \<Rightarrow> u64 \<Rightarrow> u64 \<Rightarrow> u64 \<Rightarrow> u64 \<Rightarrow> byte \<Rightarrow> bool \<Rightarrow> (status + wal_record) option" where
  "read_body d i fin klen vlen opc v = (do { record \<leftarrow> peek d (unat i) (unat (fin - i)); crc \<leftarrow> Load32 d (unat i + kWalRecordCRCOffset);
      if v \<and> WalRecordCRC record \<noteq> crc then Some (Inl (CorruptWal ''WAL CRC mismatch''))
      else do {
        key \<leftarrow> peek d (unat i + kWalRecordHeaderSize) (unat klen);
        val \<leftarrow> peek d (unat i + kWalRecordHeaderSize + unat klen) (unat vlen);
        Some (Inr \<lparr>wr_op = opc, wr_key = key, wr_value = val, wr_end = fin\<rparr>) } })"

lemma RecordAtOffset_parts:
  assumes "\<not> (i < kWalHeaderSize \<or> i + of_nat kWalRecordHeaderSize > ws_used s)" "ws_data s = Some d"
    "peek d (unat i) 1 = Some [opc]" "Load32 d (unat i + 1) = Some klen" "Load32 d (unat i + 5) = Some vlen"
  shows "RecordAtOffset s i v =
      (if opc \<noteq> kWalOpPut \<and> opc \<noteq> kWalOpDelete then Some (Inl (CorruptWal ''invalid WAL op''))
       else if opc = kWalOpDelete \<and> (ucast vlen :: u64) \<noteq> 0 then Some (Inl (CorruptWal ''delete WAL record has a value''))
       else if (ucast klen :: u64) > of_nat kMaxKeySize then Some (Inl (CorruptWal ''WAL key is too large''))
       else if i + of_nat kWalRecordHeaderSize + ucast klen + ucast vlen < i \<or> i + of_nat kWalRecordHeaderSize + ucast klen + ucast vlen > ws_used s
       then Some (Inl (CorruptWal ''WAL record extends past used offset''))
       else read_body d i (i + of_nat kWalRecordHeaderSize + ucast klen + ucast vlen) (ucast klen) (ucast vlen) opc v)"
  unfolding RecordAtOffset_def Let_def read_body_def kWalRecordOpOffset_def kWalRecordKeyOffset_def kWalRecordValueOffset_def
  using assms(1) by (simp only: assms(2-) add_0_right option.map list.sel bind.bind_lunit if_False)

text \<open>What a record was read from.\<close>

lemma RecordAtOffset_Inr:
  assumes "RecordAtOffset s i v = Some (Inr r)"
  obtains d opc klen vlen where "ws_data s = Some d" "\<not> (i < kWalHeaderSize \<or> i + of_nat kWalRecordHeaderSize > ws_used s)"
    "peek d (unat i) 1 = Some [opc]" "Load32 d (unat i + 1) = Some klen" "Load32 d (unat i + 5) = Some vlen"
proof -
  have range: "\<not> (i < kWalHeaderSize \<or> i + of_nat kWalRecordHeaderSize > ws_used s)"
    using assms by (auto simp: RecordAtOffset_def)
  obtain d where d: "ws_data s = Some d"
    using assms range by (cases "ws_data s") (simp_all add: RecordAtOffset_def)
  obtain bs where bs: "peek d (unat i) 1 = Some bs"
    using assms range d by (cases "peek d (unat i) 1") (simp_all add: RecordAtOffset_def kWalRecordOpOffset_def)
  then obtain opc where opc: "peek d (unat i) 1 = Some [opc]"
    by (auto simp: peek_def take_Suc_conv_app_nth split: if_splits)
  obtain klen where klen: "Load32 d (unat i + 1) = Some klen"
    using assms range d opc by (cases "Load32 d (unat i + 1)")
      (auto simp: RecordAtOffset_def kWalRecordOpOffset_def kWalRecordKeyOffset_def Let_def split: if_splits)
  obtain vlen where "Load32 d (unat i + 5) = Some vlen"
    using assms range d opc klen by (cases "Load32 d (unat i + 5)")
      (auto simp: RecordAtOffset_def kWalRecordOpOffset_def kWalRecordKeyOffset_def kWalRecordValueOffset_def Let_def split: if_splits)
  then show ?thesis
    using that range d opc klen by blast
qed

lemma RecordAtOffset_total:
  assumes "wal_mapped s d" "unat i < 2 ^ 63"
  shows "\<exists>r. RecordAtOffset s i v = Some r \<and> (\<forall>rec. r = Inr rec \<longrightarrow> unat i < unat (wr_end rec) \<and> wr_end rec \<le> ws_used s)"
proof (cases "i < kWalHeaderSize \<or> i + of_nat kWalRecordHeaderSize > ws_used s")
  case True
  then show ?thesis
    by (simp add: RecordAtOffset_def)
next
  case False
  note b = wal_mapped_bounds [OF assms(1)]
  have data: "ws_data s = Some d" "length d = unat (ws_size s)"
    using assms by (simp_all add: wal_mapped_def)
  have u13: "unat (i + of_nat kWalRecordHeaderSize) = unat i + 13"
    using assms(2) by (subst unat_add_lem [THEN iffD1]) (simp_all add: kWalRecordHeaderSize_def)
  then have le: "unat i + 13 \<le> length d"
    using False b data by (simp add: word_less_nat_alt not_less)
  obtain opc klen vlen crc where parts: "peek d (unat i) 1 = Some [opc]" "Load32 d (unat i + 1) = Some klen" "Load32 d (unat i + 5) = Some vlen"
    "Load32 d (unat i + 9) = Some crc"
  proof -
    have "peek d (unat i) 1 = Some [d ! unat i]"
      using le by (simp add: peek_def take_Suc_conv_app_nth)
    then show ?thesis
      using that Load32_total [of "unat i + 1" d] Load32_total [of "unat i + 5" d] Load32_total [of "unat i + 9" d] le by auto
  qed
  have k: "unat (ucast klen :: u64) < 2 ^ 32" "unat (ucast vlen :: u64) < 2 ^ 32"
    using u32_less [of klen] u32_less [of vlen] by (simp_all add: unsigned_ucast_eq take_bit_nat_eq_self)
  define fin where "fin = i + of_nat kWalRecordHeaderSize + ucast klen + (ucast vlen :: u64)"
  have fin: "unat fin = unat i + 13 + unat (ucast klen :: u64) + unat (ucast vlen :: u64)"
  proof -
    have 1: "unat (i + of_nat kWalRecordHeaderSize + ucast klen) = unat i + 13 + unat (ucast klen :: u64)"
      using u13 k assms(2) by (subst unat_add_lem [THEN iffD1]) simp_all
    show ?thesis
      unfolding fin_def using 1 k assms(2) by (subst unat_add_lem [THEN iffD1]) simp_all
  qed
  have rd: "\<exists>r. peek d (unat i) (unat (fin - i)) = Some r" "\<exists>r. peek d (unat i + kWalRecordHeaderSize) (unat (ucast klen :: u64)) = Some r"
    "\<exists>r. peek d (unat i + kWalRecordHeaderSize + unat (ucast klen :: u64)) (unat (ucast vlen :: u64)) = Some r" if "\<not> (fin < i \<or> fin > ws_used s)"
  proof -
    have "unat (fin - i) = unat fin - unat i"
      using fin by (intro unat_sub) (simp add: word_le_nat_alt)
    moreover have "unat fin \<le> length d"
      using that b data by (auto simp: not_less word_le_nat_alt)
    ultimately show "\<exists>r. peek d (unat i) (unat (fin - i)) = Some r" "\<exists>r. peek d (unat i + kWalRecordHeaderSize) (unat (ucast klen :: u64)) = Some r"
      "\<exists>r. peek d (unat i + kWalRecordHeaderSize + unat (ucast klen :: u64)) (unat (ucast vlen :: u64)) = Some r"
      using fin by (simp_all add: peek_def kWalRecordHeaderSize_def)
  qed
  define body where "body = read_body d i fin (ucast klen) (ucast vlen) opc v"
  have eq: "RecordAtOffset s i v =
      (if opc \<noteq> kWalOpPut \<and> opc \<noteq> kWalOpDelete then Some (Inl (CorruptWal ''invalid WAL op''))
       else if opc = kWalOpDelete \<and> (ucast vlen :: u64) \<noteq> 0 then Some (Inl (CorruptWal ''delete WAL record has a value''))
       else if (ucast klen :: u64) > of_nat kMaxKeySize then Some (Inl (CorruptWal ''WAL key is too large''))
       else if fin < i \<or> fin > ws_used s then Some (Inl (CorruptWal ''WAL record extends past used offset'')) else body)"
    unfolding body_def fin_def by (rule RecordAtOffset_parts [OF False data(1) parts(1-3)])
  have lt: "unat i < unat fin"
    using fin by simp
  show ?thesis
  proof (cases "fin < i \<or> fin > ws_used s")
    case True
    then show ?thesis
      unfolding eq by simp
  next
    case in_range: False
    have "\<exists>r. body = Some r \<and> (\<forall>rec. r = Inr rec \<longrightarrow> wr_end rec = fin)"
      using rd [OF in_range] parts(4) by (auto simp: body_def read_body_def kWalRecordCRCOffset_def)
    then obtain r where "body = Some r" "\<forall>rec. r = Inr rec \<longrightarrow> wr_end rec = fin"
      by blast
    then show ?thesis
      unfolding eq using in_range lt by (simp add: not_less)
  qed
qed

text \<open>Replay returns on every mapping when the callback does.\<close>

lemma replay_loop_total:
  assumes "\<And>rec p c. fn rec p c \<noteq> None" "wal_mapped s d" "unat i \<le> 2 ^ 30" "24 \<le> length d"
  shows "replay_loop policy fn i g (s, c) \<noteq> None"
  using assms(3)
proof (induction "unat (ws_used s) - unat i" arbitrary: i g c rule: less_induct)
  case less
  note b = wal_mapped_bounds [OF assms(2)]
  have tr: "\<exists>s'. WalTruncate g s = Some s'"
    using WriteUsed_run [of "s\<lparr>ws_used := g\<rparr>" d] assms(2,4) by (auto simp: WalTruncate_def wal_mapped_def)
  show ?case
  proof (cases "i < ws_used s")
    case False
    then show ?thesis
      using tr by (subst replay_loop.simps) (auto simp: cut_def err_def ret_def)
  next
    case True
    obtain r where r: "RecordAtOffset s i True = Some r" "\<And>rec. r = Inr rec \<Longrightarrow> unat i < unat (wr_end rec) \<and> wr_end rec \<le> ws_used s"
      using RecordAtOffset_total [OF assms(2), of i True] less.prems by auto
    show ?thesis
    proof (cases r)
      case (Inl e)
      then show ?thesis
        using True r(1) tr by (subst replay_loop.simps) (auto simp: cut_def err_def)
    next
      case (Inr rec)
      have e: "unat i < unat (wr_end rec)" "unat (wr_end rec) \<le> unat (ws_used s)"
        using r(2) [OF Inr] by (simp_all add: word_le_nat_alt)
      have IH: "replay_loop policy fn (wr_end rec) (wr_end rec) (s, c') \<noteq> None" for c'
        using e True b less.prems by (intro less.hyps) (simp_all add: word_less_nat_alt)
      obtain q c' where q: "fn rec p c = Some (q, c')" if "MakeRecordPosition (ws_file_no s) i = Inr p" for p
        using assms(1) [of rec _ c] by (cases "MakeRecordPosition (ws_file_no s) i"; fastforce)
      show ?thesis
      proof (cases "MakeRecordPosition (ws_file_no s) i")
        case (Inr p)
        then show ?thesis
          using True r(1) \<open>r = Inr rec\<close> q [OF Inr] IH
          by (subst replay_loop.simps) (cases q; simp add: bindM_Inr [where m = "on_snd _"] on_snd_def bindM_def [where m = "\<lambda>(s, c). _ s c"])
      qed (use True r(1) \<open>r = Inr rec\<close> in \<open>subst replay_loop.simps, simp\<close>)
    qed
  qed
qed

end
