(* ===== verification/Growth.thy ===== *)
theory Growth
  imports DeleteCode
begin

text \<open>
  How many pages an operation may add: \<open>grows n m\<close> says that \<open>m\<close> extends the list of pages by at
  most \<open>n\<close>, whatever the state and the result. \<^verbatim>\<open>Put\<close> adds at most one page and \<^verbatim>\<open>Delete\<close> none,
  so \<open>n\<close> calls on a new index stay far below the \<open>2 ^ 63\<close> page ids.
\<close>

named_theorems grows_intros

lemma bindM_SomeE:
  assumes "bindM m f s = Some (r, s')"
  obtains (err) e where "m s = Some (Inl e, s')" "r = Inl e"
    | (val) a s1 where "m s = Some (Inr a, s1)" "f a s1 = Some (r, s')"
proof (cases "m s")
  case (Some y)
  then show ?thesis
    using assms err val by (cases "fst y"; cases y) (auto simp: bindM_Inl bindM_Inr)
qed (use assms in \<open>simp add: bindM_None\<close>)

lemma bindM_InrE:
  assumes "bindM m f s = Some (Inr b, s')"
  obtains a s1 where "m s = Some (Inr a, s1)" "f a s1 = Some (Inr b, s')"
  using assms by (auto elim: bindM_SomeE)

definition page_ids :: "heap_node_store \<Rightarrow> nat" where
  "page_ids s = length (hn_nodes s)"

definition grows :: "nat \<Rightarrow> 'a iop \<Rightarrow> bool" where
  "grows n m \<longleftrightarrow> (\<forall>s r s'. m s = Some (r, s') \<longrightarrow> page_ids s' \<le> page_ids s + n)"

lemma growsD: "grows n m \<Longrightarrow> m s = Some (r, s') \<Longrightarrow> page_ids s' \<le> page_ids s + n"
  by (simp add: grows_def)

lemma growsD_bind: "bindM m f s = Some (r, s') \<Longrightarrow> grows n (bindM m f) \<Longrightarrow> page_ids s' \<le> page_ids s + n"
  by (rule growsD)

lemma grows_weaken: "grows 0 m \<Longrightarrow> grows n m"
  by (fastforce simp: grows_def)

lemma grows_bind_add:
  assumes "grows a m" "\<And>x. grows b (f x)"
  shows "grows (a + b) (bindM m f)"
  unfolding grows_def
proof (intro allI impI)
  fix s r s'
  assume "bindM m f s = Some (r, s')"
  then show "page_ids s' \<le> page_ids s + (a + b)"
    using growsD [OF assms(1)] growsD [OF assms(2)] by (cases rule: bindM_SomeE) fastforce+
qed

lemma grows_bind [grows_intros]: "grows 0 m \<Longrightarrow> (\<And>x. grows n (f x)) \<Longrightarrow> grows n (bindM m f)"
  using grows_bind_add [of 0 m n f] by simp

lemma grows_bind_last: "grows n m \<Longrightarrow> (\<And>x. grows 0 (f x)) \<Longrightarrow> grows n (bindM m f)"
  using grows_bind_add [of n m 0 f] by simp

lemma grows_pure [grows_intros]: "grows n (ret a)" "grows n (err e)" "grows n (res r)" "grows n (chk x)" "grows n (chkres y)"
  by (auto simp: grows_def ret_def err_def res_def chk_def chkres_def)

lemma grows_if [grows_intros]: "(b \<Longrightarrow> grows n m) \<Longrightarrow> (\<not> b \<Longrightarrow> grows n m') \<Longrightarrow> grows n (if b then m else m')"
  by simp

lemma grows_let [grows_intros]: "grows n (f a) \<Longrightarrow> grows n (Let a f)"
  by simp

lemma grows_sum [grows_intros]:
  "(\<And>e. grows n (f e)) \<Longrightarrow> (\<And>a. grows n (g a)) \<Longrightarrow> grows n (case r of Inl e \<Rightarrow> f e | Inr a \<Rightarrow> g a)"
  by (cases r) simp_all

lemma grows_option [grows_intros]:
  "grows n m \<Longrightarrow> (\<And>a. grows n (g a)) \<Longrightarrow> grows n (case r of None \<Rightarrow> m | Some a \<Rightarrow> g a)"
  by (cases r) simp_all

lemma grows_prod [grows_intros]: "(\<And>a b. grows n (f a b)) \<Longrightarrow> grows n (case x of (a, b) \<Rightarrow> f a b)"
  by (cases x) simp

lemma grows_pages [grows_intros]: "grows n (NodeByID i)" "grows n (deref i)" "grows n (store_page i p)" "grows n (FreeNode i)"
  by (auto simp: grows_def NodeByID_def deref_def store_page_def FreeNode_def Free_def page_ids_def split: if_splits)

lemma grows_alloc: "grows 1 AllocNode"
  by (auto simp: grows_def AllocNode_def Alloc_def page_ids_def Let_def put_at_def bind_eq_Some_conv split: if_splits)

lemma grows_alloc_bind: "(\<And>x. grows 0 (f x)) \<Longrightarrow> grows 1 (bindM AllocNode f)"
  using grows_bind_add [OF grows_alloc, of 0 f] by simp

text \<open>A recursive function: the calls below it may be assumed not to grow more.\<close>

lemma grows_raw: "(\<And>s r s'. f s = Some (r, s') \<Longrightarrow> page_ids s' \<le> page_ids s + n) \<Longrightarrow> grows n f"
  by (simp add: grows_def)

section \<open>The operations\<close>

lemma grows_nodes [grows_intros]: "grows n (node_at i)" "grows n (modify i g)" "grows n (MinPos r)" "grows n (MaxPos r)" "grows n (ClearRoutes i)"
  unfolding node_at_def modify_def MinPos_def MaxPos_def ClearRoutes_def by (intro grows_intros)+

lemma grows_diffs [grows_intros]: "grows n (DiffBetweenReps K a b)" "grows n (BuildDiffs K rs)"
proof -
  show *: "grows n (DiffBetweenReps K a b)" for n K a b
    unfolding DiffBetweenReps_def by (intro grows_intros)
  have "grows 0 (BuildDiffs K rs)"
    by (induction K rs rule: BuildDiffs.induct) (auto intro!: grows_bind grows_pure *)
  then show "grows n (BuildDiffs K rs)"
    by (rule grows_weaken)
qed

lemma grows_rebuild [grows_intros]: "grows n (RebuildRoutesWithDiffs i ds)" "grows n (RebuildNode K i)" "grows n (RebuildNodeWithDiffs i ds)"
  unfolding RebuildNode_def RebuildNodeWithDiffs_def RebuildRoutesWithDiffs_def by (intro grows_intros)+

lemma grows_write [grows_intros]: "grows n (set_reps i rs)" "grows n (WriteNodeWithDiffs i rs ds)" "grows n (write_small K i rs)"
  unfolding set_reps_def WriteNodeWithDiffs_def write_small_def by (intro grows_intros)+

subsection \<open>Splitting\<close>

definition best_ok :: "int \<Rightarrow> split_best \<Rightarrow> bool" where
  "best_ok n b \<longleftrightarrow> (sb_start b \<noteq> -1 \<longrightarrow> 2 \<le> sb_count b \<and> sb_count b \<le> n - 2) \<and>
     (sb_pref_start b \<noteq> -1 \<longrightarrow> 2 \<le> sb_pref_count b \<and> sb_pref_count b \<le> n - 2)"

lemma best_ok_step: "best_ok n b \<Longrightarrow> best_ok n (split_step n t m f b)" "best_ok n b \<Longrightarrow> best_ok n (edge_step n i f b)"
  by (auto simp: best_ok_def split_step_def edge_step_def Let_def)

lemma frames_loop_ok:
  assumes "\<And>f b. best_ok n b \<Longrightarrow> best_ok n (step f b)" "frames_loop step L R b stack = Some b'" "best_ok n b"
  shows "best_ok n b'"
proof -
  have "(\<forall>f b. best_ok n b \<longrightarrow> best_ok n (step f b)) \<longrightarrow> best_ok n b \<longrightarrow> best_ok n b'"
  proof (rule frames_loop.raw_induct [OF _ assms(2)], intro impI)
    fix loop step L R b stack b'
    assume IH: "\<And>step L R b stack b'. loop step L R b stack = Some b' \<Longrightarrow> (\<forall>f b. best_ok n b \<longrightarrow> best_ok n (step f b)) \<longrightarrow> best_ok n b \<longrightarrow> best_ok n b'"
      and run: "(case stack of [] \<Rightarrow> Some b | frame # fs \<Rightarrow> let i = rf_node frame in at R i \<bind> (\<lambda>right. at L i \<bind> (\<lambda>left.
        loop step L R (step frame b) (push_frame left (rf_leaf_l frame) (i + 1) (push_frame right (i + 1) (rf_leaf_r frame) fs))))) = Some b'"
      and ok: "\<forall>f b. best_ok n b \<longrightarrow> best_ok n (step f b)" "best_ok n b"
    show "best_ok n b'"
    proof (cases stack)
      case (Cons f fs)
      then obtain st where "loop step L R (step f b) st = Some b'"
        using run by (auto simp: Let_def bind_eq_Some_conv)
      then show ?thesis
        using IH ok by blast
    qed (use run ok in simp)
  qed
  then show ?thesis
    using assms(1,3) by blast
qed

lemma choose_split_count:
  assumes "choose_split ds n = Some g" "4 \<le> n"
  shows "2 \<le> sr_count g \<and> sr_count g \<le> n - 2"
proof -
  obtain ct :: cartesian and b :: split_best where b: "frames_loop (split_step n (n div 2) ((n * 1 + 3 - 1) div 3)) (ct_left ct) (ct_right ct)
        \<lparr>sb_start = -1, sb_count = 0, sb_score = n, sb_pref_start = -1, sb_pref_count = 0\<rparr>
        [\<lparr>rf_node = ct_root ct, rf_leaf_l = 0, rf_leaf_r = n\<rparr>] = Some b"
    "Some (if sb_start b = -1 then \<lparr>sr_start = (n - n div 2) div 2, sr_count = n div 2\<rparr>
      else if sb_pref_start b \<noteq> -1 then \<lparr>sr_start = sb_pref_start b, sr_count = sb_pref_count b\<rparr>
      else \<lparr>sr_start = sb_start b, sr_count = sb_count b\<rparr>) = Some g"
    using assms(1) unfolding choose_split_def bind_eq_Some_conv by blast
  have "best_ok n b"
    by (rule frames_loop_ok [OF best_ok_step(1) b(1)]) (simp_all add: best_ok_def)
  then show ?thesis
    using assms(2) b(2) by (auto simp: best_ok_def split: if_splits)
qed

lemma ChooseEdgeSplitRange_count:
  assumes "ChooseEdgeSplitRange ds n i = Some (Inr g)"
  shows "2 \<le> sr_count g \<and> sr_count g \<le> n - 2"
proof -
  obtain ct :: cartesian and b :: split_best where b: "frames_loop (edge_step n i) (ct_left ct) (ct_right ct)
        \<lparr>sb_start = -1, sb_count = 0, sb_score = 0, sb_pref_start = -1, sb_pref_count = 0\<rparr>
        [\<lparr>rf_node = ct_root ct, rf_leaf_l = 0, rf_leaf_r = n\<rparr>] = Some b"
    "Some (if sb_start b = -1 then Inl kMissingKey else Inr \<lparr>sr_start = sb_start b, sr_count = sb_count b\<rparr>) = Some (Inr g)"
    using assms unfolding ChooseEdgeSplitRange_def bind_eq_Some_conv by blast
  have "best_ok n b"
    by (rule frames_loop_ok [OF best_ok_step(2) b(1)]) (simp_all add: best_ok_def)
  then show ?thesis
    using b(2) by (auto simp: best_ok_def split: if_splits)
qed

text \<open>The range of a split, which is chosen without changing a page.\<close>

definition reads :: "'a iop \<Rightarrow> bool" where
  "reads m \<longleftrightarrow> (\<forall>s r s'. m s = Some (r, s') \<longrightarrow> s' = s)"

definition grows_at :: "heap_node_store \<Rightarrow> nat \<Rightarrow> 'a iop \<Rightarrow> bool" where
  "grows_at s n m \<longleftrightarrow> (\<forall>r s'. m s = Some (r, s') \<longrightarrow> page_ids s' \<le> page_ids s + n)"

lemma grows_at: "grows n m \<Longrightarrow> grows_at s n m"
  by (simp add: grows_def grows_at_def)

lemma grows_at_bind:
  assumes "reads m" "\<And>a. m s = Some (Inr a, s) \<Longrightarrow> grows_at s n (f a)"
  shows "grows_at s n (bindM m f)"
  unfolding grows_at_def
proof (intro allI impI)
  fix r s'
  assume "bindM m f s = Some (r, s')"
  then show "page_ids s' \<le> page_ids s + n"
    using assms unfolding reads_def grows_at_def by (cases rule: bindM_SomeE) (fastforce, metis)
qed

lemma grows_at_last: 
  assumes "grows_at s n m" "\<And>a. grows 0 (f a)"
  shows "grows_at s n (bindM m f)"
  unfolding grows_at_def
proof (intro allI impI)
  fix r s'
  assume "bindM m f s = Some (r, s')"
  then show "page_ids s' \<le> page_ids s + n"
    using assms(1) growsD [OF assms(2)] by (cases rule: bindM_SomeE) (fastforce simp: grows_at_def)+
qed

named_theorems reads_intros

lemma reads_bind [reads_intros]:
  assumes "reads m" "\<And>a. reads (f a)"
  shows "reads (bindM m f)"
  unfolding reads_def
proof (intro allI impI)
  fix s r s'
  assume "bindM m f s = Some (r, s')"
  then show "s' = s"
    using assms unfolding reads_def by (cases rule: bindM_SomeE) blast+
qed

lemma reads_bind_InrE:
  assumes "reads m" "bindM m f s = Some (Inr b, s')"
  obtains a where "f a s = Some (Inr b, s')"
  using assms(2)
proof (rule bindM_InrE)
  fix a s1
  assume "m s = Some (Inr a, s1)" "f a s1 = Some (Inr b, s')"
  then show ?thesis
    using assms(1) that by (metis reads_def)
qed

lemma reads_pure [reads_intros]: "reads (ret a)" "reads (err e)" "reads (res r)" "reads (chk x)" "reads (chkres y)"
  by (auto simp: reads_def ret_def err_def res_def chk_def chkres_def)

lemma reads_if [reads_intros]: "reads m \<Longrightarrow> reads m' \<Longrightarrow> reads (if b then m else m')"
  by simp

lemma reads_sum [reads_intros]:
  "(\<And>e. reads (f e)) \<Longrightarrow> (\<And>a. reads (g a)) \<Longrightarrow> reads (case r of Inl e \<Rightarrow> f e | Inr a \<Rightarrow> g a)"
  by (cases r) simp_all

lemma reads_option [reads_intros]: "reads m \<Longrightarrow> (\<And>a. reads (g a)) \<Longrightarrow> reads (case r of None \<Rightarrow> m | Some a \<Rightarrow> g a)"
  by (cases r) simp_all

lemma reads_pages [reads_intros]: "reads (NodeByID i)" "reads (deref i)"
  by (auto simp: reads_def NodeByID_def deref_def)

lemma reads_nodes [reads_intros]: "reads (node_at i)" "reads (MinPos r)" "reads (MaxPos r)"
  unfolding node_at_def MinPos_def MaxPos_def by (intro reads_intros)+

lemma reads_diffs [reads_intros]: "reads (DiffBetweenReps K a b)" "reads (BuildDiffs K rs)"
proof -
  show *: "reads (DiffBetweenReps K a b)" for K a b
    unfolding DiffBetweenReps_def by (intro reads_intros)
  show "reads (BuildDiffs K rs)"
    by (induction K rs rule: BuildDiffs.induct) (auto intro!: reads_bind reads_pure *)
qed

lemma reads_choose [reads_intros]: "reads (ChooseSplitRange K reps i)"
  unfolding ChooseSplitRange_def by (intro reads_intros)

lemma ChooseSplitRange_count:
  assumes "ChooseSplitRange K reps i s = Some (Inr g, s')" "4 \<le> length reps"
  shows "2 \<le> sr_count g \<and> sr_count g \<le> int (length reps) - 2"
proof -
  have "bindM (BuildDiffs K reps) (\<lambda>ds.
      bindM (if i = 0 \<or> i = int (length reps) - 1 then chk (ChooseEdgeSplitRange ds (int (length reps)) i) else ret (Inl kMissingKey))
        (\<lambda>edge. case edge of Inr r \<Rightarrow> ret r | Inl _ \<Rightarrow> chk (choose_split ds (int (length reps))))) s = Some (Inr g, s')"
    using assms by (simp add: ChooseSplitRange_def)
  then obtain ds where "bindM (if i = 0 \<or> i = int (length reps) - 1 then chk (ChooseEdgeSplitRange ds (int (length reps)) i) else ret (Inl kMissingKey))
        (\<lambda>edge. case edge of Inr r \<Rightarrow> ret r | Inl _ \<Rightarrow> chk (choose_split ds (int (length reps)))) s = (Some (Inr g, s') :: ((mp_status + split_range) \<times> heap_node_store) option)"
    by (rule reads_bind_InrE [OF reads_diffs(2)]) (rule that)
  then obtain edge s2 where
    1: "(if i = 0 \<or> i = int (length reps) - 1 then chk (ChooseEdgeSplitRange ds (int (length reps)) i) else ret (Inl kMissingKey)) s = (Some (Inr edge, s2) :: ((mp_status + (mp_status + split_range)) \<times> heap_node_store) option)"
    and 2: "(case edge of Inr r \<Rightarrow> ret r | Inl _ \<Rightarrow> chk (choose_split ds (int (length reps)))) s2 = (Some (Inr g, s') :: ((mp_status + split_range) \<times> heap_node_store) option)"
    by (rule bindM_InrE) (erule that)
  show ?thesis
  proof (cases edge)
    case (Inl e)
    then have "choose_split ds (int (length reps)) = Some g"
      using 2 by (auto simp: chk_def)
    then show ?thesis
      using choose_split_count assms(2) by simp
  next
    case (Inr r)
    then have "ChooseEdgeSplitRange ds (int (length reps)) i = Some (Inr g)"
      using 1 2 by (auto simp: chk_def ret_def split: if_splits)
    then show ?thesis
      by (rule ChooseEdgeSplitRange_count)
  qed
qed

lemma slice_length: "slice xs i j = Some ys \<Longrightarrow> int (length ys) = j - i \<and> 0 \<le> i \<and> i \<le> j \<and> j \<le> int (length xs)"
  by (auto simp: slice_def split: if_splits)

lemma grows_small: "length reps \<le> 339 \<Longrightarrow> grows n (SplitAndWriteNodeAt K i reps j)"
proof -
  assume "length reps \<le> 339"
  then have "SplitAndWriteNodeAt K i reps j = write_small K i reps"
    by (intro ext) (simp add: SplitAndWriteNodeAt.simps kMaxNodeReps_def)
  then show ?thesis
    by (simp add: grows_intros)
qed

lemma grows_split: "length reps \<le> 340 \<Longrightarrow> grows_at s 1 (SplitAndWriteNodeAt K i reps j)"
proof (cases "length reps \<le> 339")
  case False
  assume "length reps \<le> 340"
  then have len: "length reps = 340" "4 \<le> length reps" "int (length reps) > kMaxNodeReps"
    using False by (simp_all add: kMaxNodeReps_def)
  define rest where "rest g = bindM AllocNode (\<lambda>child.
        bindM (chk (slice reps (sr_start g) (sr_start g + sr_count g))) (\<lambda>child_reps.
        bindM (if int (length child_reps) > kMaxNodeReps
               then SplitAndWriteNodeAt K child child_reps (-1)
               else write_small K child child_reps) (\<lambda>_.
        bindM (deref child) (\<lambda>child_page.
          if np_size child_page = 0 then err kCorruptLayout
          else
            bindM (res (MakeChild child)) (\<lambda>child_rep.
            bindM (chk (slice reps 0 (sr_start g))) (\<lambda>before.
            bindM (chk (slice reps (sr_start g + sr_count g) (int (length reps)))) (\<lambda>after.
              SplitAndWriteNodeAt K i (before @ [child_rep] @ after)
                (RemapInsertSlotAfterSplit j (sr_start g) (sr_start g + sr_count g) (sr_count g)))))))))" for g :: split_range
  have eq: "SplitAndWriteNodeAt K i reps j = bindM (ChooseSplitRange K reps j) rest"
    using len(3) by (intro ext) (subst SplitAndWriteNodeAt.simps, simp add: rest_def [abs_def])
  show ?thesis
    unfolding eq
  proof (rule grows_at_bind [OF reads_choose])
    fix g
    assume "ChooseSplitRange K reps j s = Some (Inr g, s)"
    then have g: "2 \<le> sr_count g" "sr_count g \<le> 338"
      using ChooseSplitRange_count [of K reps j s g s] len by simp_all
    have small: "grows 0 (bindM (chk (slice reps a b)) f)" if "\<And>ys. int (length ys) = b - a \<Longrightarrow> grows 0 (f ys)" for a b and f :: "rep list \<Rightarrow> unit iop"
      using that slice_length [of reps a b]
      by (auto simp: grows_def chk_def elim!: bindM_SomeE)
    have "grows 0 (SplitAndWriteNodeAt K i (before @ [child_rep] @ after) l)"
      if "int (length before) = sr_start g - 0" "int (length after) = int (length reps) - (sr_start g + sr_count g)" for before after child_rep l
      using that g len by (intro grows_small) simp
    then have "grows 1 (rest g)"
      unfolding rest_def
      by (intro grows_alloc_bind small grows_bind grows_if grows_pure grows_pages grows_write) (use g in \<open>simp_all add: kMaxNodeReps_def\<close>)
    then show "grows_at s 1 (rest g)"
      by (rule grows_at)
  qed
qed (simp add: grows_at grows_small)

section \<open>Put\<close>

lemma grows_propagate [grows_intros]: "grows n (propagate_loop fs i c a b)" "grows n (PropagateBoundary fs j x y)"
proof -
  have "grows 0 (propagate_loop fs i c a b)" for fs i c a b
  proof (induction i arbitrary: c a b)
    case (Suc i)
    then show ?case
      unfolding propagate_loop.simps by (intro grows_intros)
  qed (simp add: grows_intros)
  then show *: "grows n (propagate_loop fs i c a b)" for fs i c a b
    by (rule grows_weaken)
  show "grows n (PropagateBoundary fs j x y)"
    unfolding PropagateBoundary_def by (intro grows_intros *)
qed

lemma reads_path [reads_intros]: "reads (slot_from_path fs i k d)" "reads (InsertSlotFromPath fs k c d)" "reads (edge_loop fs l)"
  "reads (PathEdgeInsertSlot fs t l z)"
proof -
  show 1: "reads (slot_from_path fs i k d)" for i
    by (induction fs arbitrary: i) (auto intro!: reads_intros)
  show "reads (InsertSlotFromPath fs k c d)"
    unfolding InsertSlotFromPath_def by (intro reads_intros 1)
  show 2: "reads (edge_loop fs l)" for fs
    by (induction fs) (auto intro!: reads_intros)
  show "reads (PathEdgeInsertSlot fs t l z)"
    unfolding PathEdgeInsertSlot_def by (intro reads_intros 2)
qed

lemma grows_promote [grows_intros]: "grows 1 (PromoteSibling K p l c reps)"
  unfolding PromoteSibling_def
  by (intro grows_bind grows_alloc_bind grows_if grows_pure grows_pages grows_diffs grows_write)

text \<open>The arrays of slots have their size, so that at most 340 slots are written.\<close>

definition reps_sized :: "heap_node_store \<Rightarrow> bool" where
  "reps_sized s \<longleftrightarrow> (\<forall>i p. page_of s i = Some p \<longrightarrow> length (np_reps p) = 339)"

lemma deref_sized: "reps_sized s \<Longrightarrow> deref i s = Some (Inr p, s) \<Longrightarrow> length (np_reps p) = 339"
  by (auto simp: reps_sized_def deref_def)

lemma chk_slice: "chk (slice xs i j) s = Some (Inr ys, s') \<Longrightarrow> int (length ys) = j - i \<and> 0 \<le> i \<and> i \<le> j \<and> j \<le> int (length xs)"
  by (auto simp: chk_def dest: slice_length)

lemma grows_insert_at:
  assumes "reps_sized s"
  shows "grows_at s 1 (InsertAtIncremental K i l r k d)"
  unfolding InsertAtIncremental_def
proof (intro grows_at_bind reads_pages)
  fix node p
  assume "deref node s = Some (Inr p, s)"
  note len = deref_sized [OF assms this]
  have "grows_at s 1 (InsertFullAt K i node l r)"
    unfolding InsertFullAt_def
  proof (intro grows_at_bind reads_pages reads_pure)
    fix p before after
    assume p: "deref node s = Some (Inr p, s)" "chk (slice (np_reps p) 0 l) s = Some (Inr before, s)"
      "chk (slice (np_reps p) l (page_size p)) s = Some (Inr after, s)"
    then have "length (before @ [r] @ after) \<le> 340"
      using chk_slice [OF p(2)] chk_slice [OF p(3)] deref_sized [OF assms p(1)] by simp
    then show "grows_at s 1 (SplitAndWriteNode K i (before @ [r] @ after))"
      unfolding SplitAndWriteNode_def by (rule grows_split)
  qed
  moreover have "grows 1 (bindM (insert_bounds p l r) (\<lambda>bounds.
         bindM (if page_size p = 0 then ret p else chkres (InsertRoute p l k d)) (\<lambda>p1.
         bindM (chk (insert_rep p1 l r bounds)) (\<lambda>p2. store_page node p2))))"
    unfolding insert_bounds_def by (intro grows_intros)
  ultimately show "grows_at s 1 (if l < 0 \<or> l > page_size p then err kCorruptLayout
       else if page_size p \<ge> kMaxNodeReps then InsertFullAt K i node l r
       else bindM (insert_bounds p l r) (\<lambda>bounds.
         bindM (if page_size p = 0 then ret p else chkres (InsertRoute p l k d)) (\<lambda>p1.
         bindM (chk (insert_rep p1 l r bounds)) (\<lambda>p2. store_page node p2))))"
    by (simp add: grows_at grows_pure)
qed

lemma grows_at_if: "(b \<Longrightarrow> grows_at s n m) \<Longrightarrow> (\<not> b \<Longrightarrow> grows_at s n m') \<Longrightarrow> grows_at s n (if b then m else m')"
  by simp

lemmas grows_at_reads = grows_at_bind [OF reads_pages(1)] grows_at_bind [OF reads_pages(2)] grows_at_bind [OF reads_pure(4)] grows_at_if

lemma grows_at_path:
  assumes "reps_sized s"
  shows "grows_at s 1 (InsertAtPath K fs t l r k d)"
proof -
  have split: "grows_at s 1 (bindM (PathEdgeInsertSlot fs t l z) (\<lambda>edge_slot.
      bindM (SplitAndWriteNodeAt K j (before @ [r] @ after) edge_slot) (\<lambda>_. PropagateBoundary fs t x y)))"
    if p: "deref node s = Some (Inr p, s)" "chk (slice (np_reps p) 0 l) s = Some (Inr before, s)"
      "chk (slice (np_reps p) l (page_size p)) s = Some (Inr after, s)" for j before after z node p x y
  proof -
    have "length (before @ [r] @ after) \<le> 340"
      using chk_slice [OF p(2)] chk_slice [OF p(3)] deref_sized [OF assms p(1)] by simp
    then show ?thesis
      by (intro grows_at_bind reads_path grows_at_last grows_split grows_propagate)
  qed
  have promote: "grows_at s 1 (bindM (PromoteSibling K a b c reps) (\<lambda>_. PropagateBoundary fs i x y))" for a b c reps i x y
    by (intro grows_at grows_bind_last grows_promote grows_propagate)
  have insert: "grows_at s 1 (bindM (InsertAtIncremental K i l r k d) (\<lambda>_. PropagateBoundary fs t x y))" for i x y
    by (intro grows_at_last grows_insert_at [OF assms] grows_propagate)
  show ?thesis
    unfolding InsertAtPath_def Let_def by (intro grows_at_reads) (rule insert promote | (rule split, assumption, assumption, assumption))+
qed

lemma grows_replace [grows_intros]: "grows n (replace_record fs i l r)"
  unfolding replace_record_def by (intro grows_intros)

lemma insert_loop_grows:
  assumes "insert_loop K k r fs i s = Some (q, s')" "reps_sized s"
  shows "page_ids s' \<le> page_ids s + 1"
proof -
  have "reps_sized s \<longrightarrow> page_ids (snd (q, s')) \<le> page_ids s + 1"
  proof (rule insert_loop.raw_induct [where P = "\<lambda>K k r fs i s y. reps_sized s \<longrightarrow> page_ids (snd y) \<le> page_ids s + 1", OF _ assms(1)], intro impI)
    fix loop K k r fs i s y
    assume IH: "\<And>K k r fs i s y. loop K k r fs i s = Some y \<Longrightarrow> reps_sized s \<longrightarrow> page_ids (snd y) \<le> page_ids s + 1"
      and run: "(bindM (NodeByID i) (\<lambda>node.
     bindM (deref node) (\<lambda>p.
       if np_size p = 0
       then
         bindM (InsertAtIncremental K i 0 r k 0) (\<lambda>_.
           ret \<lparr>put_old_pos = 0, put_replaced = False\<rparr>)
       else
         bindM (chk (Lookup p k)) (\<lambda>leaf_ok.
           if \<not> snd leaf_ok then err kCorruptLayout
           else
             bindM (chk (at (np_reps p) (fst leaf_ok))) (\<lambda>old.
               if is_child old
               then loop K k r
                      (fs @ [\<lparr>pf_id = i, pf_node = Some node, pf_leaf = fst leaf_ok\<rparr>]) (child_id old)
               else
                 bindM (res (Key K (position old))) (\<lambda>record_key.
                   let cmp = CompareKeys k record_key;
                       frames' = fs @ [\<lparr>pf_id = i, pf_node = Some node, pf_leaf = fst leaf_ok\<rparr>] in
                   if cmp = 0
                   then
                     bindM (replace_record frames' node (fst leaf_ok) r) (\<lambda>_.
                       ret \<lparr>put_old_pos = position old, put_replaced = True\<rparr>)
                   else
                     bindM (chkres (FindDiffBit k record_key)) (\<lambda>diff.
                     bindM (InsertSlotFromPath frames' k cmp diff) (\<lambda>slot.
                     bindM (InsertAtPath K frames' (is_target slot) (is_slot slot) r k diff) (\<lambda>_.
                       ret \<lparr>put_old_pos = 0, put_replaced = False\<rparr>))))))))) s = Some y"
      and sized: "reps_sized s"
    have deeper: "grows_at s 1 (loop K k r fs' j)" for fs' j
      using IH sized by (fastforce simp: grows_at_def)
    have a: "grows_at s 1 (bindM (InsertAtIncremental K i 0 r k 0) (\<lambda>_. ret z))" for z
      by (intro grows_at_last grows_insert_at [OF sized] grows_pure)
    have b: "grows_at s 1 (bindM (replace_record fs' node l r) (\<lambda>_. ret z))" for fs' node l z
      by (intro grows_at grows_intros)
    have c: "grows_at s 1 (bindM (InsertSlotFromPath fs' k cmp diff) (\<lambda>slot. bindM (InsertAtPath K fs' (is_target slot) (is_slot slot) r k diff) (\<lambda>_. ret z)))"
      for fs' cmp diff z
      by (intro grows_at_bind reads_path grows_at_last grows_at_path [OF sized] grows_pure)
    have d: "grows_at s 1 (err e)" for e :: mp_status
      by (intro grows_at grows_pure)
    show "page_ids (snd y) \<le> page_ids s + 1"
      using run unfolding Let_def
      by (cases y, simp only: snd_conv) (erule grows_at_def [THEN iffD1, rule_format, rotated],
        intro grows_at_reads grows_at_bind [OF reads_pure(3)] grows_at_bind [OF reads_pure(5)], (rule deeper a b c d)+)
  qed
  then show ?thesis
    using assms(2) by simp
qed

lemma Put_grows:
  assumes "Put K k p x = Some (q, x')" "reps_sized (ix_nodes x)"
  shows "page_ids (ix_nodes x') \<le> page_ids (ix_nodes x) + 1"
  using assms unfolding Put_def
  by (auto elim!: bindM_SomeE simp: res_def on_nodes_def add_count_def InsertOrReplace_def ret_def dest!: insert_loop_grows split: if_splits)

section \<open>Delete\<close>

lemma grows_delete_at [grows_intros]: "grows n (DeleteAtIncremental i l)" "grows n (RebuildParentAfterChildBoundary i l c x y)"
  unfolding DeleteAtIncremental_def RebuildParentAfterChildBoundary_def by (intro grows_intros)+

lemma grows_merge [grows_intros]: "grows n (MergeChildIntoParent i l cid c)" "grows n (RemoveMergedParentRep i l d)"
  unfolding MergeChildIntoParent_def RemoveMergedParentRep_def by (intro grows_intros)+

lemma grows_siblings [grows_intros]:
  "grows n (MergeLeftSibling i a b c d e f)" "grows n (MergeRightSibling i a b c d e f)" "grows n (neighbour p l)" "grows n (can_merge p z y j)"
  unfolding MergeLeftSibling_def MergeRightSibling_def merge_siblings_def neighbour_def can_merge_def by (intro grows_intros)+

lemma grows_after [grows_intros]: "grows n (after_child_delete i l cid c x y result)"
  unfolding after_child_delete_def MergeChildWithSibling_def by (intro grows_intros)

lemma grows_delete_from [grows_intros]: "grows 0 (DeleteFrom K i k)"
proof (rule grows_raw)
  fix s r s'
  assume "DeleteFrom K i k s = Some (r, s')"
  then have "page_ids (snd (r, s')) \<le> page_ids s"
  proof (rule DeleteFrom.raw_induct [where P = "\<lambda>K i k s y. page_ids (snd y) \<le> page_ids s", rotated])
    fix loop K i k s y
    assume IH: "\<And>K i k s y. loop K i k s = Some y \<Longrightarrow> page_ids (snd y) \<le> page_ids s"
      and run: "bindM (NodeByID i) (\<lambda>node.
     bindM (deref node) (\<lambda>p.
     bindM (chk (Lookup p k)) (\<lambda>leaf_ok.
       if \<not> snd leaf_ok then ret \<lparr>del_pos = 0, del_deleted = False\<rparr>
       else
         bindM (chk (at (np_reps p) (fst leaf_ok))) (\<lambda>r.
           if \<not> is_child r
           then
             bindM (res (Key K (position r))) (\<lambda>record_key.
               if CompareKeys record_key k = 0
               then
                 bindM (DeleteAtIncremental node (fst leaf_ok)) (\<lambda>_.
                   ret \<lparr>del_pos = position r, del_deleted = True\<rparr>)
               else ret \<lparr>del_pos = 0, del_deleted = False\<rparr>)
           else
             bindM (NodeByID (child_id r)) (\<lambda>child.
             bindM (deref child) (\<lambda>c.
               if np_size c = 0 then err kCorruptLayout
               else
                 bindM (loop K (child_id r) k) (\<lambda>result.
                   if \<not> del_deleted result then ret result
                   else
                     after_child_delete node (fst leaf_ok) (child_id r) child
                       (np_first c) (np_last c) result))))))) s = Some y"
    have deeper: "grows 0 (loop K j k)" for j
      using IH by (fastforce simp: grows_def)
    obtain q s' where y: "y = (q, s')"
      by (cases y)
    have "page_ids s' \<le> page_ids s + 0"
      by (rule growsD_bind [OF run [unfolded y]]) (intro grows_intros deeper)
    then show "page_ids (snd y) \<le> page_ids s"
      by (simp add: y)
  qed
  then show "page_ids s' \<le> page_ids s + 0"
    by simp
qed

lemma grows_compress [grows_intros]: "grows 0 (CompressRoot root)"
proof -
  have "grows 0 (compress_loop j)" for j
  proof (rule grows_raw)
    fix s r s'
    assume "compress_loop j s = Some (r, s')"
    then have "page_ids (snd (r, s')) \<le> page_ids s"
    proof (rule compress_loop.raw_induct [where P = "\<lambda>j s y. page_ids (snd y) \<le> page_ids s", rotated])
      fix loop root s y
      assume IH: "\<And>j s y. loop j s = Some y \<Longrightarrow> page_ids (snd y) \<le> page_ids s"
        and run: "bindM (deref root) (\<lambda>p.
     bindM (if page_size p = 1 then bindM (chk (at (np_reps p) 0)) (\<lambda>r. ret (is_child r)) else ret False) (\<lambda>again.
       if again
       then
         bindM (chk (at (np_reps p) 0)) (\<lambda>r.
         bindM (NodeByID (child_id r)) (\<lambda>child.
         bindM (deref child) (\<lambda>c.
         bindM (store_page root c) (\<lambda>_.
         bindM (FreeNode (child_id r)) (\<lambda>_.
           loop root)))))
       else ret ())) s = Some y"
      have deeper: "grows 0 (loop j)" for j
        using IH by (fastforce simp: grows_def)
      obtain q s' where y: "y = (q, s')"
        by (cases y)
      have "page_ids s' \<le> page_ids s + 0"
        by (rule growsD_bind [OF run [unfolded y]]) (intro grows_intros deeper)
      then show "page_ids (snd y) \<le> page_ids s"
        by (simp add: y)
    qed
    then show "page_ids s' \<le> page_ids s + 0"
      by simp
  qed
  then show ?thesis
    unfolding CompressRoot_def by (intro grows_intros)
qed

lemma Delete_grows:
  assumes "Delete K k x = Some (q, x')"
  shows "page_ids (ix_nodes x') \<le> page_ids (ix_nodes x)"
proof -
  have on: "page_ids (ix_nodes y') \<le> page_ids (ix_nodes y)" if "on_nodes f y = Some (r, y')" "\<And>root. grows 0 (f root)" for f :: "u64 \<Rightarrow> 'b iop" and r y y'
    using that growsD [OF that(2)] by (fastforce simp: on_nodes_def)
  show ?thesis
    using assms unfolding Delete_def
    by (elim bindM_SomeE) (auto elim!: bindM_SomeE simp: res_def add_count_def ret_def dest!: on [OF _ grows_delete_from] on [OF _ grows_compress] split: if_splits)
qed

end
