(* ===== verification/SegFacts.thy ===== *)
theory SegFacts
  imports StoreCode WalFacts Growth RecordStore
begin

text \<open>
  The log of a store as its records: \<open>seg_recs ss\<close> is the partial map from positions to keys and
  values that \<^verbatim>\<open>SegmentedRecordStore\<close> answers, an instance of the interface
  \<open>records_read\<close> of the index. \<open>seg_holds ss L\<close> says that every segment \<open>i\<close> holds the entries \<open>L i\<close>;
  appending adds one entry to the active segment, and every record that was there stays.
\<close>

section \<open>The records\<close>

definition seg_recs :: "seg_store \<Rightarrow> pos \<rightharpoonup> key \<times> bytes" where
  "seg_recs ss p =
     (case (SegKey ss p, ValueView ss p) of (Inr k, Some (Inr v)) \<Rightarrow> Some (k, v) | _ \<Rightarrow> None)"

lemma seg_recs_log:
  assumes "\<not> IsSnapshotPosition p" "Segment ss (RecordPositionFileNo p) = Some s"
  shows "seg_recs ss p = (case RecordAt s p False of
    Some (Inr rec) \<Rightarrow> if wr_op rec = kWalOpPut then Some (wr_key rec, wr_value rec) else None | _ \<Rightarrow> None)"
  using assms by (auto simp: seg_recs_def SegKey_def SegKey_at_def ValueView_def split: option.splits sum.splits)

lemma seg_recs_none: "\<not> IsSnapshotPosition p \<Longrightarrow> Segment ss (RecordPositionFileNo p) = None \<Longrightarrow> seg_recs ss p = None"
  by (simp add: seg_recs_def SegKey_def SegKey_at_def)

lemma seg_recs_snapshot:
  "IsSnapshotPosition p \<Longrightarrow> seg_recs ss p = map_option (\<lambda>r. (or_key r, or_value r)) (SnapshotRecord ss p)"
  by (auto simp: seg_recs_def SegKey_def SegKey_at_def ValueView_def split: option.splits)

lemma SegKey_recs: "SegKey ss p = (case seg_recs ss p of None \<Rightarrow> Inl kMissingKey | Some (k, v) \<Rightarrow> Inr k)"
proof (cases "IsSnapshotPosition p")
  case True
  then show ?thesis
    by (auto simp: seg_recs_snapshot SegKey_def SegKey_at_def split: option.splits)
next
  case False
  show ?thesis
  proof (cases "Segment ss (RecordPositionFileNo p)")
    case None
    then show ?thesis
      using False by (simp add: seg_recs_none SegKey_def SegKey_at_def)
  next
    case (Some s)
    then show ?thesis
      using False seg_recs_log [OF False Some] by (auto simp: SegKey_def SegKey_at_def split: option.splits sum.splits)
  qed
qed

text \<open>A record depends on its segment, or on the snapshot.\<close>

lemma seg_recs_cong:
  assumes "ss_snapshot ss' = ss_snapshot ss" "\<not> IsSnapshotPosition p \<Longrightarrow> Segment ss' (RecordPositionFileNo p) = Segment ss (RecordPositionFileNo p)"
  shows "seg_recs ss p = seg_recs ss' p"
proof (cases "IsSnapshotPosition p")
  case True
  then show ?thesis
    using assms(1) by (simp add: seg_recs_snapshot SnapshotRecord_def)
next
  case False
  then show ?thesis
    using assms(2) by (cases "Segment ss (RecordPositionFileNo p)") (simp_all add: seg_recs_none seg_recs_log)
qed

interpretation sg: records_read seg_recs SegKey
  by unfold_locales (rule SegKey_recs)

lemma ValueView_recs: "seg_recs ss p = Some (k, v) \<Longrightarrow> ValueView ss p = Some (Inr v)"
  by (auto simp: seg_recs_def split: option.splits sum.splits)

section \<open>Records that stay\<close>

text \<open>The bytes of the records of a segment, in one that has more records.\<close>

lemma wal_holds_peek:
  assumes "wal_holds s rs"
  obtains d where "wal_mapped s d" "ws_data s = Some d" "unat (ws_used s) = 4096 + length (log_bytes rs)" "4096 + length (log_bytes rs) \<le> length d"
    "\<And>i n. 4096 \<le> i \<Longrightarrow> i + n \<le> unat (ws_used s) \<Longrightarrow> peek d i n = Some (take n (drop (i - 4096) (log_bytes rs)))"
proof -
  obtain d where d: "wal_mapped s d" "unat (ws_used s) = 4096 + length (log_bytes rs)"
    "peek d 4096 (length (log_bytes rs)) = Some (log_bytes rs)"
    using assms unfolding wal_holds_def by blast
  have bytes: "take (length (log_bytes rs)) (drop 4096 d) = log_bytes rs" "4096 + length (log_bytes rs) \<le> length d"
    using d(3) by (auto simp: peek_def split: if_splits)
  have "peek d i n = Some (take n (drop (i - 4096) (log_bytes rs)))" if "4096 \<le> i" "i + n \<le> unat (ws_used s)" for i n
  proof -
    have "take n (drop (i - 4096) (log_bytes rs)) = take n (drop (i - 4096) (take (length (log_bytes rs)) (drop 4096 d)))"
      by (simp only: bytes(1))
    also have "\<dots> = take n (take (length (log_bytes rs) - (i - 4096)) (drop (i - 4096 + 4096) d))"
      by (simp only: drop_take drop_drop)
    also have "\<dots> = take n (drop i d)"
      using that d(2) by (simp add: min_def)
    finally show ?thesis
      using that d(2) bytes(2) by (simp add: peek_def)
  qed
  moreover have "ws_data s = Some d"
    using d(1) by (simp add: wal_mapped_def)
  ultimately show ?thesis
    using that d(1,2) bytes(2) by blast
qed

lemma wal_grown_peek:
  assumes "wal_holds s rs" "wal_holds s' (rs @ rs')" "ws_data s = Some d" "ws_data s' = Some d'"
    "4096 \<le> i" "i + n \<le> unat (ws_used s)"
  shows "peek d' i n = peek d i n"
proof -
  obtain e where e: "ws_data s = Some e" "unat (ws_used s) = 4096 + length (log_bytes rs)"
    "peek e i n = Some (take n (drop (i - 4096) (log_bytes rs)))"
    using wal_holds_peek [OF assms(1)] assms(5,6) by metis
  obtain e' where e': "ws_data s' = Some e'" "unat (ws_used s') = 4096 + length (log_bytes (rs @ rs'))"
    "\<And>i n. 4096 \<le> i \<Longrightarrow> i + n \<le> unat (ws_used s') \<Longrightarrow> peek e' i n = Some (take n (drop (i - 4096) (log_bytes (rs @ rs'))))"
    using wal_holds_peek [OF assms(2)] by metis
  have "peek e' i n = Some (take n (drop (i - 4096) (log_bytes rs)))"
    using e'(2) e(2) assms(5,6) by (subst e'(3)) simp_all
  then show ?thesis
    using e(1,3) e'(1) assms(3,4) by simp
qed

lemma RecordAtOffset_grown:
  assumes "wal_holds s rs" "wal_holds s' (rs @ rs')" "RecordAtOffset s q False = Some (Inr r)"
  shows "RecordAtOffset s' q False = Some (Inr r)"
proof -
  obtain d where d: "wal_mapped s d" "ws_data s = Some d" "unat (ws_used s) = 4096 + length (log_bytes rs)" "4096 + length (log_bytes rs) \<le> length d"
    using wal_holds_peek [OF assms(1)] by metis
  obtain d' where d': "ws_data s' = Some d'" "unat (ws_used s') = 4096 + length (log_bytes (rs @ rs'))"
    using wal_holds_peek [OF assms(2)] by metis
  note same = wal_grown_peek [OF assms(1,2) d(2) d'(1)]
  note b = wal_mapped_bounds [OF d(1)]
  let ?i = "unat q"
  obtain opc klen vlen where parts: "\<not> (q < kWalHeaderSize \<or> q + of_nat kWalRecordHeaderSize > ws_used s)"
    "peek d ?i 1 = Some [opc]" "Load32 d (?i + 1) = Some klen" "Load32 d (?i + 5) = Some vlen"
    by (rule RecordAtOffset_Inr [OF assms(3)]) (rule that; use d(2) in simp)
  have i9: "?i + 9 \<le> length d" "length d \<le> 2 ^ 30"
    using parts(4) b d(1) by (auto simp: Load32_def peek_def wal_mapped_def split: if_splits)
  then have u13: "unat (q + of_nat kWalRecordHeaderSize) = ?i + 13"
    by (subst unat_add_lem [THEN iffD1]) (simp_all add: kWalRecordHeaderSize_def)
  have lo: "4096 \<le> ?i" "?i + 13 \<le> unat (ws_used s)"
    using parts(1) u13 by (simp_all add: not_less word_le_nat_alt kWalHeaderSize_def)
  define fin where "fin = q + of_nat kWalRecordHeaderSize + ucast klen + (ucast vlen :: u64)"
  note eq = RecordAtOffset_parts [OF parts(1) d(2) parts(2-4), folded fin_def]
  have k: "unat (ucast klen :: u64) < 2 ^ 32" "unat (ucast vlen :: u64) < 2 ^ 32"
    using u32_less [of klen] u32_less [of vlen] by (simp_all add: unsigned_ucast_eq take_bit_nat_eq_self)
  have ub: "unat (ws_used s) \<le> 2 ^ 30"
    using b by simp
  have 1: "unat (q + of_nat kWalRecordHeaderSize + ucast klen) = ?i + 13 + unat (ucast klen :: u64)"
    using u13 k lo ub by (subst unat_add_lem [THEN iffD1]) simp_all
  have fin: "unat fin = ?i + 13 + unat (ucast klen :: u64) + unat (ucast vlen :: u64)"
    unfolding fin_def using 1 k lo ub by (subst unat_add_lem [THEN iffD1]) simp_all
  have in_range: "\<not> (fin < q \<or> fin > ws_used s)"
    using assms(3) unfolding eq by (auto split: if_splits)
  then have end_le: "unat fin \<le> unat (ws_used s)" "unat (fin - q) = 13 + unat (ucast klen :: u64) + unat (ucast vlen :: u64)"
    using fin by (simp_all add: not_less word_le_nat_alt unat_sub)
  have body: "read_body d' q fin (ucast klen) (ucast vlen) opc False = read_body d q fin (ucast klen) (ucast vlen) opc False"
    using fin end_le lo by (simp add: read_body_def Load32_def same kWalRecordCRCOffset_def kWalRecordHeaderSize_def)
  have "unat (ws_used s) \<le> unat (ws_used s')"
    using d(3) d'(2) by simp
  then have range': "\<not> (q < kWalHeaderSize \<or> q + of_nat kWalRecordHeaderSize > ws_used s')" "\<not> (fin < q \<or> fin > ws_used s')"
    using parts(1) in_range by (auto simp: not_less word_le_nat_alt)
  have p: "peek d' ?i 1 = Some [opc]" "Load32 d' (?i + 1) = Some klen" "Load32 d' (?i + 5) = Some vlen"
    using parts(2-4) lo by (simp_all add: Load32_def same)
  note eq' = RecordAtOffset_parts [OF range'(1) d'(1) p, of False, folded fin_def]
  have "RecordAtOffset s' q False = RecordAtOffset s q False"
    unfolding eq eq' body by (simp only: range'(2) in_range if_False)
  then show ?thesis
    using assms(3) by simp
qed

section \<open>The segments\<close>

lemma key_of_map: "map (fst \<circ> (\<lambda>(j, t). (j, g j t))) xs = map fst xs"
  by (induction xs) auto

lemma map_of_change: "map_of (map (\<lambda>(j, t). (j, if j = i then f t else t)) xs) j = (if j = i then map_option f (map_of xs j) else map_of xs j)"
  by (induction xs) auto

lemma Segment_change: "Segment (change_segment i f ss) j = (if j = i then map_option f (Segment ss j) else Segment ss j)"
  by (simp add: Segment_def change_segment_def map_of_change)

lemma change_segment_simps [simp]:
  "ss_active (change_segment i f ss) = ss_active ss" "ss_next (change_segment i f ss) = ss_next ss"
  "ss_snapshot (change_segment i f ss) = ss_snapshot ss" "ss_dir (change_segment i f ss) = ss_dir ss"
  "ss_generation (change_segment i f ss) = ss_generation ss" "ss_wal_size (change_segment i f ss) = ss_wal_size ss"
  "map fst (ss_segments (change_segment i f ss)) = map fst (ss_segments ss)"
  "length (ss_segments (change_segment i f ss)) = length (ss_segments ss)"
  by (simp_all add: change_segment_def key_of_map del: comp_apply map_eq_conv)

text \<open>Segments of one store: the numbers are those of the segments, and each holds its entries.\<close>

definition seg_holds :: "seg_store \<Rightarrow> (u64 \<Rightarrow> entry list) \<Rightarrow> bool" where
  "seg_holds ss L \<longleftrightarrow> distinct (map fst (ss_segments ss)) \<and>
     (\<forall>i s. Segment ss i = Some s \<longrightarrow> ws_file_no s = i \<and> wal_holds s (L i))"

lemma seg_holdsD: "seg_holds ss L \<Longrightarrow> Segment ss i = Some s \<Longrightarrow> ws_file_no s = i \<and> wal_holds s (L i)"
  by (simp add: seg_holds_def)

lemma wal_holds_file_no: "wal_holds s rs \<Longrightarrow> file_no_ok (ws_file_no s)"
  by (auto simp: wal_holds_def wal_mapped_def)

lemma not_snapshot: "file_no_ok (RecordPositionFileNo p) \<Longrightarrow> \<not> IsSnapshotPosition p"
proof
  assume p: "file_no_ok (RecordPositionFileNo p)" "IsSnapshotPosition p"
  then have "unat p < 2 ^ 30"
    by (simp add: IsSnapshotPosition_def word_less_nat_alt unat_offset_limit)
  then have "unat (RecordPositionFileNo p) = 0"
    unfolding RecordPositionFileNo_def kRecordOffsetBits_def unat_drop_bit_eq by (simp add: drop_bit_eq_div)
  then show False
    using p(1) by (simp add: file_no_ok_def word_unat_eq_iff)
qed

text \<open>Replacing a segment by one with more records keeps all records.\<close>

lemma seg_recs_grown:
  assumes "Segment ss i = Some s" "ws_file_no s = i" "ws_file_no s' = i" "wal_holds s rs" "wal_holds s' (rs @ rs')"
    "\<And>j. Segment ss' j = (if j = i then Some s' else Segment ss j)" "ss_snapshot ss' = ss_snapshot ss"
  shows "seg_recs ss \<subseteq>\<^sub>m seg_recs ss'"
  unfolding map_le_def
proof (intro ballI)
  fix p
  assume "p \<in> dom (seg_recs ss)"
  then obtain k v where kv: "seg_recs ss p = Some (k, v)"
    by auto
  show "seg_recs ss p = seg_recs ss' p"
  proof (cases "IsSnapshotPosition p \<or> RecordPositionFileNo p \<noteq> i")
    case True
    then show ?thesis
      by (intro seg_recs_cong) (use assms(6,7) in auto)
  next
    case False
    then have p: "\<not> IsSnapshotPosition p" "RecordPositionFileNo p = i"
      by simp_all
    have "(case RecordAt s p False of Some (Inr rec) \<Rightarrow> if wr_op rec = kWalOpPut then Some (wr_key rec, wr_value rec) else None | _ \<Rightarrow> None) = Some (k, v)"
      using kv seg_recs_log [OF p(1), of ss s] assms(1) p(2) by simp
    then obtain rec where rec: "RecordAt s p False = Some (Inr rec)"
      by (auto split: option.splits sum.splits)
    then have "RecordAt s' p False = Some (Inr rec)"
      using RecordAtOffset_grown [OF assms(4,5)] assms(2,3) p(2) by (simp add: RecordAt_def)
    then show ?thesis
      using rec seg_recs_log [OF p(1), of ss s] seg_recs_log [OF p(1), of ss' s'] assms(1,6) p(2) by simp
  qed
qed

lemma readable_file_no: "readable s rs bad \<Longrightarrow> file_no_ok (ws_file_no s)"
  by (auto simp: readable_def wal_mapped_def)

lemma readable_placed:
  assumes "readable s rs bad" "(j, e) \<in> set (placed 4096 rs)"
  shows "j < 2 ^ 30" "entry_ok e" "RecordAtOffset s (of_nat j) v = Some (Inr (as_record e (of_nat (j + length (encode_entry e)))))"
proof -
  obtain rs1 rs2 where rs: "rs = rs1 @ e # rs2" "j = 4096 + length (log_bytes rs1)"
    using placed_split [OF assms(2)] by blast
  note r = readable_read [OF assms(1) [unfolded rs(1)]]
  show "j < 2 ^ 30"
    using r(2,3) rs(2) by (simp add: encode_entry_length)
  show "entry_ok e"
    using assms(1) by (simp add: rs(1) readable_def)
  show "RecordAtOffset s (of_nat j) v = Some (Inr (as_record e (of_nat (j + length (encode_entry e)))))"
    using r(1) by (simp add: rs(2))
qed

text \<open>The records of a readable part of a segment.\<close>

lemma log_pos:
  assumes "readable s rs bad" "(j, e) \<in> set (placed 4096 rs)" "ws_file_no s = i"
  shows "RecordPositionFileNo (rec_pos i (of_nat j)) = i" "RecordPositionOffset (rec_pos i (of_nat j)) = of_nat j"
    "untagged (rec_pos i (of_nat j))" "\<not> IsSnapshotPosition (rec_pos i (of_nat j))"
proof -
  have i: "file_no_ok i"
    using readable_file_no [OF assms(1)] assms(3) by simp
  have "(of_nat j :: u64) < kRecordOffsetLimit"
    using readable_placed(1) [OF assms(1,2)] by (simp add: word_less_nat_alt unat_offset_limit unat_of_nat64)
  then show p: "RecordPositionFileNo (rec_pos i (of_nat j)) = i" "RecordPositionOffset (rec_pos i (of_nat j)) = of_nat j"
    "untagged (rec_pos i (of_nat j))"
    using i by (simp_all add: RecordPosition_rec_pos file_no_ok_def untagged_def)
  show "\<not> IsSnapshotPosition (rec_pos i (of_nat j))"
    using p(1) i by (intro not_snapshot) simp
qed

lemma seg_recs_placed:
  assumes "Segment ss i = Some s" "ws_file_no s = i" "readable s rs bad" "(j, e) \<in> set (placed 4096 rs)"
  shows "seg_recs ss (rec_pos i (of_nat j)) = (if fst e = kWalOpPut then Some (snd e) else None)"
proof -
  note p = log_pos [OF assms(3,4,2)]
  from seg_recs_log [OF p(4), of ss s] show ?thesis
    using p(1,2) assms(1,2) readable_placed(3) [OF assms(3,4), of False] by (simp add: as_record_def RecordAt_def)
qed

text \<open>An append to the active segment that finds room there.\<close>

lemma append_record_holds:
  assumes "seg_holds ss L" "Active ss = Some s" "\<not> ws_sealed s" "entry_ok (opc, key, val)" "fits s (opc, key, val)"
  shows "\<exists>p ss' s'. append_record opc key val (ss, w) = Some (Inr p, ss', w) \<and>
    seg_holds ss' (L(ss_active ss := L (ss_active ss) @ [(opc, key, val)])) \<and> untagged p \<and> seg_recs ss \<subseteq>\<^sub>m seg_recs ss' \<and>
    (opc = kWalOpPut \<longrightarrow> seg_recs ss' p = Some (key, val)) \<and> ss' = change_segment (ss_active ss) (\<lambda>_. s') ss \<and>
    ws_sealed s' = ws_sealed s \<and> ws_size s' = ws_size s \<and>
    unat (ws_used s') = unat (ws_used s) + length (encode_entry (opc, key, val))"
proof -
  let ?i = "ss_active ss" and ?e = "(opc, key, val)"
  have s: "Segment ss ?i = Some s" "ws_file_no s = ?i" "wal_holds s (L ?i)"
    using seg_holdsD [OF assms(1)] assms(2) by (auto simp: Active_def)
  obtain s' where s': "WalAppend opc key val s = Some (Inr (rec_pos ?i (ws_used s)), s')" "wal_holds s' (L ?i @ [?e])"
    "ws_size s' = ws_size s" "ws_file_no s' = ?i" "ws_sealed s' = ws_sealed s"
    "unat (ws_used s') = unat (ws_used s) + length (encode_entry ?e)"
    using WalAppend_holds [OF s(3) assms(4,3,5)] s(2) by auto
  let ?ss = "change_segment ?i (\<lambda>_. s') ss" and ?p = "rec_pos ?i (ws_used s)"
  have seg: "Segment ?ss j = (if j = ?i then Some s' else Segment ss j)" for j
    using s(1) by (simp add: Segment_change)
  have "append_active opc key val (ss, w) = Some (Inr ?p, ?ss, w)"
    using s(1) s'(1) by (simp add: append_active_def on_segment_def on_fst_def)
  then have run: "append_record opc key val (ss, w) = Some (Inr ?p, ?ss, w)"
    by (simp add: append_record_def bindM_def attempt_def ret_def)
  have le: "seg_recs ss \<subseteq>\<^sub>m seg_recs ?ss"
    by (rule seg_recs_grown [OF s(1,2) s'(4) s(3) s'(2) seg]) simp
  have holds: "seg_holds ?ss (L(?i := L ?i @ [?e]))"
    using assms(1) s'(2,4) seg by (simp add: seg_holds_def)
  have used: "unat (ws_used s) = 4096 + length (log_bytes (L ?i))"
    using s(3) by (auto simp: wal_holds_def)
  have u: "of_nat (4096 + length (log_bytes (L ?i))) = ws_used s"
    using used by (metis of_nat_unat ucast_id)
  have mem: "(4096 + length (log_bytes (L ?i)), ?e) \<in> set (placed 4096 (L ?i @ [?e]))"
    by (simp add: placed_append)
  have tag: "untagged ?p"
    using log_pos(3) [OF wal_holds_readable [OF s'(2)] mem s'(4)] u by simp
  have new: "opc = kWalOpPut \<longrightarrow> seg_recs ?ss ?p = Some (key, val)"
    using seg_recs_placed [OF _ s'(4) wal_holds_readable [OF s'(2)] mem, of ?ss] seg u by auto
  show ?thesis
    using run holds tag le new s'(3,5,6) by blast
qed

end
