(* ===== verification/StoreFacts.thy ===== *)
theory StoreFacts
  imports SegFacts
begin

text \<open>
  The store as a map: \<open>store_holds m0 im m\<close> says that an open store with the log, the snapshot and the
  index of \<open>im\<close> holds the map \<open>m\<close> from keys to values. \<^verbatim>\<open>Put\<close>, \<^verbatim>\<open>Get\<close> and
  \<^verbatim>\<open>Delete\<close> are the operations of that map while the active segment has room
  (\<open>store_room\<close>), so that neither a new segment nor a checkpoint is needed.
\<close>

text \<open>What one log entry means for the map, and the entries of the segments in the order of their numbers.\<close>

definition apply_entry :: "entry \<Rightarrow> (key \<rightharpoonup> bytes) \<Rightarrow> (key \<rightharpoonup> bytes)" where
  "apply_entry = (\<lambda>(opc, key, val) m. if opc = kWalOpPut then m(key \<mapsto> val) else m(key := None))"

definition log_entries :: "(u64 \<Rightarrow> entry list) \<Rightarrow> u64 list \<Rightarrow> entry list" where
  "log_entries B nos = concat (map B nos)"

lemma log_entries_simps [simp]: "log_entries B [] = []" "log_entries B (i # nos) = B i @ log_entries B nos"
  "log_entries B (nos @ nos') = log_entries B nos @ log_entries B nos'"
  by (simp_all add: log_entries_def)

lemma log_entries_cong: "(\<And>i. i \<in> set nos \<Longrightarrow> B i = B' i) \<Longrightarrow> log_entries B nos = log_entries B' nos"
  by (induction nos) auto

text \<open>An entry at the end of the last segment is the last entry.\<close>

lemma log_entries_add:
  assumes "distinct nos" "a \<in> set nos" "\<And>i. i \<in> set nos \<Longrightarrow> i \<le> a"
  shows "log_entries (L(a := L a @ [e])) (sort nos) = log_entries L (sort nos) @ [e]"
proof -
  obtain pre post where split: "sort nos = pre @ a # post"
    using assms(2) split_list [of a "sort nos"] by auto
  have dist: "distinct (sort nos)" "sorted (sort nos)" "set (sort nos) = set nos"
    using assms(1) by simp_all
  have "a \<notin> set pre" "a \<notin> set post" "\<And>i. i \<in> set post \<Longrightarrow> a \<le> i \<and> i \<le> a"
    using dist assms(3) by (auto simp: split sorted_append)
  then have post: "post = []"
    by (metis antisym list.set_intros(1) neq_Nil_conv)
  then show ?thesis
    using log_entries_cong [of pre "L(a := L a @ [e])" L] \<open>a \<notin> set pre\<close> unfolding split post by fastforce
qed

lemma index_holds_sized: "index_holds K x es \<Longrightarrow> reps_sized (ix_nodes x)"
proof -
  assume "index_holds K x es"
  then obtain kf T where "index_inv K kf x T"
    unfolding index_holds_def by blast
  then have rep: "tree_rep (page_of (ix_nodes x)) 0 T"
    by (simp add: index_inv_def)
  have "length (np_reps p) = 339" if p: "page_of (ix_nodes x) i = Some p" for i p
  proof (cases T)
    case None
    then show ?thesis
      using rep p by (auto simp: tree_rep_def len_ok_def split: if_splits)
  next
    case (Some t)
    then have h: "holds (page_of (ix_nodes x)) 0 t" "i \<in> ids 0 t"
      using rep p by (auto simp: tree_rep_def)
    then obtain u where "(i, u) \<in> set ((0, t) # pages t)"
      by (auto simp: ids_def pids_def) blast
    then have "page_ok p u"
      using h(1) p by (fastforce simp: holds_def)
    then show ?thesis
      using page_ok_len by (auto simp: len_ok_def)
  qed
  then show ?thesis
    by (simp add: reps_sized_def)
qed

lemma has_room_pages: "page_ids s < 2 ^ 63 \<Longrightarrow> has_room s"
  by (simp add: has_room_def page_ids_def)

text \<open>
  The parts of an open store: the log holds the entries \<open>L\<close>, the index the entries \<open>es\<close>, the segment
  with the greatest number takes the new records, and the log builds the contents from those of
  the snapshot, \<open>m0\<close>.
\<close>

abbreviation segment_nos :: "seg_store \<Rightarrow> u64 list" where
  "segment_nos ss \<equiv> map fst (ss_segments ss)"

definition store_parts :: "(key \<rightharpoonup> bytes) \<Rightarrow> impl \<Rightarrow> seg_store \<Rightarrow> index \<Rightarrow> (u64 \<Rightarrow> entry list) \<Rightarrow> (key \<times> pos) list \<Rightarrow> wal_segment \<Rightarrow> bool" where
  "store_parts m0 im ss x L es s \<longleftrightarrow>
     im_open im \<and> im_fatal im = Inr () \<and> im_records im = Some ss \<and> im_index im = Some x \<and>
     seg_holds ss L \<and> index_holds (SegKey ss) x es \<and> Active ss = Some s \<and> \<not> ws_sealed s \<and>
     (\<forall>i \<in> set (segment_nos ss). i \<le> ss_active ss) \<and>
     sg.contents ss es = fold apply_entry (log_entries L (sort (segment_nos ss))) m0"

definition store_holds :: "(key \<rightharpoonup> bytes) \<Rightarrow> impl \<Rightarrow> (key \<rightharpoonup> bytes) \<Rightarrow> bool" where
  "store_holds m0 im m \<longleftrightarrow> (\<exists>ss x L es s. store_parts m0 im ss x L es s \<and> m = sg.contents ss es)"

text \<open>Room for \<open>n\<close> more bytes in the active segment and for \<open>k\<close> more pages.\<close>

definition store_room :: "impl \<Rightarrow> nat \<Rightarrow> nat \<Rightarrow> bool" where
  "store_room im n k \<longleftrightarrow>
     (case (im_records im, im_index im) of
        (Some ss, Some x) \<Rightarrow> page_ids (ix_nodes x) + k \<le> 2 ^ 63 \<and> SegmentCount ss \<le> kCheckpointWalSegmentThreshold \<and>
          (case Active ss of None \<Rightarrow> False | Some s \<Rightarrow> unat (ws_used s) + n \<le> unat (ws_size s))
      | _ \<Rightarrow> False)"

abbreviation record_size :: "key \<Rightarrow> bytes \<Rightarrow> nat" where
  "record_size key val \<equiv> 13 + length key + length val"

lemma store_parts_open: "store_parts m0 im ss x L es s \<Longrightarrow> checked m (im, w) = m (im, w)"
  by (simp add: store_parts_def checked_def CheckOpen_def)

lemma store_room_fits:
  assumes "store_room im (record_size key val + n) k" "store_parts m0 im ss x L es s"
  shows "fits s (opc, key, val)" "SegmentCount ss \<le> kCheckpointWalSegmentThreshold" "0 < k \<Longrightarrow> has_room (ix_nodes x)"
  using assms by (simp_all add: store_room_def store_parts_def fits_def encode_entry_length has_room_pages)

lemma Probe_holds:
  assumes "index_holds K x es" "key_ok k" "map_of es k = Some p"
  shows "Probe k x = Some (Inr \<lparr>pb_pos = p, pb_found = True\<rparr>, x)"
proof -
  have "bindM (Probe k) (\<lambda>probe. if \<not> pb_found probe then ret probe
       else bindM (res (Key K (pb_pos probe))) (\<lambda>record_key.
           if CompareKeys record_key k \<noteq> 0 then ret \<lparr>pb_pos = 0, pb_found = False\<rparr> else ret probe)) x =
    Some (Inr \<lparr>pb_pos = p, pb_found = True\<rparr>, x)"
    using IndexGet_holds [OF assms(1,2)] assms(3) by (simp add: IndexGet_def)
  then show ?thesis
    by (auto elim!: bindM_InrE simp: ret_def res_def split: if_splits)
qed

section \<open>Get\<close>

lemma ImplGet_holds:
  assumes "store_holds m0 im m" "key_ok key"
  shows "ImplGet key (im, w) = Some (Inr (case m key of None \<Rightarrow> \<lparr>gr_value = [], gr_found = False\<rparr>
    | Some v \<Rightarrow> \<lparr>gr_value = v, gr_found = True\<rparr>), im, w)"
proof -
  obtain ss x L es s where p: "store_parts m0 im ss x L es s" and m: "m = sg.contents ss es"
    using assms(1) unfolding store_holds_def by blast
  have h: "index_holds (SegKey ss) x es" "im_records im = Some ss" "im_index im = Some x"
    using p by (simp_all add: store_parts_def)
  have im: "im\<lparr>im_index := Some x\<rparr> = im"
    using h(3) by simp
  have get: "from_mp (on_index (\<lambda>K. IndexGet K key)) (im, w) = Some (Inr
      (case map_of es key of None \<Rightarrow> \<lparr>pb_pos = 0, pb_found = False\<rparr> | Some p \<Rightarrow> \<lparr>pb_pos = p, pb_found = True\<rparr>), im, w)"
    using IndexGet_holds [OF h(1) assms(2)] h(2,3) im
    by (simp add: from_mp_def bindM_def attempt_def on_index_def ret_def split: option.split)
  show ?thesis
  proof (cases "map_of es key")
    case None
    then have "m key = None"
      by (simp add: m sg.entry_contents(1) [OF h(1)])
    then show ?thesis
      unfolding ImplGet_def store_parts_open [OF p] using get None by (simp add: bindM_Inr ret_def)
  next
    case (Some q)
    obtain v where v: "seg_recs ss q = Some (key, v)" "m key = Some v"
      using sg.entry_contents(2) [OF h(1) Some] m by blast
    have 1: "VerifyReadPosition key q (im, w) = Some (Inr (), im, w)"
      using Probe_holds [OF h(1) assms(2) Some] h(3) by (simp add: VerifyReadPosition_def verify_position_def chkres_def)
    have 2: "read_value q (im, w) = Some (Inr v, im, w)"
      using ValueView_recs [OF v(1)] h(2) by (simp add: read_value_def OwnedValue_def chkres_def)
    show ?thesis
      unfolding ImplGet_def store_parts_open [OF p] using get Some v(2) 1 2 by (simp add: bindM_Inr ret_def)
  qed
qed

section \<open>Put\<close>

lemma no_checkpoint:
  "im_records im = Some ss \<Longrightarrow> SegmentCount ss \<le> kCheckpointWalSegmentThreshold \<Longrightarrow> CheckpointIfNeededLocked (im, w) = Some (Inr (), im, w)"
  by (simp add: CheckpointIfNeededLocked_def ret_def)

lemma SegmentCount_change [simp]: "SegmentCount (change_segment i f ss) = SegmentCount ss"
  by (simp add: SegmentCount_def)

lemma Active_change: "Active ss = Some s \<Longrightarrow> Active (change_segment (ss_active ss) (\<lambda>_. s') ss) = Some s'"
  by (simp add: Active_def Segment_change)

text \<open>The store after a record was appended and the index was updated for it.\<close>

lemma store_parts_append:
  assumes "store_parts m0 im ss x L es s" "seg_holds ss' (L(ss_active ss := L (ss_active ss) @ [e]))"
    "ss' = change_segment (ss_active ss) (\<lambda>_. s') ss" "ws_sealed s' = ws_sealed s" "index_holds (SegKey ss') x' es'"
    "sg.contents ss' es' = apply_entry e (sg.contents ss es)"
  shows "store_parts m0 (im\<lparr>im_records := Some ss', im_index := Some x'\<rparr>) ss' x' (L(ss_active ss := L (ss_active ss) @ [e])) es' s'"
proof -
  have "distinct (segment_nos ss)" "ss_active ss \<in> set (segment_nos ss)" "\<And>i. i \<in> set (segment_nos ss) \<Longrightarrow> i \<le> ss_active ss"
    using assms(1) by (force simp: store_parts_def seg_holds_def Active_def Segment_def dest: map_of_SomeD)+
  note logged = log_entries_add [OF this, of L e]
  show ?thesis
    using assms logged by (simp add: store_parts_def Active_change)
qed

lemma ImplPut_holds:
  assumes "store_holds m0 im m" "key_ok key" "length val < 2 ^ 32" "store_room im (record_size key val + n) (Suc k)"
  shows "\<exists>im'. ImplPut key val (im, w) = Some (Inr (), im', w) \<and> store_holds m0 im' (m(key \<mapsto> val)) \<and> store_room im' n k"
proof -
  obtain ss x L es s where p: "store_parts m0 im ss x L es s" and m: "m = sg.contents ss es"
    using assms(1) unfolding store_holds_def by blast
  then have h: "index_holds (SegKey ss) x es" "im_records im = Some ss" "im_index im = Some x" "seg_holds ss L" "Active ss = Some s" "\<not> ws_sealed s"
    "im_open im" "im_fatal im = Inr ()"
    by (simp_all add: store_parts_def)
  note room = store_room_fits [OF assms(4) p]
  have "entry_ok (kWalOpPut, key, val)"
    using assms(2,3) by (simp add: entry_ok_def kWalOpPut_def kWalOpDelete_def)
  then obtain q ss' s' where a: "append_record kWalOpPut key val (ss, w) = Some (Inr q, ss', w)"
    "seg_holds ss' (L(ss_active ss := L (ss_active ss) @ [(kWalOpPut, key, val)]))" "untagged q" "seg_recs ss \<subseteq>\<^sub>m seg_recs ss'"
    "seg_recs ss' q = Some (key, val)" "ss' = change_segment (ss_active ss) (\<lambda>_. s') ss" "ws_sealed s' = ws_sealed s"
    "ws_size s' = ws_size s" "unat (ws_used s') = unat (ws_used s) + record_size key val"
    using append_record_holds [OF h(4-6) _ room(1), unfolded encode_entry_length fst_conv snd_conv] by blast
  obtain x' es' where x': "Put (SegKey ss') key q x = Some (Inr (case map_of es key of None \<Rightarrow> \<lparr>put_old_pos = 0, put_replaced = False\<rparr>
      | Some q \<Rightarrow> \<lparr>put_old_pos = q, put_replaced = True\<rparr>), x')" "index_holds (SegKey ss') x' es'"
    "sg.contents ss' es' = (sg.contents ss es)(key \<mapsto> val)"
    using sg.put_new [OF h(1) a(4,5) assms(2) a(3) room(3)] by blast
  let ?im = "im\<lparr>im_records := Some ss', im_index := Some x'\<rparr>"
  have small: "\<not> length key > kMaxKeySize"
    using assms(2) by (simp add: key_ok_def)
  have 1: "on_records (SegAppend key val) (im, w) = Some (Inr q, im\<lparr>im_records := Some ss'\<rparr>, w)"
    using a(1) h(2) by (simp add: on_records_def SegAppend_def)
  have 2: "on_index (\<lambda>K. Put K key q) (im\<lparr>im_records := Some ss'\<rparr>, w) = Some (Inr (case map_of es key of
      None \<Rightarrow> \<lparr>put_old_pos = 0, put_replaced = False\<rparr> | Some q \<Rightarrow> \<lparr>put_old_pos = q, put_replaced = True\<rparr>), ?im, w)"
    using x'(1) h(3) by (simp add: on_index_def)
  have 3: "CheckpointIfNeededLocked (?im, w) = Some (Inr (), ?im, w)"
    using room(2) a(6) by (intro no_checkpoint [of _ ss']) simp_all
  have "ImplPut key val (im, w) = Some (Inr (), ?im, w)"
    unfolding ImplPut_def store_parts_open [OF p] using small 1 2 3 by (simp add: bindM_Inr attempt_eq)
  moreover have "store_parts m0 ?im ss' x' (L(ss_active ss := L (ss_active ss) @ [(kWalOpPut, key, val)])) es' s'"
    using x'(3) by (intro store_parts_append [OF p a(2,6,7) x'(2)]) (simp add: apply_entry_def)
  moreover have "store_room ?im n k"
    using assms(4) h a(6,8,9) Put_grows [OF x'(1) index_holds_sized [OF h(1)]] by (simp add: store_room_def Active_change)
  moreover have "m(key \<mapsto> val) = sg.contents ss' es'"
    by (simp add: x'(3) m)
  ultimately show ?thesis
    unfolding store_holds_def by blast
qed

section \<open>Delete\<close>

lemma ImplDelete_holds:
  assumes "store_holds m0 im m" "key_ok key" "store_room im (record_size key [] + n) k"
  shows "\<exists>im'. ImplDelete key (im, w) = Some (Inr (m key \<noteq> None), im', w) \<and> store_holds m0 im' (m(key := None)) \<and> store_room im' n k"
proof -
  obtain ss x L es s where p: "store_parts m0 im ss x L es s" and m: "m = sg.contents ss es"
    using assms(1) unfolding store_holds_def by blast
  then have h: "index_holds (SegKey ss) x es" "im_records im = Some ss" "im_index im = Some x" "seg_holds ss L" "Active ss = Some s" "\<not> ws_sealed s"
    "im_open im" "im_fatal im = Inr ()"
    by (simp_all add: store_parts_def)
  have im: "im\<lparr>im_index := Some x\<rparr> = im"
    using h(3) by simp
  have get: "from_mp (on_index (\<lambda>K. IndexGet K key)) (im, w) = Some (Inr
      (case map_of es key of None \<Rightarrow> \<lparr>pb_pos = 0, pb_found = False\<rparr> | Some p \<Rightarrow> \<lparr>pb_pos = p, pb_found = True\<rparr>), im, w)"
    using IndexGet_holds [OF h(1) assms(2)] h(2,3) im
    by (simp add: from_mp_def bindM_def attempt_def on_index_def ret_def split: option.split)
  show ?thesis
  proof (cases "map_of es key")
    case None
    then have "m key = None"
      by (simp add: m sg.entry_contents(1) [OF h(1)])
    then have "m(key := None) = m"
      by auto
    moreover have room0: "store_room im n k"
      using assms(3) by (auto simp: store_room_def split: option.splits)
    ultimately show ?thesis
      unfolding ImplDelete_def store_parts_open [OF p] using get None \<open>m key = None\<close> assms(1) room0 by (simp add: bindM_Inr ret_def)
  next
    case (Some q)
    have some: "m key \<noteq> None"
      using Some by (simp add: m sg.entry_contents(1) [OF h(1)])
    have small: "\<not> length key > kMaxKeySize"
      using assms(2) by (simp add: key_ok_def)
    obtain x' es' where x': "Delete (SegKey ss) key x = Some (Inr \<lparr>del_pos = q, del_deleted = True\<rparr>, x')" "index_holds (SegKey ss) x' es'"
      "sg.contents ss es' = (sg.contents ss es)(key := None)"
      using sg.delete_entry [OF h(1) assms(2)] Some by auto
    have room: "fits s (kWalOpDelete, key, [])" "SegmentCount ss \<le> kCheckpointWalSegmentThreshold"
      using store_room_fits(1,2) [OF assms(3) p] by simp_all
    have "entry_ok (kWalOpDelete, key, [])"
      using assms(2) by (simp add: entry_ok_def)
    then obtain r ss' s' where a: "append_record kWalOpDelete key [] (ss, w) = Some (Inr r, ss', w)"
      "seg_holds ss' (L(ss_active ss := L (ss_active ss) @ [(kWalOpDelete, key, [])]))" "seg_recs ss \<subseteq>\<^sub>m seg_recs ss'"
      "ss' = change_segment (ss_active ss) (\<lambda>_. s') ss" "ws_sealed s' = ws_sealed s"
      "ws_size s' = ws_size s" "unat (ws_used s') = unat (ws_used s) + record_size key []"
      using append_record_holds [OF h(4-6) _ room(1), unfolded encode_entry_length fst_conv snd_conv] by blast
    note keep = sg.keep [OF x'(2) a(3)]
    let ?im1 = "im\<lparr>im_index := Some x'\<rparr>" and ?im = "im\<lparr>im_index := Some x', im_records := Some ss'\<rparr>"
    have swap: "?im = im\<lparr>im_records := Some ss', im_index := Some x'\<rparr>"
      by (cases im) simp
    have 1: "on_index (\<lambda>K. Delete K key) (im, w) = Some (Inr \<lparr>del_pos = q, del_deleted = True\<rparr>, ?im1, w)"
      using x'(1) h(2,3) by (simp add: on_index_def)
    have 2: "on_records (DeleteRecord key) (?im1, w) = Some (Inr r, ?im, w)"
      using a(1) h(2) by (simp add: on_records_def DeleteRecord_def)
    have 3: "CheckpointIfNeededLocked (?im, w) = Some (Inr (), ?im, w)"
      using room(2) a(4) by (intro no_checkpoint [of _ ss']) simp_all
    have "ImplDelete key (im, w) = Some (Inr True, ?im, w)"
      unfolding ImplDelete_def store_parts_open [OF p] using get Some small 1 2 3 by (simp add: bindM_Inr attempt_eq ret_def)
    moreover have "store_parts m0 ?im ss' x' (L(ss_active ss := L (ss_active ss) @ [(kWalOpDelete, key, [])])) es' s'"
      unfolding swap using store_parts_append [OF p a(2,4,5) keep(1)] keep(2) x'(3) by (simp add: apply_entry_def kWalOpPut_def kWalOpDelete_def)
    moreover have "store_room ?im n k"
      using assms(3) h a(4,6,7) Delete_grows [OF x'(1)] by (simp add: store_room_def Active_change)
    ultimately show ?thesis
      unfolding store_holds_def using x'(3) m some keep(2) by force
  qed
qed

end
