(* ===== verification/ReplayFacts.thy ===== *)
theory ReplayFacts
  imports StoreFacts
begin

text \<open>
  Recovery: \<^verbatim>\<open>ReplayAll\<close> builds the index of the records that the log holds. \<open>apply_entry\<close> is what
  one log entry means for the map; a replay of readable segments gives the map that the entries of
  all segments build in the order of their numbers.
\<close>

section \<open>One segment\<close>

text \<open>The entries at positions whose records are there.\<close>

definition entries_at :: "seg_store \<Rightarrow> u64 \<Rightarrow> (nat \<times> entry) list \<Rightarrow> bool" where
  "entries_at ss i ps \<longleftrightarrow> (\<forall>j opc key val. (j, opc, key, val) \<in> set ps \<longrightarrow>
     entry_ok (opc, key, val) \<and> untagged (rec_pos i (of_nat j)) \<and>
     (opc = kWalOpPut \<longrightarrow> seg_recs ss (rec_pos i (of_nat j)) = Some (key, val)))"

lemma from_mp_run: "m s = Some (r, s') \<Longrightarrow> from_mp m s = Some (map_sum FromMinpatriciaStatus id r, s')"
  by (cases r) (simp_all add: from_mp_def bindM_def attempt_def err_def ret_def)

lemma replay_record_holds:
  assumes "index_holds (SegKey ss) x es" "entries_at ss i [(j, e)]" "page_ids (ix_nodes x) < 2 ^ 63"
  shows "\<exists>x' es'. replay_record (SegKey ss) (as_record e fin) (rec_pos i (of_nat j)) x = Some (Inr (), x') \<and>
    index_holds (SegKey ss) x' es' \<and> sg.contents ss es' = apply_entry e (sg.contents ss es) \<and>
    page_ids (ix_nodes x') \<le> page_ids (ix_nodes x) + 1 \<and> snd ` set es' \<subseteq> insert (rec_pos i (of_nat j)) (snd ` set es)"
proof -
  obtain opc key val where e: "e = (opc, key, val)"
    by (cases e)
  let ?p = "rec_pos i (of_nat j)"
  have ok: "entry_ok e" "untagged ?p" "opc = kWalOpPut \<Longrightarrow> seg_recs ss ?p = Some (key, val)"
    using assms(2) by (auto simp: entries_at_def e)
  have key: "key_ok key" "opc = kWalOpPut \<or> opc = kWalOpDelete"
    using ok(1) by (simp_all add: e entry_ok_def)
  have sub: "snd ` set es' \<subseteq> insert ?p (snd ` set es)" if "index_holds (SegKey ss) x' es'" "map_of es' = (map_of es)(key := y)" "y = None \<or> y = Some ?p" for x' es' y
  proof
    fix q
    assume "q \<in> snd ` set es'"
    then obtain k where "(k, q) \<in> set es'"
      by auto
    then have "map_of es' k = Some q"
      using index_holds_sorted(2) [OF that(1)] by simp
    then show "q \<in> insert ?p (snd ` set es)"
      using that(2,3) by (cases "k = key") (force dest: map_of_SomeD)+
  qed
  show ?thesis
  proof (cases "opc = kWalOpPut")
    case True
    obtain x' es' where x': "Put (SegKey ss) key ?p x = Some (Inr (case map_of es key of None \<Rightarrow> \<lparr>put_old_pos = 0, put_replaced = False\<rparr>
        | Some q \<Rightarrow> \<lparr>put_old_pos = q, put_replaced = True\<rparr>), x')" "index_holds (SegKey ss) x' es'"
      "sg.contents ss es' = (sg.contents ss es)(key \<mapsto> val)" "map_of es' = (map_of es)(key \<mapsto> ?p)"
      using sg.put_at [OF assms(1) ok(3) [OF True] key(1) ok(2) has_room_pages [OF assms(3)]] by blast
    have "replay_record (SegKey ss) (as_record e fin) ?p x = Some (Inr (), x')"
      using True x'(1) by (simp add: replay_record_def as_record_def e bindM_def ret_def from_mp_run)
    then show ?thesis
      using x'(2,3) Put_grows [OF x'(1) index_holds_sized [OF assms(1)]] sub [OF x'(2,4)] True by (auto simp: apply_entry_def e)
  next
    case False
    obtain x' es' where x': "Delete (SegKey ss) key x = Some (Inr (case map_of es key of None \<Rightarrow> \<lparr>del_pos = 0, del_deleted = False\<rparr>
        | Some q \<Rightarrow> \<lparr>del_pos = q, del_deleted = True\<rparr>), x')" "index_holds (SegKey ss) x' es'"
      "sg.contents ss es' = (sg.contents ss es)(key := None)" "map_of es' = (map_of es)(key := None)"
      using sg.delete_entry [OF assms(1) key(1)] by blast
    have "replay_record (SegKey ss) (as_record e fin) ?p x = Some (Inr (), x')"
      using False key(2) x'(1) by (simp add: replay_record_def as_record_def e bindM_def ret_def from_mp_run)
    then show ?thesis
      using x'(2,3) Delete_grows [OF x'(1)] sub [OF x'(2,4)] False by (auto simp: apply_entry_def e)
  qed
qed

lemma replay_calls_holds:
  assumes "index_holds (SegKey ss) x es" "entries_at ss i ps" "page_ids (ix_nodes x) + length ps \<le> 2 ^ 63"
  shows "\<exists>x' es'. replay_calls (replay_record (SegKey ss)) i ps x = Some (Inr (), x') \<and>
    index_holds (SegKey ss) x' es' \<and> sg.contents ss es' = fold apply_entry (map snd ps) (sg.contents ss es) \<and>
    page_ids (ix_nodes x') \<le> page_ids (ix_nodes x) + length ps \<and> snd ` set es' \<subseteq> (\<lambda>(j, e). rec_pos i (of_nat j)) ` set ps \<union> snd ` set es"
  using assms
proof (induction ps arbitrary: x es)
  case Nil
  then show ?case
    by (auto simp: ret_def)
next
  case (Cons q ps)
  obtain j e where q: "q = (j, e)"
    by (cases q)
  have at: "entries_at ss i [(j, e)]" "entries_at ss i ps"
    using Cons.prems(2) by (auto simp: entries_at_def q)
  have room: "page_ids (ix_nodes x) < 2 ^ 63"
    using Cons.prems(3) by simp
  obtain x1 es1 where 1: "replay_record (SegKey ss) (as_record e (of_nat (j + length (encode_entry e)))) (rec_pos i (of_nat j)) x = Some (Inr (), x1)"
    "index_holds (SegKey ss) x1 es1" "sg.contents ss es1 = apply_entry e (sg.contents ss es)"
    "page_ids (ix_nodes x1) \<le> page_ids (ix_nodes x) + 1" "snd ` set es1 \<subseteq> insert (rec_pos i (of_nat j)) (snd ` set es)"
    using replay_record_holds [OF Cons.prems(1) at(1) room] by blast
  have "page_ids (ix_nodes x1) + length ps \<le> 2 ^ 63"
    using 1(4) Cons.prems(3) by simp
  then obtain x' es' where 2: "replay_calls (replay_record (SegKey ss)) i ps x1 = Some (Inr (), x')" "index_holds (SegKey ss) x' es'"
    "sg.contents ss es' = fold apply_entry (map snd ps) (sg.contents ss es1)" "page_ids (ix_nodes x') \<le> page_ids (ix_nodes x1) + length ps"
    "snd ` set es' \<subseteq> (\<lambda>(j, e). rec_pos i (of_nat j)) ` set ps \<union> snd ` set es1"
    using Cons.IH [OF 1(2) at(2)] by blast
  have "replay_calls (replay_record (SegKey ss)) i (q # ps) x = Some (Inr (), x')"
    using 1(1) 2(1) by (simp add: q bindM_Inr)
  moreover have "snd ` set es' \<subseteq> (\<lambda>(j, e). rec_pos i (of_nat j)) ` set (q # ps) \<union> snd ` set es"
    using order_trans [OF 2(5) Un_mono [OF order_refl 1(5)]] by (simp add: q insert_commute)
  ultimately show ?case
    using 1(3,4) 2(2-4) by (intro exI [of _ x'] exI [of _ es']) (simp add: q)
qed

lemma entries_at_readable:
  assumes "Segment ss i = Some s" "ws_file_no s = i" "readable s rs bad"
  shows "entries_at ss i (placed 4096 rs)"
  using seg_recs_placed [OF assms] log_pos(3) [OF assms(3) _ assms(2)] readable_placed(2) [OF assms(3)]
  by (fastforce simp: entries_at_def)

text \<open>The positions of the entries of a segment.\<close>

definition log_positions :: "u64 \<Rightarrow> entry list \<Rightarrow> pos set" where
  "log_positions i rs = (\<lambda>(j, e). rec_pos i (of_nat j)) ` set (placed 4096 rs)"

lemma readable_holds: "readable s rs None \<Longrightarrow> wal_holds s rs"
  by (auto simp: readable_def wal_holds_def wal_mapped_def)

lemma placed_length [simp]: "length (placed i rs) = length rs"
  by (induction rs arbitrary: i) simp_all

lemma change_segment_same:
  assumes "distinct (map fst (ss_segments ss))" "Segment ss i = Some s"
  shows "change_segment i (\<lambda>_. s) ss = ss"
proof -
  have "(if j = i then s else t) = t" if "(j, t) \<in> set (ss_segments ss)" for j t
  proof -
    have "Segment ss j = Some t"
      using map_of_is_SomeI [OF assms(1) that] by (simp add: Segment_def)
    then show ?thesis
      using assms(2) by auto
  qed
  then have "map (\<lambda>(j, t). (j, if j = i then s else t)) (ss_segments ss) = ss_segments ss"
    by (intro map_idI) auto
  then show ?thesis
    by (simp add: change_segment_def)
qed

text \<open>The segments of a store as a replay finds them: the readable entries, and how each ends.\<close>

definition seg_reads :: "seg_store \<Rightarrow> (u64 \<Rightarrow> entry list) \<Rightarrow> (u64 \<Rightarrow> status option) \<Rightarrow> bool" where
  "seg_reads ss B bad \<longleftrightarrow> distinct (map fst (ss_segments ss)) \<and>
     (\<forall>i s. Segment ss i = Some s \<longrightarrow> ws_file_no s = i \<and> readable s (B i) (bad i))"

lemma replay_segment_complete:
  assumes "seg_reads ss B bad" "Segment ss i = Some s" "bad i = None" "index_holds (SegKey ss) x es"
    "page_ids (ix_nodes x) + length (B i) \<le> 2 ^ 63"
  shows "\<exists>x' es'. (\<forall>policy. replay_segment policy i (ss, x, w) = Some (Inr False, ss, x', w)) \<and>
    index_holds (SegKey ss) x' es' \<and> sg.contents ss es' = fold apply_entry (B i) (sg.contents ss es) \<and>
    page_ids (ix_nodes x') \<le> page_ids (ix_nodes x) + length (B i) \<and> snd ` set es' \<subseteq> log_positions i (B i) \<union> snd ` set es"
proof -
  have s: "ws_file_no s = i" "readable s (B i) (bad i)" "distinct (map fst (ss_segments ss))"
    using assms(1,2) by (auto simp: seg_reads_def)
  obtain x' es' where x': "replay_calls (replay_record (SegKey ss)) i (placed 4096 (B i)) x = Some (Inr (), x')"
    "index_holds (SegKey ss) x' es'" "sg.contents ss es' = fold apply_entry (B i) (sg.contents ss es)"
    "page_ids (ix_nodes x') \<le> page_ids (ix_nodes x) + length (B i)" "snd ` set es' \<subseteq> log_positions i (B i) \<union> snd ` set es"
    using replay_calls_holds [OF assms(4) entries_at_readable [OF assms(2) s(1,2)]] assms(5) by (auto simp: log_positions_def)
  have "wal_holds s (B i)"
    using readable_holds s(2) assms(3) by simp
  from Replay_complete [OF this, of _ "replay_record (SegKey ss)" x]
  have "Replay policy (replay_record (SegKey ss)) (s, x) = Some (Inr False, s, x')" for policy
    using x'(1) s(1) by (simp add: replay_result_def)
  then have "replay_segment policy i (ss, x, w) = Some (Inr False, ss, x', w)" for policy
    using assms(2) change_segment_same [OF s(3) assms(2)] by (simp add: replay_segment_def on_segment_def)
  then show ?thesis
    using x'(2-5) by blast
qed

lemma replay_segment_cut:
  assumes "seg_reads ss B bad" "Segment ss i = Some s" "bad i = Some e" "index_holds (SegKey ss) x es"
    "page_ids (ix_nodes x) + length (B i) \<le> 2 ^ 63"
  shows "\<exists>x' es' s'. replay_segment kPointInTime i (ss, x, w) = Some (Inr True, change_segment i (\<lambda>_. s') ss, x', w) \<and>
    replay_segment kStrict i (ss, x, w) = Some (Inl e, ss, x', w) \<and> wal_holds s' (B i) \<and> ws_file_no s' = i \<and>
    index_holds (SegKey ss) x' es' \<and> sg.contents ss es' = fold apply_entry (B i) (sg.contents ss es) \<and>
    page_ids (ix_nodes x') \<le> page_ids (ix_nodes x) + length (B i) \<and> snd ` set es' \<subseteq> log_positions i (B i) \<union> snd ` set es"
proof -
  have s: "ws_file_no s = i" "readable s (B i) (Some e)" "distinct (map fst (ss_segments ss))"
    using assms(1-3) unfolding seg_reads_def by metis+
  obtain x' es' where x': "replay_calls (replay_record (SegKey ss)) i (placed 4096 (B i)) x = Some (Inr (), x')"
    "index_holds (SegKey ss) x' es'" "sg.contents ss es' = fold apply_entry (B i) (sg.contents ss es)"
    "page_ids (ix_nodes x') \<le> page_ids (ix_nodes x) + length (B i)" "snd ` set es' \<subseteq> log_positions i (B i) \<union> snd ` set es"
    using replay_calls_holds [OF assms(4) entries_at_readable [OF assms(2) s(1,2)]] assms(5) by (auto simp: log_positions_def)
  obtain s' where s': "wal_holds s' (B i)" "ws_file_no s' = ws_file_no s"
    "Replay kPointInTime (replay_record (SegKey ss)) (s, x) = Some (Inr True, s', x')"
    "Replay kStrict (replay_record (SegKey ss)) (s, x) = Some (Inl e, s, x')"
    using Replay_cut [OF s(2), of "replay_record (SegKey ss)"] x'(1) s(1) by auto
  have "replay_segment kPointInTime i (ss, x, w) = Some (Inr True, change_segment i (\<lambda>_. s') ss, x', w)"
    "replay_segment kStrict i (ss, x, w) = Some (Inl e, ss, x', w)"
    using s'(3,4) assms(2) change_segment_same [OF s(3) assms(2)] by (simp_all add: replay_segment_def on_segment_def)
  then show ?thesis
    using s'(1,2) s(1) x'(2-5) by metis
qed

section \<open>The whole log\<close>

text \<open>One step of \<^verbatim>\<open>ReplayAll\<close>.\<close>

definition replay_one :: "replay_policy \<Rightarrow> u64 \<Rightarrow> bool \<times> u64 \<Rightarrow> (bool \<times> u64) replay" where
  "replay_one policy i = (\<lambda>(drop_remaining, last_kept).
     if drop_remaining then bindM (drop_segment i) (\<lambda>_. ret (drop_remaining, last_kept))
     else bindM (replay_segment policy i) (\<lambda>truncated. ret (truncated, i)))"

lemma fold_op_append: "fold_op f (xs @ ys) a = bindM (fold_op f xs a) (fold_op f ys)"
proof (induction xs arbitrary: a)
  case Nil
  show ?case
    by (rule ext) simp
next
  case (Cons x xs)
  then have "fold_op f (xs @ ys) = (\<lambda>a. bindM (fold_op f xs a) (fold_op f ys))"
    by blast
  then show ?case
    by (simp add: bindM_assoc)
qed

lemma replay_one_run:
  "replay_segment policy i (ss, x, w) = Some (Inr b, ss', x', w') \<Longrightarrow> replay_one policy i (False, a) (ss, x, w) = Some (Inr (b, i), ss', x', w')"
  "drop_segment i (ss, x, w) = Some (Inr (), ss', x', w') \<Longrightarrow> replay_one policy i (True, a) (ss, x, w) = Some (Inr (True, a), ss', x', w')"
  by (simp_all add: replay_one_def bindM_Inr ret_def)

lemma replay_complete_segments:
  assumes "seg_reads ss B bad" "\<And>i. i \<in> set nos \<Longrightarrow> Segment ss i \<noteq> None \<and> bad i = None" "index_holds (SegKey ss) x es"
    "page_ids (ix_nodes x) + length (log_entries B nos) \<le> 2 ^ 63"
  shows "\<exists>x' es'. (\<forall>policy. fold_op (replay_one policy) nos (False, a) (ss, x, w) = Some (Inr (False, last (a # nos)), ss, x', w)) \<and>
    index_holds (SegKey ss) x' es' \<and> sg.contents ss es' = fold apply_entry (log_entries B nos) (sg.contents ss es) \<and>
    page_ids (ix_nodes x') \<le> page_ids (ix_nodes x) + length (log_entries B nos) \<and>
    snd ` set es' \<subseteq> (\<Union>i \<in> set nos. log_positions i (B i)) \<union> snd ` set es"
  using assms(2-4)
proof (induction nos arbitrary: a x es)
  case Nil
  then show ?case
    by (auto simp: ret_def)
next
  case (Cons i nos)
  obtain s where s: "Segment ss i = Some s" "bad i = None"
    using Cons.prems(1) [of i] by auto
  have "page_ids (ix_nodes x) + length (B i) \<le> 2 ^ 63"
    using Cons.prems(3) by simp
  then obtain x1 es1 where 1: "\<And>policy. replay_segment policy i (ss, x, w) = Some (Inr False, ss, x1, w)"
    "index_holds (SegKey ss) x1 es1" "sg.contents ss es1 = fold apply_entry (B i) (sg.contents ss es)"
    "page_ids (ix_nodes x1) \<le> page_ids (ix_nodes x) + length (B i)" "snd ` set es1 \<subseteq> log_positions i (B i) \<union> snd ` set es"
    using replay_segment_complete [OF assms(1) s Cons.prems(2)] by blast
  have room: "page_ids (ix_nodes x1) + length (log_entries B nos) \<le> 2 ^ 63"
    using 1(4) Cons.prems(3) by simp
  obtain x' es' where 2: "\<And>policy. fold_op (replay_one policy) nos (False, i) (ss, x1, w) = Some (Inr (False, last (i # nos)), ss, x', w)"
    "index_holds (SegKey ss) x' es'" "sg.contents ss es' = fold apply_entry (log_entries B nos) (sg.contents ss es1)"
    "page_ids (ix_nodes x') \<le> page_ids (ix_nodes x1) + length (log_entries B nos)"
    "snd ` set es' \<subseteq> (\<Union>i \<in> set nos. log_positions i (B i)) \<union> snd ` set es1"
    using Cons.IH [OF _ 1(2) room, of i] Cons.prems(1) by auto
  have "fold_op (replay_one policy) (i # nos) (False, a) (ss, x, w) = Some (Inr (False, last (a # i # nos)), ss, x', w)" for policy
    using replay_one_run(1) [OF 1(1)] 2(1) by (cases nos) (simp_all add: bindM_Inr)
  moreover have "snd ` set es' \<subseteq> (\<Union>i \<in> set (i # nos). log_positions i (B i)) \<union> snd ` set es"
    using order_trans [OF 2(5) Un_mono [OF order_refl 1(5)]] by (simp add: Un_assoc Un_left_commute)
  ultimately show ?case
    using 1(3,4) 2(2-4) by (intro exI [of _ x'] exI [of _ es']) simp
qed

text \<open>Dropping a segment always works: what the system calls report is ignored.\<close>

lemma syscall_total: "\<exists>r w'. syscall f w = Some (r, w')"
  by (cases "w_sched w (w_clock w)") (auto simp: syscall_def)

lemma io_total: "(\<And>w. \<exists>r w'. m w = Some (r, w')) \<Longrightarrow> \<exists>r w'. io what path m w = Some (r, w')"
proof -
  assume "\<And>w. \<exists>r w'. m w = Some (r, w')"
  then obtain r w' where "m w = Some (r, w')"
    by blast
  then show ?thesis
    by (cases r) (simp_all add: io_def bindM_def attempt_def IoError_def err_def ret_def)
qed

lemma close_total: "\<exists>r w'. sys_close fd w = Some (r, w')" "\<exists>r w'. sys_munmap p d w = Some (r, w')"
  by (cases "w_sched w (w_clock w)"; simp add: sys_close_def sys_munmap_def Let_def)+

lemma CloseAfterSync_total: "\<exists>r w'. CloseAfterSync (s, w) = Some (r, s\<lparr>ws_data := None, ws_fd := None\<rparr>, w')"
proof -
  let ?m1 = "case ws_data s of None \<Rightarrow> ret () | Some d \<Rightarrow> on_snd (io ''munmap'' (ws_path s) (sys_munmap (resolve (ws_path s)) d))"
  let ?m2 = "case ws_fd s of None \<Rightarrow> ret () | Some fd \<Rightarrow> on_snd (io ''close'' (ws_path s) (sys_close fd))"
  have 1: "\<exists>r w'. ?m1 (s, w) = Some (r, s, w')" for w
    using io_total [OF close_total(2)] by (cases "ws_data s") (auto simp: ret_def on_snd_def)
  have 2: "\<exists>r w'. ?m2 (s, w) = Some (r, s, w')" for w
    using io_total [OF close_total(1)] by (cases "ws_fd s") (auto simp: ret_def on_snd_def)
  obtain r1 w1 where r1: "?m1 (s, w) = Some (r1, s, w1)"
    using 1 by blast
  obtain r2 w2 where r2: "?m2 (s, w1) = Some (r2, s, w2)"
    using 2 by blast
  show ?thesis
    unfolding CloseAfterSync_def Let_def fst_conv
    using r1 r2 by (simp add: bindM_Inr attempt_eq upd_fst_def res_def)
qed

lemma drop_segment_total:
  "\<exists>w'. drop_segment i (ss, x, w) = Some (Inr (), ss\<lparr>ss_segments := filter (\<lambda>e. fst e \<noteq> i) (ss_segments ss)\<rparr>, x, w')"
proof -
  obtain r w1 where 1: "sys_unlink (WalPath ss i) w = Some (r, w1)"
    using syscall_total unfolding sys_unlink_def by blast
  let ?ss = "ss\<lparr>ss_segments := filter (\<lambda>e. fst e \<noteq> i) (ss_segments ss)\<rparr>"
  have "\<exists>w'. erase i (ss, w1) = Some (Inr (), ?ss, w')"
  proof (cases "Segment ss i")
    case (Some s)
    then show ?thesis
      using CloseAfterSync_total [of s w1] by (auto simp: erase_def on_snd_def destroy_segment_def)
  qed (simp add: erase_def)
  then obtain w' where "erase i (ss, w1) = Some (Inr (), ?ss, w')"
    by blast
  then have "drop_segment i (ss, x, w) = Some (Inr (), ?ss, x, w')"
    using 1 by (simp add: drop_segment_def bindM_def on_snd_def ignored_def attempt_def ret_def)
  then show ?thesis
    by blast
qed

lemma drop_segments:
  "\<exists>w'. fold_op (replay_one policy) nos (True, a) (ss, x, w) =
    Some (Inr (True, a), ss\<lparr>ss_segments := filter (\<lambda>e. fst e \<notin> set nos) (ss_segments ss)\<rparr>, x, w')"
proof (induction nos arbitrary: ss w)
  case Nil
  then show ?case
    by (simp add: ret_def)
next
  case (Cons i nos)
  obtain w1 where 1: "drop_segment i (ss, x, w) = Some (Inr (), ss\<lparr>ss_segments := filter (\<lambda>e. fst e \<noteq> i) (ss_segments ss)\<rparr>, x, w1)"
    using drop_segment_total by blast
  obtain w' where 2: "fold_op (replay_one policy) nos (True, a) (ss\<lparr>ss_segments := filter (\<lambda>e. fst e \<noteq> i) (ss_segments ss)\<rparr>, x, w1) =
    Some (Inr (True, a), ss\<lparr>ss_segments := filter (\<lambda>e. fst e \<notin> set nos) (filter (\<lambda>e. fst e \<noteq> i) (ss_segments ss))\<rparr>, x, w')"
    using Cons.IH [of "ss\<lparr>ss_segments := filter (\<lambda>e. fst e \<noteq> i) (ss_segments ss)\<rparr>" w1] by auto
  have "filter (\<lambda>e. fst e \<notin> set nos) (filter (\<lambda>e. fst e \<noteq> i) (ss_segments ss)) = filter (\<lambda>e. fst e \<notin> set (i # nos)) (ss_segments ss)"
    by (simp add: conj_commute)
  then show ?case
    using replay_one_run(2) [OF 1, of policy a] 2 by (simp add: bindM_Inr conj_commute)
qed

text \<open>
  \<^verbatim>\<open>ReplayAll\<close> when every segment is complete, and when a segment has bytes behind its readable
  records that are no record: the log is cut there, and the segments behind it are dropped.
\<close>

lemma ReplayAll_eq: "ReplayAll policy (ss, x, w) =
   bindM (fold_op (replay_one policy) (sort (map fst (ss_segments ss))) (False, ss_active ss)) (\<lambda>(drop_remaining, last_kept).
     if drop_remaining
     then upd_fst (\<lambda>ss. ss\<lparr>ss_active := last_kept, ss_next := last_kept + 1,
              ss_segments := map (\<lambda>(j, t). (j, set_sealed (j \<noteq> last_kept) t)) (ss_segments ss)\<rparr>)
     else ret ()) (ss, x, w)"
  by (simp add: ReplayAll_def replay_one_def [abs_def] split_def)

lemma Segment_mem: "i \<in> set (map fst (ss_segments ss)) \<longleftrightarrow> Segment ss i \<noteq> None"
  by (simp add: Segment_def map_of_eq_None_iff)

lemma ReplayAll_complete:
  assumes "seg_reads ss B bad" "\<And>i. Segment ss i \<noteq> None \<Longrightarrow> bad i = None" "index_holds (SegKey ss) x es"
    "page_ids (ix_nodes x) + length (log_entries B (sort (map fst (ss_segments ss)))) \<le> 2 ^ 63"
  shows "\<exists>x' es'. (\<forall>policy. ReplayAll policy (ss, x, w) = Some (Inr (), ss, x', w)) \<and> index_holds (SegKey ss) x' es' \<and> seg_holds ss B \<and>
    sg.contents ss es' = fold apply_entry (log_entries B (sort (map fst (ss_segments ss)))) (sg.contents ss es)"
proof -
  let ?nos = "sort (map fst (ss_segments ss))"
  have all: "Segment ss i \<noteq> None \<and> bad i = None" if "i \<in> set ?nos" for i
    using that assms(2) Segment_mem [of i ss] by (simp only: set_sort) blast
  obtain x' es' where x': "\<And>policy. fold_op (replay_one policy) ?nos (False, ss_active ss) (ss, x, w) =
      Some (Inr (False, last (ss_active ss # ?nos)), ss, x', w)" "index_holds (SegKey ss) x' es'"
    "sg.contents ss es' = fold apply_entry (log_entries B ?nos) (sg.contents ss es)"
    using replay_complete_segments [OF assms(1) all assms(3,4)] by blast
  have "\<forall>policy. ReplayAll policy (ss, x, w) = Some (Inr (), ss, x', w)"
    unfolding ReplayAll_eq using x'(1) by (simp only: bindM_Inr split_conv if_False ret_def simp_thms)
  moreover have "seg_holds ss B"
    unfolding seg_holds_def
  proof (intro conjI allI impI)
    show "distinct (map fst (ss_segments ss))"
      using assms(1) by (simp add: seg_reads_def)
    fix i s
    assume s: "Segment ss i = Some s"
    then have "bad i = None" "ws_file_no s = i" "readable s (B i) (bad i)"
      using assms(1,2) by (auto simp: seg_reads_def)
    then show "ws_file_no s = i" "wal_holds s (B i)"
      using readable_holds by simp_all
  qed
  ultimately show ?thesis
    using x'(2,3) by blast
qed

text \<open>What a cut leaves of the store.\<close>

definition cut_store :: "seg_store \<Rightarrow> u64 \<Rightarrow> wal_segment \<Rightarrow> u64 list \<Rightarrow> seg_store" where
  "cut_store ss b s' post = (change_segment b (\<lambda>_. s') ss)\<lparr>ss_active := b, ss_next := b + 1,
     ss_segments := map (\<lambda>(j, t). (j, set_sealed (j \<noteq> b) t))
       (filter (\<lambda>e. fst e \<notin> set post) (ss_segments (change_segment b (\<lambda>_. s') ss)))\<rparr>"

lemma map_of_seal: "map_of (map (\<lambda>(j, t). (j, g j t)) xs) i = map_option (g i) (map_of xs i)"
  by (induction xs) auto

lemma map_of_drop: "map_of (filter (\<lambda>e. fst e \<notin> A) xs) i = (if i \<in> A then None else map_of xs i)"
  by (induction xs) auto

lemma Segment_cut: "Segment (cut_store ss b s' post) i =
  (if i \<in> set post then None else map_option (set_sealed (i \<noteq> b)) (if i = b then map_option (\<lambda>_. s') (Segment ss b) else Segment ss i))"
  using Segment_change [of b "\<lambda>_. s'" ss i]
  by (simp add: cut_store_def Segment_def map_of_seal map_of_drop)

lemma RecordAtOffset_sealed: "RecordAtOffset (set_sealed b s) i v = RecordAtOffset s i v"
  by (cases s) (simp only: RecordAtOffset_def set_sealed_def wal_segment.simps)

lemma set_sealed_simps [simp]:
  "ws_file_no (set_sealed b s) = ws_file_no s" "ws_used (set_sealed b s) = ws_used s" "ws_sealed (set_sealed b s) = b" "wal_holds (set_sealed b s) rs = wal_holds s rs"
  "RecordAt (set_sealed b s) p v = RecordAt s p v" "readable (set_sealed b s) rs e = readable s rs e"
proof -
  show "RecordAt (set_sealed b s) p v = RecordAt s p v"
    by (simp add: RecordAt_def RecordAtOffset_sealed) (simp add: set_sealed_def)
  show "readable (set_sealed b s) rs e = readable s rs e"
    unfolding readable_def RecordAtOffset_sealed by (cases e) (simp_all add: set_sealed_def wal_mapped_def)
qed (simp_all add: set_sealed_def wal_holds_def wal_mapped_def)

lemma ReplayAll_cut:
  assumes "seg_reads ss B bad" "sort (map fst (ss_segments ss)) = pre @ b # post" "\<And>i. i \<in> set pre \<Longrightarrow> bad i = None" "bad b = Some e"
    "index_holds (SegKey ss) x es" "\<And>p. p \<in> snd ` set es \<Longrightarrow> IsSnapshotPosition p"
    "page_ids (ix_nodes x) + length (log_entries B (pre @ [b])) \<le> 2 ^ 63"
  shows "\<exists>s' x' es' w'. ReplayAll kPointInTime (ss, x, w) = Some (Inr (), cut_store ss b s' post, x', w') \<and>
    index_holds (SegKey (cut_store ss b s' post)) x' es' \<and> seg_holds (cut_store ss b s' post) B \<and>
    sg.contents (cut_store ss b s' post) es' = fold apply_entry (log_entries B (pre @ [b])) (sg.contents ss es) \<and>
    ReplayAll kStrict (ss, x, w) = Some (Inl e, ss, x', w)"
proof -
  have dist: "distinct (map fst (ss_segments ss))"
    using assms(1) by (simp add: seg_reads_def)
  then have "distinct (pre @ b # post)"
    unfolding assms(2) [symmetric] by simp
  then have nb: "b \<notin> set pre" "b \<notin> set post" "set pre \<inter> set post = {}"
    by auto
  have mem: "Segment ss i \<noteq> None" if "i \<in> set pre \<or> i = b" for i
  proof -
    have "i \<in> set (sort (map fst (ss_segments ss)))"
      unfolding assms(2) using that by auto
    then show ?thesis
      using Segment_mem [of i ss] by simp
  qed
  have room: "page_ids (ix_nodes x) + length (log_entries B pre) \<le> 2 ^ 63"
    using assms(7) by simp
  obtain x1 es1 where 1: "\<And>policy. fold_op (replay_one policy) pre (False, ss_active ss) (ss, x, w) =
      Some (Inr (False, last (ss_active ss # pre)), ss, x1, w)" "index_holds (SegKey ss) x1 es1"
    "sg.contents ss es1 = fold apply_entry (log_entries B pre) (sg.contents ss es)"
    "page_ids (ix_nodes x1) \<le> page_ids (ix_nodes x) + length (log_entries B pre)"
    "snd ` set es1 \<subseteq> (\<Union>i \<in> set pre. log_positions i (B i)) \<union> snd ` set es"
    using replay_complete_segments [OF assms(1) _ assms(5) room, of "ss_active ss" w] assms(3) mem by auto
  obtain s where s: "Segment ss b = Some s"
    using mem [of b] by auto
  have "page_ids (ix_nodes x1) + length (B b) \<le> 2 ^ 63"
    using 1(4) assms(7) by simp
  then obtain x' es' s' where 2: "replay_segment kPointInTime b (ss, x1, w) = Some (Inr True, change_segment b (\<lambda>_. s') ss, x', w)"
    "replay_segment kStrict b (ss, x1, w) = Some (Inl e, ss, x', w)" "wal_holds s' (B b)" "ws_file_no s' = b"
    "index_holds (SegKey ss) x' es'" "sg.contents ss es' = fold apply_entry (B b) (sg.contents ss es1)"
    "snd ` set es' \<subseteq> log_positions b (B b) \<union> snd ` set es1"
    using replay_segment_cut [OF assms(1) s assms(4) 1(2)] by blast
  let ?ss = "cut_store ss b s' post"
  obtain w' where w': "fold_op (replay_one kPointInTime) post (True, b) (change_segment b (\<lambda>_. s') ss, x', w) =
    Some (Inr (True, b), (change_segment b (\<lambda>_. s') ss)\<lparr>ss_segments := filter (\<lambda>e. fst e \<notin> set post) (ss_segments (change_segment b (\<lambda>_. s') ss))\<rparr>, x', w')"
    using drop_segments by blast
  have fold_split: "fold_op (replay_one policy) (pre @ b # post) a = bindM (fold_op (replay_one policy) pre a) (fold_op (replay_one policy) (b # post))" for policy a
    by (rule fold_op_append)
  have run: "ReplayAll kPointInTime (ss, x, w) = Some (Inr (), ?ss, x', w')"
    unfolding ReplayAll_eq assms(2) fold_split bindM_assoc
    using 1(1) [of kPointInTime] replay_one_run(1) [OF 2(1)] w' by (simp add: bindM_Inr upd_fst_def cut_store_def)
  have strict: "ReplayAll kStrict (ss, x, w) = Some (Inl e, ss, x', w)"
  proof -
    have "replay_one kStrict b (False, a) (ss, x1, w) = Some (Inl e, ss, x', w)" for a
      using 2(2) by (simp add: replay_one_def bindM_Inl)
    then show ?thesis
      unfolding ReplayAll_eq assms(2) fold_split bindM_assoc
      using 1(1) [of kStrict] by (simp add: bindM_Inr bindM_Inl)
  qed
  have holds: "seg_holds ?ss B"
    unfolding seg_holds_def
  proof (intro conjI allI impI)
    show "distinct (map fst (ss_segments ?ss))"
      using dist by (simp add: cut_store_def key_of_map distinct_map_filter change_segment_def filter_map comp_def split_def)
    fix i t
    assume "Segment ?ss i = Some t"
    then obtain t0 where t0: "i \<notin> set post" "t = set_sealed (i \<noteq> b) t0" "i = b \<Longrightarrow> t0 = s'" "i \<noteq> b \<Longrightarrow> Segment ss i = Some t0"
      by (auto simp: Segment_cut split: if_splits)
    have "ws_file_no t0 = i \<and> wal_holds t0 (B i)"
    proof (cases "i = b")
      case False
      have "i \<in> set (sort (map fst (ss_segments ss)))"
        using Segment_mem [of i ss] t0(4) [OF False] by simp
      then have "bad i = None"
        unfolding assms(2) using False t0(1) assms(3) by auto
      then show ?thesis
        using assms(1) t0(4) [OF False] readable_holds [of t0 "B i"] unfolding seg_reads_def by metis
    qed (use t0(3) 2(3,4) in simp)
    then show "ws_file_no t = i" "wal_holds t (B i)"
      using t0(2) by simp_all
  qed
  have same: "seg_recs ss p = seg_recs ?ss p" if p: "p \<in> snd ` set es'" for p
  proof -
    have at: "seg_recs ss p = seg_recs ?ss p" if h: "Segment ss i = Some t" "Segment ?ss i = Some t'" "readable t' (B i) None" "ws_file_no t' = i"
      "p \<in> log_positions i (B i)" for i t t'
    proof -
      obtain j en where j: "p = rec_pos i (of_nat j)" "(j, en) \<in> set (placed 4096 (B i))"
        using h(5) by (auto simp: log_positions_def)
      have "ws_file_no t = i" "readable t (B i) (bad i)"
        using assms(1) h(1) by (auto simp: seg_reads_def)
      then show ?thesis
        using seg_recs_placed [OF h(1) _ _ j(2)] seg_recs_placed [OF h(2,4,3) j(2)] by (simp add: j(1))
    qed
    consider "p \<in> log_positions b (B b)" | i where "i \<in> set pre" "p \<in> log_positions i (B i)" | "IsSnapshotPosition p"
      using order_trans [OF 2(7) Un_mono [OF order_refl 1(5)]] p assms(6) by blast
    then show ?thesis
    proof cases
      case 1
      have "Segment ?ss b = Some (set_sealed False s')"
        using s nb(2) by (simp add: Segment_cut)
      then show ?thesis
        using 1 2(3,4) s wal_holds_readable by (intro at [of b s "set_sealed False s'"]) simp_all
    next
      case (2 i)
      obtain t where t: "Segment ss i = Some t"
        using mem [of i] 2(1) by auto
      have i: "i \<noteq> b" "i \<notin> set post"
        using nb 2(1) by auto
      have "ws_file_no t = i" "readable t (B i) None"
        using assms(1) assms(3) [OF 2(1)] t unfolding seg_reads_def by metis+
      moreover have "Segment ?ss i = Some (set_sealed True t)"
        using t i by (simp add: Segment_cut)
      ultimately show ?thesis
        using 2(2) t by (intro at [of i t "set_sealed True t"]) simp_all
    next
      case 3
      then show ?thesis
        by (simp add: seg_recs_snapshot SnapshotRecord_def cut_store_def)
    qed
  qed
  have index: "index_holds (SegKey ?ss) x' es'"
    using same by (intro index_holds_cong [OF 2(5)]) (simp add: SegKey_recs)
  have "sg.contents ?ss es' k = sg.contents ss es' k" for k
    using same by (cases "map_of es' k") (force simp: sg.contents_def dest: map_of_SomeD)+
  then have "sg.contents ?ss es' = fold apply_entry (log_entries B (pre @ [b])) (sg.contents ss es)"
    using 1(3) 2(6) by (simp add: fun_eq_iff)
  then show ?thesis
    using run strict holds index by blast
qed

section \<open>The log of a store\<close>

text \<open>A log has less than \<open>2 ^ 60\<close> entries, so the ids of pages do not run out while it is replayed.\<close>

lemma log_bytes_length: "13 * length rs \<le> length (log_bytes rs)"
  by (induction rs) (simp_all add: encode_entry_length)

lemma readable_few:
  assumes "readable s rs bad"
  shows "length rs \<le> 2 ^ 27"
proof -
  obtain d where "wal_mapped s d" "4096 + length (log_bytes rs) \<le> unat (ws_used s)"
    using assms by (auto simp: readable_def)
  then show ?thesis
    using log_bytes_length [of rs] wal_mapped_bounds [of s d] by simp
qed

lemma seg_reads_few:
  assumes "seg_reads ss B bad" "distinct js" "set js \<subseteq> set (segment_nos ss)"
  shows "length (log_entries B js) \<le> 2 ^ 60"
proof -
  have each: "length (B i) \<le> 2 ^ 27 \<and> file_no_ok i" if i: "i \<in> set js" for i
  proof -
    obtain s where "Segment ss i = Some s"
      using i assms(3) Segment_mem [of i ss] by blast
    then have "ws_file_no s = i" "readable s (B i) (bad i)"
      using assms(1) by (auto simp: seg_reads_def)
    then show ?thesis
      using readable_few readable_file_no by blast
  qed
  have "card (unat ` set js) \<le> card {..<2 ^ 33 :: nat}"
    using each by (intro card_mono) (auto simp: file_no_ok_def kRecordFileNoLimit_eq word_less_nat_alt)
  moreover have "card (unat ` set js) = length js"
    using assms(2) distinct_card [of js] by (subst card_image) (simp_all add: inj_on_def word_unat_eq_iff)
  ultimately have nos: "length js \<le> 2 ^ 33"
    by simp
  have "length (log_entries B js) \<le> length js * 2 ^ 27"
    using each by (induction js) (auto simp: add_mono)
  with nos show ?thesis
    by simp
qed

lemma seg_holds_reads: "seg_holds ss L \<Longrightarrow> seg_reads ss L (\<lambda>_. None)"
  using wal_holds_readable by (auto simp: seg_holds_def seg_reads_def)

lemma ReplayAll_rebuilds:
  assumes "store_holds m0 im m" "im_records im = Some ss" "index_holds (SegKey ss) y es0" "sg.contents ss es0 = m0"
    "page_ids (ix_nodes y) \<le> 2 ^ 62"
  shows "\<exists>y' es. ReplayAll policy (ss, y, w) = Some (Inr (), ss, y', w) \<and> index_holds (SegKey ss) y' es \<and> sg.contents ss es = m"
proof -
  obtain x L es s where p: "store_parts m0 im ss x L es s" "m = sg.contents ss es"
    using assms(1,2) by (auto simp: store_holds_def store_parts_def)
  then have L: "seg_holds ss L" "m = fold apply_entry (log_entries L (sort (segment_nos ss))) m0"
    by (simp_all add: store_parts_def)
  note reads = seg_holds_reads [OF L(1)]
  have room: "page_ids (ix_nodes y) + length (log_entries L (sort (segment_nos ss))) \<le> 2 ^ 63"
    using seg_reads_few [OF reads, of "sort (segment_nos ss)"] reads assms(5) by (simp add: seg_reads_def)
  from ReplayAll_complete [OF reads refl assms(3) room] show ?thesis
    using assms(4) L(2) by metis
qed

end
