(* ===== verification/IterFacts.thy ===== *)
theory IterFacts
  imports IterCode IndexPut
begin

text \<open>
  Ordered iteration (index.h): an \<^verbatim>\<open>IterPath\<close> as the list of its frames, the trail of pages it
  stands for, and the records before and after the position of a trail. The moves of the path are
  moves along the list of all records, so the visits are visits of that list.
\<close>

section \<open>The frames of a path\<close>

text \<open>The frames are those in the array, up to the length, and then those in the vector.\<close>

definition ip_holds :: "iter_path \<Rightarrow> put_frame list \<Rightarrow> bool" where
  "ip_holds ip fs \<longleftrightarrow> length (ip_stack ip) = 16 \<and> ip_len ip = int (length fs) \<and>
     fs = take (length fs) (ip_stack ip) @ ip_overflow ip"

lemma ip_holds_cases:
  assumes "ip_holds ip fs"
  obtains (short) "length fs \<le> 16" "length (ip_stack ip) = 16" "ip_len ip = int (length fs)" "take (length fs) (ip_stack ip) = fs" "ip_overflow ip = []"
  | (long) "16 < length fs" "length (ip_stack ip) = 16" "ip_len ip = int (length fs)" "fs = ip_stack ip @ ip_overflow ip"
proof (cases "length fs \<le> 16")
  case True
  have fs: "length (ip_stack ip) = 16" "ip_len ip = int (length fs)" "fs = take (length fs) (ip_stack ip) @ ip_overflow ip"
    using assms by (simp_all add: ip_holds_def)
  have "length fs = min 16 (length fs) + length (ip_overflow ip)"
    using arg_cong [OF fs(3), of length] fs(1) by (simp add: min.commute)
  then have "ip_overflow ip = []"
    using True by simp
  then show ?thesis
    using short True fs by simp
next
  case False
  have fs: "length (ip_stack ip) = 16" "ip_len ip = int (length fs)" "fs = take (length fs) (ip_stack ip) @ ip_overflow ip"
    using assms by (simp_all add: ip_holds_def)
  have "take (length fs) (ip_stack ip) = ip_stack ip"
    using False fs(1) by simp
  then have "fs = ip_stack ip @ ip_overflow ip"
    using fs(3) by metis
  then show ?thesis
    using False fs(1,2) by (intro long) simp_all
qed

lemma ip_holds_new: "ip_holds IterPath []"
  by (simp add: ip_holds_def IterPath_def kIterStackDepth_def)

lemma ip_holds_Reset: "ip_holds ip fs \<Longrightarrow> ip_holds (Reset ip) []"
  by (simp add: ip_holds_def Reset_def)

lemma ip_holds_len: "ip_holds ip fs \<Longrightarrow> ip_len ip = int (length fs)"
  by (simp add: ip_holds_def)

lemma PushNode_holds:
  assumes "ip_holds ip fs"
  shows "\<exists>ip'. PushNode i node leaf ip = Some ip' \<and> ip_holds ip' (fs @ [\<lparr>pf_id = i, pf_node = Some node, pf_leaf = leaf\<rparr>])"
proof (cases "length fs < 16")
  case True
  let ?f = "\<lparr>pf_id = i, pf_node = Some node, pf_leaf = leaf\<rparr>"
  have len: "length (ip_stack ip) = 16" "ip_len ip = int (length fs)" "take (length fs) (ip_stack ip) = fs" "ip_overflow ip = []"
    using assms True by (auto elim: ip_holds_cases)
  have "take (Suc (length fs)) ((ip_stack ip)[length fs := ?f]) = fs @ [?f]"
    using len True by (simp add: take_Suc_conv_app_nth)
  then show ?thesis
    using len True put_at_int [of "length fs" "ip_stack ip" ?f] by (simp add: PushNode_def ip_holds_def Let_def)
qed (use assms in \<open>auto simp: PushNode_def ip_holds_def Let_def\<close>)

lemma At_last:
  assumes "ip_holds ip (fs @ [f])"
  shows "At ip (ip_len ip - 1) = Some f"
  using assms
proof (cases rule: ip_holds_cases)
  case short
  then have "ip_stack ip ! length fs = f"
    using nth_take [of "length fs" "Suc (length fs)" "ip_stack ip"] by simp
  then show ?thesis
    using short at_int [of "length fs" "ip_stack ip"] by (simp add: At_def)
next
  case long
  then obtain ov where ov: "ip_overflow ip = ov @ [f]" "fs = ip_stack ip @ ov"
    by (cases "ip_overflow ip" rule: rev_cases) auto
  then have "int (length fs) - 16 = int (length ov)"
    using long by simp
  then show ?thesis
    using long ov at_int [of "length ov" "ov @ [f]"] by (simp add: At_def)
qed

lemma SetLeaf_last:
  assumes "ip_holds ip (fs @ [f])"
  shows "\<exists>ip'. SetLeaf (ip_len ip - 1) leaf ip = Some ip' \<and> ip_holds ip' (fs @ [f\<lparr>pf_leaf := leaf\<rparr>])"
  using assms
proof (cases rule: ip_holds_cases)
  case short
  let ?f = "f\<lparr>pf_leaf := leaf\<rparr>"
  have "take (Suc (length fs)) ((ip_stack ip)[length fs := ?f]) = (take (Suc (length fs)) (ip_stack ip)) [length fs := ?f]"
    by (rule take_update_swap)
  then have "take (Suc (length fs)) ((ip_stack ip)[length fs := ?f]) = fs @ [?f]"
    using short by simp
  then show ?thesis
    using short At_last [OF assms] put_at_int [of "length fs" "ip_stack ip" ?f] by (simp add: SetLeaf_def ip_holds_def)
next
  case long
  let ?f = "f\<lparr>pf_leaf := leaf\<rparr>"
  obtain ov where ov: "ip_overflow ip = ov @ [f]" "fs = ip_stack ip @ ov"
    using long by (cases "ip_overflow ip" rule: rev_cases) auto
  then have "int (length fs) - 16 = int (length ov)"
    using long by simp
  then show ?thesis
    using long ov At_last [OF assms] put_at_append [of ov "length ov" f "[]" ?f] by (simp add: SetLeaf_def ip_holds_def)
qed

lemma Truncate_holds:
  assumes "ip_holds ip (fs @ gs)" "n = int (length fs)"
  shows "\<exists>ip'. Truncate n ip = Some ip' \<and> ip_holds ip' fs"
proof (cases "length fs \<le> 16")
  case True
  from assms(1) have "fs = take (length fs) (ip_stack ip) \<and> length (ip_stack ip) = 16"
  proof (cases rule: ip_holds_cases)
    case short
    have "take (length fs) (take (length (fs @ gs)) (ip_stack ip)) = fs"
      unfolding short(4) by simp
    then show ?thesis
      using short(2) by (simp_all add: take_take)
  next
    case long
    then have "take (length fs) (fs @ gs) = take (length fs) (ip_stack ip)"
      using True by simp
    then show ?thesis
      using long(2) by simp_all
  qed
  then show ?thesis
    using True assms(2) by (auto simp: Truncate_def ip_holds_def)
next
  case False
  from assms(1) show ?thesis
  proof (cases rule: ip_holds_cases)
    case long
    then obtain ov where ov: "fs = ip_stack ip @ ov" "ip_overflow ip = ov @ gs"
      using False by (auto simp: append_eq_append_conv2 dest: arg_cong [where f = length])
    then have "int (length fs) - 16 = int (length ov)"
      using long by simp
    then show ?thesis
      using long ov False assms(2) slice_prefix [of "length ov" "ov @ gs"] by (simp add: Truncate_def ip_holds_def)
  qed (use False in simp)
qed

lemma FramesForInsert_holds:
  assumes "ip_holds ip fs"
  shows "FramesForInsert ip = Some fs"
  using assms
proof (cases rule: ip_holds_cases)
  case short
  then show ?thesis
    using slice_prefix [of "length fs" "ip_stack ip"] slice_prefix [of 0 "ip_overflow ip"] by (simp add: FramesForInsert_def Let_def)
next
  case long
  then have "int (length fs) - 16 = int (length (ip_overflow ip))"
    by simp
  then show ?thesis
    using long slice_prefix [of 16 "ip_stack ip"] slice_prefix [of "length (ip_overflow ip)" "ip_overflow ip"]
    by (simp add: FramesForInsert_def Let_def)
qed

section \<open>Trails\<close>

text \<open>
  A trail is a path of pages, bottom up, in which each page is the slot of the one above it that is
  noted there; its records before, at and after the slots.
\<close>

abbreviation recs_of :: "ctree \<Rightarrow> pos list" where
  "recs_of c \<equiv> leaves (flat c)"

definition all_recs :: "ctree list \<Rightarrow> pos list" where
  "all_recs cs = concat (map recs_of cs)"

lemma all_recs_simps [simp]:
  "all_recs [] = []" "all_recs (c # cs) = recs_of c @ all_recs cs" "all_recs (cs @ cs') = all_recs cs @ all_recs cs'"
  by (simp_all add: all_recs_def)

lemma recs_slots: "recs_of t = all_recs (slots t)"
  by (subst leaves_flat) (simp add: all_recs_def)

lemma recs_slot:
  assumes "n < length (slots t)"
  shows "recs_of t = all_recs (take n (slots t)) @ recs_of (slots t ! n) @ all_recs (drop (Suc n) (slots t))"
  unfolding recs_slots [of t] by (subst id_take_nth_drop [OF assms]) simp

definition slot_at :: "step \<Rightarrow> ctree" where
  "slot_at = (\<lambda>(i, t, n). slots t ! n)"

fun trail :: "(u64 \<rightharpoonup> node_page) \<Rightarrow> step list \<Rightarrow> bool" where
  "trail g [] \<longleftrightarrow> True"
| "trail g ((i, t, n) # cs) \<longleftrightarrow> holds g i t \<and> n < length (slots t) \<and> (cs \<noteq> [] \<longrightarrow> slot_at (hd cs) = Sub i t) \<and> trail g cs"

fun after :: "step list \<Rightarrow> pos list" where
  "after [] = []"
| "after ((i, t, n) # cs) = all_recs (drop (Suc n) (slots t)) @ after cs"

fun before :: "step list \<Rightarrow> pos list" where
  "before [] = []"
| "before ((i, t, n) # cs) = before cs @ all_recs (take n (slots t))"

text \<open>A trail that ends at a record.\<close>

definition at_record :: "step list \<Rightarrow> pos \<Rightarrow> bool" where
  "at_record cs p \<longleftrightarrow> cs \<noteq> [] \<and> slot_at (hd cs) = Rec p"

lemma recs_nonempty [simp]: "recs_of c \<noteq> []"
  by simp

text \<open>All records of the root are those before, at and after the position.\<close>

fun top :: "step list \<Rightarrow> ctree" where
  "top [] = Rec 0"
| "top [(i, t, n)] = t"
| "top (c # cs) = top cs"

lemma trail_recs: "trail g cs \<Longrightarrow> cs \<noteq> [] \<Longrightarrow> before cs @ recs_of (slot_at (hd cs)) @ after cs = recs_of (top cs)"
proof (induction cs)
  case (Cons c cs)
  obtain i t n where c: "c = (i, t, n)"
    by (cases c)
  have t: "n < length (slots t)" "cs \<noteq> [] \<Longrightarrow> slot_at (hd cs) = Sub i t" "trail g cs"
    using Cons.prems(1) by (simp_all add: c)
  show ?case
  proof (cases "cs = []")
    case True
    then show ?thesis
      using recs_slot [OF t(1)] by (simp add: c slot_at_def)
  next
    case False
    then obtain c' cs' where cs: "cs = c' # cs'"
      by (cases cs) auto
    then have "before cs @ recs_of t @ after cs = recs_of (top cs)"
      using Cons.IH [OF t(3) False] t(2) by simp
    then show ?thesis
      using recs_slot [OF t(1)] by (simp add: c cs slot_at_def)
  qed
qed simp

text \<open>The frames of a trail.\<close>

definition path_at :: "iter_path \<Rightarrow> step list \<Rightarrow> bool" where
  "path_at ip cs \<longleftrightarrow> ip_holds ip (rev (map fr cs))"

lemma path_at_len: "path_at ip cs \<Longrightarrow> ip_len ip = int (length cs)"
  by (simp add: path_at_def ip_holds_len)

lemma path_at_push: "path_at ip cs \<Longrightarrow> \<exists>ip'. PushNode i i (int n) ip = Some ip' \<and> path_at ip' ((i, t, n) # cs)"
  using PushNode_holds [of ip "rev (map fr cs)" i i "int n"] by (simp add: path_at_def fr_def)

lemma path_at_top: "path_at ip (c # cs) \<Longrightarrow> At ip (ip_len ip - 1) = Some (fr c)"
  using At_last [of ip "rev (map fr cs)" "fr c"] by (simp add: path_at_def)

lemma path_at_leaf: "path_at ip ((i, t, n) # cs) \<Longrightarrow> \<exists>ip'. SetLeaf (ip_len ip - 1) (int m) ip = Some ip' \<and> path_at ip' ((i, t, m) # cs)"
  using SetLeaf_last [of ip "rev (map fr cs)" "fr (i, t, n)" "int m"] by (simp add: path_at_def fr_def)

lemma path_at_pop: "path_at ip (cs' @ cs) \<Longrightarrow> k = int (length cs) \<Longrightarrow> \<exists>ip'. Truncate k ip = Some ip' \<and> path_at ip' cs"
  using Truncate_holds [of ip "rev (map fr cs)" "rev (map fr cs')" k] by (simp add: path_at_def)

lemma NodeForFrame_fr [op_simps]: "NodeForFrame (fr (i, t, n)) s = Some (Inr i, s)"
  by (simp add: NodeForFrame_def ret_def)

text \<open>A page on a trail.\<close>

lemma trail_page:
  assumes "trail (page_of s) ((i, t, n) # cs)"
  obtains p where "page_of s i = Some p" "page_size p = int (length (slots t))" "np_size p \<noteq> 0"
    "\<And>m. m < length (slots t) \<Longrightarrow> at (np_reps p) (int m) = Some (slot_rep (slots t ! m))"
proof -
  obtain p where p: "page_of s i = Some p" "page_ok p t"
    using holds_page [of "page_of s" i t] assms by auto
  then show ?thesis
    using that page_ok_at [OF p(2)] page_ok_size [OF p(2)] by (simp add: nl_ptop)
qed

section \<open>The first and the last record below a page\<close>

lemma slots_hd: "slots t = hd (slots t) # tl (slots t)"
  by simp

lemma LeftmostRecord_trail:
  assumes "holds (page_of s) i t" "path_at ip cs" "trail (page_of s) cs" "cs \<noteq> [] \<Longrightarrow> slot_at (hd cs) = Sub i t"
  shows "\<exists>ip' cs' p. LeftmostRecord ip i s = Some (Inr (True, ip'), s) \<and> path_at ip' cs' \<and> trail (page_of s) cs' \<and> at_record cs' p \<and>
    p # after cs' = recs_of t @ after cs \<and> before cs' = before cs"
  using assms
proof (induction "size t" arbitrary: i t ip cs rule: less_induct)
  case less
  let ?c = "(i, t, 0 :: nat)"
  have tr: "trail (page_of s) (?c # cs)"
    using less.prems by simp
  obtain p where pg: "page_of s i = Some p" "page_size p = int (length (slots t))" "np_size p \<noteq> 0"
    "\<And>m. m < length (slots t) \<Longrightarrow> at (np_reps p) (int m) = Some (slot_rep (slots t ! m))"
    using trail_page [OF tr] by blast
  note p = pg(1,3) pg(4) [of 0, simplified]
  obtain ip' where ip': "PushNode i i 0 ip = Some ip'" "path_at ip' (?c # cs)"
    using path_at_push [OF less.prems(2), of i 0 t] by auto
  have split: "recs_of t = recs_of (slots t ! 0) @ all_recs (drop (Suc 0) (slots t))"
    using recs_slot [of 0 t] by simp
  have n: "0 < length (slots t)"
    by simp
  from less.prems(1) n show ?case
  proof (cases rule: slot_nth_cases)
    case (1 q)
    have "LeftmostRecord ip i s = Some (Inr (True, ip'), s)"
      using p ip'(1) 1 by (subst LeftmostRecord.simps) (simp add: op_simps)
    then show ?thesis
      using ip'(2) tr 1 split by (intro exI [of _ ip'] exI [of _ "?c # cs"] exI [of _ q]) (simp add: at_record_def slot_at_def)
  next
    case (2 j v)
    have "LeftmostRecord ip i s = LeftmostRecord ip' j s"
      using p ip'(1) 2 by (subst LeftmostRecord.simps) (simp add: op_simps)
    moreover have "slot_at (hd (?c # cs)) = Sub j v"
      using 2 by (simp add: slot_at_def)
    ultimately show ?thesis
      using less.hyps [OF size_slot [OF 2(4)] 2(3) ip'(2) tr] 2 split by simp
  qed
qed

lemma RightmostRecord_trail:
  assumes "holds (page_of s) i t" "path_at ip cs" "trail (page_of s) cs" "cs \<noteq> [] \<Longrightarrow> slot_at (hd cs) = Sub i t"
  shows "\<exists>ip' cs' p. RightmostRecord ip i s = Some (Inr (True, ip'), s) \<and> path_at ip' cs' \<and> trail (page_of s) cs' \<and> at_record cs' p \<and>
    before cs' @ [p] = before cs @ recs_of t \<and> after cs' = after cs"
  using assms
proof (induction "size t" arbitrary: i t ip cs rule: less_induct)
  case less
  define n where "n = length (slots t) - 1"
  let ?c = "(i, t, n)"
  have n: "n < length (slots t)" "drop (Suc n) (slots t) = []"
    by (simp_all add: n_def)
  have tr: "trail (page_of s) (?c # cs)"
    using less.prems n(1) by simp
  obtain p where pg: "page_of s i = Some p" "page_size p = int (length (slots t))" "np_size p \<noteq> 0"
    "\<And>m. m < length (slots t) \<Longrightarrow> at (np_reps p) (int m) = Some (slot_rep (slots t ! m))"
    using trail_page [OF tr] by blast
  have "page_size p - 1 = int n"
    using pg(2) by (simp add: n_def of_nat_diff Suc_le_eq)
  note p = pg(1,3) this pg(4) [OF n(1)]
  obtain ip' where ip': "PushNode i i (int n) ip = Some ip'" "path_at ip' (?c # cs)"
    using path_at_push [OF less.prems(2), of i n t] by auto
  have split: "recs_of t = all_recs (take n (slots t)) @ recs_of (slots t ! n)"
    using recs_slot [OF n(1)] n(2) by simp
  from less.prems(1) n(1) show ?case
  proof (cases rule: slot_nth_cases)
    case (1 q)
    have "RightmostRecord ip i s = Some (Inr (True, ip'), s)"
      using p ip'(1) 1 by (subst RightmostRecord.simps) (simp add: op_simps)
    then show ?thesis
      using ip'(2) tr 1 split n(2) by (intro exI [of _ ip'] exI [of _ "?c # cs"] exI [of _ q]) (simp add: at_record_def slot_at_def)
  next
    case (2 j v)
    have "RightmostRecord ip i s = RightmostRecord ip' j s"
      using p ip'(1) 2 by (subst RightmostRecord.simps) (simp add: op_simps)
    moreover have "slot_at (hd (?c # cs)) = Sub j v"
      using 2 by (simp add: slot_at_def)
    ultimately show ?thesis
      using less.hyps [OF size_slot [OF 2(4)] 2(3) ip'(2) tr] 2 split n(2) by simp
  qed
qed

section \<open>Moves\<close>

text \<open>The result of a move forward to the first of the records \<open>xs\<close>, and back to the last of them.\<close>

definition moved :: "heap_node_store \<Rightarrow> ((mp_status + bool \<times> iter_path) \<times> heap_node_store) option \<Rightarrow> pos list \<Rightarrow> bool" where
  "moved s r xs \<longleftrightarrow> (\<exists>b ip. r = Some (Inr (b, ip), s) \<and> b = (xs \<noteq> []) \<and>
     (b \<longrightarrow> (\<exists>cs q. path_at ip cs \<and> trail (page_of s) cs \<and> at_record cs q \<and> q # after cs = xs)))"

definition moved_back :: "heap_node_store \<Rightarrow> ((mp_status + bool \<times> iter_path) \<times> heap_node_store) option \<Rightarrow> pos list \<Rightarrow> bool" where
  "moved_back s r xs \<longleftrightarrow> (\<exists>b ip. r = Some (Inr (b, ip), s) \<and> b = (xs \<noteq> []) \<and>
     (b \<longrightarrow> (\<exists>cs q. path_at ip cs \<and> trail (page_of s) cs \<and> at_record cs q \<and> before cs @ [q] = xs)))"

lemma moved_none: "moved s (ret (False, ip) s) []" "moved_back s (ret (False, ip) s) []"
  by (auto simp: moved_def moved_back_def ret_def)

lemma moved_leftmost:
  assumes "holds (page_of s) i t" "path_at ip cs" "trail (page_of s) cs" "cs \<noteq> [] \<Longrightarrow> slot_at (hd cs) = Sub i t"
  shows "moved s (LeftmostRecord ip i s) (recs_of t @ after cs)"
  using LeftmostRecord_trail [OF assms] by (fastforce simp: moved_def)

lemma moved_rightmost:
  assumes "holds (page_of s) i t" "path_at ip cs" "trail (page_of s) cs" "cs \<noteq> [] \<Longrightarrow> slot_at (hd cs) = Sub i t"
  shows "moved_back s (RightmostRecord ip i s) (before cs @ recs_of t)"
  using RightmostRecord_trail [OF assms] by (fastforce simp: moved_back_def)

text \<open>Going down from a slot of the last page.\<close>

definition enter :: "(iter_path \<Rightarrow> u64 \<Rightarrow> (bool \<times> iter_path) iop) \<Rightarrow> iter_path \<Rightarrow> node_page \<Rightarrow> int \<Rightarrow> (bool \<times> iter_path) iop" where
  "enter down ip p m =
     bindM (chk (SetLeaf (ip_len ip - 1) m ip)) (\<lambda>path'.
     bindM (chk (at (np_reps p) m)) (\<lambda>r.
       if is_child r then down path' (child_id r) else ret (True, path')))"

lemma enter_down:
  assumes "path_at ip ((i, t, n) # cs)" "trail (page_of s) ((i, t, m) # cs)" "page_of s i = Some p"
    "\<And>j v ip'. holds (page_of s) j v \<Longrightarrow> path_at ip' ((i, t, m) # cs) \<Longrightarrow> slots t ! m = Sub j v \<Longrightarrow> P (down ip' j s)"
    "\<And>q ip'. path_at ip' ((i, t, m) # cs) \<Longrightarrow> slots t ! m = Rec q \<Longrightarrow> P (ret (True, ip') s)"
  shows "P (enter down ip p (int m) s)"
proof -
  obtain ip' where ip': "SetLeaf (ip_len ip - 1) (int m) ip = Some ip'" "path_at ip' ((i, t, m) # cs)"
    using path_at_leaf [OF assms(1)] by blast
  have m: "m < length (slots t)" "holds (page_of s) i t"
    using assms(2) by simp_all
  have rep: "at (np_reps p) (int m) = Some (slot_rep (slots t ! m))"
    using trail_page [OF assms(2)] assms(3) m(1) by (metis option.inject)
  have run: "enter down ip p (int m) s =
      (if is_child (slot_rep (slots t ! m)) then down ip' (child_id (slot_rep (slots t ! m))) else ret (True, ip')) s"
    using ip'(1) rep by (simp add: enter_def op_simps)
  from m(2,1) show ?thesis
  proof (cases rule: slot_nth_cases)
    case (1 q)
    then show ?thesis
      using run assms(5) [OF ip'(2)] by simp
  next
    case (2 j v)
    then show ?thesis
      using run assms(4) [OF 2(3) ip'(2)] by simp
  qed
qed

lemma enter_left:
  assumes "path_at ip ((i, t, n) # cs)" "trail (page_of s) ((i, t, m) # cs)" "page_of s i = Some p"
  shows "moved s (enter LeftmostRecord ip p (int m) s) (all_recs (drop m (slots t)) @ after cs)"
proof (rule enter_down [OF assms])
  have m: "m < length (slots t)"
    using assms(2) by simp
  have split: "all_recs (drop m (slots t)) = recs_of (slots t ! m) @ all_recs (drop (Suc m) (slots t))"
    using m by (simp add: Cons_nth_drop_Suc [symmetric])
  show "moved s (LeftmostRecord ip' j s) (all_recs (drop m (slots t)) @ after cs)"
    if "holds (page_of s) j v" "path_at ip' ((i, t, m) # cs)" "slots t ! m = Sub j v" for j v ip'
    using moved_leftmost [OF that(1,2) assms(2)] that(3) split by (simp add: slot_at_def)
  show "moved s (ret (True, ip') s) (all_recs (drop m (slots t)) @ after cs)"
    if "path_at ip' ((i, t, m) # cs)" "slots t ! m = Rec q" for q ip'
    unfolding moved_def using that assms(2) split
    by (intro exI [of _ True] exI [of _ ip'] conjI) (auto simp: ret_def at_record_def slot_at_def intro!: exI [of _ "(i, t, m) # cs"])
qed

lemma enter_right:
  assumes "path_at ip ((i, t, n) # cs)" "trail (page_of s) ((i, t, m) # cs)" "page_of s i = Some p"
  shows "moved_back s (enter RightmostRecord ip p (int m) s) (before cs @ all_recs (take (Suc m) (slots t)))"
proof (rule enter_down [OF assms])
  have m: "m < length (slots t)"
    using assms(2) by simp
  have split: "all_recs (take (Suc m) (slots t)) = all_recs (take m (slots t)) @ recs_of (slots t ! m)"
    using m by (simp add: take_Suc_conv_app_nth)
  show "moved_back s (RightmostRecord ip' j s) (before cs @ all_recs (take (Suc m) (slots t)))"
    if "holds (page_of s) j v" "path_at ip' ((i, t, m) # cs)" "slots t ! m = Sub j v" for j v ip'
    using moved_rightmost [OF that(1,2) assms(2)] that(3) split by (simp add: slot_at_def)
  show "moved_back s (ret (True, ip') s) (before cs @ all_recs (take (Suc m) (slots t)))"
    if "path_at ip' ((i, t, m) # cs)" "slots t ! m = Rec q" for q ip'
    unfolding moved_back_def using that assms(2) split
    by (intro exI [of _ True] exI [of _ ip'] conjI) (auto simp: ret_def at_record_def slot_at_def intro!: exI [of _ "(i, t, m) # cs"])
qed

text \<open>\<^verbatim>\<open>NextPath\<close> and \<^verbatim>\<open>PrevPath\<close>.\<close>

lemma NextPath_trail: "path_at ip cs \<Longrightarrow> trail (page_of s) cs \<Longrightarrow> moved s (NextPath ip s) (after cs)"
proof (induction cs arbitrary: ip)
  case Nil
  then show ?case
    using moved_none(1) [of s ip] path_at_len [of ip "[]"] by (subst NextPath.simps) simp
next
  case (Cons c cs)
  obtain i t n where c: "c = (i, t, n)"
    by (cases c)
  have tr: "trail (page_of s) ((i, t, n) # cs)" "path_at ip ((i, t, n) # cs)"
    using Cons.prems by (simp_all add: c)
  obtain p where p: "page_of s i = Some p" "page_size p = int (length (slots t))"
    using trail_page [OF tr(1)] by blast
  have run: "NextPath ip s = (if Suc n < length (slots t) then enter LeftmostRecord ip p (int (Suc n)) s
      else bindM (chk (Truncate (int (length cs)) ip)) NextPath s)"
    using path_at_top [OF tr(2)] path_at_len [OF tr(2)] p
    by (subst NextPath.simps) (auto simp: op_simps enter_def add.commute)
  show ?case
  proof (cases "Suc n < length (slots t)")
    case True
    then have "trail (page_of s) ((i, t, Suc n) # cs)"
      using tr(1) by simp
    from enter_left [OF tr(2) this p(1)] show ?thesis
      using run True by (simp add: c)
  next
    case False
    obtain ip' where ip': "Truncate (int (length cs)) ip = Some ip'" "path_at ip' cs"
      using path_at_pop [of ip "[c]" cs] Cons.prems(1) by auto
    show ?thesis
      using run False ip' Cons.IH [OF ip'(2)] tr(1) by (simp add: c op_simps)
  qed
qed

lemma PrevPath_trail: "path_at ip cs \<Longrightarrow> trail (page_of s) cs \<Longrightarrow> moved_back s (PrevPath ip s) (before cs)"
proof (induction cs arbitrary: ip)
  case Nil
  then show ?case
    using moved_none(2) [of s ip] path_at_len [of ip "[]"] by (subst PrevPath.simps) simp
next
  case (Cons c cs)
  obtain i t n where c: "c = (i, t, n)"
    by (cases c)
  have tr: "trail (page_of s) ((i, t, n) # cs)" "path_at ip ((i, t, n) # cs)"
    using Cons.prems by (simp_all add: c)
  obtain p where p: "page_of s i = Some p" "page_size p = int (length (slots t))"
    using trail_page [OF tr(1)] by blast
  have run: "PrevPath ip s = (if 0 < n then enter RightmostRecord ip p (int (n - 1)) s
      else bindM (chk (Truncate (int (length cs)) ip)) PrevPath s)"
    using path_at_top [OF tr(2)] path_at_len [OF tr(2)] p
    by (subst PrevPath.simps) (auto simp: op_simps enter_def of_nat_diff)
  show ?case
  proof (cases "0 < n")
    case True
    then have "trail (page_of s) ((i, t, n - 1) # cs)"
      using tr(1) by auto
    from enter_right [OF tr(2) this p(1)] show ?thesis
      using run True by (simp add: c)
  next
    case False
    obtain ip' where ip': "Truncate (int (length cs)) ip = Some ip'" "path_at ip' cs"
      using path_at_pop [of ip "[c]" cs] Cons.prems(1) by auto
    show ?thesis
      using run False ip' Cons.IH [OF ip'(2)] tr(1) by (simp add: c op_simps)
  qed
qed

section \<open>Visits\<close>

text \<open>The visit of a list of entries, until the callback wants no more.\<close>

fun visit_list :: "'c visitor \<Rightarrow> 'c \<Rightarrow> (key \<times> pos) list \<Rightarrow> 'c" where
  "visit_list fn c [] = c"
| "visit_list fn c ((k, p) # es) = (if fst (fn c k p) then visit_list fn (snd (fn c k p)) es else snd (fn c k p))"

definition below_key :: "key option \<Rightarrow> key \<times> pos \<Rightarrow> bool" where
  "below_key b e = (case b of None \<Rightarrow> True | Some u \<Rightarrow> fst e < u)"

definition above_key :: "key option \<Rightarrow> key \<times> pos \<Rightarrow> bool" where
  "above_key b e = (case b of None \<Rightarrow> True | Some u \<Rightarrow> u < fst e)"

abbreviation entry_of :: "(pos \<Rightarrow> key) \<Rightarrow> pos \<Rightarrow> key \<times> pos" where
  "entry_of kf p \<equiv> (kf p, p)"

lemma stop_up: "(case b of None \<Rightarrow> False | Some u \<Rightarrow> CompareKeys (fst e) u \<ge> 0) = (\<not> below_key b e)"
  using CompareKeys_neg [of "fst e"] by (auto simp: below_key_def not_less [symmetric] split: option.split)

lemma stop_down: "(case b of None \<Rightarrow> False | Some u \<Rightarrow> CompareKeys (fst e) u \<le> 0) = (\<not> above_key b e)"
  using CompareKeys_pos [of "fst e"] by (auto simp: above_key_def not_less [symmetric] split: option.split)

lemma CurrentRecord_trail:
  assumes "path_at ip cs" "trail (page_of s) cs" "at_record cs q" "K q = Inr k" "key_ok k"
  shows "CurrentRecord K ip s = Some (Inr (k, q), s)"
proof -
  obtain i t n cs' where cs: "cs = (i, t, n) # cs'" "slots t ! n = Rec q"
    using assms(3) by (cases cs) (auto simp: at_record_def slot_at_def)
  have tr: "trail (page_of s) ((i, t, n) # cs')" "path_at ip ((i, t, n) # cs')" "n < length (slots t)" "untagged q"
    using assms(1,2) cs holds_slots_held [of "page_of s" i t] nth_mem [of n "slots t"] by (auto simp: slots_held_def)
  obtain p where pg: "page_of s i = Some p" "page_size p = int (length (slots t))" "np_size p \<noteq> 0"
    "\<And>m. m < length (slots t) \<Longrightarrow> at (np_reps p) (int m) = Some (slot_rep (slots t ! m))"
    using trail_page [OF tr(1)] by blast
  show ?thesis
    using pg(1,2) pg(4) [OF tr(3)] tr(3,4) cs(2) path_at_top [OF tr(2)] path_at_len [OF tr(2)] assms(4,5)
    by (simp add: CurrentRecord_def op_simps Key_def CheckKeySize_def key_ok_def)
qed

lemma AscendFromPath_trail:
  assumes "path_at ip cs" "trail (page_of s) cs" "at_record cs q" "keys_of K kf (set (q # after cs))"
  shows "AscendFromPath K b fn c ip s = Some (Inr (visit_list fn c (takeWhile (below_key b) (map (entry_of kf) (q # after cs)))), s)"
  using assms
proof (induction "length (after cs)" arbitrary: ip cs q c rule: less_induct)
  case less
  have len: "ip_len ip > 0"
    using less.prems(1,3) by (cases cs) (simp_all add: path_at_len at_record_def)
  have cur: "CurrentRecord K ip s = Some (Inr (kf q, q), s)"
    using CurrentRecord_trail [OF less.prems(1-3)] less.prems(4) by (simp add: keys_of_def)
  obtain go ip' where nx: "NextPath ip s = Some (Inr (go, ip'), s)" "go = (after cs \<noteq> [])"
    "go \<longrightarrow> (\<exists>cs' q'. path_at ip' cs' \<and> trail (page_of s) cs' \<and> at_record cs' q' \<and> q' # after cs' = after cs)"
    using NextPath_trail [OF less.prems(1,2)] by (auto simp: moved_def)
  have run: "AscendFromPath K b fn c ip s =
      (if \<not> below_key b (kf q, q) then Some (Inr c, s)
       else if \<not> fst (fn c (kf q) q) \<or> \<not> go then Some (Inr (snd (fn c (kf q) q)), s)
       else AscendFromPath K b fn (snd (fn c (kf q) q)) ip' s)"
    using len cur nx(1) by (subst AscendFromPath.simps) (simp add: op_simps stop_up)
  show ?case
  proof (cases "below_key b (kf q, q) \<and> fst (fn c (kf q) q) \<and> go")
    case True
    then obtain cs' q' where cs': "path_at ip' cs'" "trail (page_of s) cs'" "at_record cs' q'" "q' # after cs' = after cs"
      using nx(3) by blast
    have "keys_of K kf (set (q' # after cs'))"
      using less.prems(4) unfolding cs'(4) by (simp add: keys_of_def)
    moreover have "length (after cs') < length (after cs)"
      unfolding cs'(4) [symmetric] by simp
    ultimately have "AscendFromPath K b fn (snd (fn c (kf q) q)) ip' s =
        Some (Inr (visit_list fn (snd (fn c (kf q) q)) (takeWhile (below_key b) (map (entry_of kf) (after cs)))), s)"
      using less.hyps [OF _ cs'(1-3)] unfolding cs'(4) by blast
    then show ?thesis
      using run True by simp
  next
    case False
    then show ?thesis
      using run nx(2) by auto
  qed
qed

lemma DescendFromPath_trail:
  assumes "path_at ip cs" "trail (page_of s) cs" "at_record cs q" "keys_of K kf (set (before cs @ [q]))"
  shows "DescendFromPath K b fn c ip s = Some (Inr (visit_list fn c (takeWhile (above_key b) (map (entry_of kf) (rev (before cs @ [q]))))), s)"
  using assms
proof (induction "length (before cs)" arbitrary: ip cs q c rule: less_induct)
  case less
  have len: "ip_len ip > 0"
    using less.prems(1,3) by (cases cs) (simp_all add: path_at_len at_record_def)
  have cur: "CurrentRecord K ip s = Some (Inr (kf q, q), s)"
    using CurrentRecord_trail [OF less.prems(1-3)] less.prems(4) by (simp add: keys_of_def)
  obtain go ip' where nx: "PrevPath ip s = Some (Inr (go, ip'), s)" "go = (before cs \<noteq> [])"
    "go \<longrightarrow> (\<exists>cs' q'. path_at ip' cs' \<and> trail (page_of s) cs' \<and> at_record cs' q' \<and> before cs' @ [q'] = before cs)"
    using PrevPath_trail [OF less.prems(1,2)] by (auto simp: moved_back_def)
  have run: "DescendFromPath K b fn c ip s =
      (if \<not> above_key b (kf q, q) then Some (Inr c, s)
       else if \<not> fst (fn c (kf q) q) \<or> \<not> go then Some (Inr (snd (fn c (kf q) q)), s)
       else DescendFromPath K b fn (snd (fn c (kf q) q)) ip' s)"
    using len cur nx(1) by (subst DescendFromPath.simps) (simp add: op_simps stop_down)
  show ?case
  proof (cases "above_key b (kf q, q) \<and> fst (fn c (kf q) q) \<and> go")
    case True
    then obtain cs' q' where cs': "path_at ip' cs'" "trail (page_of s) cs'" "at_record cs' q'" "before cs' @ [q'] = before cs"
      using nx(3) by blast
    have "keys_of K kf (set (before cs' @ [q']))"
      using less.prems(4) unfolding cs'(4) by (simp add: keys_of_def)
    moreover have "length (before cs') < length (before cs)"
      unfolding cs'(4) [symmetric] by simp
    ultimately have "DescendFromPath K b fn (snd (fn c (kf q) q)) ip' s =
        Some (Inr (visit_list fn (snd (fn c (kf q) q)) (takeWhile (above_key b) (map (entry_of kf) (rev (before cs))))), s)"
      using less.hyps [OF _ cs'(1-3)] unfolding cs'(4) by blast
    then show ?thesis
      using run True by simp
  next
    case False
    then show ?thesis
      using run nx(2) by auto
  qed
qed

section \<open>Whole visits\<close>

lemma LeftmostRoot_tree:
  assumes "tree_rep (page_of s) root T"
  shows "moved s (LeftmostRoot root IterPath s) (tree_pos T)"
proof (cases T)
  case None
  then obtain p where "page_of s root = Some p" "np_size p = 0"
    using assms by (auto simp: tree_rep_def)
  then show ?thesis
    using None moved_none(1) by (simp add: LeftmostRoot_def node_at_def op_simps tree_pos_def)
next
  case (Some t)
  then have h: "holds (page_of s) root t"
    using assms by (simp add: tree_rep_def)
  then obtain p where "page_of s root = Some p" "np_size p \<noteq> 0"
    using holds_page page_ok_size by blast
  moreover have "path_at (Reset IterPath) []"
    using ip_holds_Reset [OF ip_holds_new] by (simp add: path_at_def)
  ultimately show ?thesis
    using Some moved_leftmost [OF h, of "Reset IterPath" "[]"] by (simp add: LeftmostRoot_def node_at_def op_simps tree_pos_def)
qed

lemma RightmostRoot_tree:
  assumes "tree_rep (page_of s) root T"
  shows "moved_back s (RightmostRoot root IterPath s) (tree_pos T)"
proof (cases T)
  case None
  then obtain p where "page_of s root = Some p" "np_size p = 0"
    using assms by (auto simp: tree_rep_def)
  then show ?thesis
    using None moved_none(2) by (simp add: RightmostRoot_def node_at_def op_simps tree_pos_def)
next
  case (Some t)
  then have h: "holds (page_of s) root t"
    using assms by (simp add: tree_rep_def)
  then obtain p where "page_of s root = Some p" "np_size p \<noteq> 0"
    using holds_page page_ok_size by blast
  moreover have "path_at (Reset IterPath) []"
    using ip_holds_Reset [OF ip_holds_new] by (simp add: path_at_def)
  ultimately show ?thesis
    using Some moved_rightmost [OF h, of "Reset IterPath" "[]"] by (simp add: RightmostRoot_def node_at_def op_simps tree_pos_def)
qed

text \<open>A visit from where a move has led to.\<close>

lemma ascend_moved:
  assumes "moved s (m s) xs" "keys_of K kf (set xs)"
  shows "bindM m (\<lambda>r. if \<not> fst r then ret c else AscendFromPath K b fn c (snd r)) s =
    Some (Inr (visit_list fn c (takeWhile (below_key b) (map (entry_of kf) xs))), s)"
proof -
  obtain go ip where m: "m s = Some (Inr (go, ip), s)" "go = (xs \<noteq> [])"
    "go \<longrightarrow> (\<exists>cs q. path_at ip cs \<and> trail (page_of s) cs \<and> at_record cs q \<and> q # after cs = xs)"
    using assms(1) by (auto simp: moved_def)
  show ?thesis
  proof (cases go)
    case True
    then obtain cs q where cs: "path_at ip cs" "trail (page_of s) cs" "at_record cs q" "q # after cs = xs"
      using m(3) by blast
    show ?thesis
      using AscendFromPath_trail [OF cs(1-3)] assms(2) m(1) True unfolding cs(4) by (simp add: op_simps)
  qed (use m in \<open>simp add: op_simps\<close>)
qed

lemma descend_moved:
  assumes "moved_back s (m s) xs" "keys_of K kf (set xs)"
  shows "bindM m (\<lambda>r. if \<not> fst r then ret c else DescendFromPath K b fn c (snd r)) s =
    Some (Inr (visit_list fn c (takeWhile (above_key b) (map (entry_of kf) (rev xs)))), s)"
proof -
  obtain go ip where m: "m s = Some (Inr (go, ip), s)" "go = (xs \<noteq> [])"
    "go \<longrightarrow> (\<exists>cs q. path_at ip cs \<and> trail (page_of s) cs \<and> at_record cs q \<and> before cs @ [q] = xs)"
    using assms(1) by (auto simp: moved_back_def)
  show ?thesis
  proof (cases go)
    case True
    then obtain cs q where cs: "path_at ip cs" "trail (page_of s) cs" "at_record cs q" "before cs @ [q] = xs"
      using m(3) by blast
    show ?thesis
      using DescendFromPath_trail [OF cs(1-3)] assms(2) m(1) True unfolding cs(4) by (simp add: op_simps)
  qed (use m in \<open>simp add: op_simps\<close>)
qed

lemma takeWhile_closed:
  assumes "sorted_wrt R es" "\<And>x y. R x y \<Longrightarrow> P y \<Longrightarrow> P x"
  shows "takeWhile P es = filter P es"
  using assms(1)
proof (induction es)
  case (Cons e es)
  then have "\<not> P e \<Longrightarrow> filter P es = []"
    using assms(2) [of e] by (auto simp: filter_empty_conv)
  with Cons show ?case
    by simp
qed simp

lemma takeWhile_sorted:
  assumes "sorted_wrt (<) (map fst es)"
  shows "takeWhile (below_key b) es = filter (below_key b) es" "takeWhile (above_key b) (rev es) = filter (above_key b) (rev es)"
proof -
  show "takeWhile (below_key b) es = filter (below_key b) es"
    by (rule takeWhile_closed [where R = "\<lambda>x y. fst x < fst y"])
      (use assms in \<open>auto simp: sorted_wrt_map below_key_def split: option.splits\<close>)
  show "takeWhile (above_key b) (rev es) = filter (above_key b) (rev es)"
    by (rule takeWhile_closed [where R = "\<lambda>x y. fst y < fst x"])
      (use assms in \<open>auto simp: sorted_wrt_map sorted_wrt_rev above_key_def split: option.splits\<close>)
qed

text \<open>The operations of the index.\<close>

lemma index_parts:
  assumes "index_holds K x es"
  obtains kf T where "tree_rep (page_of (ix_nodes x)) (ix_root_id x) T" "keys_of K kf (set (tree_pos T))" "es = map (entry_of kf) (tree_pos T)"
    "tree_pat kf T"
  using assms by (auto simp: index_holds_def index_inv_def)

lemma Ascend_bounded:
  assumes "index_holds K x es"
  shows "on_nodes (\<lambda>root. bindM (LeftmostRoot root IterPath) (\<lambda>r. if \<not> fst r then ret c else AscendFromPath K b fn c (snd r))) x =
    Some (Inr (visit_list fn c (filter (below_key b) es)), x)"
proof -
  obtain kf T where T: "tree_rep (page_of (ix_nodes x)) (ix_root_id x) T" "keys_of K kf (set (tree_pos T))" "es = map (entry_of kf) (tree_pos T)"
    using index_parts [OF assms] by blast
  show ?thesis
    using ascend_moved [where m = "LeftmostRoot (ix_root_id x) IterPath", OF LeftmostRoot_tree [OF T(1)] T(2)] takeWhile_sorted(1) [OF index_holds_sorted(1) [OF assms]] T(3)
    by (intro on_nodes_same) simp
qed

lemma Descend_bounded:
  assumes "index_holds K x es"
  shows "on_nodes (\<lambda>root. bindM (RightmostRoot root IterPath) (\<lambda>r. if \<not> fst r then ret c else DescendFromPath K b fn c (snd r))) x =
    Some (Inr (visit_list fn c (filter (above_key b) (rev es))), x)"
proof -
  obtain kf T where T: "tree_rep (page_of (ix_nodes x)) (ix_root_id x) T" "keys_of K kf (set (tree_pos T))" "es = map (entry_of kf) (tree_pos T)"
    using index_parts [OF assms] by blast
  show ?thesis
    using descend_moved [where m = "RightmostRoot (ix_root_id x) IterPath", OF RightmostRoot_tree [OF T(1)] T(2)] takeWhile_sorted(2) [OF index_holds_sorted(1) [OF assms]] T(3)
    by (intro on_nodes_same) (simp add: rev_map)
qed

lemma key_bounds [simp]: "below_key None = (\<lambda>_. True)" "above_key None = (\<lambda>_. True)" "below_key (Some u) = (\<lambda>e. fst e < u)"
  "above_key (Some u) = (\<lambda>e. u < fst e)"
  by (simp_all add: below_key_def above_key_def fun_eq_iff)

lemma Ascend_holds: "index_holds K x es \<Longrightarrow> Ascend K fn c x = Some (Inr (visit_list fn c es), x)"
  using Ascend_bounded [of K x es c None fn] by (simp add: Ascend_def)

lemma Descend_holds: "index_holds K x es \<Longrightarrow> Descend K fn c x = Some (Inr (visit_list fn c (rev es)), x)"
  using Descend_bounded [of K x es c None fn] by (simp add: Descend_def)

lemma AscendLessThan_holds:
  "index_holds K x es \<Longrightarrow> key_ok u \<Longrightarrow> AscendLessThan K u fn c x = Some (Inr (visit_list fn c (filter (\<lambda>e. fst e < u) es)), x)"
  using Ascend_bounded [of K x es c "Some u" fn] by (simp add: AscendLessThan_def CheckKeySize_key_ok op_simps)

lemma DescendGreaterThan_holds:
  "index_holds K x es \<Longrightarrow> key_ok u \<Longrightarrow> DescendGreaterThan K u fn c x = Some (Inr (visit_list fn c (filter (\<lambda>e. u < fst e) (rev es))), x)"
  using Descend_bounded [of K x es c "Some u" fn] by (simp add: DescendGreaterThan_def CheckKeySize_key_ok op_simps)

end
