(* ===== verification/SeekFacts.thy ===== *)
theory SeekFacts
  imports IterFacts
begin

text \<open>
  The seeks of the ordered iteration (index.h): the descent of \<^verbatim>\<open>SeekGreaterOrEqual\<close> and
  \<^verbatim>\<open>SeekLessOrEqual\<close> ends at the record of the key, or at the place where the key would be
  inserted, and the position is the first record from there, or the last one up to there. The ranges
  that start with a seek are therefore the filtered entries.
\<close>

section \<open>Positions between two slots\<close>

lemma after_loop_trail:
  "path_at ip ((i, t, n) # cs) \<Longrightarrow> trail (page_of s) ((i, t, n) # cs) \<Longrightarrow> m \<le> length (slots t) \<Longrightarrow>
   moved s (after_loop ip (int m) s) (all_recs (drop m (slots t)) @ after cs)"
proof (induction cs arbitrary: ip i t n m)
  case Nil
  obtain p where p: "page_of s i = Some p" "page_size p = int (length (slots t))"
    using trail_page [OF Nil(2)] by blast
  have run: "after_loop ip (int m) s = (if m < length (slots t) then enter LeftmostRecord ip p (int m) s else ret (False, ip) s)"
    using path_at_top [OF Nil(1)] path_at_len [OF Nil(1)] p Nil(3)
    by (subst after_loop.simps) (auto simp: op_simps enter_def)
  have "m < length (slots t) \<Longrightarrow> trail (page_of s) [(i, t, m)]"
    using Nil(2) by simp
  then show ?case
    using run enter_left [OF Nil(1) _ p(1)] moved_none(1) Nil(3) by simp
next
  case (Cons c cs)
  obtain i' t' n' where c: "c = (i', t', n')"
    by (cases c)
  obtain p where p: "page_of s i = Some p" "page_size p = int (length (slots t))"
    using trail_page [OF Cons.prems(2)] by blast
  obtain ip' where ip': "Truncate (int (Suc (length cs))) ip = Some ip'" "path_at ip' ((i', t', n') # cs)"
    using path_at_pop [of ip "[(i, t, n)]" "c # cs"] Cons.prems(1) c by auto
  have tr: "trail (page_of s) ((i', t', n') # cs)"
    using Cons.prems(2) c by simp
  have run: "after_loop ip (int m) s =
      (if m < length (slots t) then enter LeftmostRecord ip p (int m) s else after_loop ip' (int (Suc n')) s)"
    using path_at_top [OF Cons.prems(1)] path_at_len [OF Cons.prems(1)] p Cons.prems(3) ip'(1) path_at_top [OF ip'(2)]
    by (subst after_loop.simps) (auto simp: op_simps enter_def add.commute)
  show ?case
  proof (cases "m < length (slots t)")
    case True
    then have "trail (page_of s) ((i, t, m) # c # cs)"
      using Cons.prems(2) by simp
    from enter_left [OF Cons.prems(1) this p(1)] show ?thesis
      using run True by simp
  next
    case False
    moreover have "Suc n' \<le> length (slots t')"
      using tr by simp
    ultimately show ?thesis
      using run Cons.IH [OF ip'(2) tr, of "Suc n'"] by (simp add: c)
  qed
qed

lemma before_loop_trail:
  "path_at ip ((i, t, n) # cs) \<Longrightarrow> trail (page_of s) ((i, t, n) # cs) \<Longrightarrow> m \<le> length (slots t) \<Longrightarrow>
   moved_back s (before_loop ip (int m) s) (before cs @ all_recs (take m (slots t)))"
proof (induction cs arbitrary: ip i t n m)
  case Nil
  obtain p where p: "page_of s i = Some p" "page_size p = int (length (slots t))"
    using trail_page [OF Nil(2)] by blast
  have run: "before_loop ip (int m) s = (if 0 < m then enter RightmostRecord ip p (int (m - 1)) s else ret (False, ip) s)"
    using path_at_top [OF Nil(1)] path_at_len [OF Nil(1)] p Nil(3)
    by (subst before_loop.simps) (auto simp: op_simps enter_def of_nat_diff)
  have "0 < m \<Longrightarrow> trail (page_of s) [(i, t, m - 1)]"
    using Nil(2,3) by auto
  then show ?case
    using run enter_right [OF Nil(1) _ p(1), of "m - 1"] moved_none(2) by (cases m) simp_all
next
  case (Cons c cs)
  obtain i' t' n' where c: "c = (i', t', n')"
    by (cases c)
  obtain p where p: "page_of s i = Some p" "page_size p = int (length (slots t))"
    using trail_page [OF Cons.prems(2)] by blast
  obtain ip' where ip': "Truncate (int (Suc (length cs))) ip = Some ip'" "path_at ip' ((i', t', n') # cs)"
    using path_at_pop [of ip "[(i, t, n)]" "c # cs"] Cons.prems(1) c by auto
  have tr: "trail (page_of s) ((i', t', n') # cs)"
    using Cons.prems(2) c by simp
  have run: "before_loop ip (int m) s =
      (if 0 < m then enter RightmostRecord ip p (int (m - 1)) s else before_loop ip' (int n') s)"
    using path_at_top [OF Cons.prems(1)] path_at_len [OF Cons.prems(1)] p Cons.prems(3) ip'(1) path_at_top [OF ip'(2)]
    by (subst before_loop.simps) (auto simp: op_simps enter_def of_nat_diff)
  show ?case
  proof (cases "0 < m")
    case True
    then have "trail (page_of s) ((i, t, m - 1) # c # cs)"
      using Cons.prems(2,3) by auto
    from enter_right [OF Cons.prems(1) this p(1)] show ?thesis
      using run True by (cases m) simp_all
  next
    case False
    moreover have "n' \<le> length (slots t')"
      using tr by simp
    ultimately show ?thesis
      using run Cons.IH [OF ip'(2) tr, of n'] by (simp add: c)
  qed
qed

lemma path_at_target:
  assumes "path_at ip (a @ c # b)"
  shows "\<exists>ip'. Truncate (int (length b) + 1) ip = Some ip' \<and> path_at ip' (c # b)" "int (length b) < ip_len ip"
  using path_at_pop [OF assms, of "int (length b) + 1"] path_at_len [OF assms] by simp_all

lemma PositionAtOrAfter_trail:
  assumes "path_at ip (a @ (i, t, n) # b)" "trail (page_of s) ((i, t, n) # b)" "m \<le> length (slots t)"
  shows "moved s (PositionAtOrAfter ip (int (length b)) (int m) s) (all_recs (drop m (slots t)) @ after b)"
proof -
  obtain ip' where ip': "Truncate (int (length b) + 1) ip = Some ip'" "path_at ip' ((i, t, n) # b)"
    using path_at_target(1) [OF assms(1)] by blast
  show ?thesis
    using after_loop_trail [OF ip'(2) assms(2,3)] ip'(1) path_at_target(2) [OF assms(1)]
    by (simp add: PositionAtOrAfter_def op_simps)
qed

lemma PositionAtOrBefore_trail:
  assumes "path_at ip (a @ (i, t, n) # b)" "trail (page_of s) ((i, t, n) # b)" "m \<le> length (slots t)"
  shows "moved_back s (PositionAtOrBefore ip (int (length b)) (int m) s) (before b @ all_recs (take m (slots t)))"
proof -
  obtain ip' where ip': "Truncate (int (length b) + 1) ip = Some ip'" "path_at ip' ((i, t, n) # b)"
    using path_at_target(1) [OF assms(1)] by blast
  show ?thesis
    using before_loop_trail [OF ip'(2) assms(2,3)] ip'(1) path_at_target(2) [OF assms(1)]
    by (simp add: PositionAtOrBefore_def op_simps)
qed

section \<open>The descent\<close>

lemma path_held_trail:
  "path_held g D j v cs \<Longrightarrow> holds g j v \<Longrightarrow> n < length (slots v) \<Longrightarrow> trail g ((j, v, n) # cs)"
proof (induction cs arbitrary: j v n)
  case (Cons c cs)
  obtain i t m where c: "c = (i, t, m)"
    by (cases c)
  have p: "path_held g D j v ((i, t, m) # cs)"
    using Cons.prems(1) c by simp
  then have h: "holds g i t" "path_held g D i t cs" "m < length (slots t)" "slots t ! m = Sub j v"
    using path_holds_up [of g D j v "[]" i t m cs] Cons.prems(2) by auto
  show ?case
    using Cons.IH [OF h(2,1,3)] Cons.prems(2,3) h(4) by (simp add: c slot_at_def)
qed simp

text \<open>The records of the root are those around the page at the lower end.\<close>

lemma recs_set_slot: "n < length (slots t) \<Longrightarrow> recs_of (set_slot t n c) = all_recs (take n (slots t)) @ recs_of c @ all_recs (drop (Suc n) (slots t))"
  using recs_slots [of c] by (simp add: recs_slots [of "set_slot t n c"] slots_set_slot)

lemma top_tree_recs: "path_held g D j v cs \<Longrightarrow> recs_of (top_tree j u cs) = before cs @ recs_of u @ after cs"
proof (induction cs arbitrary: j u v)
  case (Cons c cs)
  obtain i t n where c: "c = (i, t, n)"
    by (cases c)
  then have p: "n < length (slots t)" "path_held g D i t cs"
    using Cons.prems by simp_all
  show ?case
    using Cons.IH [OF p(2), of "set_slot t n (Sub j u)"] recs_set_slot [OF p(1), of "Sub j u"] by (simp add: c top_tree_Cons)
qed simp

text \<open>The place where a key would be inserted divides the records by their keys.\<close>

lemma recs_cins:
  "recs_of (cins t key d (Rec q)) =
    all_recs (take (ins_slot (ptop t) key d) (slots t)) @ q # all_recs (drop (ins_slot (ptop t) key d) (slots t))"
  by (simp add: recs_slots [of "cins t key d (Rec q)"] slots_cins)

lemma site_divides:
  assumes "path_held g D i t cs" "holds g i t" "on_path key cs" "passed key d cs" "insert_site t key d" "top_tree i t cs = T"
    and "ct_ok T" "pat (ktree kf T)" "key_ok key" "first_diff key_bit key (kf (leaves (flat T) ! tslot (flat T) key)) d"
    and "n = ins_slot (ptop t) key d"
  shows "before cs @ all_recs (take n (slots t)) @ all_recs (drop n (slots t)) @ after cs = recs_of T"
    "\<forall>p \<in> set (before cs @ all_recs (take n (slots t))). kf p < key" "\<forall>p \<in> set (all_recs (drop n (slots t)) @ after cs). key < kf p"
proof -
  let ?q = kChildTag
  let ?kf = "kf(?q := key)"
  let ?l = "before cs @ all_recs (take n (slots t))" and ?r = "all_recs (drop n (slots t)) @ after cs"
  have split: "all_recs (take n (slots t)) @ all_recs (drop n (slots t)) = recs_of t"
    by (simp add: recs_slots [of t] flip: all_recs_simps(3))
  show T: "before cs @ all_recs (take n (slots t)) @ all_recs (drop n (slots t)) @ after cs = recs_of T"
    using top_tree_recs [OF assms(1), of t] assms(6) split by simp
  have "\<not> untagged ?q"
    by (simp add: and_kChildTag [symmetric] kChildTag_def)
  then have fresh: "?q \<notin> set (recs_of T)"
    using ct_ok_leaves [OF assms(7)] by blast
  have fl: "flat (top_tree i (cins t key d (Rec ?q)) cs) = tins (flat T) key d ?q"
    using top_tree_tins [OF assms(1,3,4) flat_insert_site [OF assms(5)]] assms(6) by simp
  have lv: "leaves (tins (flat T) key d ?q) = ?l @ ?q # ?r"
    using top_tree_recs [OF assms(1), of "cins t key d (Rec ?q)"] recs_cins [of t key d ?q] unfolding fl assms(11) by simp
  have "map_rtree ?kf (flat T) = map_rtree kf (flat T)"
    using fresh by (intro map_rtree_cong_leaves) auto
  then have "pat (map_rtree ?kf (tins (flat T) key d ?q))"
    using pat_tins [OF assms(8,9), of d] assms(10) tslot_less [of "flat T" key] by (simp add: map_rtree_tins ktree_def)
  from pat_sorted [OF this] have "sorted_wrt (<) (map ?kf (?l @ ?q # ?r))"
    using lv by simp
  moreover have "set ?l \<union> set ?r = set (recs_of T)"
    unfolding T [symmetric] by auto
  then have "?q \<notin> set ?l" "?q \<notin> set ?r"
    using fresh by blast+
  ultimately show "\<forall>p \<in> set ?l. kf p < key" "\<forall>p \<in> set ?r. key < kf p"
    by (auto simp: sorted_wrt_append sorted_wrt_map split: if_splits)
qed

section \<open>The end of a seek\<close>

lemma seek_loop_path:
  "path_held (page_of s) D j v cs \<Longrightarrow> on_path key cs \<Longrightarrow> path_at ip [] \<Longrightarrow>
   \<exists>ip'. path_at ip' cs \<and> seek_loop pos_at K key ip (fst (plug j v cs)) s = seek_loop pos_at K key ip' j s"
proof (induction cs arbitrary: j v)
  case (Cons c cs)
  obtain i t n where c: "c = (i, t, n)"
    by (cases c)
  have p: "path_held (page_of s) D j v ((i, t, n) # cs)" "n = tslot (ptop t) key" "on_path key cs"
    using Cons.prems c by simp_all
  obtain pg where pg: "page_of s i = Some pg" "page_ok pg t" "n < length (slots t)" "slots t ! n = Sub j v" "untagged j"
    using p(1) by auto
  have sz: "np_size pg \<noteq> 0"
    using page_ok_size [OF pg(2)] by blast
  have rep: "at (np_reps pg) (int n) = Some (kChildTag OR j)"
    using page_ok_at [OF pg(2,3)] pg(4) by simp
  have lk: "Lookup pg key = Some (int n, True)"
    using page_ok_lookup [OF pg(2)] p(2) by simp
  have "fst (plug j v (c # cs)) = fst (plug i t cs)"
    using plug_path [of "page_of s" D j v "[]" i t n cs] p(1) c by simp
  moreover obtain ip1 where ip1: "path_at ip1 cs"
    "seek_loop pos_at K key ip (fst (plug i t cs)) s = seek_loop pos_at K key ip1 i s"
    using Cons.IH [of i t] p Cons.prems(3) by auto
  moreover obtain ip2 where ip2: "PushNode i i (int n) ip1 = Some ip2" "path_at ip2 ((i, t, n) # cs)"
    using path_at_push [OF ip1(1), of i n t] by blast
  moreover have "seek_loop pos_at K key ip1 i s = seek_loop pos_at K key ip2 j s"
    using pg(1,5) sz rep lk ip2(1) by (subst seek_loop.simps) (simp add: op_simps)
  ultimately show ?case
    using c by auto
qed auto

text \<open>
  A seek ends at the record of the key, or it positions the path from the page and the slot between
  the records below the key and those above it.
\<close>

definition found_at :: "heap_node_store \<Rightarrow> (pos \<Rightarrow> key) \<Rightarrow> key \<Rightarrow> ctree \<Rightarrow> iter_path \<Rightarrow> bool" where
  "found_at s kf key T ip \<longleftrightarrow> (\<exists>cs q. path_at ip cs \<and> trail (page_of s) cs \<and> at_record cs q \<and> kf q = key \<and>
     before cs @ q # after cs = recs_of T)"

definition between :: "heap_node_store \<Rightarrow> (pos \<Rightarrow> key) \<Rightarrow> key \<Rightarrow> ctree \<Rightarrow> iter_path \<Rightarrow> nat \<Rightarrow> nat \<Rightarrow> bool" where
  "between s kf key T ip h n \<longleftrightarrow> (\<exists>a i t m b. path_at ip (a @ (i, t, m) # b) \<and> trail (page_of s) ((i, t, m) # b) \<and>
     h = length b \<and> n \<le> length (slots t) \<and> before b @ all_recs (take n (slots t)) @ all_recs (drop n (slots t)) @ after b = recs_of T \<and>
     (\<forall>p \<in> set (before b @ all_recs (take n (slots t))). kf p < key) \<and> (\<forall>p \<in> set (all_recs (drop n (slots t)) @ after b). key < kf p))"

lemma seek_loop_ends:
  assumes "holds (page_of s) r T" "pat (ktree kf T)" "keys_of K kf (set (recs_of T))" "key_ok key" "path_at ip []"
  shows "\<exists>ip'. seek_loop pos_at K key ip r s = Some (Inr (True, ip'), s) \<and> found_at s kf key T ip' \<or>
    (\<exists>h n. seek_loop pos_at K key ip r s = pos_at ip' (int h) (int n) s \<and> between s kf key T ip' h n)"
proof -
  obtain j v cs p where b: "path_held (page_of s) (ids r T) j v cs" "on_path key cs" "holds (page_of s) j v"
    "slots v ! tslot (ptop v) key = Rec p" "untagged p" "plug j v cs = (r, T)"
    using path_to_record [OF assms(1)] .
  let ?n = "tslot (ptop v) key"
  let ?cs = "(j, v, ?n) # cs"
  obtain pg where pg: "page_of s j = Some pg" "page_ok pg v" "np_size pg \<noteq> 0" "?n < length (slots v)"
    "at (np_reps pg) (int ?n) = Some p" "Lookup pg key = Some (int ?n, True)"
    using bottom_page [OF b(3,4)] .
  have leaf: "leaves (flat T) ! tslot (flat T) key = p"
    by (rule reached_leaf [OF b(1,2,6,4)])
  then have p_in: "p \<in> set (recs_of T)"
    using tslot_leaf [of "flat T" key] by simp
  have ok: "key_ok (kf p)" and Kp: "Key K p = Inr (kf p)"
    using assms(3) p_in Key_keys_of [OF assms(3), of p] by (auto simp: keys_of_def)
  obtain ip1 where ip1: "path_at ip1 cs" "seek_loop pos_at K key ip r s = seek_loop pos_at K key ip1 j s"
    using seek_loop_path [OF b(1,2) assms(5), of pos_at K] b(6) by auto
  obtain ip' where ip': "PushNode j j (int ?n) ip1 = Some ip'" "path_at ip' ?cs"
    using path_at_push [OF ip1(1), of j ?n v] by blast
  have tr: "trail (page_of s) ?cs"
    by (rule path_held_trail [OF b(1,3) pg(4)])
  have top: "top_tree j v cs = T"
    using b(6) by (simp add: top_tree_def)
  show ?thesis
  proof (cases "kf p = key")
    case True
    have "seek_loop pos_at K key ip1 j s = Some (Inr (True, ip'), s)"
      using b(5) pg ip'(1) Kp True CompareAndDiffBit_equal [OF assms(4)] by (subst seek_loop.simps) (simp add: op_simps)
    moreover have "before ?cs @ p # after ?cs = recs_of T"
      using top_tree_recs [OF b(1), of v] top recs_slot [OF pg(4)] b(4) by simp
    then have "found_at s kf key T ip'"
      unfolding found_at_def using ip'(2) tr b(4) True by (intro exI [of _ ?cs] exI [of _ p]) (simp add: at_record_def slot_at_def)
    ultimately show ?thesis
      using ip1(2) by auto
  next
    case False
    obtain d where d: "CompareAndDiffBit key (kf p) = Some (Inr \<lparr>cd_compare = CompareKeys key (kf p), cd_diff = d\<rparr>)"
      "first_diff key_bit key (kf p) d" "key_bit (kf p) d \<longleftrightarrow> key < kf p"
      using CompareAndDiffBit_spec [OF assms(4) ok False [symmetric]] False by (auto simp: CompareKeys_spec diff_at_first_diff)
    obtain a i t m b' where sp: "?cs = a @ (i, t, m) # b'" "insert_site t key d" "passed key d b'"
      "InsertSlotFromPath (rev (map fr ?cs)) key (CompareKeys key (kf p)) d s =
        Some (Inr \<lparr>is_target = int (length b'), is_slot = int (ins_slot (ptop t) key d)\<rparr>, s)"
      using InsertSlotFromPath_spec [OF b(3,1,2) refl b(4) d(2,3)] .
    let ?m = "ins_slot (ptop t) key d"
    have run: "seek_loop pos_at K key ip1 j s = pos_at ip' (int (length b')) (int ?m) s"
      using b(5) pg ip'(1) Kp d(1) sp(4) FramesForInsert_holds [OF ip'(2) [unfolded path_at_def]]
      by (subst seek_loop.simps) (simp add: op_simps)
    note split = path_split [OF b(3,1) sp(1), unfolded b(6)]
    have "on_path key ?cs"
      using b(2) by simp
    then have on: "on_path key b'" "m = tslot (ptop t) key"
      unfolding sp(1) by simp_all
    have T: "top_tree i t b' = T"
      using split(3) by (simp add: top_tree_def)
    have "trail (page_of s) ((i, t, m) # b')"
      using path_held_trail [OF split(2,1)] on(2) tslot_less [of "ptop t" key] by (simp add: nl_ptop)
    moreover have "?m \<le> length (slots t)"
      using ins_slot_le [of "ptop t" key d] by (simp add: nl_ptop)
    moreover note site_divides [where d = d, OF split(2,1) on(1) sp(3,2) T holds_ct_ok [OF assms(1)] assms(2,4), unfolded leaf, OF d(2) refl]
    ultimately have "between s kf key T ip' (length b') ?m"
      unfolding between_def using ip'(2) unfolding sp(1) by blast
    then show ?thesis
      using run ip1(2) by auto
  qed
qed

section \<open>The seeks\<close>

text \<open>The records of a sorted list, divided at a key.\<close>

lemma filter_sides:
  assumes "\<forall>p \<in> set xs. kf p < (k :: key)" "\<forall>p \<in> set ys. k < kf p"
  shows "filter (\<lambda>p. k \<le> kf p) xs = []" "filter (\<lambda>p. kf p \<le> k) ys = []"
    "filter (\<lambda>p. k \<le> kf p) ys = ys" "filter (\<lambda>p. kf p \<le> k) xs = xs"
  using assms by (auto simp: filter_empty_conv not_le intro!: filter_True)

lemma filter_divided:
  assumes "xs @ ys = zs" "\<forall>p \<in> set xs. kf p < (k :: key)" "\<forall>p \<in> set ys. k < kf p"
  shows "filter (\<lambda>p. k \<le> kf p) zs = ys" "filter (\<lambda>p. kf p \<le> k) zs = xs"
  using filter_sides [OF assms(2,3)] unfolding assms(1) [symmetric] by simp_all

lemma filter_found:
  assumes "xs @ q # ys = zs" "sorted_wrt (<) (map kf zs)" "kf q = (k :: key)"
  shows "filter (\<lambda>p. k \<le> kf p) zs = q # ys" "filter (\<lambda>p. kf p \<le> k) zs = xs @ [q]"
proof -
  have sides: "\<forall>p \<in> set xs. kf p < k" "\<forall>p \<in> set ys. k < kf p"
    using assms(2,3) unfolding assms(1) [symmetric] by (auto simp: sorted_wrt_append)
  show "filter (\<lambda>p. k \<le> kf p) zs = q # ys" "filter (\<lambda>p. kf p \<le> k) zs = xs @ [q]"
    using filter_sides [OF sides] assms(3) unfolding assms(1) [symmetric] by simp_all
qed

lemma SeekGreaterOrEqual_tree:
  assumes "tree_rep (page_of s) root T" "tree_pat kf T" "keys_of K kf (set (tree_pos T))" "key_ok k"
  shows "moved s (SeekGreaterOrEqual K root k IterPath s) (filter (\<lambda>p. k \<le> kf p) (tree_pos T))"
proof (cases T)
  case None
  then obtain p where "page_of s root = Some p" "np_size p = 0"
    using assms(1) by (auto simp: tree_rep_def)
  then show ?thesis
    using None moved_none(1) by (simp add: SeekGreaterOrEqual_def seek_loop.simps op_simps tree_pos_def)
next
  case (Some t)
  have h: "holds (page_of s) root t" "pat (ktree kf t)" "keys_of K kf (set (recs_of t))" "tree_pos T = recs_of t"
    using assms Some by (simp_all add: tree_rep_def tree_pat_def tree_pos_def)
  have "path_at (Reset IterPath) []"
    using ip_holds_Reset [OF ip_holds_new] by (simp add: path_at_def)
  from seek_loop_ends [OF h(1-3) assms(4) this, of PositionAtOrAfter] show ?thesis
  proof (elim exE disjE conjE)
    fix ip' assume r: "seek_loop PositionAtOrAfter K k (Reset IterPath) root s = Some (Inr (True, ip'), s)" "found_at s kf k t ip'"
    then obtain cs q where cs: "path_at ip' cs" "trail (page_of s) cs" "at_record cs q" "kf q = k" "before cs @ q # after cs = recs_of t"
      by (auto simp: found_at_def)
    have "filter (\<lambda>p. k \<le> kf p) (recs_of t) = q # after cs"
      using filter_found(1) [where kf = kf, OF cs(5) _ cs(4)] pat_sorted [OF h(2)] by simp
    then show ?thesis
      unfolding moved_def SeekGreaterOrEqual_def h(4) using r(1) cs(1-3) by auto
  next
    fix ip' m n assume r: "seek_loop PositionAtOrAfter K k (Reset IterPath) root s = PositionAtOrAfter ip' (int m) (int n) s"
      "between s kf k t ip' m n"
    then obtain a i v l b where b: "path_at ip' (a @ (i, v, l) # b)" "trail (page_of s) ((i, v, l) # b)" "n \<le> length (slots v)" "m = length b"
      "before b @ all_recs (take n (slots v)) @ all_recs (drop n (slots v)) @ after b = recs_of t"
      "\<forall>p \<in> set (before b @ all_recs (take n (slots v))). kf p < k" "\<forall>p \<in> set (all_recs (drop n (slots v)) @ after b). k < kf p"
      unfolding between_def by blast
    have "filter (\<lambda>p. k \<le> kf p) (recs_of t) = all_recs (drop n (slots v)) @ after b"
      by (rule filter_divided(1) [OF _ b(6,7)]) (use b(5) in simp)
    then show ?thesis
      unfolding SeekGreaterOrEqual_def h(4) r(1) b(4) using PositionAtOrAfter_trail [OF b(1-3)] by simp
  qed
qed

lemma SeekLessOrEqual_tree:
  assumes "tree_rep (page_of s) root T" "tree_pat kf T" "keys_of K kf (set (tree_pos T))" "key_ok k"
  shows "moved_back s (SeekLessOrEqual K root k IterPath s) (filter (\<lambda>p. kf p \<le> k) (tree_pos T))"
proof (cases T)
  case None
  then obtain p where "page_of s root = Some p" "np_size p = 0"
    using assms(1) by (auto simp: tree_rep_def)
  then show ?thesis
    using None moved_none(2) by (simp add: SeekLessOrEqual_def seek_loop.simps op_simps tree_pos_def)
next
  case (Some t)
  have h: "holds (page_of s) root t" "pat (ktree kf t)" "keys_of K kf (set (recs_of t))" "tree_pos T = recs_of t"
    using assms Some by (simp_all add: tree_rep_def tree_pat_def tree_pos_def)
  have "path_at (Reset IterPath) []"
    using ip_holds_Reset [OF ip_holds_new] by (simp add: path_at_def)
  from seek_loop_ends [OF h(1-3) assms(4) this, of PositionAtOrBefore] show ?thesis
  proof (elim exE disjE conjE)
    fix ip' assume r: "seek_loop PositionAtOrBefore K k (Reset IterPath) root s = Some (Inr (True, ip'), s)" "found_at s kf k t ip'"
    then obtain cs q where cs: "path_at ip' cs" "trail (page_of s) cs" "at_record cs q" "kf q = k" "before cs @ q # after cs = recs_of t"
      by (auto simp: found_at_def)
    have "filter (\<lambda>p. kf p \<le> k) (recs_of t) = before cs @ [q]"
      using filter_found(2) [where kf = kf, OF cs(5) _ cs(4)] pat_sorted [OF h(2)] by simp
    then show ?thesis
      unfolding moved_back_def SeekLessOrEqual_def h(4) using r(1) cs(1-3) by auto
  next
    fix ip' m n assume r: "seek_loop PositionAtOrBefore K k (Reset IterPath) root s = PositionAtOrBefore ip' (int m) (int n) s"
      "between s kf k t ip' m n"
    then obtain a i v l b where b: "path_at ip' (a @ (i, v, l) # b)" "trail (page_of s) ((i, v, l) # b)" "n \<le> length (slots v)" "m = length b"
      "before b @ all_recs (take n (slots v)) @ all_recs (drop n (slots v)) @ after b = recs_of t"
      "\<forall>p \<in> set (before b @ all_recs (take n (slots v))). kf p < k" "\<forall>p \<in> set (all_recs (drop n (slots v)) @ after b). k < kf p"
      unfolding between_def by blast
    have "filter (\<lambda>p. kf p \<le> k) (recs_of t) = before b @ all_recs (take n (slots v))"
      by (rule filter_divided(2) [OF _ b(6,7)]) (use b(5) in simp)
    then show ?thesis
      unfolding SeekLessOrEqual_def h(4) r(1) b(4) using PositionAtOrBefore_trail [OF b(1-3)] by simp
  qed
qed

section \<open>The ranges\<close>

lemma sorted_filter_key: "sorted_wrt (<) (map fst (es :: (key \<times> pos) list)) \<Longrightarrow> sorted_wrt (<) (map fst (filter P es))"
  by (simp add: sorted_wrt_map sorted_wrt_filter)

lemma Ascend_from:
  assumes "index_holds K x es" "key_ok k"
  shows "on_nodes (\<lambda>root. bindM (SeekGreaterOrEqual K root k IterPath) (\<lambda>r. if \<not> fst r then ret c else AscendFromPath K b fn c (snd r))) x =
    Some (Inr (visit_list fn c (filter (below_key b) (filter (\<lambda>e. k \<le> fst e) es))), x)"
proof -
  obtain kf T where T: "tree_rep (page_of (ix_nodes x)) (ix_root_id x) T" "keys_of K kf (set (tree_pos T))" "es = map (entry_of kf) (tree_pos T)" "tree_pat kf T"
    using index_parts [OF assms(1)] by blast
  have es: "filter (\<lambda>e. k \<le> fst e) es = map (entry_of kf) (filter (\<lambda>p. k \<le> kf p) (tree_pos T))"
    by (simp add: T(3) filter_map o_def)
  have "keys_of K kf (set (filter (\<lambda>p. k \<le> kf p) (tree_pos T)))"
    using T(2) by (simp add: keys_of_def)
  note run = ascend_moved [where m = "SeekGreaterOrEqual K (ix_root_id x) k IterPath", OF SeekGreaterOrEqual_tree [OF T(1,4,2) assms(2)] this]
  note tw = takeWhile_sorted(1) [OF sorted_filter_key [OF index_holds_sorted(1) [OF assms(1)]], of b "\<lambda>e. k \<le> fst e"]
  show ?thesis
    unfolding tw [symmetric] unfolding es by (intro on_nodes_same run)
qed

lemma Descend_from:
  assumes "index_holds K x es" "key_ok k"
  shows "on_nodes (\<lambda>root. bindM (SeekLessOrEqual K root k IterPath) (\<lambda>r. if \<not> fst r then ret c else DescendFromPath K b fn c (snd r))) x =
    Some (Inr (visit_list fn c (filter (above_key b) (rev (filter (\<lambda>e. fst e \<le> k) es)))), x)"
proof -
  obtain kf T where T: "tree_rep (page_of (ix_nodes x)) (ix_root_id x) T" "keys_of K kf (set (tree_pos T))" "es = map (entry_of kf) (tree_pos T)" "tree_pat kf T"
    using index_parts [OF assms(1)] by blast
  have es: "filter (\<lambda>e. fst e \<le> k) es = map (entry_of kf) (filter (\<lambda>p. kf p \<le> k) (tree_pos T))"
    by (simp add: T(3) filter_map o_def)
  have "keys_of K kf (set (filter (\<lambda>p. kf p \<le> k) (tree_pos T)))"
    using T(2) by (simp add: keys_of_def)
  note run = descend_moved [where m = "SeekLessOrEqual K (ix_root_id x) k IterPath", OF SeekLessOrEqual_tree [OF T(1,4,2) assms(2)] this]
  note tw = takeWhile_sorted(2) [OF sorted_filter_key [OF index_holds_sorted(1) [OF assms(1)]], of b "\<lambda>e. fst e \<le> k"]
  show ?thesis
    unfolding tw [symmetric] unfolding es rev_map by (intro on_nodes_same run [unfolded rev_map])
qed

lemma AscendGreaterOrEqual_holds:
  "index_holds K x es \<Longrightarrow> key_ok k \<Longrightarrow> AscendGreaterOrEqual K k fn c x = Some (Inr (visit_list fn c (filter (\<lambda>e. k \<le> fst e) es)), x)"
  using Ascend_from [of K x es k c None fn] by (simp add: AscendGreaterOrEqual_def CheckKeySize_key_ok op_simps)

lemma DescendLessOrEqual_holds:
  "index_holds K x es \<Longrightarrow> key_ok k \<Longrightarrow> DescendLessOrEqual K k fn c x = Some (Inr (visit_list fn c (rev (filter (\<lambda>e. fst e \<le> k) es))), x)"
  using Descend_from [of K x es k c None fn] by (simp add: DescendLessOrEqual_def CheckKeySize_key_ok op_simps)

lemma AscendRange_holds:
  "index_holds K x es \<Longrightarrow> key_ok k \<Longrightarrow> key_ok u \<Longrightarrow>
   AscendRange K k u fn c x = Some (Inr (visit_list fn c (filter (\<lambda>e. k \<le> fst e \<and> fst e < u) es)), x)"
  using Ascend_from [of K x es k c "Some u" fn] by (simp add: AscendRange_def CheckKeySize_key_ok op_simps conj_commute)

lemma DescendRange_holds:
  "index_holds K x es \<Longrightarrow> key_ok k \<Longrightarrow> key_ok u \<Longrightarrow>
   DescendRange K k u fn c x = Some (Inr (visit_list fn c (rev (filter (\<lambda>e. u < fst e \<and> fst e \<le> k) es))), x)"
  using Descend_from [of K x es k c "Some u" fn] by (simp add: DescendRange_def CheckKeySize_key_ok op_simps rev_filter conj_commute)

text \<open>Keys that are too large.\<close>

lemma scan_key_errors:
  assumes "\<not> key_ok k"
  shows "AscendLessThan K k fn c x = Some (Inl kKeyTooLarge, x)" "AscendGreaterOrEqual K k fn c x = Some (Inl kKeyTooLarge, x)"
    "DescendLessOrEqual K k fn c x = Some (Inl kKeyTooLarge, x)" "DescendGreaterThan K k fn c x = Some (Inl kKeyTooLarge, x)"
    "AscendRange K k u fn c x = Some (Inl kKeyTooLarge, x)" "DescendRange K k u fn c x = Some (Inl kKeyTooLarge, x)"
    "key_ok u \<Longrightarrow> AscendRange K u k fn c x = Some (Inl kKeyTooLarge, x)" "key_ok u \<Longrightarrow> DescendRange K u k fn c x = Some (Inl kKeyTooLarge, x)"
  using assms by (simp_all add: AscendLessThan_def AscendGreaterOrEqual_def DescendLessOrEqual_def DescendGreaterThan_def
    AscendRange_def DescendRange_def CheckKeySize_too_large CheckKeySize_key_ok op_simps)

end
