(* ===== verification/StoreScan.thy ===== *)
theory StoreScan
  imports StoreFacts SeekFacts
begin

text \<open>
  The scans of the store (store.cc): \<^verbatim>\<open>VisitIndex\<close> over the iteration of the index. The contents
  of a store as the list of its items in key order (\<open>map_items\<close>), and every scan and seek as a
  visit of a part of this list.
\<close>

section \<open>The items of a map\<close>

abbreviation item_at :: "(key \<rightharpoonup> bytes) \<Rightarrow> key \<Rightarrow> item" where
  "item_at m k \<equiv> \<lparr>it_key = k, it_value = the (m k)\<rparr>"

definition map_items :: "(key \<rightharpoonup> bytes) \<Rightarrow> item list" where
  "map_items m = map (item_at m) (sorted_list_of_set (dom m))"

text \<open>The visit of items, until the callback wants no more.\<close>

fun visit_items :: "'c visit_fn \<Rightarrow> 'c \<Rightarrow> item list \<Rightarrow> 'c" where
  "visit_items fn c [] = c"
| "visit_items fn c (it # its) = (if fst (fn c it) then visit_items fn (snd (fn c it)) its else snd (fn c it))"

lemma visit_first: "visit_items take_first not_sought its = (case its of [] \<Rightarrow> not_sought | it # _ \<Rightarrow> \<lparr>sk_item = it, sk_found = True\<rparr>)"
  by (cases its) (simp_all add: take_first_def)

lemma visit_list_items:
  assumes "\<And>k p. (k, p) \<in> set es \<Longrightarrow> mk k p = Some (Inr (item_at m k))"
  shows "visit_list (visit_item mk fn) (c, vs) es = (visit_items fn c (map (\<lambda>e. item_at m (fst e)) es), vs)"
  using assms by (induction es arbitrary: c) (auto simp: visit_item_def)

section \<open>The entries of the index as items\<close>

lemma entries_items:
  assumes "index_holds (SegKey ss) x es"
  shows "map (\<lambda>e. item_at m (fst e)) es = map (item_at m) (map fst es)" "map fst es = sorted_list_of_set (dom (sg.contents ss es))"
proof -
  note sorted = index_holds_sorted(1) [OF assms]
  have "set (map fst es) = dom (sg.contents ss es)"
    using sg.entry_contents(1) [OF assms] map_of_eq_None_iff [of es] by (auto simp: dom_def image_iff)
  then show "map fst es = sorted_list_of_set (dom (sg.contents ss es))"
    using sorted_list_of_set.idem_if_sorted_distinct [of "map fst es"] sorted by (simp add: strict_sorted_iff)
qed simp

lemma MakeItem_holds:
  assumes "index_holds (SegKey ss) x es" "(k, p) \<in> set es"
  shows "MakeItem ss verify x k p = Some (Inr (item_at (sg.contents ss es) k))"
proof -
  have e: "map_of es k = Some p"
    using assms index_holds_sorted(1) [OF assms(1)] by (simp add: strict_sorted_iff)
  have k: "key_ok k"
    using index_holds_keys(2) [OF assms] .
  obtain v where v: "seg_recs ss p = Some (k, v)" "sg.contents ss es k = Some v"
    using sg.entry_contents(2) [OF assms(1) e] by blast
  show ?thesis
    using Probe_holds [OF assms(1) k e] ValueView_recs [OF v(1)] v(2) by (simp add: MakeItem_def verify_position_def OwnedValue_def)
qed

text \<open>A visit of the part \<open>es'\<close> of the entries.\<close>

lemma VisitIndex_holds:
  assumes "store_parts m0 im ss x L es s" "set es' \<subseteq> set es"
    and "\<And>fn c. index_visit (SegKey ss) fn c x = Some (Inr (visit_list fn c es'), x)"
  shows "VisitIndex index_visit fn c (im, w) =
    Some (Inr (visit_items fn c (map (\<lambda>e. item_at (sg.contents ss es) (fst e)) es')), im, w)"
proof -
  have h: "index_holds (SegKey ss) x es" "im_records im = Some ss" "im_index im = Some x"
    using assms(1) by (simp_all add: store_parts_def)
  have im: "im\<lparr>im_index := Some x\<rparr> = im"
    using h(3) by simp
  have "visit_list (visit_item (MakeItem ss (im_verify im) x) fn) (c, Some (Inr ())) es' =
      (visit_items fn c (map (\<lambda>e. item_at (sg.contents ss es) (fst e)) es'), Some (Inr ()))"
    using MakeItem_holds [OF h(1)] assms(2) by (intro visit_list_items) blast
  then show ?thesis
    using h im assms(3) by (simp add: VisitIndex_def from_mp_def bindM_def attempt_def on_index_def ret_def chkres_def)
qed

lemma filter_entries:
  assumes "index_holds (SegKey ss) x es"
  shows "map (\<lambda>e. item_at (sg.contents ss es) (fst e)) (filter (\<lambda>e. Q (fst e)) es) = filter (\<lambda>it. Q (it_key it)) (map_items (sg.contents ss es))"
proof -
  have "map_items (sg.contents ss es) = map (\<lambda>e. item_at (sg.contents ss es) (fst e)) es"
    using entries_items [OF assms] by (simp add: map_items_def)
  then show ?thesis
    by (simp add: filter_map o_def)
qed

text \<open>The two directions, with the part given by a condition on the keys.\<close>

lemma visit_up:
  assumes "store_holds m0 im m"
    and "\<And>K x es fn c. index_holds K x es \<Longrightarrow> index_visit K fn c x = Some (Inr (visit_list fn c (filter (\<lambda>e. Q (fst e)) es)), x)"
  shows "checked (VisitIndex index_visit fn c) (im, w) = Some (Inr (visit_items fn c (filter (\<lambda>it. Q (it_key it)) (map_items m))), im, w)"
proof -
  obtain ss x L es s where p: "store_parts m0 im ss x L es s" and m: "m = sg.contents ss es"
    using assms(1) unfolding store_holds_def by blast
  have h: "index_holds (SegKey ss) x es"
    using p by (simp add: store_parts_def)
  have "VisitIndex index_visit fn c (im, w) =
      Some (Inr (visit_items fn c (map (\<lambda>e. item_at (sg.contents ss es) (fst e)) (filter (\<lambda>e. Q (fst e)) es))), im, w)"
    by (rule VisitIndex_holds [OF p]) (use assms(2) [OF h] in auto)
  then show ?thesis
    by (simp add: store_parts_open [OF p] m filter_entries [OF h, of Q])
qed

lemma visit_down:
  assumes "store_holds m0 im m"
    and "\<And>K x es fn c. index_holds K x es \<Longrightarrow> index_visit K fn c x = Some (Inr (visit_list fn c (rev (filter (\<lambda>e. Q (fst e)) es))), x)"
  shows "checked (VisitIndex index_visit fn c) (im, w) =
    Some (Inr (visit_items fn c (rev (filter (\<lambda>it. Q (it_key it)) (map_items m)))), im, w)"
proof -
  obtain ss x L es s where p: "store_parts m0 im ss x L es s" and m: "m = sg.contents ss es"
    using assms(1) unfolding store_holds_def by blast
  have h: "index_holds (SegKey ss) x es"
    using p by (simp add: store_parts_def)
  have "VisitIndex index_visit fn c (im, w) =
      Some (Inr (visit_items fn c (map (\<lambda>e. item_at (sg.contents ss es) (fst e)) (rev (filter (\<lambda>e. Q (fst e)) es)))), im, w)"
    by (rule VisitIndex_holds [OF p]) (use assms(2) [OF h] in auto)
  then show ?thesis
    by (simp add: store_parts_open [OF p] m filter_entries [OF h, of Q] flip: rev_map)
qed

section \<open>The scans\<close>

lemma ImplScan_holds:
  assumes "store_holds m0 im m"
  shows "ImplScan fn c (im, w) = Some (Inr (visit_items fn c (map_items m)), im, w)"
  using visit_up [where Q = "\<lambda>_. True", simplified, OF assms Ascend_holds] by (simp add: ImplScan_def)

lemma ImplReverseScan_holds:
  assumes "store_holds m0 im m"
  shows "ImplReverseScan fn c (im, w) = Some (Inr (visit_items fn c (rev (map_items m))), im, w)"
  using visit_down [where Q = "\<lambda>_. True", simplified, OF assms Descend_holds] by (simp add: ImplReverseScan_def)

lemma ImplScanRange_holds:
  assumes "store_holds m0 im m" "key_ok ge" "key_ok lt"
  shows "ImplScanRange ge lt fn c (im, w) =
    Some (if lt < ge then Inl (Status kInvalidArgument ''invalid scan range'')
      else Inr (visit_items fn c (filter (\<lambda>it. ge \<le> it_key it \<and> it_key it < lt) (map_items m))), im, w)"
  using visit_up [where index_visit = "\<lambda>K. AscendRange K ge lt" and fn = fn and c = c and Q = "\<lambda>k. ge \<le> k \<and> k < lt", OF assms(1) AscendRange_holds [OF _ assms(2,3)]]
  by (simp add: ImplScanRange_def err_def)

lemma ImplReverseScanRange_holds:
  assumes "store_holds m0 im m" "key_ok le" "key_ok gt"
  shows "ImplReverseScanRange le gt fn c (im, w) =
    Some (if le < gt then Inl (Status kInvalidArgument ''invalid reverse scan range'')
      else Inr (visit_items fn c (rev (filter (\<lambda>it. gt < it_key it \<and> it_key it \<le> le) (map_items m)))), im, w)"
  using visit_down [where index_visit = "\<lambda>K. DescendRange K le gt" and fn = fn and c = c and Q = "\<lambda>k. gt < k \<and> k \<le> le", OF assms(1) DescendRange_holds [OF _ assms(2,3)]]
  by (simp add: ImplReverseScanRange_def err_def)

text \<open>The first item in a list, as the result of a seek.\<close>

definition sought :: "item list \<Rightarrow> seek_result" where
  "sought its = (case its of [] \<Rightarrow> not_sought | it # _ \<Rightarrow> \<lparr>sk_item = it, sk_found = True\<rparr>)"

lemma ImplSeekGE_holds:
  assumes "store_holds m0 im m" "key_ok key"
  shows "ImplSeekGE key (im, w) = Some (Inr (sought (filter (\<lambda>it. key \<le> it_key it) (map_items m))), im, w)"
  using visit_up [where index_visit = "\<lambda>K. AscendGreaterOrEqual K key" and fn = take_first and c = not_sought and Q = "\<lambda>k. key \<le> k", OF assms(1) AscendGreaterOrEqual_holds [OF _ assms(2)]]
  by (simp add: ImplSeekGE_def visit_first sought_def)

lemma ImplSeekLE_holds:
  assumes "store_holds m0 im m" "key_ok key"
  shows "ImplSeekLE key (im, w) = Some (Inr (sought (rev (filter (\<lambda>it. it_key it \<le> key) (map_items m)))), im, w)"
  using visit_down [where index_visit = "\<lambda>K. DescendLessOrEqual K key" and fn = take_first and c = not_sought and Q = "\<lambda>k. k \<le> key", OF assms(1) DescendLessOrEqual_holds [OF _ assms(2)]]
  by (simp add: ImplSeekLE_def visit_first sought_def)

lemma ImplLen_holds:
  assumes "store_holds m0 im m"
  shows "ImplLen (im, w) = Some (Inr (int (card (dom m))), im, w)"
proof -
  obtain ss x L es s where p: "store_parts m0 im ss x L es s" and m: "m = sg.contents ss es"
    using assms(1) unfolding store_holds_def by blast
  have h: "index_holds (SegKey ss) x es" "im_index im = Some x"
    using p by (simp_all add: store_parts_def)
  have "length es = length (map fst es)"
    by simp
  also have "\<dots> = card (dom m)"
    unfolding entries_items(2) [OF h(1)] m by simp
  finally show ?thesis
    using index_holds_len [OF h(1)] h(2) by (simp add: ImplLen_def store_parts_open [OF p])
qed

text \<open>The items that a checkpoint collects.\<close>

definition collect :: "item list visit_fn" where
  "collect its it = (True, its @ [it])"

lemma visit_collect: "visit_items collect acc its = acc @ its"
  by (induction its arbitrary: acc) (simp_all add: collect_def)

lemma CollectLiveItems_holds:
  assumes "store_holds m0 im m"
  shows "CollectLiveItemsLocked (im, w) = Some (Inr (map_items m), im, w)"
proof -
  obtain ss x L es s where p: "store_parts m0 im ss x L es s" and m: "m = sg.contents ss es"
    using assms unfolding store_holds_def by blast
  have h: "index_holds (SegKey ss) x es"
    using p by (simp add: store_parts_def)
  have c: "CollectLiveItemsLocked = VisitIndex Ascend collect []"
    by (simp add: CollectLiveItemsLocked_def collect_def [abs_def])
  show ?thesis
    using VisitIndex_holds [where index_visit = Ascend and fn = collect and c = "[]", OF p order_refl Ascend_holds [OF h]]
      filter_entries [OF h, of "\<lambda>_. True"]
    by (simp add: c visit_collect m)
qed

end
