(* ===== verification/StoreRun.thy ===== *)
theory StoreRun
  imports ReplayFacts StoreScan
begin

text \<open>
  Sequences of calls of the public class, compared with a map, and a new store in memory at which
  the properties of the store are applied.
\<close>

section \<open>Calls and their specification\<close>

datatype command = CPut key bytes | CGet key | CDelete key | CLen | CSeekGE key | CSeekLE key |
  CScan | CReverseScan | CScanRange key key | CReverseScanRange key key

datatype answer = APut | AGet get_result | ADelete bool | ALen int | ASeek seek_result | AItems "status + item list"

text \<open>A scan is given a callback that collects the items.\<close>

fun run_command :: "command \<Rightarrow> (store \<times> world, status, answer) op" where
  "run_command (CPut key val) = bindM (StorePut key val) (\<lambda>_. ret APut)"
| "run_command (CGet key) = bindM (StoreGet key) (\<lambda>r. ret (AGet r))"
| "run_command (CDelete key) = bindM (StoreDelete key) (\<lambda>b. ret (ADelete b))"
| "run_command CLen = bindM StoreLen (\<lambda>n. ret (ALen n))"
| "run_command (CSeekGE key) = bindM (StoreSeekGE key) (\<lambda>r. ret (ASeek r))"
| "run_command (CSeekLE key) = bindM (StoreSeekLE key) (\<lambda>r. ret (ASeek r))"
| "run_command CScan = bindM (attempt (StoreScan collect [])) (\<lambda>r. ret (AItems r))"
| "run_command CReverseScan = bindM (attempt (StoreReverseScan collect [])) (\<lambda>r. ret (AItems r))"
| "run_command (CScanRange ge lt) = bindM (attempt (StoreScanRange ge lt collect [])) (\<lambda>r. ret (AItems r))"
| "run_command (CReverseScanRange le gt) = bindM (attempt (StoreReverseScanRange le gt collect [])) (\<lambda>r. ret (AItems r))"

definition run_commands :: "command list \<Rightarrow> (store \<times> world, status, answer list) op" where
  "run_commands cs = fold_op (\<lambda>c as. bindM (run_command c) (\<lambda>a. ret (as @ [a]))) cs []"

text \<open>The same calls on a map.\<close>

fun map_command :: "command \<Rightarrow> (key \<rightharpoonup> bytes) \<Rightarrow> answer \<times> (key \<rightharpoonup> bytes)" where
  "map_command (CPut key val) m = (APut, m(key \<mapsto> val))"
| "map_command (CGet key) m =
     (AGet (case m key of None \<Rightarrow> \<lparr>gr_value = [], gr_found = False\<rparr> | Some v \<Rightarrow> \<lparr>gr_value = v, gr_found = True\<rparr>), m)"
| "map_command (CDelete key) m = (ADelete (m key \<noteq> None), m(key := None))"
| "map_command CLen m = (ALen (int (card (dom m))), m)"
| "map_command (CSeekGE key) m = (ASeek (sought (filter (\<lambda>it. key \<le> it_key it) (map_items m))), m)"
| "map_command (CSeekLE key) m = (ASeek (sought (rev (filter (\<lambda>it. it_key it \<le> key) (map_items m)))), m)"
| "map_command CScan m = (AItems (Inr (map_items m)), m)"
| "map_command CReverseScan m = (AItems (Inr (rev (map_items m))), m)"
| "map_command (CScanRange ge lt) m =
     (AItems (if lt < ge then Inl (Status kInvalidArgument ''invalid scan range'')
              else Inr (filter (\<lambda>it. ge \<le> it_key it \<and> it_key it < lt) (map_items m))), m)"
| "map_command (CReverseScanRange le gt) m =
     (AItems (if le < gt then Inl (Status kInvalidArgument ''invalid reverse scan range'')
              else Inr (rev (filter (\<lambda>it. gt < it_key it \<and> it_key it \<le> le) (map_items m)))), m)"

fun map_commands :: "command list \<Rightarrow> (key \<rightharpoonup> bytes) \<Rightarrow> answer list \<times> (key \<rightharpoonup> bytes)" where
  "map_commands [] m = ([], m)"
| "map_commands (c # cs) m =
     (let (a, m1) = map_command c m; (as, m2) = map_commands cs m1 in (a # as, m2))"

fun command_ok :: "command \<Rightarrow> bool" where
  "command_ok (CPut key val) \<longleftrightarrow> key_ok key \<and> length val < 2 ^ 32"
| "command_ok (CScanRange ge lt) \<longleftrightarrow> key_ok ge \<and> key_ok lt"
| "command_ok (CReverseScanRange le gt) \<longleftrightarrow> key_ok le \<and> key_ok gt"
| "command_ok (CGet key) \<longleftrightarrow> key_ok key"
| "command_ok (CDelete key) \<longleftrightarrow> key_ok key"
| "command_ok (CSeekGE key) \<longleftrightarrow> key_ok key"
| "command_ok (CSeekLE key) \<longleftrightarrow> key_ok key"
| "command_ok _ \<longleftrightarrow> True"

text \<open>The bytes that a call may append to the log.\<close>

fun command_size :: "command \<Rightarrow> nat" where
  "command_size (CPut key val) = record_size key val"
| "command_size (CDelete key) = record_size key []"
| "command_size _ = 0"

lemma store_room_less: "store_room im n k \<Longrightarrow> n' \<le> n \<Longrightarrow> k' \<le> k \<Longrightarrow> store_room im n' k'"
  by (auto simp: store_room_def split: option.splits)

text \<open>A call that only reads.\<close>

lemma read_command_holds:
  assumes "store_holds m0 im m" "command_ok c" "\<And>k v. c \<noteq> CPut k v" "\<And>k. c \<noteq> CDelete k"
  shows "run_command c (Some im, w) = Some (Inr (fst (map_command c m)), Some im, w) \<and> snd (map_command c m) = m"
proof (cases c)
  case (CGet key)
  then show ?thesis
    using ImplGet_holds [OF assms(1), of key w] assms(2) by (simp add: StoreGet_def with_impl_def bindM_def ret_def)
next
  case CLen
  then show ?thesis
    using ImplLen_holds [OF assms(1), of w] by (simp add: StoreLen_def with_impl_def bindM_def ret_def)
next
  case (CSeekGE key)
  then show ?thesis
    using ImplSeekGE_holds [OF assms(1), of key w] assms(2) by (simp add: StoreSeekGE_def with_impl_def bindM_def ret_def)
next
  case (CSeekLE key)
  then show ?thesis
    using ImplSeekLE_holds [OF assms(1), of key w] assms(2) by (simp add: StoreSeekLE_def with_impl_def bindM_def ret_def)
next
  case CScan
  then show ?thesis
    using ImplScan_holds [OF assms(1), of collect "[]" w]
    by (simp add: StoreScan_def with_impl_def attempt_eq visit_collect bindM_def ret_def)
next
  case CReverseScan
  then show ?thesis
    using ImplReverseScan_holds [OF assms(1), of collect "[]" w]
    by (simp add: StoreReverseScan_def with_impl_def attempt_eq visit_collect bindM_def ret_def)
next
  case (CScanRange ge lt)
  then show ?thesis
    using ImplScanRange_holds [OF assms(1), of ge lt collect "[]" w] assms(2)
    by (simp add: StoreScanRange_def with_impl_def attempt_eq visit_collect bindM_def ret_def)
next
  case (CReverseScanRange le gt)
  then show ?thesis
    using ImplReverseScanRange_holds [OF assms(1), of le gt collect "[]" w] assms(2)
    by (simp add: StoreReverseScanRange_def with_impl_def attempt_eq visit_collect bindM_def ret_def)
qed (use assms in simp_all)

lemma run_command_holds:
  assumes "store_holds m0 im m" "command_ok c" "store_room im (command_size c + n) (Suc k)"
  shows "\<exists>im'. run_command c (Some im, w) = Some (Inr (fst (map_command c m)), Some im', w) \<and>
    store_holds m0 im' (snd (map_command c m)) \<and> store_room im' n k"
proof -
  consider (put) key val where "c = CPut key val" | (delete) key where "c = CDelete key"
    | (reads) "\<And>k v. c \<noteq> CPut k v" "\<And>k. c \<noteq> CDelete k"
    by blast
  then show ?thesis
  proof cases
    case put
    obtain im' where "ImplPut key val (im, w) = Some (Inr (), im', w)" "store_holds m0 im' (m(key \<mapsto> val))" "store_room im' n k"
      using ImplPut_holds [OF assms(1), of key val n k w] assms(2,3) by (auto simp: put)
    then show ?thesis
      by (intro exI [of _ im']) (simp add: put StorePut_def with_impl_def bindM_def ret_def)
  next
    case delete
    have "store_room im (record_size key [] + n) k"
      using assms(3) by (rule store_room_less) (simp_all add: delete)
    then obtain im' where "ImplDelete key (im, w) = Some (Inr (m key \<noteq> None), im', w)" "store_holds m0 im' (m(key := None))" "store_room im' n k"
      using ImplDelete_holds [OF assms(1), of key n k w] assms(2) by (auto simp: delete)
    then show ?thesis
      by (intro exI [of _ im']) (simp add: delete StoreDelete_def with_impl_def bindM_def ret_def)
  next
    case reads
    have "store_room im n k"
      using assms(3) by (rule store_room_less) simp_all
    then show ?thesis
      using read_command_holds [OF assms(1,2) reads] assms(1) by auto
  qed
qed

lemma run_fold:
  assumes "store_holds m0 im m" "\<forall>c \<in> set cs. command_ok c" "store_room im (sum_list (map command_size cs)) (length cs)"
  shows "\<exists>im'. fold_op (\<lambda>c as. bindM (run_command c) (\<lambda>a. ret (as @ [a]))) cs as (Some im, w) =
      Some (Inr (as @ fst (map_commands cs m)), Some im', w) \<and> store_holds m0 im' (snd (map_commands cs m))"
  using assms
proof (induction cs arbitrary: im m as)
  case Nil
  then show ?case
    by (auto simp: ret_def)
next
  case (Cons c cs)
  obtain im1 where 1: "run_command c (Some im, w) = Some (Inr (fst (map_command c m)), Some im1, w)"
    "store_holds m0 im1 (snd (map_command c m))" "store_room im1 (sum_list (map command_size cs)) (length cs)"
    using run_command_holds [OF Cons.prems(1), of c "sum_list (map command_size cs)" "length cs" w] Cons.prems(2,3) by auto
  obtain im' where "fold_op (\<lambda>c as. bindM (run_command c) (\<lambda>a. ret (as @ [a]))) cs (as @ [fst (map_command c m)]) (Some im1, w) =
      Some (Inr ((as @ [fst (map_command c m)]) @ fst (map_commands cs (snd (map_command c m)))), Some im', w)"
    "store_holds m0 im' (snd (map_commands cs (snd (map_command c m))))"
    using Cons.IH [OF 1(2) _ 1(3), of "as @ [fst (map_command c m)]"] Cons.prems(2) by auto
  then show ?case
    using 1(1) by (intro exI [of _ im']) (simp add: bindM_def ret_def Let_def split_def)
qed

lemma run_commands_holds:
  assumes "store_holds m0 im m" "\<forall>c \<in> set cs. command_ok c" "store_room im (sum_list (map command_size cs)) (length cs)"
  shows "\<exists>im'. run_commands cs (Some im, w) = Some (Inr (fst (map_commands cs m)), Some im', w) \<and>
    store_holds m0 im' (snd (map_commands cs m))"
  using run_fold [OF assms, of "[]" w] by (simp add: run_commands_def)

section \<open>A new store\<close>

lemma NewWithNodes_pages: "NewWithNodes K HeapNodeStore = Some (Inr x) \<Longrightarrow> page_ids (ix_nodes x) = 1"
proof -
  let ?p = "new_page\<lparr>np_first := 0, np_last := 0\<rparr>"
  let ?q = "?p\<lparr>np_routes := replicate 338 0\<rparr>"
  let ?s = "upd_page 0 ?q HeapNodeStore"
  have pg: "page_of HeapNodeStore 0 = Some new_page"
    by (simp add: HeapNodeStore_ok(3))
  have rebuild: "RebuildNode K 0 HeapNodeStore = Some (Inr (), ?s)"
    using pg by (simp add: RebuildNode_def op_simps ClearRoutes_def new_page_def)
  have pg': "page_of ?s 0 = Some ?q"
    by (rule upd_page_same [OF pg])
  have count: "CountRecords 0 ?s = Some (Inr 0, ?s)"
    unfolding CountRecords_def using pg' by (subst count_loop.simps) (simp add: op_simps new_page_def)
  show "NewWithNodes K HeapNodeStore = Some (Inr x) \<Longrightarrow> page_ids (ix_nodes x) = 1"
    using pg rebuild count by (auto simp: NewWithNodes_def NewIndex_def op_simps Root_def page_ids_def upd_page_def HeapNodeStore_def)
qed

text \<open>The file of a segment of 8192 bytes before and after its header is written.\<close>

definition blank_segment :: wal_segment where
  "blank_segment = \<lparr>ws_path = ''store/WAL'', ws_fd = None, ws_data = Some (replicate 8192 0), ws_size = 8192, ws_used = 0,
     ws_file_no = 1, ws_sealed = False, ws_data_dirty = False, ws_metadata_dirty = True\<rparr>"

lemma blank_init: "\<exists>s. InitHeader blank_segment = Some s \<and> wal_holds s [] \<and> ws_size s = 8192 \<and> ws_file_no s = 1 \<and> \<not> ws_sealed s"
  using InitHeader_holds [of blank_segment "replicate 8192 0"]
  by (auto simp: blank_segment_def kWalHeaderSize_def kRecordOffsetLimit_eq file_no_ok_def kRecordFileNoLimit_eq)

definition one_segment :: "wal_segment \<Rightarrow> seg_store" where
  "one_segment s = \<lparr>ss_dir = ''store'', ss_wal_size = 8192, ss_generation = 1, ss_active = 1, ss_next = 2,
     ss_snapshot = [no_owned], ss_segments = [(1, s)]\<rparr>"

lemma new_store:
  "\<exists>s x. InitHeader blank_segment = Some s \<and> NewWithNodes (SegKey (one_segment s)) HeapNodeStore = Some (Inr x) \<and>
    index_holds (SegKey (one_segment s)) x [] \<and> page_ids (ix_nodes x) = 1 \<and>
    (let im = new_impl ''store'' Options (one_segment s) x in
       im_records im = Some (one_segment s) \<and> store_holds Map.empty im Map.empty \<and> store_room im 4096 1000)"
proof -
  obtain s where s: "InitHeader blank_segment = Some s" "wal_holds s []" "ws_size s = 8192" "ws_file_no s = 1" "\<not> ws_sealed s"
    using blank_init by blast
  let ?ss = "one_segment s"
  obtain x where x: "NewWithNodes (SegKey ?ss) HeapNodeStore = Some (Inr x)" "index_holds (SegKey ?ss) x []"
    using NewWithNodes_empty by blast
  note pages = NewWithNodes_pages [OF x(1)]
  let ?im = "new_impl ''store'' Options ?ss x"
  have seg: "Segment ?ss i = (if i = 1 then Some s else None)" for i
    by (simp add: Segment_def one_segment_def)
  have holds: "seg_holds ?ss (\<lambda>_. [])"
    using s(2,4) by (simp add: seg_holds_def seg) (simp add: one_segment_def)
  have act: "Active ?ss = Some s"
    by (simp add: Active_def seg) (simp add: one_segment_def)
  have used: "unat (ws_used s) = 4096"
    using s(2) by (auto simp: wal_holds_def)
  have empty: "sg.contents ?ss [] = Map.empty"
    using sg.entry_contents(1) [OF x(2)] by auto
  have "store_parts Map.empty ?im ?ss x (\<lambda>_. []) [] s"
    using holds act x(2) s(5) by (simp add: store_parts_def new_impl_def empty) (simp add: one_segment_def)
  then have "store_holds Map.empty ?im Map.empty"
    unfolding store_holds_def using empty by metis
  moreover have "store_room ?im 4096 1000"
    using pages act used s(3) by (simp add: store_room_def new_impl_def SegmentCount_def kCheckpointWalSegmentThreshold_def) (simp add: one_segment_def)
  moreover have "im_records ?im = Some ?ss"
    by (simp add: new_impl_def)
  ultimately show ?thesis
    using s(1) x pages by (auto simp: Let_def)
qed

section \<open>A failed checkpoint\<close>

text \<open>
  \<^verbatim>\<open>ResetToSnapshot\<close> closes the segments first; when a later step of it fails the store has none, and the
  next append uses a segment that is not there.
\<close>

lemma fold_op_Inr:
  assumes "\<And>x a s r s'. f x a s = Some (r, s') \<Longrightarrow> \<exists>v. r = Inr v" "fold_op f xs a s = Some (r, s')"
  shows "\<exists>v. r = Inr v"
  using assms(2)
proof (induction xs arbitrary: a s)
  case Nil
  then show ?case
    by (auto simp: ret_def)
next
  case (Cons x xs)
  then obtain q s1 where q: "f x a s = Some (q, s1)"
    by (cases "f x a s") (auto simp: bindM_def)
  then obtain v where "q = Inr v"
    using assms(1) by blast
  then show ?case
    using Cons q by (simp add: bindM_def)
qed

lemma SegClose_empties: "SegClose sync (ss, w) = Some (r, ss', w') \<Longrightarrow> ss_segments ss' = []"
proof -
  assume run: "SegClose sync (ss, w) = Some (r, ss', w')"
  let ?loop = "fold_op (\<lambda>e first. bindM (attempt (on_segment (fst e) (WalClose sync))) (\<lambda>r. ret (first_error first (r :: status + unit))))
      (ss_segments ss) (Inr ()) :: (status + unit) seg"
  obtain q s1 where q: "?loop (ss, w) = Some (q, s1)"
    using run by (cases "?loop (ss, w)") (auto simp: SegClose_def bindM_def)
  then obtain v where "q = Inr v"
    by (rule exE [OF fold_op_Inr, rotated]) (auto simp: bindM_def attempt_def ret_def bind_eq_Some_conv)
  then show ?thesis
    using run q by (cases s1) (auto simp: SegClose_def bindM_def upd_fst_def res_def)
qed

lemma ResetToSnapshot_failed:
  assumes "ResetToSnapshot g (ss, w) = Some (Inl e, ss', w')" "g \<noteq> 0"
  shows "ss_segments ss' = [] \<and> SegAppend key val (ss', w'') = None"
proof -
  obtain r ss1 w1 where c: "SegClose False (ss, w) = Some (r, ss1, w1)"
    using assms by (cases "SegClose False (ss, w)") (auto simp: ResetToSnapshot_def bindM_def)
  note empty = SegClose_empties [OF c]
  have "ss_segments ss' = []"
    using assms c empty
    by (auto simp: ResetToSnapshot_def bindM_def on_snd_def upd_fst_def emplace_def Segment_def split: sum.splits option.splits Option.bind_splits)
  then show ?thesis
    by (simp add: SegAppend_def append_record_def append_active_def on_segment_def Segment_def bindM_def attempt_def)
qed

end
