(* ===== verification/WalDecode.thy ===== *)
theory WalDecode
  imports ReplayFacts
begin

text \<open>
  What an arbitrary log holds: a record that is read with its checksum is the encoding of an entry,
  so every segment with a valid header has a readable part, which ends at the end of the log or
  before a record that is damaged. A replay of any log is a replay of the readable part.
\<close>

section \<open>Decoding\<close>

lemma le32_of_le32:
  assumes "length bs = 4"
  shows "le32 (of_le32 bs) = bs"
proof -
  have "\<exists>a b c e. bs = [a, b, c, e]"
    using assms by (auto simp: length_Suc_conv eval_nat_numeral)
  then obtain a b c e where bs: "bs = [a, b, c, e]"
    by blast
  have "ucast (of_le32 bs) = a"
    by (rule bit_word_eqI) (auto simp: bs of_le32_def bit_simps)
  moreover have "ucast (drop_bit 8 (of_le32 bs)) = b"
    by (rule bit_word_eqI) (auto simp: bs of_le32_def bit_simps dest: bit_imp_le_length)
  moreover have "ucast (drop_bit 16 (of_le32 bs)) = c"
    by (rule bit_word_eqI) (auto simp: bs of_le32_def bit_simps dest: bit_imp_le_length)
  moreover have "ucast (drop_bit 24 (of_le32 bs)) = e"
    by (rule bit_word_eqI) (auto simp: bs of_le32_def bit_simps dest: bit_imp_le_length)
  ultimately show ?thesis
    by (simp add: le32_def bs)
qed

lemma Load32_peek: "Load32 d i = Some v \<Longrightarrow> peek d i 4 = Some (le32 v)"
  using peek_length [of d i 4] by (auto simp: Load32_def le32_of_le32)

lemma peek_join: "peek d i n = Some a \<Longrightarrow> peek d (i + n) m = Some b \<Longrightarrow> peek d i (n + m) = Some (a @ b)"
  by (simp add: peek_def take_add add.assoc add.commute [of n i] split: if_splits)

lemma RecordAtOffset_decodes:
  assumes "RecordAtOffset s i True = Some (Inr rec)" "wal_mapped s d" "unat i < 2 ^ 63"
  shows "\<exists>e. entry_ok e \<and> peek d (unat i) (length (encode_entry e)) = Some (encode_entry e) \<and>
    unat i + length (encode_entry e) \<le> unat (ws_used s)"
proof -
  obtain d' opc klen vlen where p: "ws_data s = Some d'" "\<not> (i < kWalHeaderSize \<or> i + of_nat kWalRecordHeaderSize > ws_used s)"
    "peek d' (unat i) 1 = Some [opc]" "Load32 d' (unat i + 1) = Some klen" "Load32 d' (unat i + 5) = Some vlen"
    using RecordAtOffset_Inr [OF assms(1)] by blast
  have d': "d' = d"
    using p(1) assms(2) by (simp add: wal_mapped_def)
  note parts = p(3-5) [unfolded d']
  let ?k = "unat klen" and ?v = "unat vlen"
  define fin where "fin = i + of_nat kWalRecordHeaderSize + ucast klen + (ucast vlen :: u64)"
  have lens: "unat (ucast klen :: u64) = ?k" "unat (ucast vlen :: u64) = ?v" "?k < 2 ^ 32" "?v < 2 ^ 32"
    using u32_less [of klen] u32_less [of vlen] by (simp_all add: unsigned_ucast_eq take_bit_nat_eq_self)
  have u13: "unat (i + of_nat kWalRecordHeaderSize) = unat i + 13"
    using assms(3) by (subst unat_add_lem [THEN iffD1]) (simp_all add: kWalRecordHeaderSize_def)
  have "unat (i + of_nat kWalRecordHeaderSize + ucast klen) = unat i + 13 + ?k"
    using u13 lens assms(3) by (subst unat_add_lem [THEN iffD1]) simp_all
  then have fin: "unat fin = unat i + 13 + ?k + ?v"
    unfolding fin_def using lens assms(3) by (subst unat_add_lem [THEN iffD1]) simp_all
  have read: "opc = kWalOpPut \<or> opc = kWalOpDelete" "opc = kWalOpDelete \<longrightarrow> (ucast vlen :: u64) = 0"
    "\<not> (ucast klen :: u64) > of_nat kMaxKeySize" "\<not> fin > ws_used s" "read_body d i fin (ucast klen) (ucast vlen) opc True = Some (Inr rec)"
    using assms(1) [unfolded RecordAtOffset_parts [OF p(2,1,3-5)], folded fin_def] by (auto simp: d' split: if_splits)
  obtain rb crc key val where b: "peek d (unat i) (unat (fin - i)) = Some rb" "Load32 d (unat i + 9) = Some crc"
    "WalRecordCRC rb = crc" "peek d (unat i + 13) ?k = Some key" "peek d (unat i + 13 + ?k) ?v = Some val"
    using read(5) by (auto simp: read_body_def lens kWalRecordCRCOffset_def kWalRecordHeaderSize_def bind_eq_Some_conv split: if_splits)
  let ?e = "(opc, key, val)"
  have kv: "length key = ?k" "length val = ?v"
    using b(4,5) peek_length by blast+
  then have words: "of_nat (length key) = klen" "of_nat (length val) = vlen"
    by simp_all
  have "peek d (unat i) 9 = Some (entry_head ?e)"
    using peek_join [OF parts(1) peek_join [OF Load32_peek [OF parts(2)]], of 4 "le32 vlen"] Load32_peek [OF parts(3)]
    by (simp add: add.commute [of 5] entry_head_def words)
  then have "peek d (unat i) 13 = Some (entry_head ?e @ le32 crc)"
    using peek_join [where i = "unat i" and n = 9, OF _ Load32_peek [OF b(2)]] by simp
  then have "peek d (unat i) (13 + ?k) = Some ((entry_head ?e @ le32 crc) @ key)"
    using b(4) by (rule peek_join)
  then have whole: "peek d (unat i) (13 + ?k + ?v) = Some (entry_head ?e @ le32 crc @ key @ val)"
    using peek_join [of d "unat i" "13 + ?k"] b(5) by (simp add: add.assoc)
  have "unat (fin - i) = 13 + ?k + ?v"
    using fin by (subst unat_sub) (simp_all add: word_le_nat_alt)
  then have rb: "rb = entry_head ?e @ le32 crc @ key @ val"
    using b(1) whole by simp
  have "crc = entry_crc ?e"
    using b(3) by (simp add: rb WalRecordCRC_parts entry_crc_def kWalRecordCRCOffset_def kWalRecordHeaderSize_def)
  then have enc: "encode_entry ?e = entry_head ?e @ le32 crc @ key @ val"
    by (simp add: encode_entry_def)
  have "unat (of_nat kMaxKeySize :: u64) = kMaxKeySize"
    by (simp add: kMaxKeySize_def)
  then have "key_ok key"
    using read(3) kv(1) lens(1) by (simp add: key_ok_def word_le_nat_alt not_less)
  moreover have "opc = kWalOpDelete \<longrightarrow> val = []"
    using read(2) kv(2) lens(2) by (metis length_0_conv unat_0)
  ultimately have "entry_ok ?e"
    using read(1) kv(2) lens(4) by (simp add: entry_ok_def)
  moreover have "length (encode_entry ?e) = 13 + ?k + ?v"
    using kv by (simp add: encode_entry_length)
  ultimately show ?thesis
    using whole enc read(4) fin by (intro exI [of _ ?e]) (simp add: not_less word_le_nat_alt add.assoc)
qed

section \<open>The readable part\<close>

text \<open>A segment as \<^verbatim>\<open>WalSegment::Open\<close> leaves it: mapped, with a valid header.\<close>

definition wal_valid :: "wal_segment \<Rightarrow> bool" where
  "wal_valid s \<longleftrightarrow> (\<exists>d. wal_mapped s d \<and> header_ok d (ws_used s))"

lemma readable_extends:
  assumes "wal_mapped s d" "header_ok d (ws_used s)" "list_all entry_ok rs" "4096 + length (log_bytes rs) \<le> unat (ws_used s)"
    "peek d 4096 (length (log_bytes rs)) = Some (log_bytes rs)"
  shows "\<exists>rs' bad. readable s (rs @ rs') bad"
  using assms(3-5)
proof (induction "unat (ws_used s) - length (log_bytes rs)" arbitrary: rs rule: less_induct)
  case less
  let ?j = "4096 + length (log_bytes rs)"
  note bounds = wal_mapped_bounds [OF assms(1)]
  have data: "ws_data s = Some d"
    using assms(1) by (simp add: wal_mapped_def)
  show ?case
  proof (cases "unat (ws_used s) = ?j")
    case True
    then have "readable s (rs @ []) None"
      using less.prems assms(1,2) data by (auto simp: readable_def)
    then show ?thesis
      by blast
  next
    case False
    have u: "unat (of_nat ?j :: u64) = ?j"
      using less.prems(2) bounds by (intro unat_of_nat64) simp
    then have small: "unat (of_nat ?j :: u64) < 2 ^ 63"
      using less.prems(2) bounds by simp
    obtain r where r: "RecordAtOffset s (of_nat ?j) True = Some r"
      using RecordAtOffset_total [OF assms(1) small] by blast
    show ?thesis
    proof (cases r)
      case (Inl e)
      then have "readable s (rs @ []) (Some e)"
        using less.prems assms(1,2) data r False by (auto simp: readable_def)
      then show ?thesis
        by blast
    next
      case (Inr rec)
      then obtain e where e: "entry_ok e" "peek d ?j (length (encode_entry e)) = Some (encode_entry e)"
        "?j + length (encode_entry e) \<le> unat (ws_used s)"
        using RecordAtOffset_decodes [OF _ assms(1) small] r u by auto
      have "peek d 4096 (length (log_bytes (rs @ [e]))) = Some (log_bytes (rs @ [e]))"
        using peek_join [OF less.prems(3) e(2)] by simp
      then have "\<exists>rs' bad. readable s ((rs @ [e]) @ rs') bad"
        using e less.prems by (intro less.hyps) (simp_all add: encode_entry_length)
      then show ?thesis
        by (metis append.assoc)
    qed
  qed
qed

lemma readable_exists: "wal_valid s \<Longrightarrow> \<exists>rs bad. readable s rs bad"
proof -
  assume "wal_valid s"
  then obtain d where d: "wal_mapped s d" "header_ok d (ws_used s)"
    by (auto simp: wal_valid_def)
  then have "4096 \<le> length d"
    using wal_mapped_bounds [OF d(1)] by (simp add: wal_mapped_def)
  then show ?thesis
    using readable_extends [OF d, of "[]"] wal_mapped_bounds(2) [OF d(1)] by (auto simp: peek_def)
qed

section \<open>Replay of an arbitrary log\<close>

definition seg_valid :: "seg_store \<Rightarrow> bool" where
  "seg_valid ss \<longleftrightarrow> distinct (segment_nos ss) \<and> (\<forall>i s. Segment ss i = Some s \<longrightarrow> ws_file_no s = i \<and> wal_valid s)"

lemma seg_valid_reads: "seg_valid ss \<Longrightarrow> \<exists>B bad. seg_reads ss B bad"
proof -
  assume ss: "seg_valid ss"
  then have "\<exists>rs bad. \<forall>s. Segment ss i = Some s \<longrightarrow> readable s rs bad" for i
    using readable_exists by (cases "Segment ss i") (auto simp: seg_valid_def)
  then obtain B bad where "\<forall>i s. Segment ss i = Some s \<longrightarrow> readable s (B i) (bad i)"
    by metis
  then show ?thesis
    using ss unfolding seg_valid_def seg_reads_def by blast
qed

text \<open>The segments that are kept: those up to the first damaged one.\<close>

definition kept :: "(u64 \<Rightarrow> status option) \<Rightarrow> u64 list \<Rightarrow> u64 list" where
  "kept bad nos = takeWhile (\<lambda>i. bad i = None) nos @ take 1 (dropWhile (\<lambda>i. bad i = None) nos)"

definition first_bad :: "(u64 \<Rightarrow> status option) \<Rightarrow> u64 list \<Rightarrow> status option" where
  "first_bad bad nos = (case dropWhile (\<lambda>i. bad i = None) nos of [] \<Rightarrow> None | i # _ \<Rightarrow> bad i)"

lemma kept_none: "first_bad bad nos = None \<Longrightarrow> kept bad nos = nos \<and> (\<forall>i \<in> set nos. bad i = None)"
proof -
  assume none: "first_bad bad nos = None"
  have "dropWhile (\<lambda>i. bad i = None) nos = []"
  proof (rule ccontr)
    assume a: "dropWhile (\<lambda>i. bad i = None) nos \<noteq> []"
    then show False
      using none hd_dropWhile [OF a] by (cases "dropWhile (\<lambda>i. bad i = None) nos") (simp_all add: first_bad_def)
  qed
  moreover from this have "takeWhile (\<lambda>i. bad i = None) nos = nos"
    using takeWhile_dropWhile_id [of "\<lambda>i. bad i = None" nos] by simp
  ultimately show ?thesis
    unfolding kept_def by (auto simp: dropWhile_eq_Nil_conv simp del: takeWhile_eq_all_conv)
qed

lemma kept_some:
  assumes "first_bad bad nos = Some e"
  obtains pre b post where "nos = pre @ b # post" "\<And>i. i \<in> set pre \<Longrightarrow> bad i = None" "bad b = Some e" "kept bad nos = pre @ [b]"
proof -
  let ?P = "\<lambda>i. bad i = None"
  obtain b post where d: "dropWhile ?P nos = b # post" "bad b = Some e"
    using assms by (cases "dropWhile ?P nos") (simp_all add: first_bad_def)
  show ?thesis
  proof (rule that)
    show "nos = takeWhile ?P nos @ b # post"
      using takeWhile_dropWhile_id [of ?P nos] d(1) by simp
    show "kept bad nos = takeWhile ?P nos @ [b]"
      by (simp add: kept_def d(1))
    show "bad i = None" if "i \<in> set (takeWhile ?P nos)" for i
      using set_takeWhileD [OF that] by simp
  qed (rule d(2))
qed

lemma ReplayAll_any:
  assumes "seg_reads ss B bad" "index_holds (SegKey ss) x es" "\<And>p. p \<in> snd ` set es \<Longrightarrow> IsSnapshotPosition p"
    "page_ids (ix_nodes x) \<le> 2 ^ 62"
  shows "\<exists>ss' x' es' w'. ReplayAll kPointInTime (ss, x, w) = Some (Inr (), ss', x', w') \<and> index_holds (SegKey ss') x' es' \<and>
    seg_holds ss' B \<and> sg.contents ss' es' = fold apply_entry (log_entries B (kept bad (sort (segment_nos ss)))) (sg.contents ss es) \<and>
    ReplayAll kStrict (ss, x, w) =
      (case first_bad bad (sort (segment_nos ss)) of None \<Rightarrow> Some (Inr (), ss, x', w) | Some e \<Rightarrow> Some (Inl e, ss, x', w))"
proof -
  let ?nos = "sort (segment_nos ss)"
  have dist: "distinct ?nos"
    using assms(1) by (simp add: seg_reads_def)
  have room: "page_ids (ix_nodes x) + length (log_entries B js) \<le> 2 ^ 63" if "distinct js" "set js \<subseteq> set ?nos" for js
    using seg_reads_few [OF assms(1), of js] that assms(4) by simp
  show ?thesis
  proof (cases "first_bad bad ?nos")
    case None
    note k = kept_none [OF None]
    have good: "bad i = None" if "Segment ss i \<noteq> None" for i
      using k that Segment_mem [of i ss] unfolding set_sort by blast
    have "page_ids (ix_nodes x) + length (log_entries B ?nos) \<le> 2 ^ 63"
      using dist by (intro room) simp_all
    from ReplayAll_complete [OF assms(1) good assms(2) this, of w] show ?thesis
      unfolding None option.case k [THEN conjunct1] by blast
  next
    case (Some e)
    then obtain pre b post where k: "?nos = pre @ b # post" "\<And>i. i \<in> set pre \<Longrightarrow> bad i = None" "bad b = Some e" "kept bad ?nos = pre @ [b]"
      using kept_some by blast
    have "page_ids (ix_nodes x) + length (log_entries B (pre @ [b])) \<le> 2 ^ 63"
      using dist k(1) by (intro room) auto
    from ReplayAll_cut [OF assms(1) k(1-3) assms(2,3) this] show ?thesis
      unfolding k(4) Some option.case by metis
  qed
qed

end
