(* ===== verification/Triples.thy ===== *)
theory Triples
  imports Disk
begin

text \<open>
  Total correctness of operations: \<open>triple P m Q E\<close> says that \<open>m\<close> returns from every state with
  \<open>P\<close>, with a value and a state in \<open>Q\<close> or an error and a state in \<open>E\<close>. The rules follow the
  combinators; the system calls are described by what they may do to the files.
\<close>

definition outcome_in :: "(('e + 'a) \<times> 's) option \<Rightarrow> ('a \<Rightarrow> 's \<Rightarrow> bool) \<Rightarrow> ('e \<Rightarrow> 's \<Rightarrow> bool) \<Rightarrow> bool" where
  "outcome_in x Q E = (case x of None \<Rightarrow> False | Some (Inl e, s) \<Rightarrow> E e s | Some (Inr a, s) \<Rightarrow> Q a s)"

lemma outcome_in_simps [simp]:
  "\<not> outcome_in None Q E" "outcome_in (Some (Inl e, s)) Q E = E e s" "outcome_in (Some (Inr a, s)) Q E = Q a s"
  by (simp_all add: outcome_in_def)

lemma outcome_inE:
  assumes "outcome_in x Q E"
  obtains (err) e s where "x = Some (Inl e, s)" "E e s" | (val) a s where "x = Some (Inr a, s)" "Q a s"
proof (cases x)
  case (Some y)
  then show ?thesis
    using assms err val by (cases "fst y"; cases y) auto
qed (use assms in simp)

lemma outcome_in_mono: "outcome_in x Q' E' \<Longrightarrow> (\<And>a s. Q' a s \<Longrightarrow> Q a s) \<Longrightarrow> (\<And>e s. E' e s \<Longrightarrow> E e s) \<Longrightarrow> outcome_in x Q E"
  by (auto elim!: outcome_inE)

definition triple :: "('s \<Rightarrow> bool) \<Rightarrow> ('s, 'e, 'a) op \<Rightarrow> ('a \<Rightarrow> 's \<Rightarrow> bool) \<Rightarrow> ('e \<Rightarrow> 's \<Rightarrow> bool) \<Rightarrow> bool" where
  "triple P m Q E \<longleftrightarrow> (\<forall>s. P s \<longrightarrow> outcome_in (m s) Q E)"

lemma tripleI: "(\<And>s. P s \<Longrightarrow> outcome_in (m s) Q E) \<Longrightarrow> triple P m Q E"
  by (simp add: triple_def)

lemma tripleD: "triple P m Q E \<Longrightarrow> P s \<Longrightarrow> outcome_in (m s) Q E"
  by (simp add: triple_def)

lemma triple_conseq:
  assumes "triple P' m Q' E'" "\<And>s. P s \<Longrightarrow> P' s" "\<And>a s. Q' a s \<Longrightarrow> Q a s" "\<And>e s. E' e s \<Longrightarrow> E e s"
  shows "triple P m Q E"
  unfolding triple_def by (intro allI impI outcome_in_mono [OF tripleD [OF assms(1)]]) (rule assms, assumption)+

lemma triple_pre: "triple P' m Q E \<Longrightarrow> (\<And>s. P s \<Longrightarrow> P' s) \<Longrightarrow> triple P m Q E"
  by (simp add: triple_def)

lemma outcome_bind: "outcome_in (m s) (\<lambda>a s'. outcome_in (f a s') Q E) E \<Longrightarrow> outcome_in (bindM m f s) Q E"
  by (erule outcome_inE) (simp_all add: bindM_def)

lemma triple_bind:
  assumes "triple P m R E" "\<And>a. triple (R a) (f a) Q E"
  shows "triple P (bindM m f) Q E"
proof (rule tripleI)
  fix s
  assume "P s"
  then show "outcome_in (bindM m f s) Q E"
    using tripleD [OF assms(1)] tripleD [OF assms(2)] by (blast intro: outcome_bind outcome_in_mono)
qed

lemma triple_ret: "triple (Q a) (ret a) Q E"
  by (simp add: triple_def ret_def)

lemma triple_err: "triple (E e) (err e) Q E"
  by (simp add: triple_def err_def)

lemma triple_retI: "(\<And>s. P s \<Longrightarrow> Q a s) \<Longrightarrow> triple P (ret a) Q E"
  by (simp add: triple_def ret_def)

lemma triple_errI: "(\<And>s. P s \<Longrightarrow> E e s) \<Longrightarrow> triple P (err e) Q E"
  by (simp add: triple_def err_def)

text \<open>The states after an operation whose result is kept as a value.\<close>

definition either :: "('e \<Rightarrow> 's \<Rightarrow> bool) \<Rightarrow> ('a \<Rightarrow> 's \<Rightarrow> bool) \<Rightarrow> 'e + 'a \<Rightarrow> 's \<Rightarrow> bool" where
  "either E Q r = (case r of Inl e \<Rightarrow> E e | Inr a \<Rightarrow> Q a)"

lemma either_simps [simp]: "either E Q (Inl e) = E e" "either E Q (Inr a) = Q a"
  by (simp_all add: either_def)

lemma triple_attempt: "triple P m Q E \<Longrightarrow> triple P (attempt m) (either E Q) F"
  by (intro tripleI, drule (1) tripleD, erule outcome_inE) (simp_all add: attempt_def)

lemma triple_attempt_bind:
  assumes "triple P m R E'" "\<And>e. triple (E' e) (f (Inl e)) Q E" "\<And>a. triple (R a) (f (Inr a)) Q E"
  shows "triple P (bindM (attempt m) f) Q E"
proof (rule triple_bind [OF triple_attempt [OF assms(1)]])
  show "triple (either E' R r) (f r) Q E" for r
    using assms(2,3) by (cases r) simp_all
qed

lemma triple_ignored: "triple P m (\<lambda>_. Q) (\<lambda>_. Q) \<Longrightarrow> triple P (ignored m) (\<lambda>_. Q) F"
  unfolding ignored_def by (erule triple_attempt_bind) (rule triple_ret)+

lemma triple_on_error:
  assumes "triple P m Q E'" "\<And>e. triple (E' e) c (\<lambda>_. E e) (\<lambda>_. E e)"
  shows "triple P (on_error m c) Q E"
  unfolding on_error_def
  by (rule triple_attempt_bind [OF assms(1)])
    (auto intro: triple_ret triple_bind [OF triple_ignored [OF assms(2)] triple_err])

lemma triple_both:
  assumes "triple P m Q' E'" "\<And>a. triple (Q' a) c (\<lambda>_. Q a) E" "\<And>e. triple (E' e) c (\<lambda>_. E e) (\<lambda>_. E e)"
  shows "triple P (both m c) Q E"
  unfolding both_def
proof (rule triple_attempt_bind [OF assms(1)])
  show "triple (E' e) (bindM (attempt c) (\<lambda>rc. case Inl e of Inl e \<Rightarrow> err e | Inr a \<Rightarrow> (case rc of Inl e \<Rightarrow> err e | Inr _ \<Rightarrow> ret a))) Q E" for e
    by (rule triple_attempt_bind [OF assms(3)]) (simp_all add: triple_err)
  show "triple (Q' a) (bindM (attempt c) (\<lambda>rc. case Inr a of Inl e \<Rightarrow> err e | Inr a \<Rightarrow> (case rc of Inl e \<Rightarrow> err e | Inr _ \<Rightarrow> ret a))) Q E" for a
    by (rule triple_attempt_bind [OF assms(2)]) (simp_all add: triple_err triple_ret)
qed

lemma triple_io: "triple P m Q (\<lambda>_. E) \<Longrightarrow> triple P (io what path m) Q (\<lambda>_. E)"
  unfolding io_def
  by (erule triple_attempt_bind) (simp_all add: triple_ret triple_def IoError_def err_def ret_def)

lemma triple_fold:
  assumes "\<And>x a. x \<in> set xs \<Longrightarrow> triple (I a) (f x a) I E"
  shows "triple (I a) (fold_op f xs a) I E"
  using assms
proof (induction xs arbitrary: a)
  case (Cons x xs)
  then show ?case
    using triple_bind [of "I a" "f x a" I E "fold_op f xs" I] by simp
qed (simp add: triple_ret)

section \<open>System calls\<close>

text \<open>What a call that fails leaves: the clock has moved on.\<close>

definition same_files :: "world \<Rightarrow> world \<Rightarrow> bool" where
  "same_files w w' \<longleftrightarrow> file_at w' = file_at w \<and> is_dir w' = is_dir w"

lemma tick_simps [simp]:
  "w_files (tick w) = w_files w" "w_dirs (tick w) = w_dirs w" "w_fds (tick w) = w_fds w"
  "file_at (tick w) = file_at w" "is_dir (tick w) = is_dir w"
  by (simp_all add: tick_def file_at_def is_dir_def fun_eq_iff)

lemma syscall_result:
  "\<exists>oc. (\<exists>e. syscall f w = Some (Inl e, tick w)) \<or> syscall f w = Some (f oc (tick w))"
  by (auto simp: syscall_def split: outcome.splits)

lemma triple_syscall:
  assumes "\<And>w. P w \<Longrightarrow> E (tick w)" "\<And>w oc. P w \<Longrightarrow> outcome_in (Some (f oc (tick w))) Q (\<lambda>_. E)"
  shows "triple P (syscall f) Q (\<lambda>_. E)"
proof (rule tripleI)
  fix w
  assume "P w"
  note a = assms [OF this]
  obtain oc where "(\<exists>e. syscall f w = Some (Inl e, tick w)) \<or> syscall f w = Some (f oc (tick w))"
    using syscall_result by blast
  then show "outcome_in (syscall f w) Q (\<lambda>_. E)"
    using a(1) a(2) [of oc] by auto
qed

lemma file_at_set_file [simp]: "file_at (set_file p d w) q = (if q = p then Some d else file_at w q)"
proof -
  have "map_of (filter (\<lambda>f. fst f \<noteq> p) xs) q = (if q = p then None else map_of xs q)" for xs :: "(path \<times> bytes) list"
    by (induction xs) auto
  then show ?thesis
    by (simp add: file_at_def set_file_def)
qed

lemma file_at_del_file [simp]: "file_at (del_file p w) q = (if q = p then None else file_at w q)"
proof -
  have "map_of (filter (\<lambda>f. fst f \<noteq> p) xs) q = (if q = p then None else map_of xs q)" for xs :: "(path \<times> bytes) list"
    by (induction xs) auto
  then show ?thesis
    by (simp add: file_at_def del_file_def)
qed

lemma set_file_simps [simp]:
  "is_dir (set_file p d w) = is_dir w" "w_fds (set_file p d w) = w_fds w" "is_dir (del_file p w) = is_dir w" "w_fds (del_file p w) = w_fds w"
  by (simp_all add: set_file_def del_file_def is_dir_def fun_eq_iff)

lemma fds_simps [simp]:
  "file_at (w\<lparr>w_fds := x\<rparr>) = file_at w" "is_dir (w\<lparr>w_fds := x\<rparr>) = is_dir w"
  "file_at (set_offset fd p off w) = file_at w" "is_dir (set_offset fd p off w) = is_dir w"
  by (simp_all add: file_at_def is_dir_def set_offset_def fun_eq_iff)

lemma new_fd_result: "\<exists>fd. new_fd p w = (Inr fd, w\<lparr>w_fds := (fd, p, 0) # w_fds w\<rparr>)"
  by (simp add: new_fd_def Let_def)

text \<open>A descriptor that leads to a path.\<close>

definition fd_path :: "world \<Rightarrow> nat \<Rightarrow> path option" where
  "fd_path w fd = map_option fst (map_of (w_fds w) fd)"

lemma fd_path_simps [simp]:
  "fd_path (tick w) fd = fd_path w fd" "fd_path (set_file p d w) fd = fd_path w fd" "fd_path (del_file p w) fd = fd_path w fd"
  by (simp_all add: fd_path_def)

end
