(* ===== verification/DiskFacts.thy ===== *)
theory DiskFacts
  imports Triples Checkpoint
begin

text \<open>
  The file functions under every schedule of failures and short transfers: what they leave in the
  files when they work and when they fail, and that they return. \<open>fair w\<close> says that calls are not
  interrupted forever, the one case in which \<^verbatim>\<open>WriteAll\<close> and \<^verbatim>\<open>ReadAll\<close> do not return,
  and that no call reports \<^verbatim>\<open>ENOENT\<close> for a file that is there.
\<close>

definition fair :: "world \<Rightarrow> bool" where
  "fair w \<longleftrightarrow> (\<exists>n. \<forall>i \<ge> n. w_sched w i \<noteq> Fails EINTR) \<and> (\<forall>i. w_sched w i \<noteq> Fails ENOENT)"

lemma sched_simps [simp]:
  "w_sched (tick w) = w_sched w" "w_sched (set_file p d w) = w_sched w" "w_sched (del_file p w) = w_sched w"
  "w_sched (set_offset fd p i w) = w_sched w" "w_sched (w\<lparr>w_fds := x\<rparr>) = w_sched w"
  "w_clock (tick w) = Suc (w_clock w)" "w_clock (set_file p d w) = w_clock w" "w_clock (set_offset fd p i w) = w_clock w"
  by (simp_all add: tick_def set_file_def del_file_def set_offset_def)

lemma fair_simps [simp]:
  "fair (tick w) = fair w" "fair (set_file p d w) = fair w" "fair (del_file p w) = fair w"
  "fair (set_offset fd p i w) = fair w" "fair (w\<lparr>w_fds := x\<rparr>) = fair w"
  by (simp_all add: fair_def)

text \<open>The files and directories of a world, and a descriptor of one file in it.\<close>

definition files :: "(path \<rightharpoonup> bytes) \<Rightarrow> (path \<Rightarrow> bool) \<Rightarrow> world \<Rightarrow> bool" where
  "files F D w \<longleftrightarrow> file_at w = F \<and> is_dir w = D \<and> fair w"

definition on_file :: "(path \<rightharpoonup> bytes) \<Rightarrow> (path \<Rightarrow> bool) \<Rightarrow> path \<Rightarrow> nat \<Rightarrow> bytes \<Rightarrow> nat \<Rightarrow> world \<Rightarrow> bool" where
  "on_file F D p fd d off w \<longleftrightarrow> files (F(p \<mapsto> d)) D w \<and> map_of (w_fds w) fd = Some (p, off)"

lemma files_simps [simp]:
  "files F D (tick w) = files F D w" "files F D (w\<lparr>w_fds := x\<rparr>) = files F D w" "files F D (set_offset fd p i w) = files F D w"
  by (simp_all add: files_def)

lemma fds_simps2 [simp]: "w_fds (set_offset fd p i w) = (fd, p, i) # filter (\<lambda>f. fst f \<noteq> fd) (w_fds w)"
  by (simp add: set_offset_def)

lemma files_set: "files F D w \<Longrightarrow> files (F(p \<mapsto> d)) D (set_file p d w)" "files F D w \<Longrightarrow> files (F(p := None)) D (del_file p w)"
  by (simp_all add: files_def fun_eq_iff)

lemma on_file_files: "on_file F D p fd d off w \<Longrightarrow> files (F(p \<mapsto> d)) D w"
  by (simp add: on_file_def)

lemma on_file_tick [simp]: "on_file F D p fd d off (tick w) = on_file F D p fd d off w"
  by (simp add: on_file_def)

section \<open>Single calls\<close>

lemma triple_sys_ok: "(\<And>w. P w \<Longrightarrow> P (tick w)) \<Longrightarrow> triple P sys_ok (\<lambda>_. P) (\<lambda>_. P)"
  unfolding sys_ok_def by (rule triple_syscall) auto

lemma triple_open_trunc:
  "triple (files F D) (sys_open_trunc path) (\<lambda>fd. on_file F D (resolve path) fd [] 0) (\<lambda>_. files F D)"
  unfolding sys_open_trunc_def Let_def
  by (rule triple_syscall) (auto simp: new_fd_def Let_def on_file_def intro!: files_set)

lemma triple_open_read:
  "triple (\<lambda>w. files F D w \<and> F (resolve path) = Some d) (sys_open_read path) (\<lambda>fd. on_file F D (resolve path) fd d 0)
    (\<lambda>e w. e \<noteq> ENOENT \<and> files F D w)"
proof (rule tripleI)
  fix w
  assume w: "files F D w \<and> F (resolve path) = Some d"
  show "outcome_in (sys_open_read path w) (\<lambda>fd. on_file F D (resolve path) fd d 0) (\<lambda>e w. e \<noteq> ENOENT \<and> files F D w)"
  proof (cases "\<exists>e. w_sched w (w_clock w) = Fails e")
    case True
    then obtain e where e: "w_sched w (w_clock w) = Fails e" "e \<noteq> ENOENT"
      using w by (auto simp: files_def fair_def)
    then show ?thesis
      using w by (simp add: sys_open_read_def syscall_def)
  next
    case False
    then have "sys_open_read path w = Some (new_fd (resolve path) (tick w))"
      using w by (auto simp: sys_open_read_def syscall_def Let_def files_def split: outcome.splits)
    then show ?thesis
      using w by (auto simp: new_fd_def Let_def on_file_def files_def)
  qed
qed

lemma triple_open_dir: "triple (files F D) (sys_open_dir path) (\<lambda>_. files F D) (\<lambda>_. files F D)"
  unfolding sys_open_dir_def Let_def by (rule triple_syscall) (auto simp: new_fd_def Let_def)

lemma triple_close: "triple (files F D) (sys_close fd) (\<lambda>_. files F D) (\<lambda>_. files F D)"
  by (rule tripleI) (auto simp: sys_close_def Let_def split: outcome.splits)

lemma triple_unlink: "triple (files F D) (sys_unlink path) (\<lambda>_. files (F(resolve path := None)) D) (\<lambda>_. files F D)"
  unfolding sys_unlink_def Let_def by (rule triple_syscall) (auto intro: files_set)

lemma triple_rename:
  "triple (\<lambda>w. files F D w \<and> F (resolve a) = Some d) (sys_rename a b) (\<lambda>_. files (F(resolve a := None, resolve b \<mapsto> d)) D) (\<lambda>_. files F D)"
  unfolding sys_rename_def Let_def
  by (rule triple_syscall) (auto intro!: files_set split: option.splits simp: files_def)

lemma triple_mkdir:
  "triple (files F D) (sys_mkdir path) (\<lambda>_. files F (\<lambda>q. q = resolve path \<or> D q)) (\<lambda>_. files F D)"
  unfolding sys_mkdir_def Let_def
  by (rule triple_syscall) (auto simp: files_def fair_def file_at_def is_dir_def fun_eq_iff)

section \<open>Transfers\<close>

lemma sys_write_app:
  assumes "on_file F D p fd d (length d) w"
  shows "(\<exists>e. sys_write fd bs w = Some (Inl e, tick w) \<and> w_sched w (w_clock w) = Fails e) \<or>
    (\<exists>m w'. sys_write fd bs w = Some (Inr m, w') \<and> m \<le> length bs \<and> on_file F D p fd (d @ take m bs) (length (d @ take m bs)) w' \<and>
      w_clock w' = Suc (w_clock w) \<and> w_sched w' = w_sched w)"
proof (cases "\<exists>e. w_sched w (w_clock w) = Fails e")
  case True
  then show ?thesis
    by (auto simp: sys_write_def syscall_def)
next
  case False
  let ?m = "transfer (w_sched w (w_clock w)) (length bs)"
  let ?b = "take ?m bs"
  have m: "?m \<le> length bs"
    by (simp add: transfer_def split: outcome.split)
  have fd: "map_of (w_fds w) fd = Some (p, length d)" "file_at w p = Some d"
    using assms by (auto simp: on_file_def files_def)
  let ?w = "set_offset fd p (length d + length ?b) (set_file p (take (length d) d @ ?b @ drop (length d + length ?b) d) (tick w))"
  have "sys_write fd bs w = Some (Inr (length ?b), ?w)"
    using False fd by (auto simp: sys_write_def syscall_def Let_def split: outcome.splits)
  moreover have "on_file F D p fd (d @ ?b) (length (d @ ?b)) ?w"
    using assms files_set(1) [of "F(p \<mapsto> d)" D "tick w" p "d @ ?b"] by (simp add: on_file_def)
  ultimately show ?thesis
    using m by (intro disjI2 exI [of _ ?m] exI [of _ ?w]) (simp add: min_def)
qed

lemma WriteAll_app:
  assumes "on_file F D p fd d (length d) w"
  shows "outcome_in (WriteAll fd data path n w) (\<lambda>_. on_file F D p fd (d @ drop n data) (length (d @ drop n data)))
    (\<lambda>e w'. st_code e = kIoError \<and> (\<exists>d'. on_file F D p fd d' (length d') w'))"
proof -
  obtain n0 where n0: "\<forall>i \<ge> n0. w_sched w i \<noteq> Fails EINTR"
    using assms by (auto simp: on_file_def files_def fair_def)
  show ?thesis
    using assms n0
  proof (induction "(n0 - w_clock w) + (length data - n)" arbitrary: w n d rule: less_induct)
    case less
    show ?case
    proof (cases "n < length data")
      case False
      then show ?thesis
        using less.prems(1) by (subst WriteAll.simps) (simp add: ret_def)
    next
      case True
      from sys_write_app [OF less.prems(1), of "drop n data"] show ?thesis
      proof (elim disjE exE conjE)
        fix e
        assume e: "sys_write fd (drop n data) w = Some (Inl e, tick w)" "w_sched w (w_clock w) = Fails e"
        show ?thesis
        proof (cases "e = EINTR")
          case EINTR: True
          then have "w_clock w < n0"
            using e(2) less.prems(2) by (meson not_less)
          then have "outcome_in (WriteAll fd data path n (tick w)) (\<lambda>_. on_file F D p fd (d @ drop n data) (length (d @ drop n data)))
              (\<lambda>e w'. st_code e = kIoError \<and> (\<exists>d'. on_file F D p fd d' (length d') w'))"
            using less.prems by (intro less.hyps) simp_all
          then show ?thesis
            using True e(1) EINTR by (subst WriteAll.simps) (simp add: bindM_Inr attempt_eq)
        qed (use True e(1) less.prems(1) in \<open>subst WriteAll.simps, auto simp: bindM_Inr attempt_eq IoError_def err_def\<close>)
      next
        fix m w'
        assume w': "sys_write fd (drop n data) w = Some (Inr m, w')" "m \<le> length (drop n data)"
          "on_file F D p fd (d @ take m (drop n data)) (length (d @ take m (drop n data))) w'"
          "w_clock w' = Suc (w_clock w)" "w_sched w' = w_sched w"
        show ?thesis
        proof (cases "m = 0")
          case True
          then show ?thesis
            using \<open>n < length data\<close> w' by (subst WriteAll.simps) (auto simp: bindM_Inr attempt_eq err_def)
        next
          case False
          have "outcome_in (WriteAll fd data path (n + m) w') (\<lambda>_. on_file F D p fd ((d @ take m (drop n data)) @ drop (n + m) data)
                (length ((d @ take m (drop n data)) @ drop (n + m) data)))
              (\<lambda>e w'. st_code e = kIoError \<and> (\<exists>d'. on_file F D p fd d' (length d') w'))"
            using False True w' less.prems(2) by (intro less.hyps) simp_all
          moreover have "take m (drop n data) @ drop (n + m) data = drop n data"
            by (metis append_take_drop_id drop_drop add.commute)
          ultimately show ?thesis
            using True w'(1) False by (subst WriteAll.simps) (simp add: bindM_Inr attempt_eq)
        qed
      qed
    qed
  qed
qed

lemma sys_read_on:
  assumes "on_file F D p fd d off w"
  shows "(\<exists>e. sys_read fd n w = Some (Inl e, tick w) \<and> w_sched w (w_clock w) = Fails e) \<or>
    (\<exists>m w'. sys_read fd n w = Some (Inr (take m (drop off d)), w') \<and> m \<le> n \<and> on_file F D p fd d (off + length (take m (drop off d))) w' \<and>
      w_clock w' = Suc (w_clock w) \<and> w_sched w' = w_sched w)"
proof (cases "\<exists>e. w_sched w (w_clock w) = Fails e")
  case True
  then show ?thesis
    by (auto simp: sys_read_def syscall_def)
next
  case False
  let ?m = "transfer (w_sched w (w_clock w)) n"
  let ?b = "take ?m (drop off d)"
  have m: "?m \<le> n"
    by (simp add: transfer_def split: outcome.split)
  have fd: "map_of (w_fds w) fd = Some (p, off)" "file_at w p = Some d"
    using assms by (auto simp: on_file_def files_def)
  let ?w = "set_offset fd p (off + length ?b) (tick w)"
  have "sys_read fd n w = Some (Inr ?b, ?w)"
    using False fd by (auto simp: sys_read_def syscall_def Let_def split: outcome.splits)
  moreover have "on_file F D p fd d (off + length ?b) ?w"
    using assms by (simp add: on_file_def)
  ultimately show ?thesis
    using m by (intro disjI2 exI [of _ ?m] exI [of _ ?w]) simp
qed

lemma ReadAll_on:
  assumes "on_file F D p fd d (off + length acc) w" "acc = take (length acc) (drop off d)" "length acc \<le> want"
  shows "outcome_in (ReadAll fd want path acc w)
    (\<lambda>bs w'. bs = take want (drop off d) \<and> length bs = want \<and> on_file F D p fd d (off + want) w')
    (\<lambda>e w'. st_code e = kIoError \<and> (\<exists>off'. on_file F D p fd d off' w'))"
proof -
  obtain n0 where n0: "\<forall>i \<ge> n0. w_sched w i \<noteq> Fails EINTR"
    using assms by (auto simp: on_file_def files_def fair_def)
  show ?thesis
    using assms n0
  proof (induction "(n0 - w_clock w) + (want - length acc)" arbitrary: w acc rule: less_induct)
    case less
    show ?case
    proof (cases "length acc < want")
      case False
      then have "length acc = want"
        using less.prems(3) by simp
      then show ?thesis
        using less.prems(1,2) by (subst ReadAll.simps) (simp add: ret_def)
    next
      case True
      from sys_read_on [OF less.prems(1), of "want - length acc"] show ?thesis
      proof (elim disjE exE conjE)
        fix e
        assume e: "sys_read fd (want - length acc) w = Some (Inl e, tick w)" "w_sched w (w_clock w) = Fails e"
        show ?thesis
        proof (cases "e = EINTR")
          case EINTR: True
          then have "w_clock w < n0"
            using e(2) less.prems(4) by (meson not_less)
          then have "outcome_in (ReadAll fd want path acc (tick w))
              (\<lambda>bs w'. bs = take want (drop off d) \<and> length bs = want \<and> on_file F D p fd d (off + want) w')
              (\<lambda>e w'. st_code e = kIoError \<and> (\<exists>off'. on_file F D p fd d off' w'))"
            using less.prems by (intro less.hyps) simp_all
          then show ?thesis
            using True e(1) EINTR by (subst ReadAll.simps) (simp add: bindM_Inr attempt_eq)
        qed (use True e(1) less.prems(1) in \<open>subst ReadAll.simps, auto simp: bindM_Inr attempt_eq IoError_def err_def\<close>)
      next
        fix m w'
        assume w': "sys_read fd (want - length acc) w = Some (Inr (take m (drop (off + length acc) d)), w')" "m \<le> want - length acc"
          "on_file F D p fd d (off + length acc + length (take m (drop (off + length acc) d))) w'" "w_clock w' = Suc (w_clock w)" "w_sched w' = w_sched w"
        define b where "b = take m (drop (off + length acc) d)"
        have b: "length b \<le> m" "sys_read fd (want - length acc) w = Some (Inr b, w')" "on_file F D p fd d (off + length acc + length b) w'"
          using w'(1,3) by (simp_all add: b_def)
        show ?thesis
        proof (cases "b = []")
          case True
          then show ?thesis
            using \<open>length acc < want\<close> b by (subst ReadAll.simps) (auto simp: bindM_Inr attempt_eq err_def)
        next
          case False
          have "acc @ b = take (length acc + m) (drop off d)"
            unfolding b_def by (metis less.prems(2) take_add drop_drop add.commute)
          then have acc: "acc @ b = take (length (acc @ b)) (drop off d)"
            by (metis append_eq_conv_conj append_take_drop_id)
          have "outcome_in (ReadAll fd want path (acc @ b) w')
              (\<lambda>bs w'. bs = take want (drop off d) \<and> length bs = want \<and> on_file F D p fd d (off + want) w')
              (\<lambda>e w'. st_code e = kIoError \<and> (\<exists>off'. on_file F D p fd d off' w'))"
          proof (rule less.hyps [OF _ _ acc])
            have "0 < length b" "length acc + length b \<le> want"
              using False b(1) w'(2) less.prems(3) by simp_all
            then show "n0 - w_clock w' + (want - length (acc @ b)) < n0 - w_clock w + (want - length acc)"
              using True w'(4) by (simp del: length_greater_0_conv)
            show "on_file F D p fd d (off + length (acc @ b)) w'"
              using b(3) by (simp add: add.assoc)
            show "length (acc @ b) \<le> want"
              using b(1) w'(2) less.prems(3) by simp
            show "\<forall>i\<ge>n0. w_sched w' i \<noteq> Fails EINTR"
              using less.prems(4) w'(5) by simp
          qed
          then show ?thesis
            using True b(2) False by (subst ReadAll.simps) (simp add: bindM_Inr attempt_eq)
        qed
      qed
    qed
  qed
qed

section \<open>Triples of the file functions\<close>

lemma triple_WriteAll:
  "triple (on_file F D p fd d (length d)) (WriteAll fd data path 0) (\<lambda>_. on_file F D p fd (d @ data) (length (d @ data)))
    (\<lambda>_ w. \<exists>d'. on_file F D p fd d' (length d') w)"
  by (rule tripleI, rule outcome_in_mono [OF WriteAll_app]) auto

lemma triple_ReadAll:
  "triple (on_file F D p fd d off) (ReadAll fd want path [])
    (\<lambda>bs w. bs = take want (drop off d) \<and> length bs = want \<and> on_file F D p fd d (off + want) w)
    (\<lambda>e w. st_code e = kIoError \<and> (\<exists>off'. on_file F D p fd d off' w))"
  by (rule tripleI) (rule ReadAll_on, simp_all)

lemma triple_io_any: "triple P m Q (\<lambda>_. E) \<Longrightarrow> triple P (io what path m) Q (\<lambda>e w. st_code e = kIoError \<and> E w)"
  unfolding io_def
  by (erule triple_attempt_bind) (simp_all add: triple_ret triple_def IoError_def err_def ret_def)

text \<open>Calls on an open file.\<close>

lemma triple_close_file: "triple (\<lambda>w. \<exists>d off. on_file F D p fd d off w) (sys_close fd) (\<lambda>_ w. \<exists>d. files (F(p \<mapsto> d)) D w) (\<lambda>_ w. \<exists>d. files (F(p \<mapsto> d)) D w)"
  by (rule tripleI) (auto simp: sys_close_def Let_def on_file_def split: outcome.splits)

lemma triple_close_exact: "triple (on_file F D p fd d off) (sys_close fd) (\<lambda>_. files (F(p \<mapsto> d)) D) (\<lambda>_. files (F(p \<mapsto> d)) D)"
  by (rule tripleI) (auto simp: sys_close_def Let_def on_file_def split: outcome.splits)

lemma triple_fsync: "triple (on_file F D p fd d off) (sys_fsync fd) (\<lambda>_. on_file F D p fd d off) (\<lambda>_. on_file F D p fd d off)"
  unfolding sys_fsync_def by (rule triple_sys_ok) simp

lemma triple_SyncDir: "triple (files F D) (SyncDir path) (\<lambda>_. files F D) (\<lambda>_. files F D)"
  unfolding SyncDir_def sys_fsync_def
  by (intro triple_bind [where R = "\<lambda>_. files F D"] triple_both [where Q' = "\<lambda>_. files F D" and E' = "\<lambda>_. files F D"] triple_io
      triple_open_dir triple_close triple_sys_ok) simp_all

text \<open>
  \<open>write_file\<close>: the file is the old one or the new one at every end, and no other file but the
  temporary one is touched.
\<close>

definition same_but :: "path set \<Rightarrow> (path \<rightharpoonup> bytes) \<Rightarrow> (path \<rightharpoonup> bytes) \<Rightarrow> bool" where
  "same_but A F G \<longleftrightarrow> (\<forall>q. q \<notin> A \<longrightarrow> G q = F q)"

lemma triple_write_file:
  assumes "\<And>fd. triple (on_file F D (resolve (path @ kTmpSuffix)) fd [] 0) (body (path @ kTmpSuffix) fd)
      (\<lambda>_. on_file F D (resolve (path @ kTmpSuffix)) fd data (length data))
      (\<lambda>_ w. \<exists>d'. on_file F D (resolve (path @ kTmpSuffix)) fd d' (length d') w)"
    and "resolve (path @ kTmpSuffix) \<noteq> resolve path"
  shows "triple (files F D) (write_file dir path body)
    (\<lambda>_. files (F(resolve (path @ kTmpSuffix) := None, resolve path \<mapsto> data)) D)
    (\<lambda>_ w. (\<exists>G. files G D w \<and> same_but {resolve (path @ kTmpSuffix)} F G) \<or>
       files (F(resolve (path @ kTmpSuffix) := None, resolve path \<mapsto> data)) D w)"
proof -
  let ?tmp = "resolve (path @ kTmpSuffix)"
  let ?new = "files (F(?tmp := None, resolve path \<mapsto> data)) D"
  define G where "G w \<longleftrightarrow> (\<exists>G. files G D w \<and> same_but {?tmp} F G)" for w
  have G1: "G w" if "files (F(?tmp := x)) D w" for x w
    using that by (auto simp: G_def same_but_def)
  have G0: "G w" if "files F D w" for w
    using that by (auto simp: G_def same_but_def)
  have unlink: "triple G (sys_unlink (path @ kTmpSuffix)) (\<lambda>_. G) (\<lambda>_. G)"
  proof (rule tripleI)
    fix w
    assume "G w"
    then obtain H where H: "files H D w" "same_but {?tmp} F H"
      by (auto simp: G_def)
    show "outcome_in (sys_unlink (path @ kTmpSuffix) w) (\<lambda>_. G) (\<lambda>_. G)"
      using tripleD [OF triple_unlink H(1), of "path @ kTmpSuffix"] H(2)
      by (elim outcome_in_mono) (auto simp: G_def same_but_def)
  qed
  have opened: "triple (files F D) (io ''open'' (path @ kTmpSuffix) (sys_open_trunc (path @ kTmpSuffix))) (\<lambda>fd. on_file F D ?tmp fd [] 0) (\<lambda>_. G)"
    by (rule triple_io [OF triple_conseq [OF triple_open_trunc]]) (auto intro: G0)
  have "triple (on_file F D ?tmp fd [] 0) (bindM (body (path @ kTmpSuffix) fd) (\<lambda>_. io ''fsync'' (path @ kTmpSuffix) (sys_fsync fd)))
      (\<lambda>_. on_file F D ?tmp fd data (length data)) (\<lambda>_ w. \<exists>d off. on_file F D ?tmp fd d off w)" for fd
    by (rule triple_bind [OF triple_conseq [OF assms(1)] triple_io [OF triple_conseq [OF triple_fsync]]]) auto
  then have "triple (on_file F D ?tmp fd [] 0) (both (bindM (body (path @ kTmpSuffix) fd) (\<lambda>_. io ''fsync'' (path @ kTmpSuffix) (sys_fsync fd)))
      (io ''close'' (path @ kTmpSuffix) (sys_close fd))) (\<lambda>_. files (F(?tmp \<mapsto> data)) D) (\<lambda>_. G)" for fd
    by (rule triple_both) (rule triple_io [OF triple_conseq [OF triple_close_exact]] triple_io [OF triple_conseq [OF triple_close_file]], auto intro: G1)+
  then have written: "triple (on_file F D ?tmp fd [] 0) (on_error (both (bindM (body (path @ kTmpSuffix) fd) (\<lambda>_. io ''fsync'' (path @ kTmpSuffix) (sys_fsync fd)))
      (io ''close'' (path @ kTmpSuffix) (sys_close fd))) (sys_unlink (path @ kTmpSuffix))) (\<lambda>_. files (F(?tmp \<mapsto> data)) D) (\<lambda>_. G)" for fd
    by (rule triple_on_error) (rule unlink)
  have renamed: "triple (files (F(?tmp \<mapsto> data)) D) (sys_rename (path @ kTmpSuffix) path) (\<lambda>_. ?new) (\<lambda>_. G)"
    by (rule triple_conseq [OF triple_rename [of "F(?tmp \<mapsto> data)" D _ data]]) (auto intro: G1)
  have failed: "triple G (bindM (attempt (sys_unlink (path @ kTmpSuffix))) (\<lambda>u. IoError (f u) ''rename'' path)) (\<lambda>_. ?new) (\<lambda>_ w. G w \<or> ?new w)" for f
    by (rule triple_attempt_bind [OF unlink]) (simp_all add: triple_def IoError_def err_def)
  show ?thesis
    unfolding write_file_def Let_def G_def [symmetric]
    by (rule triple_bind [OF triple_conseq [OF opened]], assumption, assumption, blast)
      (rule triple_bind [OF triple_conseq [OF written]], assumption, assumption, blast,
        rule triple_attempt_bind [OF renamed], simp_all add: failed, rule triple_conseq [OF triple_SyncDir], auto)
qed

end
