(* ===== verification/CheckpointFacts.thy ===== *)
theory CheckpointFacts
  imports DiskFacts StoreCode
begin

text \<open>
  The files of a checkpoint: their bytes and round trips, what a changed byte does, and the order in
  which a checkpoint replaces them. Whatever call fails, the manifest is the old one or the new one,
  and it names a generation only after the snapshot of that generation is complete.
\<close>

section \<open>Names\<close>

lemma split_slash_nonempty [simp]: "split_slash s \<noteq> []"
  by (cases s) (auto split: list.split)

lemma split_slash_plain: "CHR ''/'' \<notin> set n \<Longrightarrow> split_slash n = [n]"
  by (induction n) auto

lemma split_slash_join: "split_slash (a @ ''/'' @ b) = split_slash a @ split_slash b"
proof (induction a)
  case (Cons c a)
  then show ?case
    by (cases "split_slash a") simp_all
qed simp

definition plain_name :: "string \<Rightarrow> bool" where
  "plain_name n \<longleftrightarrow> n \<noteq> [] \<and> n \<noteq> ''.'' \<and> CHR ''/'' \<notin> set n"

lemma resolve_JoinPath:
  assumes "plain_name n"
  shows "resolve (JoinPath dir n) = resolve dir @ [n]"
proof -
  have n: "split_slash n = [n]" "n \<noteq> []" "n \<noteq> ''.''" "hd n \<noteq> CHR ''/''"
    using assms split_slash_plain [of n] by (auto simp: plain_name_def dest: hd_in_set)
  consider "dir = []" | "dir \<noteq> []" "last dir = CHR ''/''" | "dir \<noteq> []" "last dir \<noteq> CHR ''/''"
    by blast
  then show ?thesis
  proof cases
    case 1
    then show ?thesis
      using n by (simp add: JoinPath_def resolve_def)
  next
    case 2
    then obtain a where a: "dir = a @ ''/''"
      by (metis append_butlast_last_id)
    have "split_slash (dir @ n) = split_slash a @ [n]" "split_slash dir = split_slash a @ [[]]"
      using split_slash_join [of a n] split_slash_join [of a "[]"] n(1) by (simp_all add: a)
    then show ?thesis
      using 2 n by (cases a) (simp_all add: JoinPath_def resolve_def a)
  next
    case 3
    have "split_slash (dir @ ''/'' @ n) = split_slash dir @ [n]"
      using split_slash_join [of dir n] n(1) by simp
    then show ?thesis
      using 3 n by (simp add: JoinPath_def resolve_def)
  qed
qed

lemma JoinPath_append: "n \<noteq> [] \<Longrightarrow> JoinPath dir n @ s = JoinPath dir (n @ s)"
  by (simp add: JoinPath_def)

text \<open>The paths of a checkpoint, and their temporary files, are different.\<close>

lemma digits_plain: "CHR ''/'' \<notin> set (digits n)"
proof (induction n rule: digits.induct)
  case (1 n)
  have c: "char_of (48 + d) \<noteq> CHR ''/''" if "d < 10" for d :: nat
  proof
    assume "char_of (48 + d) = CHR ''/''"
    then have "of_char (char_of (48 + d) :: char) = (of_char (CHR ''/'') :: nat)"
      by simp
    then show False
      using that by simp
  qed
  show ?case
    using 1 c [of n] c [of "n mod 10"] by (subst digits.simps) auto
qed

lemma name_plain: "plain_name kManifestName" "plain_name (kManifestName @ kTmpSuffix)" "plain_name (SnapshotFileName g)"
  "plain_name (SnapshotFileName g @ kTmpSuffix)"
  using digits_plain by (auto simp: plain_name_def kManifestName_def kTmpSuffix_def SnapshotFileName_def kSnapshotName_def FixedWidthID_def)

definition manifest_path :: "string \<Rightarrow> path" where
  "manifest_path dir = resolve (ManifestPath dir)"

definition snapshot_path :: "string \<Rightarrow> u64 \<Rightarrow> path" where
  "snapshot_path dir g = resolve (SnapshotPath dir g)"

lemma paths_eq:
  "manifest_path dir = resolve dir @ [kManifestName]" "snapshot_path dir g = resolve dir @ [SnapshotFileName g]"
  "resolve (ManifestPath dir @ kTmpSuffix) = resolve dir @ [kManifestName @ kTmpSuffix]"
  "resolve (SnapshotPath dir g @ kTmpSuffix) = resolve dir @ [SnapshotFileName g @ kTmpSuffix]"
  using name_plain by (simp_all add: manifest_path_def snapshot_path_def ManifestPath_def SnapshotPath_def resolve_JoinPath JoinPath_append
      kManifestName_def SnapshotFileName_def kSnapshotName_def)

lemma names_differ: "SnapshotFileName g \<noteq> kManifestName" "SnapshotFileName g @ s \<noteq> kManifestName" "SnapshotFileName g \<noteq> kManifestName @ s"
  "SnapshotFileName g @ s \<noteq> kManifestName @ t"
  by (simp_all add: SnapshotFileName_def kSnapshotName_def kManifestName_def)

section \<open>The manifest\<close>

definition manifest_head :: "u64 \<Rightarrow> bytes" where
  "manifest_head g = kManifestMagic @ le32 kManifestVersion @ [0, 0, 0, 0] @ le64 g @ [0, 0, 0, 0]"

definition manifest_bytes :: "u64 \<Rightarrow> bytes" where
  "manifest_bytes g = manifest_head g @ le32 (BytesCRC (manifest_head g @ [0, 0, 0, 0]))"

lemma manifest_length [simp]: "length kManifestMagic = 8" "length (manifest_head g) = 28" "length (manifest_bytes g) = 32"
  by (simp_all add: manifest_head_def manifest_bytes_def kManifestMagic_def)

lemma replicate4: "replicate 4 (0 :: byte) = [0, 0, 0, 0]"
  by (simp add: eval_nat_numeral)

lemma poke_append_at: "length a = i \<Longrightarrow> length b = length x \<Longrightarrow> poke (a @ b @ c) i x = Some (a @ x @ c)"
  by (simp add: poke_def)

lemma peek_at: "length a = i \<Longrightarrow> length b = n \<Longrightarrow> peek (a @ b @ c) i n = Some b"
  by (simp add: peek_def)

lemma encode_manifest_bytes: "encode_manifest g = Some (manifest_bytes g)"
proof -
  have z: "replicate 32 (0 :: byte) = [] @ replicate 8 0 @ replicate 4 0 @ replicate 4 0 @ replicate 8 0 @ replicate 4 0 @ replicate 4 0"
    by (simp add: eval_nat_numeral)
  have 1: "poke (replicate 32 0) 0 kManifestMagic = Some (kManifestMagic @ replicate 4 0 @ replicate 4 0 @ replicate 8 0 @ replicate 4 0 @ replicate 4 0)"
    unfolding z by (subst poke_append_at) simp_all
  have 2: "Store32 (kManifestMagic @ replicate 4 0 @ c) 8 kManifestVersion = Some (kManifestMagic @ le32 kManifestVersion @ c)" for c
    unfolding Store32_def by (rule poke_append_at) simp_all
  have 3: "Store64 (kManifestMagic @ le32 kManifestVersion @ replicate 4 0 @ replicate 8 0 @ c) 16 g =
      Some (kManifestMagic @ le32 kManifestVersion @ replicate 4 0 @ le64 g @ c)" for c
    unfolding Store64_def using poke_append_at [of "kManifestMagic @ le32 kManifestVersion @ replicate 4 0" 16 "replicate 8 0" "le64 g" c] by simp
  have 4: "Store32 (manifest_head g @ x) 28 v = Some (manifest_head g @ le32 v)" if "length x = 4" for v x
    unfolding Store32_def using that poke_append_at [of "manifest_head g" 28 x "le32 v" "[]"] by simp
  have z4: "le32 0 = [0, 0, 0, 0]"
    by (simp add: le32_def)
  have h: "kManifestMagic @ le32 kManifestVersion @ replicate 4 0 @ le64 g @ replicate 4 0 @ replicate 4 0 = manifest_head g @ [0, 0, 0, 0]"
    by (simp add: manifest_head_def replicate4)
  show ?thesis
    using 1 2 3 4 [of "[0, 0, 0, 0]"] by (simp add: encode_manifest_def h z4 manifest_bytes_def)
qed

text \<open>What reading gives, for any 28 bytes and checksum.\<close>

lemma decode_manifest_Inr:
  assumes "length h = 28" "decode_manifest (h @ le32 c) = Some (Inr m)"
  shows "BytesCRC (h @ [0, 0, 0, 0]) = c" "ms_valid m" "Load64 (h @ le32 c) 16 = Some (ms_wal_generation m)"
proof -
  have s: "Store32 (h @ le32 c) 28 0 = Some (h @ le32 0)" "Load32 (h @ le32 c) 28 = Some c"
    unfolding Store32_def Load32_def using assms(1) poke_append_at [of h 28 "le32 c" "le32 0" "[]"] peek_at [of h 28 "le32 c" 4 "[]"] by simp_all
  have z4: "le32 0 = [0, 0, 0, 0]"
    by (simp add: le32_def)
  show "BytesCRC (h @ [0, 0, 0, 0]) = c" "ms_valid m" "Load64 (h @ le32 c) 16 = Some (ms_wal_generation m)"
    using assms(2) s by (auto simp: decode_manifest_def bind_eq_Some_conv z4 split: if_splits)
qed

lemma decode_manifest_total: "length d = 32 \<Longrightarrow> decode_manifest d \<noteq> None"
proof -
  assume "length d = 32"
  then have "\<exists>v. Load32 d 8 = Some v" "\<exists>v. Load64 d 16 = Some v" "\<exists>v. Load32 d 28 = Some v" "\<exists>v. Store32 d 28 0 = Some v" "\<exists>v. peek d 0 8 = Some v"
    by (simp_all add: Load32_def Load64_def Store32_def peek_def poke_def)
  then show ?thesis
    by (auto simp: decode_manifest_def)
qed

lemma decode_manifest_bytes:
  assumes "g \<noteq> 0"
  shows "decode_manifest (manifest_bytes g) = Some (Inr \<lparr>ms_valid = True, ms_wal_generation = g\<rparr>)"
proof -
  let ?c = "BytesCRC (manifest_head g @ [0, 0, 0, 0])"
  have s: "Store32 (manifest_bytes g) 28 0 = Some (manifest_head g @ le32 0)" "Load32 (manifest_bytes g) 28 = Some ?c"
    unfolding Store32_def Load32_def manifest_bytes_def
    using poke_append_at [of "manifest_head g" 28 "le32 ?c" "le32 0" "[]"] peek_at [of "manifest_head g" 28 "le32 ?c" 4 "[]"] by simp_all
  have z4: "le32 0 = [0, 0, 0, 0]"
    by (simp add: le32_def)
  have b: "peek (manifest_bytes g) 0 8 = Some kManifestMagic" "Load32 (manifest_bytes g) 8 = Some kManifestVersion" "Load64 (manifest_bytes g) 16 = Some g"
    unfolding Load32_def Load64_def manifest_bytes_def manifest_head_def
    using peek_at [of "[]" 0 kManifestMagic 8] peek_at [of kManifestMagic 8 "le32 kManifestVersion" 4]
      peek_at [of "kManifestMagic @ le32 kManifestVersion @ [0, 0, 0, 0]" 16 "le64 g" 8] by simp_all
  show ?thesis
    using s b assms by (simp add: decode_manifest_def z4)
qed

lemma decode_manifest_burst:
  assumes "manifest_head g = xs @ bs @ ys" "length bs' = length bs" "length bs \<le> 4" "bs' \<noteq> bs"
  shows "\<exists>e. decode_manifest (xs @ bs' @ ys @ drop 28 (manifest_bytes g)) = Some (Inl e)"
proof -
  let ?c = "BytesCRC (manifest_head g @ [0, 0, 0, 0])" and ?h = "xs @ bs' @ ys"
  have d: "xs @ bs' @ ys @ drop 28 (manifest_bytes g) = ?h @ le32 ?c"
    by (simp add: manifest_bytes_def)
  have len: "length ?h = 28"
    using assms(1,2) manifest_length(2) [of g] by simp
  have "CRC32Update 0 (xs @ bs' @ (ys @ [0, 0, 0, 0])) \<noteq> CRC32Update 0 (xs @ bs @ (ys @ [0, 0, 0, 0]))"
    using assms(2-4) by (intro CRC32Update_burst) simp_all
  then have "BytesCRC (?h @ [0, 0, 0, 0]) \<noteq> ?c"
    using assms(1) by (simp add: BytesCRC_def)
  then show ?thesis
    using decode_manifest_Inr(1) [OF len] decode_manifest_total [of "?h @ le32 ?c"] len unfolding d
    by (cases "decode_manifest (?h @ le32 ?c)") (auto, metis sum.exhaust)
qed

section \<open>The snapshot\<close>

definition snapshot_head :: "u64 \<Rightarrow> u64 \<Rightarrow> bytes" where
  "snapshot_head n g = kSnapshotMagic @ le32 kSnapshotVersion @ [0, 0, 0, 0] @ le64 n @ le64 g"

definition item_head :: "item \<Rightarrow> bytes" where
  "item_head it = le32 (of_nat (length (it_key it))) @ le32 (of_nat (length (it_value it)))"

definition item_bytes :: "item \<Rightarrow> bytes" where
  "item_bytes it = item_head it @ le32 (CRC32Update 0 (item_head it @ it_key it @ it_value it)) @ it_key it @ it_value it"

definition item_ok :: "item \<Rightarrow> bool" where
  "item_ok it \<longleftrightarrow> key_ok (it_key it) \<and> length (it_value it) < 2 ^ 32"

definition snapshot_bytes :: "u64 \<Rightarrow> item list \<Rightarrow> bytes" where
  "snapshot_bytes g its = snapshot_head (of_nat (length its)) g @ concat (map item_bytes its)"

lemma snapshot_length [simp]: "length kSnapshotMagic = 8" "length (snapshot_head n g) = 32" "length (item_head it) = 8"
  by (simp_all add: snapshot_head_def item_head_def kSnapshotMagic_def)

lemma encode_snapshot_header_bytes: "encode_snapshot_header n g = Some (snapshot_head n g)"
proof -
  have z: "replicate 32 (0 :: byte) = [] @ replicate 8 0 @ replicate 4 0 @ replicate 4 0 @ replicate 8 0 @ replicate 8 0"
    by (simp add: eval_nat_numeral)
  have 1: "poke (replicate 32 0) 0 kSnapshotMagic = Some (kSnapshotMagic @ replicate 4 0 @ replicate 4 0 @ replicate 8 0 @ replicate 8 0)"
    unfolding z by (subst poke_append_at) simp_all
  have 2: "Store32 (kSnapshotMagic @ replicate 4 0 @ c) 8 kSnapshotVersion = Some (kSnapshotMagic @ le32 kSnapshotVersion @ c)" for c
    unfolding Store32_def by (rule poke_append_at) simp_all
  have 3: "Store64 (kSnapshotMagic @ le32 kSnapshotVersion @ replicate 4 0 @ replicate 8 0 @ c) 16 n =
      Some (kSnapshotMagic @ le32 kSnapshotVersion @ replicate 4 0 @ le64 n @ c)" for c
    unfolding Store64_def using poke_append_at [of "kSnapshotMagic @ le32 kSnapshotVersion @ replicate 4 0" 16 "replicate 8 0" "le64 n" c] by simp
  have 4: "Store64 (kSnapshotMagic @ le32 kSnapshotVersion @ replicate 4 0 @ le64 n @ replicate 8 0) 24 g = Some (snapshot_head n g)"
    unfolding Store64_def snapshot_head_def
    using poke_append_at [of "kSnapshotMagic @ le32 kSnapshotVersion @ replicate 4 0 @ le64 n" 24 "replicate 8 0" "le64 g" "[]"] by (simp add: replicate4)
  show ?thesis
    using 1 2 3 4 by (simp add: encode_snapshot_header_def)
qed

lemma decode_snapshot_header_bytes:
  assumes "n \<le> kRecordOffsetLimit - 1"
  shows "decode_snapshot_header (snapshot_head n g) g = Some (Inr n)"
proof -
  have b: "peek (snapshot_head n g) 0 8 = Some kSnapshotMagic" "Load32 (snapshot_head n g) 8 = Some kSnapshotVersion"
    "Load64 (snapshot_head n g) 16 = Some n" "Load64 (snapshot_head n g) 24 = Some g"
    unfolding Load32_def Load64_def snapshot_head_def
    using peek_at [of "[]" 0 kSnapshotMagic 8] peek_at [of kSnapshotMagic 8 "le32 kSnapshotVersion" 4]
      peek_at [of "kSnapshotMagic @ le32 kSnapshotVersion @ [0, 0, 0, 0]" 16 "le64 n" 8]
      peek_at [of "kSnapshotMagic @ le32 kSnapshotVersion @ [0, 0, 0, 0] @ le64 n" 24 "le64 g" 8 "[]"] by simp_all
  show ?thesis
    using b assms by (simp add: decode_snapshot_header_def)
qed

lemma item_crc_head: "length x = 4 \<Longrightarrow> item_crc (item_head it @ x) it = CRC32Update 0 (item_head it @ it_key it @ it_value it)"
  by (simp add: item_crc_def CRC32Update_append)

lemma encode_item_header_bytes:
  "encode_item_header it = Some (item_head it @ le32 (CRC32Update 0 (item_head it @ it_key it @ it_value it)))"
proof -
  have z: "replicate 12 (0 :: byte) = [] @ replicate 4 0 @ replicate 4 0 @ replicate 4 0"
    by (simp add: eval_nat_numeral)
  have 1: "Store32 (replicate 12 0) 0 v = Some (le32 v @ replicate 4 0 @ replicate 4 0)" for v
    unfolding z Store32_def by (subst poke_append_at) simp_all
  have 2: "Store32 (le32 v @ replicate 4 0 @ c) 4 u = Some (le32 v @ le32 u @ c)" for v u c
    unfolding Store32_def by (rule poke_append_at) simp_all
  have 3: "Store32 (item_head it @ replicate 4 0) 8 v = Some (item_head it @ le32 v)" for v
    unfolding Store32_def using poke_append_at [of "item_head it" 8 "replicate 4 0" "le32 v" "[]"] by simp
  have h: "le32 (of_nat (length (it_key it))) @ le32 (of_nat (length (it_value it))) @ replicate 4 0 = item_head it @ replicate 4 0"
    by (simp add: item_head_def)
  show ?thesis
    using 1 2 3 item_crc_head [of "replicate 4 0" it] by (simp add: encode_item_header_def h)
qed

section \<open>Writing the files\<close>

lemma triple_pure_bind: "triple P (f a) Q E \<Longrightarrow> triple P (bindM (chk (Some a)) f) Q E"
  by (simp add: triple_def bindM_def chk_def)

text \<open>Appending to an open file.\<close>

definition appends :: "unit io \<Rightarrow> (path \<rightharpoonup> bytes) \<Rightarrow> (path \<Rightarrow> bool) \<Rightarrow> path \<Rightarrow> nat \<Rightarrow> bytes \<Rightarrow> bool" where
  "appends m F D p fd data \<longleftrightarrow> (\<forall>d. triple (on_file F D p fd d (length d)) m (\<lambda>_. on_file F D p fd (d @ data) (length (d @ data)))
    (\<lambda>_ w. \<exists>d'. on_file F D p fd d' (length d') w))"

lemma appends_WriteAll: "appends (WriteAll fd data path 0) F D p fd data"
  by (simp only: appends_def triple_WriteAll) simp

lemma appends_bind:
  assumes "appends m F D p fd a" "appends m' F D p fd b"
  shows "appends (bindM m (\<lambda>_. m')) F D p fd (a @ b)"
  unfolding appends_def
proof
  fix d
  show "triple (on_file F D p fd d (length d)) (bindM m (\<lambda>_. m')) (\<lambda>_. on_file F D p fd (d @ a @ b) (length (d @ a @ b)))
      (\<lambda>_ w. \<exists>d'. on_file F D p fd d' (length d') w)"
    using spec [OF assms(1) [unfolded appends_def], of d] spec [OF assms(2) [unfolded appends_def], of "d @ a"]
    by (intro triple_bind [where R = "\<lambda>_. on_file F D p fd (d @ a) (length (d @ a))"]) simp_all
qed

lemma appends_item:
  assumes "item_ok it"
  shows "appends (write_item tmp fd it) F D p fd (item_bytes it)"
proof -
  have len: "\<not> (length (it_key it) > 4294967295 \<or> length (it_value it) > 4294967295)"
    using assms by (auto simp: item_ok_def key_ok_def)
  let ?h = "item_head it @ le32 (CRC32Update 0 (item_head it @ it_key it @ it_value it))"
  have "appends (bindM (WriteAll fd ?h tmp 0) (\<lambda>_. bindM (WriteAll fd (it_key it) tmp 0) (\<lambda>_. WriteAll fd (it_value it) tmp 0)))
      F D p fd (?h @ it_key it @ it_value it)"
    by (intro appends_bind appends_WriteAll)
  then show ?thesis
    using len unfolding write_item_def encode_item_header_bytes appends_def
    by (auto intro!: triple_pure_bind simp: item_bytes_def)
qed

lemma appends_items:
  assumes "\<forall>it \<in> set its. item_ok it"
  shows "appends (fold_op (\<lambda>item _. write_item tmp fd item) its ()) F D p fd (concat (map item_bytes its))"
  using assms
proof (induction its)
  case Nil
  show ?case
    by (auto simp: appends_def intro!: triple_retI)
next
  case (Cons it its)
  then show ?case
    using appends_bind [OF appends_item [of it] Cons.IH] by simp
qed

lemma appends_body:
  assumes "appends m F D p fd data"
  shows "triple (on_file F D p fd [] 0) m (\<lambda>_. on_file F D p fd data (length data)) (\<lambda>_ w. \<exists>d'. on_file F D p fd d' (length d') w)"
  using spec [OF assms [unfolded appends_def], of "[]"] by simp

lemma triple_WriteSnapshot:
  assumes "g \<noteq> 0" "\<forall>it \<in> set its. item_ok it"
  shows "triple (files F D) (WriteSnapshot dir g its)
    (\<lambda>_. files (F(resolve (SnapshotPath dir g @ kTmpSuffix) := None, snapshot_path dir g \<mapsto> snapshot_bytes g its)) D)
    (\<lambda>_ w. (\<exists>G. files G D w \<and> same_but {resolve (SnapshotPath dir g @ kTmpSuffix)} F G) \<or>
      files (F(resolve (SnapshotPath dir g @ kTmpSuffix) := None, snapshot_path dir g \<mapsto> snapshot_bytes g its)) D w)"
proof -
  have "appends (bindM (WriteAll fd (snapshot_head (of_nat (length its)) g) tmp 0) (\<lambda>_. fold_op (\<lambda>item _. write_item tmp fd item) its ()))
      F D p fd (snapshot_bytes g its)" for tmp fd p
    unfolding snapshot_bytes_def by (intro appends_bind appends_WriteAll appends_items assms(2))
  then have body: "triple (on_file F D p fd [] 0)
      (bindM (chk (encode_snapshot_header (of_nat (length its)) g)) (\<lambda>header. bindM (WriteAll fd header tmp 0) (\<lambda>_. fold_op (\<lambda>item _. write_item tmp fd item) its ())))
      (\<lambda>_. on_file F D p fd (snapshot_bytes g its) (length (snapshot_bytes g its))) (\<lambda>_ w. \<exists>d'. on_file F D p fd d' (length d') w)" for tmp fd p
    unfolding encode_snapshot_header_bytes by (intro triple_pure_bind appends_body)
  have "resolve (SnapshotPath dir g @ kTmpSuffix) \<noteq> resolve (SnapshotPath dir g)"
    using paths_eq(2,4) [of dir g] by (simp add: snapshot_path_def kTmpSuffix_def)
  from triple_write_file [where body = "\<lambda>tmp fd. bindM (chk (encode_snapshot_header (of_nat (length its)) g))
      (\<lambda>header. bindM (WriteAll fd header tmp 0) (\<lambda>_. fold_op (\<lambda>item _. write_item tmp fd item) its ()))", OF body this, of dir]
  show ?thesis
    using assms(1) by (simp add: WriteSnapshot_def snapshot_path_def)
qed

lemma triple_WriteManifest:
  assumes "g \<noteq> 0"
  shows "triple (files F D) (WriteManifest dir g)
    (\<lambda>_. files (F(resolve (ManifestPath dir @ kTmpSuffix) := None, manifest_path dir \<mapsto> manifest_bytes g)) D)
    (\<lambda>_ w. (\<exists>G. files G D w \<and> same_but {resolve (ManifestPath dir @ kTmpSuffix)} F G) \<or>
      files (F(resolve (ManifestPath dir @ kTmpSuffix) := None, manifest_path dir \<mapsto> manifest_bytes g)) D w)"
proof -
  have body: "triple (on_file F D p fd [] 0) (WriteAll fd (manifest_bytes g) tmp 0)
      (\<lambda>_. on_file F D p fd (manifest_bytes g) (length (manifest_bytes g))) (\<lambda>_ w. \<exists>d'. on_file F D p fd d' (length d') w)" for tmp fd p
    by (intro appends_body appends_WriteAll)
  have "resolve (ManifestPath dir @ kTmpSuffix) \<noteq> resolve (ManifestPath dir)"
    using paths_eq(1,3) [of dir] by (simp add: manifest_path_def kTmpSuffix_def)
  from triple_write_file [where body = "\<lambda>tmp fd. WriteAll fd (manifest_bytes g) tmp 0", OF body this, of dir]
  show ?thesis
    using assms unfolding WriteManifest_def encode_manifest_bytes manifest_path_def if_not_P [OF assms] by (rule_tac triple_pure_bind)
qed

section \<open>Reading the files\<close>

text \<open>Reads report the contents, or that a call failed.\<close>

abbreviation (input) io_fail :: "(world \<Rightarrow> bool) \<Rightarrow> status \<Rightarrow> world \<Rightarrow> bool" where
  "io_fail E e w \<equiv> st_code e = kIoError \<and> E w"

lemma triple_ReadManifest:
  assumes "F (manifest_path dir) = Some (manifest_bytes g)" "g \<noteq> 0"
  shows "triple (files F D) (ReadManifest dir) (\<lambda>m w. m = \<lparr>ms_valid = True, ms_wal_generation = g\<rparr> \<and> files F D w) (io_fail (files F D))"
proof -
  let ?p = "manifest_path dir"
  have F: "F(?p \<mapsto> manifest_bytes g) = F"
    using assms(1) by auto
  have opened: "triple (files F D) (sys_open_read (ManifestPath dir)) (\<lambda>fd. on_file F D ?p fd (manifest_bytes g) 0) (\<lambda>e w. e \<noteq> ENOENT \<and> files F D w)"
    by (rule triple_pre [OF triple_open_read [of F D "ManifestPath dir" "manifest_bytes g", folded manifest_path_def]]) (simp add: assms(1))
  have close: "triple (\<lambda>w. \<exists>off. on_file F D ?p fd (manifest_bytes g) off w) (sys_close fd) (\<lambda>_. files F D) (\<lambda>_. files F D)" for fd
    by (rule tripleI) (auto simp: sys_close_def Let_def on_file_def F split: outcome.splits)
  have read: "triple (on_file F D ?p fd (manifest_bytes g) 0) (both (ReadAll fd 32 path []) (io ''close'' path (sys_close fd)))
      (\<lambda>bs w. bs = manifest_bytes g \<and> files F D w) (io_fail (files F D))" for fd path
  proof (rule triple_both [OF triple_ReadAll])
    show "triple (\<lambda>w. a = take 32 (drop 0 (manifest_bytes g)) \<and> length a = 32 \<and> on_file F D ?p fd (manifest_bytes g) (0 + 32) w)
        (io ''close'' path (sys_close fd)) (\<lambda>_ w. a = manifest_bytes g \<and> files F D w) (io_fail (files F D))" for a
      by (rule tripleI, rule outcome_in_mono [OF tripleD [OF triple_io_any [OF close]]]) auto
    show "triple (\<lambda>w. io_fail (\<lambda>w. \<exists>off'. on_file F D ?p fd (manifest_bytes g) off' w) e w)
        (io ''close'' path (sys_close fd)) (\<lambda>_. io_fail (files F D) e) (\<lambda>_. io_fail (files F D) e)" for e
      by (rule tripleI, rule outcome_in_mono [OF tripleD [OF triple_io_any [OF close]]]) auto
  qed
  have decode: "triple (\<lambda>w. bs = manifest_bytes g \<and> files F D w) (chkres (decode_manifest bs))
      (\<lambda>m w. m = \<lparr>ms_valid = True, ms_wal_generation = g\<rparr> \<and> files F D w) (io_fail (files F D))" for bs
    by (rule tripleI) (auto simp: chkres_def decode_manifest_bytes [OF assms(2)])
  show ?thesis
    unfolding ReadManifest_def Let_def
  proof (rule triple_attempt_bind [OF opened])
    show "triple (\<lambda>w. e \<noteq> ENOENT \<and> files F D w) (case Inl e of Inl e \<Rightarrow> if e = ENOENT then ret \<lparr>ms_valid = False, ms_wal_generation = kFirstWalGeneration\<rparr>
        else IoError e ''open'' (ManifestPath dir) | Inr fd \<Rightarrow> f fd) (\<lambda>m w. m = \<lparr>ms_valid = True, ms_wal_generation = g\<rparr> \<and> files F D w)
        (io_fail (files F D))" for e and f :: "nat \<Rightarrow> manifest_state io"
      by (simp add: triple_def ret_def IoError_def err_def)
    show "triple (on_file F D ?p fd (manifest_bytes g) 0) (case Inr fd of Inl e \<Rightarrow> f e
        | Inr fd \<Rightarrow> bindM (both (ReadAll fd 32 (ManifestPath dir) []) (io ''close'' (ManifestPath dir) (sys_close fd))) (\<lambda>data. chkres (decode_manifest data)))
        (\<lambda>m w. m = \<lparr>ms_valid = True, ms_wal_generation = g\<rparr> \<and> files F D w) (io_fail (files F D))" for fd and f :: "errno \<Rightarrow> manifest_state io"
      by (simp, rule triple_bind [OF read decode])
  qed
qed

text \<open>One item of a snapshot.\<close>

lemma triple_read_item:
  assumes "item_ok it" "drop off d = item_bytes it @ rest"
  shows "triple (on_file F D p fd d off) (read_item fd path)
    (\<lambda>r w. r = it \<and> on_file F D p fd d (off + length (item_bytes it)) w) (io_fail (\<lambda>w. \<exists>off'. on_file F D p fd d off' w))"
proof -
  let ?c = "CRC32Update 0 (item_head it @ it_key it @ it_value it)"
  let ?k = "length (it_key it)" and ?v = "length (it_value it)"
  have lens: "?k \<le> kMaxKeySize" "?v < 2 ^ 32" "?k < 2 ^ 32"
    using assms(1) by (auto simp: item_ok_def key_ok_def)
  have u: "unat (of_nat ?k :: u32) = ?k" "unat (of_nat ?v :: u32) = ?v"
    using lens by (simp_all add: unat_of_nat)
  have d: "drop off d = (item_head it @ le32 ?c) @ it_key it @ it_value it @ rest"
    using assms(2) by (simp add: item_bytes_def)
  have d1: "take 12 (drop off d) = item_head it @ le32 ?c" "drop (off + 12) d = it_key it @ it_value it @ rest"
  proof -
    show "take 12 (drop off d) = item_head it @ le32 ?c"
      using d by simp
    have "drop 12 (drop off d) = it_key it @ it_value it @ rest"
      using d by simp
    then show "drop (off + 12) d = it_key it @ it_value it @ rest"
      by (simp add: add.commute)
  qed
  have d2: "drop (off + 12 + ?k) d = it_value it @ rest"
    using d1(2) by (metis append_eq_conv_conj drop_drop add.commute)
  have head: "triple (on_file F D p fd d off) (ReadAll fd 12 path []) (\<lambda>bs w. bs = item_head it @ le32 ?c \<and> on_file F D p fd d (off + 12) w)
      (io_fail (\<lambda>w. \<exists>off'. on_file F D p fd d off' w))"
    by (rule triple_conseq [OF triple_ReadAll]) (use d1(1) in auto)
  have part: "triple (on_file F D p fd d i) (if z \<noteq> 0 then ReadAll fd n path [] else ret [])
      (\<lambda>bs w. bs = x \<and> on_file F D p fd d (i + n) w) (io_fail (\<lambda>w. \<exists>off'. on_file F D p fd d off' w))"
    if "drop i d = x @ y" "n = length x" "z = (of_nat n :: u32)" "n < 2 ^ 32" for i n x y z
  proof (cases "z = 0")
    case True
    moreover have "unat (of_nat n :: u32) = n"
      using that(4) by (simp add: unat_of_nat)
    ultimately have "n = 0"
      using that(3) by simp
    then show ?thesis
      using True that(2) by (auto intro: triple_retI)
  next
    case False
    then show ?thesis
      using that(1,2) by (auto intro!: triple_conseq [OF triple_ReadAll])
  qed
  let ?rh = "item_head it @ le32 ?c"
  have loads: "Load32 ?rh 0 = Some (of_nat ?k)" "Load32 ?rh 4 = Some (of_nat ?v)" "Load32 ?rh 8 = Some ?c" "Store32 ?rh 8 0 = Some (item_head it @ le32 0)"
    unfolding Load32_def Store32_def item_head_def
    using peek_at [of "[]" 0 "le32 (of_nat ?k)" 4] peek_at [of "le32 (of_nat ?k)" 4 "le32 (of_nat ?v)" 4]
      peek_at [of "le32 (of_nat ?k) @ le32 (of_nat ?v)" 8 "le32 ?c" 4 "[]"]
      poke_append_at [of "le32 (of_nat ?k) @ le32 (of_nat ?v)" 8 "le32 ?c" "le32 0" "[]"] by (simp_all add: item_head_def)
  have crc: "item_crc (item_head it @ le32 0) \<lparr>it_key = it_key it, it_value = it_value it\<rparr> = ?c"
    by (simp add: item_crc_def CRC32Update_append)
  have small: "\<not> ?k > kMaxKeySize"
    using lens(1) by simp
  have fin: "length (item_bytes it) = 12 + (?k + ?v)"
    by (simp add: item_bytes_def)
  have val: "triple (on_file F D p fd d (off + 12 + ?k)) (bindM (if (of_nat ?v :: u32) \<noteq> 0 then ReadAll fd ?v path [] else ret [])
      (\<lambda>val. bindM (chk (Some (item_head it @ le32 0))) (\<lambda>h. let item = \<lparr>it_key = it_key it, it_value = val\<rparr> in
           if item_crc h item \<noteq> ?c then err (CorruptSnapshot ''snapshot record CRC mismatch'') else ret item)))
      (\<lambda>r w. r = it \<and> on_file F D p fd d (off + length (item_bytes it)) w) (io_fail (\<lambda>w. \<exists>off'. on_file F D p fd d off' w))"
    by (rule triple_bind [OF part [OF d2]]) (use lens crc fin in \<open>auto simp: triple_def bindM_def chk_def Let_def ret_def add.assoc\<close>)
  have key: "triple (on_file F D p fd d (off + 12)) (bindM (if (of_nat ?k :: u32) \<noteq> 0 then ReadAll fd ?k path [] else ret [])
      (\<lambda>key. bindM (if (of_nat ?v :: u32) \<noteq> 0 then ReadAll fd ?v path [] else ret [])
      (\<lambda>val. bindM (chk (Some (item_head it @ le32 0))) (\<lambda>h. let item = \<lparr>it_key = key, it_value = val\<rparr> in
           if item_crc h item \<noteq> ?c then err (CorruptSnapshot ''snapshot record CRC mismatch'') else ret item))))
      (\<lambda>r w. r = it \<and> on_file F D p fd d (off + length (item_bytes it)) w) (io_fail (\<lambda>w. \<exists>off'. on_file F D p fd d off' w))"
  proof (rule triple_bind [OF part [OF d1(2)]])
    show "triple (\<lambda>w. a = it_key it \<and> on_file F D p fd d (off + 12 + ?k) w) (bindM (if (of_nat ?v :: u32) \<noteq> 0 then ReadAll fd ?v path [] else ret [])
      (\<lambda>val. bindM (chk (Some (item_head it @ le32 0))) (\<lambda>h. let item = \<lparr>it_key = a, it_value = val\<rparr> in
           if item_crc h item \<noteq> ?c then err (CorruptSnapshot ''snapshot record CRC mismatch'') else ret item)))
      (\<lambda>r w. r = it \<and> on_file F D p fd d (off + length (item_bytes it)) w) (io_fail (\<lambda>w. \<exists>off'. on_file F D p fd d off' w))" for a
      by (cases "a = it_key it") (use val in \<open>simp_all add: triple_def\<close>)
  qed (use lens in simp_all)
  show ?thesis
    unfolding read_item_def
  proof (rule triple_bind [OF head])
    show "triple (\<lambda>w. a = ?rh \<and> on_file F D p fd d (off + 12) w)
     (bindM (chk (Load32 a 0)) (\<lambda>key_size.
     bindM (chk (Load32 a 4)) (\<lambda>value_size.
     bindM (chk (Load32 a 8)) (\<lambda>want_crc.
       if unat key_size > kMaxKeySize then err (CorruptSnapshot ''snapshot key is too large'')
       else
         bindM (if key_size \<noteq> 0 then ReadAll fd (unat key_size) path [] else ret []) (\<lambda>key.
         bindM (if value_size \<noteq> 0 then ReadAll fd (unat value_size) path [] else ret []) (\<lambda>val.
         bindM (chk (Store32 a 8 0)) (\<lambda>h.
           let item = \<lparr>it_key = key, it_value = val\<rparr> in
           if item_crc h item \<noteq> want_crc then err (CorruptSnapshot ''snapshot record CRC mismatch'')
           else ret item))))))) (\<lambda>r w. r = it \<and> on_file F D p fd d (off + length (item_bytes it)) w) (io_fail (\<lambda>w. \<exists>off'. on_file F D p fd d off' w))" for a
    proof (cases "a = ?rh")
      case True
      show ?thesis
        unfolding True loads
        by (intro triple_pure_bind, unfold u if_not_P [OF small], rule triple_pre [OF key]) simp
    qed (simp add: triple_def)
  qed
qed

lemma triple_read_items:
  assumes "\<forall>it \<in> set its. item_ok it" "drop off d = concat (map item_bytes its) @ rest"
  shows "triple (on_file F D p fd d off) (fold_op (\<lambda>_ entries. bindM (read_item fd path) (\<lambda>item. ret (entries @ [item]))) [k..<k + length its] acc)
    (\<lambda>r w. r = acc @ its \<and> (\<exists>off'. on_file F D p fd d off' w)) (io_fail (\<lambda>w. \<exists>off'. on_file F D p fd d off' w))"
  using assms
proof (induction its arbitrary: k acc off)
  case Nil
  then show ?case
    by (auto intro: triple_retI)
next
  case (Cons it its)
  have d: "drop off d = item_bytes it @ (concat (map item_bytes its) @ rest)" "item_ok it"
    using Cons.prems by simp_all
  have "drop (length (item_bytes it)) (drop off d) = concat (map item_bytes its) @ rest"
    using d(1) by simp
  then have d': "drop (off + length (item_bytes it)) d = concat (map item_bytes its) @ rest"
    by (simp add: add.commute)
  have one: "triple (on_file F D p fd d off) (bindM (read_item fd path) (\<lambda>item. ret (acc @ [item])))
      (\<lambda>r w. r = acc @ [it] \<and> on_file F D p fd d (off + length (item_bytes it)) w) (io_fail (\<lambda>w. \<exists>off'. on_file F D p fd d off' w))"
    by (rule triple_bind [OF triple_read_item [OF d(2,1)]]) (auto intro: triple_retI)
  have rest: "triple (\<lambda>w. r = acc @ [it] \<and> on_file F D p fd d (off + length (item_bytes it)) w)
      (fold_op (\<lambda>_ entries. bindM (read_item fd path) (\<lambda>item. ret (entries @ [item]))) [Suc k..<Suc k + length its] r)
      (\<lambda>r w. r = acc @ it # its \<and> (\<exists>off'. on_file F D p fd d off' w)) (io_fail (\<lambda>w. \<exists>off'. on_file F D p fd d off' w))" for r
    using Cons.IH [OF _ d', of "Suc k" "acc @ [it]"] Cons.prems(1) by (cases "r = acc @ [it]") (simp_all add: triple_def)
  have "[k..<k + length (it # its)] = k # [Suc k..<Suc k + length its]"
    by (simp add: upt_rec)
  then show ?case
    using triple_bind [OF one rest] by simp
qed

text \<open>The whole file.\<close>

lemma triple_ReadSnapshot:
  assumes "F (snapshot_path dir g) = Some (snapshot_bytes g its)" "g \<noteq> 0" "\<forall>it \<in> set its. item_ok it" "length its < 2 ^ 30"
  shows "triple (files F D) (ReadSnapshot dir g) (\<lambda>r w. r = its \<and> files F D w) (io_fail (files F D))"
proof -
  let ?p = "snapshot_path dir g" and ?d = "snapshot_bytes g its" and ?path = "SnapshotPath dir g"
  have F: "F(?p \<mapsto> ?d) = F"
    using assms(1) by auto
  have opened: "triple (files F D) (sys_open_read ?path) (\<lambda>fd. on_file F D ?p fd ?d 0) (\<lambda>e w. e \<noteq> ENOENT \<and> files F D w)"
    by (rule triple_pre [OF triple_open_read [of F D ?path ?d, folded snapshot_path_def]]) (simp add: assms(1))
  have close: "triple (\<lambda>w. \<exists>off. on_file F D ?p fd ?d off w) (sys_close fd) (\<lambda>_. files F D) (\<lambda>_. files F D)" for fd
    by (rule tripleI) (auto simp: sys_close_def Let_def on_file_def F split: outcome.splits)
  have n: "unat (of_nat (length its) :: u64) = length its"
    using assms(4) by (simp add: unat_of_nat)
  have "(of_nat (length its) :: u64) \<le> kRecordOffsetLimit - 1"
    using assms(4) n by (simp add: word_le_nat_alt kRecordOffsetLimit_eq)
  note header = decode_snapshot_header_bytes [OF this, of g]
  have d: "take 32 ?d = snapshot_head (of_nat (length its)) g" "drop 32 ?d = concat (map item_bytes its) @ []"
    by (simp_all add: snapshot_bytes_def)
  have head: "triple (on_file F D ?p fd ?d 0) (ReadAll fd 32 ?path []) (\<lambda>bs w. bs = snapshot_head (of_nat (length its)) g \<and> on_file F D ?p fd ?d 32 w)
      (io_fail (\<lambda>w. \<exists>off'. on_file F D ?p fd ?d off' w))" for fd
    by (rule triple_conseq [OF triple_ReadAll]) (use d(1) in auto)
  have items: "triple (on_file F D ?p fd ?d 32)
      (fold_op (\<lambda>_ entries. bindM (read_item fd ?path) (\<lambda>item. ret (entries @ [item]))) [0..<length its] [])
      (\<lambda>r w. r = its \<and> (\<exists>off'. on_file F D ?p fd ?d off' w)) (io_fail (\<lambda>w. \<exists>off'. on_file F D ?p fd ?d off' w))" for fd
    using triple_read_items [OF assms(3) d(2), of F D ?p fd ?path 0 "[]"] by simp
  have count: "triple (\<lambda>w. bs = snapshot_head (of_nat (length its)) g \<and> on_file F D ?p fd ?d 32 w)
      (bindM (chkres (decode_snapshot_header bs g)) (\<lambda>count.
         fold_op (\<lambda>_ entries. bindM (read_item fd ?path) (\<lambda>item. ret (entries @ [item]))) [0..<unat count] []))
      (\<lambda>r w. r = its \<and> (\<exists>off'. on_file F D ?p fd ?d off' w)) (io_fail (\<lambda>w. \<exists>off'. on_file F D ?p fd ?d off' w))" for fd bs
  proof (cases "bs = snapshot_head (of_nat (length its)) g")
    case True
    then show ?thesis
      using items [of fd] header n by (simp add: triple_def bindM_def chkres_def)
  qed (simp add: triple_def)
  have failed: "triple (io_fail (\<lambda>w. \<exists>off'. on_file F D ?p fd ?d off' w) e) (sys_close fd) (\<lambda>_. io_fail (files F D) e) (\<lambda>_. io_fail (files F D) e)" for fd e
    by (rule tripleI, rule outcome_in_mono [OF tripleD [OF close]]) auto
  have last: "triple (\<lambda>w. r = its \<and> (\<exists>off'. on_file F D ?p fd ?d off' w)) (bindM (io ''close'' ?path (sys_close fd)) (\<lambda>_. ret r))
      (\<lambda>r w. r = its \<and> files F D w) (io_fail (files F D))" for r fd
    by (rule triple_bind [where R = "\<lambda>_ w. r = its \<and> files F D w", OF tripleI [OF outcome_in_mono [OF tripleD [OF triple_io_any [OF close]]]]])
      (auto intro: triple_retI)
  show ?thesis
    unfolding ReadSnapshot_def Let_def if_not_P [OF assms(2)]
  proof (rule triple_attempt_bind [OF opened])
    show "triple (\<lambda>w. e \<noteq> ENOENT \<and> files F D w) (case Inl e of Inl e \<Rightarrow> if e = ENOENT then err (CorruptSnapshot ''snapshot missing for manifest generation'')
        else IoError e ''open'' ?path | Inr fd \<Rightarrow> f fd) (\<lambda>r w. r = its \<and> files F D w) (io_fail (files F D))" for e and f :: "nat \<Rightarrow> item list io"
      by (simp add: triple_def IoError_def err_def)
    show "triple (on_file F D ?p fd ?d 0) (case Inr fd of Inl e \<Rightarrow> f e | Inr fd \<Rightarrow>
              bindM (on_error
                (bindM (ReadAll fd 32 ?path []) (\<lambda>header.
                 bindM (chkres (decode_snapshot_header header g)) (\<lambda>count.
                   fold_op (\<lambda>_ entries. bindM (read_item fd ?path) (\<lambda>item. ret (entries @ [item])))
                     [0..<unat count] [])))
                (sys_close fd)) (\<lambda>entries.
              bindM (io ''close'' ?path (sys_close fd)) (\<lambda>_. ret entries)))
        (\<lambda>r w. r = its \<and> files F D w) (io_fail (files F D))" for fd and f :: "errno \<Rightarrow> item list io"
      unfolding sum.case by (rule triple_bind [OF triple_on_error [OF triple_bind [OF head count] failed] last])
  qed
qed

section \<open>A checkpoint\<close>

text \<open>Making directories leaves the files alone.\<close>

abbreviation (input) some_dirs :: "(path \<rightharpoonup> bytes) \<Rightarrow> world \<Rightarrow> bool" where
  "some_dirs F w \<equiv> \<exists>D. files F D w"

lemma triple_exists: "(\<And>x. triple (P x) m Q E) \<Longrightarrow> triple (\<lambda>s. \<exists>x. P x s) m Q E"
  by (auto simp: triple_def)

lemma triple_CreateDirIfMissing: "triple (some_dirs F) (CreateDirIfMissing path) (\<lambda>_. some_dirs F) (\<lambda>_. some_dirs F)"
  unfolding CreateDirIfMissing_def
proof (rule triple_attempt_bind [where R = "\<lambda>_. some_dirs F"])
  show "triple (some_dirs F) (sys_mkdir path) (\<lambda>_. some_dirs F) (\<lambda>_. some_dirs F)"
    by (rule triple_exists, rule triple_conseq [OF triple_mkdir]) auto
qed (simp_all add: triple_def ret_def IoError_def err_def)

lemma triple_create_dirs: "triple (some_dirs F) (create_dirs rest current) (\<lambda>_. some_dirs F) (\<lambda>_. some_dirs F)"
proof (induction rest current rule: create_dirs.induct)
  case (1 rest current)
  show ?case
    unfolding create_dirs.simps [of rest current] Let_def
    by (rule triple_bind [where R = "\<lambda>_. some_dirs F"])
      (auto intro!: triple_bind [OF triple_CreateDirIfMissing] triple_retI 1)
qed

lemma triple_CreateDirs: "triple (some_dirs F) (CreateDirs path) (\<lambda>_. some_dirs F) (\<lambda>_. some_dirs F)"
  unfolding CreateDirs_def by (auto intro: triple_create_dirs triple_retI)

text \<open>The manifest names a generation and the snapshot of it holds the items.\<close>

definition checkpoint_at :: "(path \<rightharpoonup> bytes) \<Rightarrow> string \<Rightarrow> u64 \<Rightarrow> item list \<Rightarrow> bool" where
  "checkpoint_at F dir g its \<longleftrightarrow> F (manifest_path dir) = Some (manifest_bytes g) \<and> F (snapshot_path dir g) = Some (snapshot_bytes g its)"

text \<open>The files that making a checkpoint of a generation may change before the manifest.\<close>

definition touched :: "string \<Rightarrow> u64 \<Rightarrow> path set" where
  "touched dir g = {resolve (ManifestPath dir @ kTmpSuffix), resolve (SnapshotPath dir g @ kTmpSuffix), snapshot_path dir g}"

lemma not_touched:
  "manifest_path dir \<notin> touched dir g" "h \<noteq> g \<Longrightarrow> snapshot_path dir h \<notin> touched dir g"
  "snapshot_path dir h \<noteq> manifest_path dir"
proof -
  have "length (SnapshotFileName h) \<noteq> length (SnapshotFileName g @ kTmpSuffix)"
    by (simp add: SnapshotFileName_def kTmpSuffix_def)
  then have len: "SnapshotFileName h \<noteq> SnapshotFileName g @ kTmpSuffix"
    by metis
  have inj: "SnapshotFileName h = SnapshotFileName g \<Longrightarrow> h = g"
    by (simp add: SnapshotFileName_def FixedWidthID_inj)
  have tmp: "kManifestName \<noteq> kManifestName @ kTmpSuffix"
    by (simp add: kTmpSuffix_def)
  note differ = names_differ names_differ [THEN not_sym] len tmp
  show "manifest_path dir \<notin> touched dir g" "snapshot_path dir h \<noteq> manifest_path dir"
    using differ unfolding touched_def paths_eq by simp_all
  show "h \<noteq> g \<Longrightarrow> snapshot_path dir h \<notin> touched dir g"
    using differ inj unfolding touched_def paths_eq by auto
qed

definition checkpoint_done :: "(path \<rightharpoonup> bytes) \<Rightarrow> string \<Rightarrow> u64 \<Rightarrow> item list \<Rightarrow> world \<Rightarrow> bool" where
  "checkpoint_done F dir g its w \<longleftrightarrow>
     (\<exists>G D. files G D w \<and> checkpoint_at G dir g its \<and> same_but (insert (manifest_path dir) (touched dir g)) F G)"

definition checkpoint_undone :: "(path \<rightharpoonup> bytes) \<Rightarrow> string \<Rightarrow> u64 \<Rightarrow> world \<Rightarrow> bool" where
  "checkpoint_undone F dir g w \<longleftrightarrow> (\<exists>G D. files G D w \<and> same_but (touched dir g) F G)"

lemma triple_write_checkpoint:
  assumes "g \<noteq> 0" "\<forall>it \<in> set its. item_ok it"
  shows "triple (files F D) (write_checkpoint dir g its) (\<lambda>_. checkpoint_done F dir g its)
    (\<lambda>_ w. checkpoint_undone F dir g w \<or> checkpoint_done F dir g its w)"
proof -
  let ?tm = "resolve (ManifestPath dir @ kTmpSuffix)" and ?ts = "resolve (SnapshotPath dir g @ kTmpSuffix)"
  let ?F1 = "F(?ts := None, snapshot_path dir g \<mapsto> snapshot_bytes g its)"
  let ?F2 = "?F1(?tm := None, manifest_path dir \<mapsto> manifest_bytes g)"
  have tm: "?tm \<noteq> snapshot_path dir g" "manifest_path dir \<noteq> snapshot_path dir g"
    using not_touched(3) [of dir g] names_differ [THEN not_sym] by (simp_all add: paths_eq not_sym)
  have undone: "checkpoint_undone F dir g w" if "files G D w" "same_but (touched dir g) F G" for G D w
    using that by (auto simp: checkpoint_undone_def)
  have F1: "same_but (touched dir g) F ?F1"
    by (auto simp: same_but_def touched_def)
  have F2: "checkpoint_done F dir g its w" if "files ?F2 D w" for D w
    using that tm unfolding checkpoint_done_def
    by (intro exI [of _ ?F2] exI [of _ D]) (auto simp: checkpoint_at_def same_but_def touched_def)
  have snap: "triple (files F D) (WriteSnapshot dir g its) (\<lambda>_. some_dirs ?F1) (\<lambda>_. checkpoint_undone F dir g)"
  proof (rule triple_conseq [OF triple_WriteSnapshot [OF assms]])
    show "checkpoint_undone F dir g w" if "(\<exists>G. files G D w \<and> same_but {?ts} F G) \<or> files ?F1 D w" for w
      using that F1 by (elim disjE exE conjE) (auto elim!: undone simp: same_but_def touched_def)
  qed blast+
  have dirs: "triple (some_dirs ?F1) (CreateDirs p) (\<lambda>_. some_dirs ?F1) (\<lambda>_. checkpoint_undone F dir g)" for p
    by (rule triple_conseq [OF triple_CreateDirs]) (use F1 in \<open>auto intro: undone\<close>)
  have man: "triple (some_dirs ?F1) (WriteManifest dir g) (\<lambda>_. checkpoint_done F dir g its)
      (\<lambda>_ w. checkpoint_undone F dir g w \<or> checkpoint_done F dir g its w)"
  proof (rule triple_exists, rule triple_conseq [OF triple_WriteManifest [OF assms(1)]])
    fix D w
    show "checkpoint_undone F dir g w \<or> checkpoint_done F dir g its w"
      if "(\<exists>G. files G D w \<and> same_but {?tm} ?F1 G) \<or> files ?F2 D w" for D w
      using that
    proof (elim disjE exE conjE)
      fix G
      assume G: "files G D w" "same_but {?tm} ?F1 G"
      then have "same_but (touched dir g) F G"
        by (auto simp: same_but_def touched_def)
      then show ?thesis
        using undone [OF G(1)] by blast
    qed (use F2 in blast)
  qed (use F2 in blast)+
  show ?thesis
    unfolding write_checkpoint_def
    by (rule triple_bind [OF triple_conseq [OF snap]], assumption, assumption, blast)
      (rule triple_bind [OF triple_conseq [OF dirs] man], assumption, assumption, blast)
qed

text \<open>What the next opening of the store reads.\<close>

lemma triple_recover_checkpoint:
  assumes "checkpoint_at F dir g its" "g \<noteq> 0" "\<forall>it \<in> set its. item_ok it" "length its < 2 ^ 30"
  shows "triple (files F D) (bindM (ReadManifest dir) (\<lambda>m. bindM (ReadSnapshot dir (ms_wal_generation m)) (\<lambda>its. ret (m, its))))
    (\<lambda>r w. r = (\<lparr>ms_valid = True, ms_wal_generation = g\<rparr>, its) \<and> files F D w) (io_fail (files F D))"
proof (rule triple_bind [OF triple_ReadManifest])
  show "triple (\<lambda>w. m = \<lparr>ms_valid = True, ms_wal_generation = g\<rparr> \<and> files F D w) (bindM (ReadSnapshot dir (ms_wal_generation m)) (\<lambda>its. ret (m, its)))
      (\<lambda>r w. r = (\<lparr>ms_valid = True, ms_wal_generation = g\<rparr>, its) \<and> files F D w) (io_fail (files F D))" for m
  proof (cases "m = \<lparr>ms_valid = True, ms_wal_generation = g\<rparr>")
    case True
    have "F (snapshot_path dir g) = Some (snapshot_bytes g its)"
      using assms(1) by (simp add: checkpoint_at_def)
    then have "triple (files F D) (ReadSnapshot dir g) (\<lambda>r w. r = its \<and> files F D w) (io_fail (files F D))"
      using assms(2-4) by (rule triple_ReadSnapshot)
    then show ?thesis
      using True by (auto intro!: triple_bind intro: triple_retI elim: triple_pre)
  qed (simp add: triple_def)
qed (use assms in \<open>simp_all add: checkpoint_at_def\<close>)

end
