(* ===== verification/StoreSamples.thy ===== *)
theory StoreSamples
  imports StoreRun WalDecode CheckpointFacts
begin

text \<open>Concrete segments and worlds at which the properties of the store are applied.\<close>

section \<open>A damaged record\<close>

definition damaged_data :: bytes where
  "damaged_data = replicate 4096 0 @ take 13 (encode_entry (kWalOpPut, [7], [9])) @ [8] @ [9]"

definition damaged_segment :: wal_segment where
  "damaged_segment = blank_segment\<lparr>ws_data := Some damaged_data, ws_size := 4111, ws_used := 4111\<rparr>"

lemma damaged_mapped: "wal_mapped damaged_segment damaged_data"
  by (simp add: wal_mapped_def damaged_segment_def damaged_data_def blank_segment_def encode_entry_length
      kWalHeaderSize_def kRecordOffsetLimit_eq file_no_ok_def kRecordFileNoLimit_eq)

lemma damaged_peek: "peek damaged_data 4096 15 = Some (take 13 (encode_entry (kWalOpPut, [7], [9])) @ [8] @ [9])"
  unfolding damaged_data_def by (rule peek_at [where c = "[]", simplified]) (simp_all add: encode_entry_length)

section \<open>A world with a checkpoint\<close>

definition checkpoint_world :: world where
  "checkpoint_world =
     \<lparr>w_files = [(manifest_path ''d'', manifest_bytes 1), (snapshot_path ''d'' 1, snapshot_bytes 1 [])], w_dirs = [[''d'']],
      w_fds = [(3, [''f''], 0)], w_clock = 0, w_sched = (\<lambda>i. if i mod 3 = 0 then Short 1 else Works), w_strerror = (\<lambda>_. [])\<rparr>"

lemma checkpoint_world_ok: "fair checkpoint_world" "checkpoint_at (file_at checkpoint_world) ''d'' 1 []"
  using not_touched(3) [of "''d''" 1] by (simp_all add: fair_def checkpoint_world_def checkpoint_at_def file_at_def)

definition file_world :: world where
  "file_world = checkpoint_world\<lparr>w_files := [([''f''], [])]\<rparr>"

lemma file_world_on: "on_file (file_at file_world) (is_dir file_world) [''f''] 3 [] 0 file_world"
proof -
  have "(file_at file_world)([''f''] \<mapsto> []) = file_at file_world"
    by (rule ext) (simp add: file_world_def file_at_def)
  moreover have "fair file_world"
    by (simp add: file_world_def fair_def checkpoint_world_def)
  ultimately show ?thesis
    by (simp add: on_file_def files_def) (simp add: file_world_def checkpoint_world_def)
qed

section \<open>A store with two items\<close>

lemma two_items_list: "map_items [[1] \<mapsto> [2], [3] \<mapsto> [4]] = [\<lparr>it_key = [1], it_value = [2]\<rparr>, \<lparr>it_key = [3], it_value = [4]\<rparr>]"
proof -
  have "dom [[1] \<mapsto> [2 :: byte], [3] \<mapsto> [4]] = set [[1 :: byte], [3]]"
    by auto
  then have "sorted_list_of_set (dom [[1] \<mapsto> [2 :: byte], [3] \<mapsto> [4]]) = [[1 :: byte], [3]]"
    unfolding sorted_list_of_set_sort_remdups [symmetric] by simp
  then show ?thesis
    by (simp add: map_items_def)
qed

lemma two_items: "\<exists>im. store_holds Map.empty im [[1] \<mapsto> [2], [3] \<mapsto> [4]]"
proof -
  obtain s x im where im: "im = new_impl ''store'' Options (one_segment s) x" "store_holds Map.empty im Map.empty" "store_room im 4096 1000"
    using new_store unfolding Let_def by blast
  have "store_room im (sum_list (map command_size [CPut [1] [2], CPut [3] [4]])) (length [CPut [1] [2], CPut [3] [4]])"
    using im(3) by (rule store_room_less) simp_all
  then show ?thesis
    using run_commands_holds [OF im(2), of "[CPut [1] [2], CPut [3] [4]]" checkpoint_world] by (auto simp: key_ok_def)
qed

end
