(* ===== verification/Spec2Isabelle.thy ===== *)
theory Spec2Isabelle
  imports Samples StoreSamples IterFacts
begin

text \<open>
  A verification development for \<^verbatim>\<open>minweight_store_cpp\<close>: the ordered Patricia index
  \<^verbatim>\<open>minpatricia\<close> (\<^verbatim>\<open>src/minpatricia\<close>, a header-only C++17 library) and the key-value store
  \<^verbatim>\<open>minweight_store\<close> (\<^verbatim>\<open>src/minweight_store\<close>) on top of it.

  \<^bold>\<open>The program.\<close> The index maps byte-string keys to 64-bit positions. It stores the positions in
  pages of up to 339 slots; a slot is a position or the id of a page below (\<^verbatim>\<open>Rep\<close>, the top
  bit tells them apart). Beside its slots a page holds a route table: the inner nodes of a binary
  Patricia trie over the slots in preorder, each with the number of the key bit it tests and the
  number of slots to its left (\<^verbatim>\<open>Route\<close>). Keys are not in the pages: they are read from a record
  store by position. Pages come from a node store. \<^verbatim>\<open>Put\<close> finds the leaf that the bits of the
  key lead to, compares the two keys, inserts a slot on the path and splits a page, or moves a part
  of it up, when it is full; \<^verbatim>\<open>Delete\<close> removes a slot, merges pages that have become small, and
  compresses the root.

  \<^bold>\<open>The theories\<close>, in the order of the code:
  \<^item> \<open>Prelude\<close>: machine types, checked array access, the state-and-error monad, array loops.
  \<^item> \<open>Diff\<close> (diff.h): key comparison and first differences; the locale \<open>key_bits\<close> gives the
    laws of key order that tries rest on.
  \<^item> \<open>Route\<close>, \<open>RouteTree\<close>, \<open>NodePage\<close> (node_page.h): routes, the tries that route tables
    store (\<open>routes_of\<close>, \<open>tins\<close>, \<open>tdel\<close>), and every method of a page as an operation on them.
  \<^item> \<open>Cartesian\<close> (index.h): the route table rebuilt from the list of differences.
  \<^item> \<open>NodeStore\<close> (node_store.h): pages by id with a free list; the locale \<open>node_store\<close>.
  \<^item> \<open>IndexCode\<close>, \<open>InsertCode\<close>, \<open>DeleteCode\<close>, \<open>IterCode\<close> (index.h): the definitions of the
    class \<^verbatim>\<open>Index\<close>, without proofs.
  \<^item> \<open>Patricia\<close>: the Patricia trie itself (\<open>pat\<close>): sorted leaves, lookup, insertion, deletion.
  \<^item> \<open>PageTree\<close>: the trie with its page boundaries (\<open>ctree\<close>); \<open>flat\<close> forgets the boundaries,
    \<open>holds g i t\<close> says that the pages \<open>g\<close> store \<open>t\<close> in page \<open>i\<close> and the pages below it.
  \<^item> \<open>PageOps\<close>, \<open>IndexRead\<close>: the page building blocks; the invariant \<open>index_holds\<close>, lookup,
    counting and opening.
  \<^item> \<open>Split\<close>, \<open>PageInsert\<close>, \<open>Paths\<close>, \<open>PathInsert\<close>, \<open>IndexPut\<close>: splitting and promoting
    pages, the path of frames, \<^verbatim>\<open>Put\<close> and \<^verbatim>\<open>Retarget\<close>.
  \<^item> \<open>PageDelete\<close>, \<open>PageMerge\<close>, \<open>IndexDelete\<close>: deletion of a slot, the three ways of merging,
    \<^verbatim>\<open>Delete\<close>.
  \<^item> \<open>RecordStore\<close> (record_store.h, minpatricia.h): the heap record store, the locale
    \<open>record_store\<close> of what a client of the index needs, and the heap index.
  \<^item> \<open>Growth\<close>: how many page ids \<^verbatim>\<open>Put\<close> and \<^verbatim>\<open>Delete\<close> use.
  \<^item> \<open>Codec\<close>, \<open>Names\<close> (store.cc): status codes, bytes of words, checksums, record positions, file names.
  \<^item> \<open>Disk\<close> (store.cc): the system calls as operations on a \<open>world\<close> whose schedule lets any call fail
    or transfer less than asked for; the file functions over them. \<open>Triples\<close>, \<open>DiskFacts\<close>: total
    correctness of operations, and the triples of the file functions.
  \<^item> \<open>Checkpoint\<close>, \<open>CheckpointFacts\<close> (store.cc): manifest and snapshot, their bytes, and what a checkpoint
    leaves in the files when calls fail.
  \<^item> \<open>Wal\<close>, \<open>WalFacts\<close>, \<open>WalDecode\<close> (store.cc): \<^verbatim>\<open>WalSegment\<close>. \<open>wal_holds s rs\<close> says that the segment
    holds the entries \<open>rs\<close> and nothing else, \<open>readable s rs bad\<close> that \<open>rs\<close> is what can be read of
    an arbitrary log before its end or the first damaged record.
  \<^item> \<open>Segments\<close>, \<open>SegFacts\<close>, \<open>ReplayFacts\<close> (store.cc): \<^verbatim>\<open>SegmentedRecordStore\<close> as the record store of
    the index (an interpretation of \<open>records_read\<close>), and \<^verbatim>\<open>ReplayAll\<close>.
  \<^item> \<open>StoreCode\<close>, \<open>StoreFacts\<close>, \<open>StoreRun\<close> (store.h, store.cc): \<^verbatim>\<open>Store\<close> and \<^verbatim>\<open>Store::Impl\<close>.
    \<open>store_holds m0 im m\<close> says that an open store holds the map \<open>m\<close>, which its log builds from
    the snapshot contents \<open>m0\<close>.
  \<^item> \<open>Samples\<close>, \<open>StoreSamples\<close>: concrete states at which the properties below are applied.

  \<^bold>\<open>How the model corresponds to the code.\<close> Fixed-width integers are words; an \<^verbatim>\<open>int\<close> is an
  \<open>int\<close> (all values are slots and counts far below its range). Arrays are lists with checked
  access: \<open>None\<close> is a run that does not return or leaves an array, so a theorem that an operation
  is \<open>Some\<close> shows that it returns and stays inside its arrays. Loops that the source does not bound
  (descents through pages, loops over route tables) are least fixed points with no fuel. A status
  is the left side of a sum, and a failing operation returns the state it leaves behind. A
  \<^verbatim>\<open>NodePage*\<close> is the id of its page. The record store is the parameter \<open>K\<close> of the index, as
  in the class template, and \<open>RecordStore\<close> instantiates it.

  \<^bold>\<open>What the properties show.\<close> The abstract contents of an index are the list of its entries
  (\<open>index_holds K x es\<close>): the pages reachable from the root form a Patricia trie whose leaves are
  the positions in key order, every page has its route table, its slots and its bounds right, no
  page is shared or leaked, and the count is right. \<^verbatim>\<open>Put\<close>, \<^verbatim>\<open>Delete\<close>, \<^verbatim>\<open>Get\<close>,
  \<^verbatim>\<open>Retarget\<close> and the constructors are shown to be the operations of a map on these entries, and
  the page operations below them to keep the trie. \<open>has_room\<close> says that there is a page id below
  \<open>2 ^ 63\<close> left.

  The contents of a store are a map from keys to values. Calls are shown to be the operations of that
  map while the active segment has room (\<open>store_room im n k\<close>: for \<open>n\<close> more bytes and \<open>k\<close> more pages);
  the log always rebuilds the map; recovery from a damaged log gives the effect of the entries before the
  damage; and a checkpoint leaves the old or the new one whatever calls fail. \<open>fair w\<close> excludes the
  schedules on which \<^verbatim>\<open>WriteAll\<close> and \<^verbatim>\<open>ReadAll\<close> do not return, an endless series of interrupted
  calls, and a call that reports a missing file where there is one.

  \<^bold>\<open>Not modelled.\<close> Byte views (a view is the list of its bytes), compile-time traits, the layout of
  the page struct beyond \<^verbatim>\<open>LayoutBytes\<close>; the locks of the runtime (an operation of the store is one
  step); symbolic links, access rights and what a power failure leaves of files that were not synced;
  tests and benchmarks. Modelled without theorems: the iteration of the index and the scans of the
  store, the opening of a store from its files, and the removal of old files.
\<close>

section \<open>The index as a map\<close>

text \<open>
  C5. \<^verbatim>\<open>Put\<close> (index.h) on an index that holds the entries \<open>es\<close> reports the position it
  replaces, if any, and leaves an index that holds the entries with the key mapped to the new
  position; the splitting and promoting of pages does not lose or duplicate any entry.
\<close>

theorem put_updates:
  assumes "index_holds K x es" "key_ok k" "untagged p" "K p = Inr k" "has_room (ix_nodes x)"
  shows "\<exists>x' es'. Put K k p x = Some (Inr (case map_of es k of None \<Rightarrow> \<lparr>put_old_pos = 0, put_replaced = False\<rparr>
      | Some q \<Rightarrow> \<lparr>put_old_pos = q, put_replaced = True\<rparr>), x') \<and>
    index_holds K x' es' \<and> map_of es' = (map_of es)(k \<mapsto> p) \<and> Len x' = int (length es')"
proof -
  obtain x' es' where "Put K k p x = Some (Inr (case map_of es k of None \<Rightarrow> \<lparr>put_old_pos = 0, put_replaced = False\<rparr>
      | Some q \<Rightarrow> \<lparr>put_old_pos = q, put_replaced = True\<rparr>), x')" "index_holds K x' es'" "map_of es' = (map_of es)(k \<mapsto> p)"
    using Put_holds [OF assms] by blast
  then show ?thesis
    using index_holds_len by blast
qed

theorem put_updates_witness:
  "\<exists>x0 x es. NewWithNodes one_key HeapNodeStore = Some (Inr x0) \<and>
     Put one_key [7] 5 x0 = Some (Inr \<lparr>put_old_pos = 0, put_replaced = False\<rparr>, x) \<and>
     index_holds one_key x es \<and> map_of es = [[7] \<mapsto> 5]"
proof -
  obtain x0 where x0: "NewWithNodes one_key HeapNodeStore = Some (Inr x0)" "index_holds one_key x0 []" "has_room (ix_nodes x0)"
    using NewWithNodes_empty by blast
  then show ?thesis
    using put_updates [of one_key x0 "[]" "[7]" 5] by (auto simp: key_ok_def untagged_iff one_key_def)
qed

text \<open>
  C6. \<^verbatim>\<open>Delete\<close> (index.h) reports the position of the key, if the index has it, and leaves an
  index without the key that holds all other entries, whatever pages it merges and frees.
\<close>

theorem delete_removes:
  assumes "index_holds K x es" "key_ok k"
  shows "\<exists>x' es'. Delete K k x = Some (Inr (case map_of es k of None \<Rightarrow> \<lparr>del_pos = 0, del_deleted = False\<rparr>
      | Some q \<Rightarrow> \<lparr>del_pos = q, del_deleted = True\<rparr>), x') \<and>
    index_holds K x' es' \<and> map_of es' = (map_of es)(k := None) \<and> Len x' = int (length es')"
proof -
  obtain x' es' where "Delete K k x = Some (Inr (case map_of es k of None \<Rightarrow> \<lparr>del_pos = 0, del_deleted = False\<rparr>
      | Some q \<Rightarrow> \<lparr>del_pos = q, del_deleted = True\<rparr>), x')" "index_holds K x' es'" "map_of es' = (map_of es)(k := None)"
    using Delete_holds [OF assms] by blast
  then show ?thesis
    using index_holds_len by blast
qed

theorem delete_removes_witness:
  "\<exists>x0 x x'. NewWithNodes one_key HeapNodeStore = Some (Inr x0) \<and>
     Put one_key [7] 5 x0 = Some (Inr \<lparr>put_old_pos = 0, put_replaced = False\<rparr>, x) \<and>
     Delete one_key [7] x = Some (Inr \<lparr>del_pos = 5, del_deleted = True\<rparr>, x') \<and> index_holds one_key x' []"
proof -
  obtain x0 x es where x: "NewWithNodes one_key HeapNodeStore = Some (Inr x0)"
    "Put one_key [7] 5 x0 = Some (Inr \<lparr>put_old_pos = 0, put_replaced = False\<rparr>, x)" "index_holds one_key x es" "map_of es = [[7] \<mapsto> 5]"
    using one_entry by blast
  obtain x' es' where x': "Delete one_key [7] x = Some (Inr \<lparr>del_pos = 5, del_deleted = True\<rparr>, x')" "index_holds one_key x' es'"
    "map_of es' = (map_of es)([7] := None)"
    using delete_removes [OF x(3), of "[7]"] x(4) by (auto simp: key_ok_def)
  then have "es' = []"
    using x(4) by simp
  then show ?thesis
    using x x' by blast
qed

text \<open>
  C7. \<^verbatim>\<open>Get\<close> (index.h) on an index that holds the entries \<open>es\<close> finds the position of the
  key in \<open>es\<close>, and leaves the index as it is.
\<close>

theorem get_is_lookup:
  assumes "index_holds K x es" "key_ok k"
  shows "IndexGet K k x = Some (Inr
    (case map_of es k of None \<Rightarrow> \<lparr>pb_pos = 0, pb_found = False\<rparr> | Some p \<Rightarrow> \<lparr>pb_pos = p, pb_found = True\<rparr>), x)"
  by (rule IndexGet_holds [OF assms])

theorem get_is_lookup_witness:
  "\<exists>x. IndexGet one_key [7] x = Some (Inr \<lparr>pb_pos = 5, pb_found = True\<rparr>, x) \<and>
     IndexGet one_key [8] x = Some (Inr \<lparr>pb_pos = 0, pb_found = False\<rparr>, x)"
proof -
  obtain x es where "index_holds one_key x es" "map_of es = [[7] \<mapsto> 5]"
    using one_entry by blast
  then show ?thesis
    using get_is_lookup [of one_key x es "[7]"] get_is_lookup [of one_key x es "[8]"] by (auto simp: key_ok_def)
qed

text \<open>
  C8. A heap index (\<^verbatim>\<open>NewHeap\<close>, minpatricia.h), after any sequence of calls that add a record
  and put its key, look a key up, or delete a key and free its record, answers every lookup with
  the value that the calls gave the key last.
\<close>

theorem heap_index_is_map:
  assumes "heap_reach v0 h m" "key_ok k"
  shows "heap_get k h = Some (Inr (m k), h) \<and>
    (\<exists>h'. heap_delete v0 k h = Some (Inr (m k \<noteq> None), h') \<and> heap_reach v0 h' (m(k := None)))"
  using heap_get_holds [OF heap_reach_holds [OF assms(1)] assms(2)]
    heap_delete_holds [OF heap_reach_holds [OF assms(1)] assms(2), of v0] heap_reach.delete [OF assms] by blast

theorem heap_index_is_map_witness:
  "\<exists>h h'. NewHeap (0::nat) = Some (Inr h) \<and> heap_reach (0::nat) h' [[1] \<mapsto> 42] \<and>
     heap_get [1] h' = Some (Inr (Some (42::nat)), h') \<and> heap_get [2] h' = Some (Inr None, h')"
proof -
  obtain x where x: "NewWithNodes (RecordKey (HeapRecordStore (0::nat))) HeapNodeStore = Some (Inr x)" "has_room (ix_nodes x)"
    using NewWithNodes_empty by blast
  let ?h = "(HeapRecordStore (0::nat), x)"
  have h: "NewHeap (0::nat) = Some (Inr ?h)"
    using x(1) by (simp add: NewHeap_def)
  then have r: "heap_reach 0 ?h Map.empty"
    by (rule heap_reach.new)
  have k: "key_ok [1]" "key_ok [2]"
    by (simp_all add: key_ok_def)
  obtain p h' where "heap_put [1] 42 ?h = Some (Inr p, h')"
    using heap_put_holds [OF heap_reach_holds [OF r], of "[1]" 42] x(2) k HeapRecordStore_ok(2) [of "0::nat"] by auto
  then have r': "heap_reach 0 h' [[1] \<mapsto> 42]"
    using heap_reach.put [OF r k(1)] x(2) HeapRecordStore_ok(2) [of "0::nat"] by simp
  show ?thesis
    using h r' heap_index_is_map [OF r' k(1)] heap_index_is_map [OF r' k(2)]
    by (intro exI [of _ ?h] exI [of _ h']) simp
qed





text \<open>
  C11. A new index over a new node store is empty; opening an index over the pages of one
  (\<^verbatim>\<open>OpenWithNodes\<close>) gives it back, with its entries counted by \<^verbatim>\<open>CountRecords\<close>.
\<close>

theorem open_restores:
  assumes "index_holds K x es"
  shows "OpenWithNodes K (ix_nodes x) = Some (Inr x) \<and> (\<exists>x0. NewWithNodes K HeapNodeStore = Some (Inr x0) \<and> index_holds K x0 [])"
  using OpenWithNodes_holds [OF assms] NewWithNodes_empty by blast

theorem open_restores_witness:
  "\<exists>x es. index_holds one_key x es \<and> map_of es = [[7] \<mapsto> 5] \<and> OpenWithNodes one_key (ix_nodes x) = Some (Inr x)"
  using one_entry open_restores by metis

text \<open>
  C12. A key of more than 7281 bytes is refused with \<^verbatim>\<open>kKeyTooLarge\<close> by every operation of the
  index, and the index stays as it is; a position with the tag bit is refused by \<^verbatim>\<open>Put\<close> and
  \<^verbatim>\<open>Retarget\<close> with \<^verbatim>\<open>kPositionTag\<close>.
\<close>

theorem bad_arguments:
  "(if key_ok k
    then untagged p \<or> (Put K k p x = Some (Inl kPositionTag, x) \<and> Retarget k q p x = Some (Inl kPositionTag, x))
    else Put K k p x = Some (Inl kKeyTooLarge, x) \<and> Delete K k x = Some (Inl kKeyTooLarge, x) \<and>
      IndexGet K k x = Some (Inl kKeyTooLarge, x) \<and> Probe k x = Some (Inl kKeyTooLarge, x) \<and>
      Retarget k q p x = Some (Inl kKeyTooLarge, x))"
  by (auto simp: Put_def CheckKeySize_too_large CheckKeySize_key_ok MakeRecord_untagged op_simps Delete_too_large
    IndexGet_too_large Probe_too_large Retarget_errors)

text \<open>
  C39. The iteration of an index (index.h) calls its callback with exactly the entries that the
  operation is for, in key order or in the reverse order, until the callback wants no more: all
  entries, those below or above a key, those from a key on, and the two half-open ranges. Keys that
  are too large are refused before any call.
\<close>

theorem index_scans:
  assumes "index_holds K x es"
  shows "Ascend K fn c x = Some (Inr (visit_list fn c es), x) \<and> Visit K fn c x = Ascend K fn c x \<and>
    Descend K fn c x = Some (Inr (visit_list fn c (rev es)), x) \<and>
    AscendLessThan K k fn c x =
      Some (if key_ok k then Inr (visit_list fn c (filter (\<lambda>e. fst e < k) es)) else Inl kKeyTooLarge, x) \<and>
    AscendGreaterOrEqual K k fn c x =
      Some (if key_ok k then Inr (visit_list fn c (filter (\<lambda>e. k \<le> fst e) es)) else Inl kKeyTooLarge, x) \<and>
    DescendLessOrEqual K k fn c x =
      Some (if key_ok k then Inr (visit_list fn c (rev (filter (\<lambda>e. fst e \<le> k) es))) else Inl kKeyTooLarge, x) \<and>
    DescendGreaterThan K k fn c x =
      Some (if key_ok k then Inr (visit_list fn c (rev (filter (\<lambda>e. k < fst e) es))) else Inl kKeyTooLarge, x) \<and>
    AscendRange K k u fn c x =
      Some (if key_ok k \<and> key_ok u then Inr (visit_list fn c (filter (\<lambda>e. k \<le> fst e \<and> fst e < u) es)) else Inl kKeyTooLarge, x) \<and>
    DescendRange K k u fn c x =
      Some (if key_ok k \<and> key_ok u then Inr (visit_list fn c (rev (filter (\<lambda>e. u < fst e \<and> fst e \<le> k) es))) else Inl kKeyTooLarge, x)"
  by (cases "key_ok k"; cases "key_ok u")
    (simp_all add: Visit_def rev_filter scan_key_errors Ascend_holds [OF assms] Descend_holds [OF assms] AscendLessThan_holds [OF assms]
      AscendGreaterOrEqual_holds [OF assms] DescendLessOrEqual_holds [OF assms] DescendGreaterThan_holds [OF assms]
      AscendRange_holds [OF assms] DescendRange_holds [OF assms])

theorem index_scans_witness:
  "\<exists>x. Ascend one_key (\<lambda>c k p. (True, c @ [(k, p)])) [] x = Some (Inr [([7], 5)], x) \<and>
     AscendRange one_key [7] [8] (\<lambda>c k p. (True, c @ [(k, p)])) [] x = Some (Inr [([7], 5)], x) \<and>
     DescendLessOrEqual one_key [6] (\<lambda>c k p. (True, c @ [(k, p)])) [] x = Some (Inr [], x)"
proof -
  obtain x es where x: "index_holds one_key x es" "map_of es = [[7] \<mapsto> 5]"
    using one_entry by blast
  then have es: "es = [([7], 5)]"
    using index_holds_sorted(1) [OF x(1)] by (intro single_entry) (simp_all add: strict_sorted_iff)
  show ?thesis
    using index_scans [OF x(1), of "\<lambda>c k p. (True, c @ [(k, p)])" "[]" "[7]" "[8]"]
      index_scans [OF x(1), of "\<lambda>c k p. (True, c @ [(k, p)])" "[]" "[6]" "[8]"] unfolding es by (auto simp: key_ok_def)
qed

section \<open>Pages\<close>

text \<open>
  C13. Lookup in one page (\<^verbatim>\<open>LookupRouteOnly\<close>, node_page.h) follows the routes as the bits of
  the key follow the trie that the page stores, and ends at the slot of the trie's leaf.
\<close>

theorem page_lookup:
  assumes "page_rep p T"
  shows "LookupRouteOnly p key = Some (int (tslot T key), True) \<and> tslot T key < nl T"
  using LookupRouteOnly_rep [OF assms] tslot_less by blast

theorem page_lookup_witness: "LookupRouteOnly (one_page 5 5) [7] = Some (0, True)"
proof -
  have "page_rep (one_page 5 5) (Lf 5)"
    by (simp add: page_rep_def one_page_def new_page_def)
  then show ?thesis
    using page_lookup [of "one_page 5 5" "Lf 5" "[7]"] by simp
qed

text \<open>
  C14. \<^verbatim>\<open>RouteDiffs\<close> (node_page.h) reads back from the routes of a page the differences of
  its neighbouring slots, in slot order.
\<close>

theorem route_diffs:
  assumes "page_rep p T" "length out = nl T - 1"
  shows "RouteDiffs p out = Some (Inr (diffs T))"
  by (rule RouteDiffs_rep [OF assms])

theorem route_diffs_witness: "RouteDiffs (one_page 5 5) [] = Some (Inr [])"
proof -
  have "page_rep (one_page 5 5) (Lf 5)"
    by (simp add: page_rep_def one_page_def new_page_def)
  then show ?thesis
    using route_diffs [of "one_page 5 5" "Lf 5" "[]"] by simp
qed

text \<open>
  C15. \<^verbatim>\<open>InsertRoute\<close> (node_page.h) turns the route table of a page into the table of the trie
  with one more leaf at the path of the key, above the first larger difference.
\<close>

theorem insert_route:
  assumes "page_rep p T" "nl T < 339"
  shows "\<exists>rts. InsertRoute p (int (ins_slot T key d)) key d = Some (Inr (p\<lparr>np_routes := rts\<rparr>)) \<and>
    take (nl T) rts = routes_of (tins T key d y)"
  using InsertRoute_rep [OF assms refl] by blast

theorem insert_route_witness:
  "\<exists>rts. InsertRoute (one_page 5 5) 1 [7] 0 = Some (Inr ((one_page 5 5)\<lparr>np_routes := rts\<rparr>)) \<and>
     take 1 rts = [mk_route 0 1]"
proof -
  have "page_rep (one_page 5 5) (Lf 5)"
    by (simp add: page_rep_def one_page_def new_page_def)
  then show ?thesis
    using insert_route [of "one_page 5 5" "Lf 5" "[7]" 0 6] by (simp add: graft_def key_bit_iff)
qed

text \<open>
  C16. \<^verbatim>\<open>DeleteRoute\<close> (node_page.h) turns the route table of a page into the table of the trie
  without the leaf of the slot.
\<close>

theorem delete_route:
  assumes "page_rep p T" "2 \<le> nl T" "j < nl T"
  shows "\<exists>rts. DeleteRoute p (int j) = Some (Inr (p\<lparr>np_routes := rts\<rparr>)) \<and> take (nl T - 2) rts = routes_of (tdel T j)"
  using DeleteRoute_rep [OF assms] by blast

theorem delete_route_witness:
  "\<exists>p rts. page_rep p (Nd (Lf 5) 0 (Nd (Lf 6) 9 (Lf 7))) \<and> DeleteRoute p 0 = Some (Inr (p\<lparr>np_routes := rts\<rparr>)) \<and>
     take 1 rts = [mk_route 9 1]"
proof -
  let ?T = "Nd (Lf 5) 0 (Nd (Lf 6) 9 (Lf (7 :: rep)))"
  let ?p = "new_page\<lparr>np_routes := routes_of ?T @ replicate 336 0, np_reps := [5, 6, 7] @ replicate 336 0, np_size := 3\<rparr>"
  have "page_rep ?p ?T"
    by (simp add: page_rep_def)
  then show ?thesis
    using delete_route [of ?p ?T 0] by (intro exI [of _ ?p]) auto
qed

text \<open>
  C17. \<^verbatim>\<open>BuildCartesian\<close> and \<^verbatim>\<open>WritePreorderRoutes\<close> (index.h) return for every non-empty list
  of differences, and write the route table of a trie with exactly these differences in which no
  inner node lies above a smaller one; of a Patricia trie they rebuild its own table.
\<close>

theorem routes_from_diffs:
  assumes "ds \<noteq> []" "length out = length ds"
  shows "\<exists>ct rts. BuildCartesian ds = Some ct \<and> WritePreorderRoutes out ds (ct_left ct) (ct_right ct) (ct_root ct) sz = Some rts \<and>
    (\<exists>T :: unit rtree. rts = routes_of T \<and> diffs T = ds \<and> weak_hord T) \<and>
    (\<forall>T :: unit rtree. hord T \<and> diffs T = ds \<longrightarrow> rts = routes_of T)"
proof -
  obtain T :: "unit rtree" where T: "build_routes out ds sz = Some (routes_of T)" "diffs T = ds" "weak_hord T"
    using build_routes_total [OF assms] by blast
  then obtain ct where ct: "BuildCartesian ds = Some ct"
    "WritePreorderRoutes out ds (ct_left ct) (ct_right ct) (ct_root ct) sz = Some (routes_of T)"
    by (auto simp: build_routes_def bind_eq_Some_conv)
  have "routes_of T = routes_of U" if "hord U" "diffs U = ds" for U :: "unit rtree"
  proof -
    have "length ds = nl U - 1" "2 \<le> nl U"
      using that(2) length_diffs [of U] assms(1) by (cases ds; auto)+
    then show ?thesis
      using build_routes_trie [OF that(1), of out sz] that(2) assms(2) T(1) by simp
  qed
  then show ?thesis
    using ct T(2,3) by blast
qed

theorem routes_from_diffs_witness:
  "\<exists>ct. BuildCartesian [3, 1, 2] = Some ct \<and>
     WritePreorderRoutes [0, 0, 0] [3, 1, 2] (ct_left ct) (ct_right ct) (ct_root ct) 4 =
       Some [mk_route 1 2, mk_route 3 1, mk_route 2 1]"
proof -
  let ?T = "Nd (Nd (Lf ()) 3 (Lf ())) 1 (Nd (Lf ()) 2 (Lf ()))"
  have "hord ?T \<and> diffs ?T = [3, 1, 2]"
    by simp
  moreover have "routes_of ?T = [mk_route 1 2, mk_route 3 1, mk_route 2 1]"
    by (simp add: numeral_2_eq_2)
  ultimately show ?thesis
    using routes_from_diffs [of "[3, 1, 2]" "[0, 0, 0]" 4] by fastforce
qed

text \<open>
  C18. \<^verbatim>\<open>ChooseSplitRange\<close> (index.h), on the slots of a page that has at least four, always
  finds a range that is a complete subtrie, with at least two slots and at most two less than
  the page.
\<close>

theorem choose_split_range:
  assumes "slots_held (page_of s) (slots t)" "pat (ktree kf t)" "keys_of K kf (set (leaves (flat t)))" "4 \<le> nl (ptop t)"
  shows "\<exists>a c. ChooseSplitRange K (map slot_rep (slots t)) slot s = Some (Inr \<lparr>sr_start = int a, sr_count = int c\<rparr>, s) \<and>
    is_range (ptop t) a c \<and> 2 \<le> c \<and> c + 2 \<le> nl (ptop t)"
  by (rule ChooseSplitRange_spec [OF assms])

theorem choose_split_range_witness:
  "\<exists>a c. ChooseSplitRange zkeys (map slot_rep (slots (comb 339 1))) 0 HeapNodeStore =
     Some (Inr \<lparr>sr_start = int a, sr_count = int c\<rparr>, HeapNodeStore) \<and> 2 \<le> c \<and> c + 2 \<le> 340"
  using choose_split_range [where s = HeapNodeStore and t = "comb 339 1" and kf = zkey and K = zkeys and slot = 0]
    comb_held comb_pat comb_keys by (simp add: comb_sizes) blast

text \<open>
  C19. \<^verbatim>\<open>SplitAndWriteNodeAt\<close> (index.h) writes 340 slots, one more than a page holds, as two
  pages that store the same trie; no other page changes and the new page was free.
\<close>

theorem split_keeps_trie:
  assumes "store_ok s" "has_room s" "page_of s i = Some q" "len_ok q"
    and "slots_held (page_of s) (slots u)" "distinct (i # pids u)" "ids i u \<subseteq> dom (page_of s)"
    and "nl (ptop u) = 340" "pat (ktree kf u)" "keys_of K kf (set (leaves (flat u)))"
  shows "\<exists>s' w j. SplitAndWriteNodeAt K i (map slot_rep (slots u)) slot s = Some (Inr (), s') \<and> store_ok s' \<and>
    holds (page_of s') i w \<and> flat w = flat u \<and> page_of s j = None \<and> ids i w = insert j (ids i u) \<and>
    (\<forall>k. k \<noteq> i \<and> k \<noteq> j \<longrightarrow> page_of s' k = page_of s k)"
  by (rule SplitAndWriteNodeAt_spec [OF assms])

theorem split_keeps_trie_witness:
  "\<exists>s' w. SplitAndWriteNodeAt zkeys 0 (map slot_rep (slots (comb 339 1))) 0 HeapNodeStore = Some (Inr (), s') \<and>
     holds (page_of s') 0 w \<and> flat w = flat (comb 339 1)"
proof -
  have "page_of HeapNodeStore 0 = Some new_page" "len_ok new_page"
    by (simp_all add: HeapNodeStore_ok len_ok_def new_page_def)
  then have "\<exists>s' w j. SplitAndWriteNodeAt zkeys 0 (map slot_rep (slots (comb 339 1))) 0 HeapNodeStore = Some (Inr (), s') \<and> store_ok s' \<and>
      holds (page_of s') 0 w \<and> flat w = flat (comb 339 1) \<and> page_of HeapNodeStore j = None \<and>
      ids 0 w = insert j (ids 0 (comb 339 1)) \<and> (\<forall>k. k \<noteq> 0 \<and> k \<noteq> j \<longrightarrow> page_of s' k = page_of HeapNodeStore k)"
    by (rule split_keeps_trie [OF HeapNodeStore_ok(1,2), where kf = zkey])
      (simp_all add: comb_sizes ids_def HeapNodeStore_ok comb_held comb_pat comb_keys)
  then show ?thesis
    by blast
qed



text \<open>
  C21. After the deletion of a record below a page, whatever merging \<^verbatim>\<open>DeleteFromChild\<close>
  (index.h) chooses, the pages hold the same trie as before the merging; the pages that are not
  used any more are freed and no page elsewhere changes.
\<close>

theorem merging_keeps_trie:
  assumes "child_new kf s i t n j u" "slots t ! n = Sub j v"
  shows "\<exists>s' T. after_child_delete i (int n) j j (minp v) (maxp v) r s = Some (Inr r, s') \<and>
    flat T = flat (set_slot t n (Sub j u)) \<and> shrunk s i (set (pids (set_slot t n (Sub j u)))) s' T"
  by (rule after_child_delete_spec [OF assms])

theorem merging_keeps_trie_witness:
  "\<exists>s' T. after_child_delete 0 0 1 1 5 5 \<lparr>del_pos = 9, del_deleted = True\<rparr> two_pages =
     Some (Inr \<lparr>del_pos = 9, del_deleted = True\<rparr>, s') \<and> holds (page_of s') 0 T \<and> flat T = Lf 5"
  using merging_keeps_trie [OF two_pages_child, of "Rec 5" "\<lparr>del_pos = 9, del_deleted = True\<rparr>"] by (auto simp: shrunk_def)




section \<open>Stores\<close>

text \<open>
  C24. \<^verbatim>\<open>HeapNodeStore\<close> (node_store.h): \<^verbatim>\<open>Alloc\<close> gives an empty page at an id that was free
  and has no tag bit, never the root, and \<^verbatim>\<open>Free\<close> of it restores the pages.
\<close>

theorem alloc_free:
  assumes "store_ok s" "has_room s"
  shows "\<exists>i s1 s2. Alloc s = Some (Inr i, s1) \<and> page_of s i = None \<and> untagged i \<and> i \<noteq> Root s \<and>
    page_of s1 = (page_of s)(i \<mapsto> new_page) \<and> Free i s1 = Some (Inr (), s2) \<and> page_of s2 = page_of s \<and>
    LiveNodes s1 = LiveNodes s + 1 \<and> store_ok s2"
proof -
  obtain i s1 where 1: "Alloc s = Some (Inr i, s1)" "store_ok s1" "page_of s i = None" "untagged i" "i \<noteq> 0"
    "page_of s1 = (page_of s)(i \<mapsto> new_page)"
    using Alloc_spec [OF assms] by blast
  then obtain s2 where 2: "Free i s1 = Some (Inr (), s2)" "store_ok s2" "page_of s2 = (page_of s1)(i := None)"
    using Free_spec [of s1 i new_page] by auto
  have "LiveNodes s1 = LiveNodes s + 1"
    using assms(1) 1(2) card_page_new [OF 1(3,6)] by (simp add: LiveNodes_def store_ok_def)
  then show ?thesis
    using 1 2 by (intro exI [of _ i] exI [of _ s1] exI [of _ s2]) (auto simp: Root_def)
qed

theorem alloc_free_witness: "\<exists>i s1 s2. Alloc HeapNodeStore = Some (Inr i, s1) \<and> i \<noteq> 0 \<and> Free i s1 = Some (Inr (), s2) \<and> page_of s2 = page_of HeapNodeStore"
  using alloc_free [OF HeapNodeStore_ok(1,2)] by (auto simp: Root_def)


text \<open>
  C26. \<^verbatim>\<open>HeapRecordStore\<close> (record_store.h): \<^verbatim>\<open>Add\<close> stores the record at a position that held
  none, is not 0 and has no tag bit; \<^verbatim>\<open>Key\<close> and \<^verbatim>\<open>Value\<close> read it back, and every other record
  stays; \<^verbatim>\<open>Free\<close> removes it again.
\<close>

theorem records_add:
  assumes "records_ok s" "records_room s"
  shows "\<exists>p s1 s2. RecordAdd k v s = Some (p, s1) \<and> p \<noteq> 0 \<and> untagged p \<and> RecordKey s p = Inl kMissingKey \<and>
    RecordKey s1 p = Inr k \<and> RecordValue s1 p = Inr v \<and>
    (\<forall>q. q \<noteq> p \<longrightarrow> RecordKey s1 q = RecordKey s q \<and> RecordValue s1 q = RecordValue s q) \<and>
    RecordFree v0 p s1 = Some (Inr (), s2) \<and> RecordKey s2 = RecordKey s \<and> RecordLen s1 = RecordLen s + 1"
proof -
  obtain p s1 where 1: "RecordAdd k v s = Some (p, s1)" "records_ok s1" "recs s p = None" "untagged p" "p \<noteq> 0"
    "recs s1 = (recs s)(p \<mapsto> (k, v))"
    using RecordAdd_spec [OF assms] by blast
  then obtain s2 where 2: "RecordFree v0 p s1 = Some (Inr (), s2)" "recs s2 = (recs s1)(p := None)"
    using RecordFree_spec [of s1 p "(k, v)"] by auto
  have "recs s2 = recs s"
    using 1(3,6) 2(2) by auto
  then have "RecordKey s2 = RecordKey s"
    by (auto simp: RecordKey_recs)
  moreover have "RecordLen s1 = RecordLen s + 1"
    using RecordLen_recs [OF assms(1)] RecordLen_recs [OF 1(2)] 1(3,6) finite_recs [of s] by (simp add: domIff)
  ultimately show ?thesis
    using 1 2 by (intro exI [of _ p] exI [of _ s1] exI [of _ s2]) (auto simp: RecordKey_recs RecordValue_recs)
qed

theorem records_add_witness:
  "\<exists>p s. RecordAdd [1] (42::nat) (HeapRecordStore 0) = Some (p, s) \<and> RecordKey s p = Inr [1] \<and> RecordValue s p = Inr 42"
  using records_add [OF HeapRecordStore_ok(1,2), of "[1]" 42 "0::nat" 0] by blast

section \<open>Keys, slots and routes\<close>

text \<open>
  C27. \<^verbatim>\<open>CompareAndDiffBit\<close> (diff.h) on two different keys that are not too large returns
  the lexicographic order of the keys and the first difference: the number of the first slot
  (of nine per byte: presence, then the bits from the highest) in which they differ. The order
  of the keys is the order of their bits there.
\<close>

theorem compare_and_diff_bit:
  assumes "key_ok a" "key_ok b" "a \<noteq> b"
  shows "\<exists>d. CompareAndDiffBit a b = Some (Inr \<lparr>cd_compare = (if a < b then -1 else 1), cd_diff = d\<rparr>) \<and>
    GetDiffBit a d \<noteq> GetDiffBit b d \<and> (\<forall>e<d. GetDiffBit a e = GetDiffBit b e) \<and> (GetDiffBit b d = 1 \<longleftrightarrow> a < b)"
  using CompareAndDiffBit_spec [OF assms] by (auto simp: diff_at_def GetDiffBit_range)

theorem compare_and_diff_bit_witness:
  "\<exists>d. CompareAndDiffBit [1, 2] [1, 6] = Some (Inr \<lparr>cd_compare = (if [1, 2::8 word] < [1, 6] then -1 else 1), cd_diff = d\<rparr>) \<and>
    GetDiffBit [1, 2] d \<noteq> GetDiffBit [1, 6] d"
  using compare_and_diff_bit [of "[1, 2]" "[1, 6]"] by (auto simp: key_ok_def)


text \<open>
  C29. A route (node_page.h) packs a difference and a left count into 32 bits without loss,
  reads the bit of a key that \<^verbatim>\<open>GetDiffBit\<close> reads, and counting up or down changes the left
  count only.
\<close>

theorem route_roundtrip:
  assumes "unat lc + 1 < 2 ^ 15"
  shows "route_diff (Route_Make d lc) = d \<and> left_count (Route_Make d lc) = lc \<and>
    route_bit (Route_Make d lc) k = GetDiffBit k d \<and> inc_left_count (Route_Make d lc) = Route_Make d (lc + 1) \<and>
    (lc = 0 \<or> dec_left_count (Route_Make d lc) = Route_Make d (lc - 1))"
proof -
  have "dec_left_count (Route_Make d lc) = Route_Make d (lc - 1)" if "lc \<noteq> 0"
    using assms that by (intro dec_left_count_Make) (simp_all add: unat_gt_0)
  then show ?thesis
    using assms by (auto simp: route_bit_Make inc_left_count_Make)
qed

theorem route_roundtrip_witness:
  "route_diff (Route_Make 65535 338) = 65535 \<and> left_count (Route_Make 65535 338) = 338 \<and>
    route_bit (Route_Make 65535 338) [1] = GetDiffBit [1] 65535 \<and> inc_left_count (Route_Make 65535 338) = Route_Make 65535 339"
  using route_roundtrip [of 338 65535 "[1]"] by simp

text \<open>
  C30. A slot (\<^verbatim>\<open>Rep\<close>, node_page.h) keeps a record position or a page id apart by the top bit:
  what \<^verbatim>\<open>MakeRecord\<close> and \<^verbatim>\<open>MakeChild\<close> accept is read back, and exactly the values with the
  top bit are refused.
\<close>

theorem slot_tags:
  "(case MakeRecord p of Inl e \<Rightarrow> e = kPositionTag \<and> bit p 63 | Inr r \<Rightarrow> \<not> bit p 63 \<and> \<not> is_child r \<and> position r = p) \<and>
   (case MakeChild p of Inl e \<Rightarrow> e = kPositionTag \<and> bit p 63 | Inr r \<Rightarrow> \<not> bit p 63 \<and> is_child r \<and> child_id r = p)"
  by (cases "untagged p") (simp_all add: MakeRecord_untagged MakeChild_untagged, simp_all add: untagged_def)

section \<open>The store\<close>



text \<open>
  C40. The scans and seeks of an open store (store.cc) call the callback with the items of the map the
  store holds, in key order or the reverse order, until it wants no more, and leave the store as it
  is; a range whose bounds are in the wrong order is refused.
\<close>

theorem store_scans:
  assumes "store_holds m0 im m" "key_ok k" "key_ok u"
  shows "StoreScan fn c (Some im, w) = Some (Inr (visit_items fn c (map_items m)), Some im, w) \<and>
    StoreReverseScan fn c (Some im, w) = Some (Inr (visit_items fn c (rev (map_items m))), Some im, w) \<and>
    StoreScanRange k u fn c (Some im, w) =
      Some (if u < k then Inl (Status kInvalidArgument ''invalid scan range'')
        else Inr (visit_items fn c (filter (\<lambda>it. k \<le> it_key it \<and> it_key it < u) (map_items m))), Some im, w) \<and>
    StoreReverseScanRange k u fn c (Some im, w) =
      Some (if k < u then Inl (Status kInvalidArgument ''invalid reverse scan range'')
        else Inr (visit_items fn c (rev (filter (\<lambda>it. u < it_key it \<and> it_key it \<le> k) (map_items m)))), Some im, w) \<and>
    StoreSeekGE k (Some im, w) = Some (Inr (sought (filter (\<lambda>it. k \<le> it_key it) (map_items m))), Some im, w) \<and>
    StoreSeekLE k (Some im, w) = Some (Inr (sought (rev (filter (\<lambda>it. it_key it \<le> k) (map_items m)))), Some im, w) \<and>
    StoreLen (Some im, w) = Some (Inr (int (card (dom m))), Some im, w)"
  using ImplScan_holds [OF assms(1), of fn c w] ImplReverseScan_holds [OF assms(1), of fn c w] ImplScanRange_holds [OF assms, of fn c w]
    ImplReverseScanRange_holds [OF assms, of fn c w] ImplSeekGE_holds [OF assms(1,2), of w] ImplSeekLE_holds [OF assms(1,2), of w]
    ImplLen_holds [OF assms(1), of w]
  by (simp add: StoreScan_def StoreReverseScan_def StoreScanRange_def StoreReverseScanRange_def StoreSeekGE_def StoreSeekLE_def
    StoreLen_def with_impl_def)

theorem store_scans_witness:
  "\<exists>im. StoreSeekGE [2] (Some im, checkpoint_world) = Some (Inr \<lparr>sk_item = \<lparr>it_key = [3], it_value = [4]\<rparr>, sk_found = True\<rparr>, Some im, checkpoint_world) \<and>
     StoreLen (Some im, checkpoint_world) = Some (Inr 2, Some im, checkpoint_world)"
proof -
  obtain im where im: "store_holds Map.empty im [[1] \<mapsto> [2], [3] \<mapsto> [4]]"
    using two_items by blast
  show ?thesis
    using store_scans [OF im, of "[2]" "[2]" collect "[]" checkpoint_world]
    by (intro exI [of _ im]) (simp add: key_ok_def two_items_list sought_def)
qed

text \<open>
  C2. The log of an open store rebuilds what the store holds: \<^verbatim>\<open>ReplayAll\<close> (store.cc) over its segments,
  on an index of the snapshot, returns and gives an index with the contents of the store, whatever
  the replay policy.
\<close>

theorem log_rebuilds:
  assumes "store_holds m0 im m" "im_records im = Some ss" "index_holds (SegKey ss) y es0" "sg.contents ss es0 = m0"
    "page_ids (ix_nodes y) \<le> 2 ^ 62"
  shows "\<exists>y' es. ReplayAll policy (ss, y, w) = Some (Inr (), ss, y', w) \<and> index_holds (SegKey ss) y' es \<and> sg.contents ss es = m"
  by (rule ReplayAll_rebuilds [OF assms])

theorem log_rebuilds_witness:
  "\<exists>(im :: impl) ss y y' es. im_records im = Some ss \<and> NewWithNodes (SegKey ss) HeapNodeStore = Some (Inr y) \<and>
     ReplayAll kStrict (ss, y, checkpoint_world) = Some (Inr (), ss, y', checkpoint_world) \<and> sg.contents ss es = [[1] \<mapsto> [2, 3]]"
proof -
  obtain s x im where im: "im = new_impl ''store'' Options (one_segment s) x" "store_holds Map.empty im Map.empty" "store_room im 4096 1000"
    using new_store unfolding Let_def by blast
  have "store_room im (sum_list (map command_size [CPut [1] [2, 3]])) (length [CPut [1] [2, 3]])"
    using im(3) by (rule store_room_less) simp_all
  then obtain im' where im': "store_holds Map.empty im' [[1] \<mapsto> [2, 3]]"
    using run_commands_holds [OF im(2), of "[CPut [1] [2, 3]]" checkpoint_world] by (auto simp: key_ok_def)
  then obtain ss where ss: "im_records im' = Some ss"
    by (auto simp: store_holds_def store_parts_def)
  obtain y where y: "NewWithNodes (SegKey ss) HeapNodeStore = Some (Inr y)" "index_holds (SegKey ss) y []"
    using NewWithNodes_empty by blast
  have "sg.contents ss [] = Map.empty"
    using sg.entry_contents(1) [OF y(2)] by auto
  moreover have "page_ids (ix_nodes y) \<le> 2 ^ 62"
    using NewWithNodes_pages [OF y(1)] by simp
  ultimately obtain y' es where "ReplayAll kStrict (ss, y, checkpoint_world) = Some (Inr (), ss, y', checkpoint_world)"
    "sg.contents ss es = [[1] \<mapsto> [2, 3]]"
    using log_rebuilds [OF im' ss y(2)] by blast
  then show ?thesis
    using ss y(1) by blast
qed

text \<open>
  C3. Recovery from any log whose segments have valid headers, however damaged their records are:
  the records of every segment split into readable ones \<open>B i\<close> and, possibly, a first damaged one
  \<open>bad i\<close>. \<^verbatim>\<open>ReplayAll\<close> with the policy \<^verbatim>\<open>kPointInTime\<close> returns without an error; the new index holds
  exactly the effect of the readable entries up to the first damage, in order, and the segments
  that are left hold just these entries. With \<^verbatim>\<open>kStrict\<close> it reports the first damage, if any.
\<close>

theorem recovery_any:
  assumes "seg_valid ss" "index_holds (SegKey ss) x es" "\<forall>p \<in> snd ` set es. IsSnapshotPosition p" "page_ids (ix_nodes x) \<le> 2 ^ 62"
  shows "\<exists>B bad ss' x' es' w'. seg_reads ss B bad \<and> ReplayAll kPointInTime (ss, x, w) = Some (Inr (), ss', x', w') \<and>
    index_holds (SegKey ss') x' es' \<and> seg_holds ss' B \<and>
    sg.contents ss' es' = fold apply_entry (log_entries B (kept bad (sort (segment_nos ss)))) (sg.contents ss es) \<and>
    ReplayAll kStrict (ss, x, w) =
      (case first_bad bad (sort (segment_nos ss)) of None \<Rightarrow> Some (Inr (), ss, x', w) | Some e \<Rightarrow> Some (Inl e, ss, x', w))"
proof -
  obtain B bad where B: "seg_reads ss B bad"
    using seg_valid_reads [OF assms(1)] by blast
  show ?thesis
    using ReplayAll_any [OF B assms(2) _ assms(4)] assms(3) B by blast
qed

theorem recovery_any_witness:
  "\<exists>s x ss' x' w'. InitHeader blank_segment = Some s \<and> NewWithNodes (SegKey (one_segment s)) HeapNodeStore = Some (Inr x) \<and>
     ReplayAll kPointInTime (one_segment s, x, checkpoint_world) = Some (Inr (), ss', x', w')"
proof -
  obtain s where s: "InitHeader blank_segment = Some s" "wal_holds s []" "ws_file_no s = 1"
    using blank_init by blast
  obtain x where x: "NewWithNodes (SegKey (one_segment s)) HeapNodeStore = Some (Inr x)" "index_holds (SegKey (one_segment s)) x []"
    using NewWithNodes_empty by blast
  have "seg_valid (one_segment s)"
    using s(2,3) by (auto simp: seg_valid_def one_segment_def Segment_def wal_valid_def wal_holds_def split: if_splits)
  from recovery_any [OF this x(2), of checkpoint_world] NewWithNodes_pages [OF x(1)] show ?thesis
    using s(1) x(1) by fastforce
qed

section \<open>The log\<close>

text \<open>
  C31. \<^verbatim>\<open>WalSegment::Append\<close> (store.cc) adds a record to a segment that holds \<open>rs\<close>, when the segment is
  not sealed and has room, and every record, old and new, is then read back from its position with
  its checksum verified. Otherwise it reports \<^verbatim>\<open>kWalFull\<close> and changes nothing.
\<close>

theorem wal_append:
  assumes "wal_holds s rs" "entry_ok (opc, key, val)"
  shows "if \<not> ws_sealed s \<and> fits s (opc, key, val)
    then \<exists>s'. WalAppend opc key val s = Some (Inr (rec_pos (ws_file_no s) (ws_used s)), s') \<and> wal_holds s' (rs @ [(opc, key, val)]) \<and>
      (\<forall>(j, e) \<in> set (placed 4096 (rs @ [(opc, key, val)])).
         RecordAt s' (rec_pos (ws_file_no s) (of_nat j)) True = Some (Inr (as_record e (of_nat (j + length (encode_entry e))))))
    else \<exists>m. WalAppend opc key val s = Some (Inl (Status kWalFull m), s)"
proof (cases "\<not> ws_sealed s \<and> fits s (opc, key, val)")
  case True
  then obtain s' where s': "WalAppend opc key val s = Some (Inr (rec_pos (ws_file_no s) (ws_used s)), s')"
    "wal_holds s' (rs @ [(opc, key, val)])" "ws_file_no s' = ws_file_no s"
    using WalAppend_holds [OF assms] by blast
  then show ?thesis
    using True wal_holds_read(3) [OF s'(2)] by auto
qed (use WalAppend_full [OF assms] in auto)

theorem wal_append_witness:
  "\<exists>s s'. InitHeader blank_segment = Some s \<and> WalAppend kWalOpPut [7] [8] s = Some (Inr (rec_pos 1 4096), s') \<and> wal_holds s' [(kWalOpPut, [7], [8])]"
proof -
  obtain s where s: "InitHeader blank_segment = Some s" "wal_holds s []" "ws_size s = 8192" "ws_file_no s = 1" "\<not> ws_sealed s"
    using blank_init by blast
  have "unat (ws_used s) = 4096"
    using s(2) by (auto simp: wal_holds_def)
  moreover from this have "ws_used s = 4096"
    by (simp add: word_unat_eq_iff)
  ultimately show ?thesis
    using wal_append [OF s(2), of kWalOpPut "[7]" "[8]"] s by (auto simp: fits_def encode_entry_length entry_ok_def key_ok_def kWalOpPut_def kWalOpDelete_def)
qed

text \<open>
  C32. A record whose key and value bytes differ from those written in up to four consecutive bytes
  is reported as corrupt (\<^verbatim>\<open>WalSegment::RecordAtOffset\<close> with \<^verbatim>\<open>verify_crc\<close>, store.cc).
\<close>

theorem wal_corruption_detected:
  assumes "wal_mapped s d" "entry_ok (opc, key', val')" "length key' = length key" "length val' = length val"
    "peek d (unat i) (length (encode_entry (opc, key, val))) = Some (take 13 (encode_entry (opc, key, val)) @ key' @ val')"
    "4096 \<le> unat i" "unat i + length (encode_entry (opc, key, val)) \<le> unat (ws_used s)"
    "key @ val = xs @ bs @ ys" "key' @ val' = xs @ bs' @ ys" "length bs = length bs'" "length bs \<le> 4" "bs \<noteq> bs'"
  shows "RecordAtOffset s i True = Some (Inl (CorruptWal ''WAL CRC mismatch''))"
  by (rule RecordAtOffset_burst [OF assms])

theorem wal_corruption_detected_witness:
  "RecordAtOffset damaged_segment 4096 True = Some (Inl (CorruptWal ''WAL CRC mismatch''))"
proof (rule wal_corruption_detected [OF damaged_mapped])
  show "entry_ok (kWalOpPut, [8], [9])"
    by (simp add: entry_ok_def key_ok_def kWalOpPut_def kWalOpDelete_def)
  show "peek damaged_data (unat (4096 :: u64)) (length (encode_entry (kWalOpPut, [7], [9]))) =
      Some (take 13 (encode_entry (kWalOpPut, [7], [9])) @ [8] @ [9])"
    using damaged_peek by (simp add: encode_entry_length)
  show "unat (4096 :: u64) + length (encode_entry (kWalOpPut, [7], [9])) \<le> unat (ws_used damaged_segment)"
    by (simp add: encode_entry_length damaged_segment_def)
  show "[7] @ [9] = [] @ [7] @ [9 :: byte]" "[8] @ [9] = [] @ [8] @ [9 :: byte]" "[7 :: byte] \<noteq> [8]"
    by simp_all
qed simp_all



section \<open>Checkpoints\<close>

text \<open>
  C4. A checkpoint replaces the one before it at once (\<^verbatim>\<open>CheckpointLocked\<close>, \<^verbatim>\<open>WriteSnapshot\<close>, \<^verbatim>\<open>WriteManifest\<close>,
  store.cc): whichever calls of the file system fail or transfer too little, in particular all calls
  from some point on, the files hold the complete old checkpoint or the complete new one, the new one
  if the writer reports success; and the reads of the next opening give that one, or report a failed
  call.
\<close>

theorem checkpoint_atomic:
  assumes "fair w" "checkpoint_at (file_at w) dir g0 its0" "g0 \<noteq> 0" "g \<noteq> 0" "g \<noteq> g0"
    "\<forall>it \<in> set its0 \<union> set its. item_ok it" "length its0 < 2 ^ 30" "length its < 2 ^ 30"
  shows "\<exists>r w' h js. write_checkpoint dir g its w = Some (r, w') \<and> (h, js) \<in> {(g0, its0), (g, its)} \<and> (r = Inr () \<longrightarrow> (h, js) = (g, its)) \<and>
    checkpoint_at (file_at w') dir h js \<and>
    outcome_in (bindM (ReadManifest dir) (\<lambda>m. bindM (ReadSnapshot dir (ms_wal_generation m)) (\<lambda>its. ret (m, its))) w')
      (\<lambda>r _. r = (\<lparr>ms_valid = True, ms_wal_generation = h\<rparr>, js)) (\<lambda>e _. st_code e = kIoError)"
proof -
  let ?F = "file_at w"
  have w: "files ?F (is_dir w) w"
    using assms(1) by (simp add: files_def)
  have items: "\<forall>it \<in> set its0. item_ok it" "\<forall>it \<in> set its. item_ok it"
    using assms(6) by auto
  have read: "outcome_in (bindM (ReadManifest dir) (\<lambda>m. bindM (ReadSnapshot dir (ms_wal_generation m)) (\<lambda>its. ret (m, its))) w')
      (\<lambda>r _. r = (\<lparr>ms_valid = True, ms_wal_generation = h\<rparr>, js)) (\<lambda>e _. st_code e = kIoError)"
    if "files G D w'" "checkpoint_at G dir h js" "(h, js) \<in> {(g0, its0), (g, its)}" for G D w' h js
    by (rule outcome_in_mono [OF tripleD [OF triple_recover_checkpoint [OF that(2)] that(1)]])
      (use that(3) assms(3,4,7,8) items in auto)
  have new: "checkpoint_done ?F dir g its w' \<Longrightarrow> \<exists>G D. files G D w' \<and> checkpoint_at G dir g its" for w'
    by (auto simp: checkpoint_done_def)
  have old: "checkpoint_undone ?F dir g w' \<Longrightarrow> \<exists>G D. files G D w' \<and> checkpoint_at G dir g0 its0" for w'
    using assms(2,5) not_touched(1) [of dir g] not_touched(2) [of g0 g dir]
    by (auto simp: checkpoint_undone_def checkpoint_at_def same_but_def)
  from tripleD [OF triple_write_checkpoint [OF assms(4) items(2), of ?F _ dir] w] show ?thesis
  proof (cases rule: outcome_inE)
    case (val a w')
    then obtain G D where "files G D w'" "checkpoint_at G dir g its"
      using new by blast
    moreover from this have "file_at w' = G"
      by (simp add: files_def)
    ultimately show ?thesis
      using val(1) read [of G D w' g its] by auto
  next
    case (err e w')
    then obtain G D h js where G: "files G D w'" "checkpoint_at G dir h js" "(h, js) \<in> {(g0, its0), (g, its)}"
      using old new by blast
    moreover from this have "file_at w' = G"
      by (simp add: files_def)
    ultimately show ?thesis
      using err(1) read [OF G] by auto
  qed
qed

theorem checkpoint_atomic_witness:
  "\<exists>r w' h js. write_checkpoint ''d'' 2 [\<lparr>it_key = [1], it_value = [2]\<rparr>] checkpoint_world = Some (r, w') \<and>
     (h, js) \<in> {(1, []), (2, [\<lparr>it_key = [1], it_value = [2]\<rparr>])} \<and> checkpoint_at (file_at w') ''d'' h js"
  using checkpoint_atomic [OF checkpoint_world_ok, of 2 "[\<lparr>it_key = [1], it_value = [2]\<rparr>]"]
  by (auto simp: item_ok_def key_ok_def)

text \<open>
  C34. The bytes of a manifest name its generation, and a manifest in which up to four consecutive bytes
  of the first 28 are changed is refused (\<^verbatim>\<open>WriteManifest\<close>, \<^verbatim>\<open>ReadManifest\<close>, store.cc).
\<close>

theorem manifest_checked:
  assumes "g \<noteq> 0" "encode_manifest g = Some b" "take 28 b = xs @ bs @ ys" "length bs' = length bs" "length bs \<le> 4" "bs' \<noteq> bs"
  shows "decode_manifest b = Some (Inr \<lparr>ms_valid = True, ms_wal_generation = g\<rparr>) \<and>
    (\<exists>e. decode_manifest (xs @ bs' @ ys @ drop 28 b) = Some (Inl e))"
proof -
  have b: "b = manifest_bytes g"
    using assms(2) by (simp add: encode_manifest_bytes)
  have "take 28 b = manifest_head g"
    by (simp add: b manifest_bytes_def)
  then have "manifest_head g = xs @ bs @ ys"
    using assms(3) by simp
  then show ?thesis
    using decode_manifest_bytes [OF assms(1)] decode_manifest_burst [OF _ assms(4-6)] b by blast
qed

theorem manifest_checked_witness:
  "\<exists>b e. encode_manifest 5 = Some b \<and> decode_manifest b = Some (Inr \<lparr>ms_valid = True, ms_wal_generation = 5\<rparr>) \<and>
     decode_manifest (0 # tl (take 28 b) @ drop 28 b) = Some (Inl e)"
proof -
  let ?b = "manifest_bytes 5"
  have "take 28 ?b = [] @ [0x4d] @ tl (take 28 ?b)"
    by (simp add: manifest_bytes_def manifest_head_def kManifestMagic_def)
  from manifest_checked [OF _ encode_manifest_bytes this, of "[0]"] show ?thesis
    using encode_manifest_bytes by auto
qed

section \<open>Checksums, names and positions\<close>

text \<open>
  C35. \<^verbatim>\<open>CRC32Update\<close> (store.cc), which works by a table, is the bitwise CRC-32 with the reflected polynomial
  \<open>0xedb88320\<close>, and checksums of parts that are chained are the checksum of the whole.
\<close>

theorem crc_reference:
  "CRC32Update c xs = NOT (fold (\<lambda>p c. ((\<lambda>c. if bit c 0 then drop_bit 1 c XOR 0xedb88320 else drop_bit 1 c) ^^ 8) (c XOR ucast p)) xs (NOT c)) \<and>
   CRC32Update (CRC32Update c xs) ys = CRC32Update c (xs @ ys)"
proof -
  have "crc_step = (\<lambda>c. if bit c 0 then drop_bit 1 c XOR 0xedb88320 else drop_bit 1 c)"
    using crc_step_odd by blast
  moreover have "crc_byte = (\<lambda>p c. (crc_step ^^ 8) (c XOR ucast p))"
    using crc_byte_steps by blast
  ultimately show ?thesis
    by (simp add: CRC32Update_append) (simp add: CRC32Update_def del: funpow.simps)
qed

text \<open>
  C36. The names of segments, snapshots and generations (store.cc) are parsed back to their numbers, so
  different numbers have different names.
\<close>

theorem file_names:
  assumes "i \<noteq> 0"
  shows "ParseWalSegmentName (WalSegmentName i) = Inr i \<and> ParseSnapshotFileName (SnapshotFileName i) = Inr i \<and>
    wal_generation_of (WalGenerationName i) = Some i \<and> (WalSegmentName i = WalSegmentName j) = (i = j)"
  using ParseWalSegmentName_name [OF assms] ParseSnapshotFileName_name [OF assms] wal_generation_of_name [OF assms]
  by (simp add: WalSegmentName_eq FixedWidthID_inj)

theorem file_names_witness: "ParseWalSegmentName (WalSegmentName 12) = Inr 12 \<and> WalSegmentName 12 \<noteq> WalSegmentName 120"
  using file_names [of 12 120] by simp

text \<open>
  C37. \<^verbatim>\<open>MakeRecordPosition\<close> (store.cc) packs the number of a segment and an offset into a position without
  the tag bit of the index, from which both are read back, and which is not the position of a snapshot
  record; it refuses exactly what is out of range.
\<close>

theorem record_positions:
  "case MakeRecordPosition n i of
     Inl e \<Rightarrow> e = Status kCorruptWal ''record position out of range'' \<and> \<not> (n \<noteq> 0 \<and> n < 2 ^ 33 \<and> i < 2 ^ 30)
   | Inr p \<Rightarrow> n \<noteq> 0 \<and> n < 2 ^ 33 \<and> i < 2 ^ 30 \<and> RecordPositionFileNo p = n \<and> RecordPositionOffset p = i \<and> untagged p \<and>
       \<not> IsSnapshotPosition p"
proof (cases "file_no_ok n \<and> i < kRecordOffsetLimit")
  case True
  then have "RecordPositionFileNo (rec_pos n i) = n" "RecordPositionOffset (rec_pos n i) = i" "\<not> bit (rec_pos n i) 63"
    using RecordPosition_rec_pos [of n i] by (simp_all add: file_no_ok_def)
  then show ?thesis
    using True MakeRecordPosition_ok [of n i] not_snapshot [of "rec_pos n i"]
    by (simp add: file_no_ok_def untagged_def kRecordOffsetLimit_eq kRecordFileNoLimit_eq)
next
  case False
  then show ?thesis
    using MakeRecordPosition_err [OF False] by (simp add: file_no_ok_def kRecordOffsetLimit_eq kRecordFileNoLimit_eq)
qed

text \<open>
  C38. \<^verbatim>\<open>WriteAll\<close> and \<^verbatim>\<open>ReadAll\<close> (store.cc) return whenever calls are not interrupted forever, however short the
  transfers are: all bytes are then written behind the file, or read, or an I/O error is reported.
\<close>

theorem transfers_return:
  assumes "on_file F D p fd d (length d) w"
  shows "\<exists>r w'. WriteAll fd data path 0 w = Some (r, w') \<and>
      (case r of Inr _ \<Rightarrow> file_at w' p = Some (d @ data) | Inl e \<Rightarrow> st_code e = kIoError) \<and>
    (on_file F D p fd d i v \<longrightarrow> (\<exists>q v'. ReadAll fd n path [] v = Some (q, v') \<and> file_at v' p = Some d \<and>
      (case q of Inr bs \<Rightarrow> bs = take n (drop i d) \<and> length bs = n | Inl e \<Rightarrow> st_code e = kIoError)))"
proof -
  have at: "on_file F D p fd x j u \<Longrightarrow> file_at u p = Some x" for x j u
    by (simp add: on_file_def files_def)
  have "\<exists>r w'. WriteAll fd data path 0 w = Some (r, w') \<and>
      (case r of Inr _ \<Rightarrow> file_at w' p = Some (d @ data) | Inl e \<Rightarrow> st_code e = kIoError)"
    using WriteAll_app [OF assms, of data path 0] at by (auto elim!: outcome_inE)
  moreover have "\<exists>q v'. ReadAll fd n path [] v = Some (q, v') \<and> file_at v' p = Some d \<and>
      (case q of Inr bs \<Rightarrow> bs = take n (drop i d) \<and> length bs = n | Inl e \<Rightarrow> st_code e = kIoError)"
    if v: "on_file F D p fd d i v"
    using tripleD [OF triple_ReadAll v, of n path] at by (auto elim!: outcome_inE)
  ultimately show ?thesis
    by blast
qed

theorem transfers_return_witness:
  "\<exists>r w'. WriteAll 3 [1, 2, 3] ''f'' 0 file_world = Some (r, w') \<and>
     (case r of Inr _ \<Rightarrow> file_at w' [''f''] = Some [1, 2, 3] | Inl e \<Rightarrow> st_code e = kIoError)"
  using transfers_return [of "file_at file_world" "is_dir file_world" "[''f'']" 3 "[]" file_world "[1, 2, 3]" "''f''",
      unfolded append_Nil list.size] file_world_on by blast

end
